(* ===== verification/Gideon_Prelude.thy ===== *)
theory Gideon_Prelude
  imports Main "HOL-Library.Word"
begin

text \<open>
  The shared vocabulary of the development. Python's \<open>str\<close> is a list of code points
  (\<open>ustr\<close>), its \<open>bytes\<close> a list of 8-bit words (\<open>bytes\<close>). \<open>ulit\<close> and \<open>blit\<close> read an ASCII literal of
  the source as either. A raised exception is \<open>Inl\<close> of the exception's class name, a
  returned value \<open>Inr\<close>. The Unicode database that the interpreter carries (which code points
  are word characters, digits or white space, and their simple case mappings) is the record
  \<open>ucd\<close>; \<open>ascii_ucd\<close> is its restriction to ASCII, used to evaluate examples.
\<close>

section \<open>Text, bytes and raised exceptions\<close>

type_synonym codepoint = nat
type_synonym ustr = "codepoint list"
type_synonym byte = "8 word"
type_synonym bytes = "byte list"
type_synonym exn = string
type_synonym 'a result = "exn + 'a"

definition ulit :: "string \<Rightarrow> ustr" where
  "ulit s = map of_char s"

definition blit :: "string \<Rightarrow> bytes" where
  "blit s = map of_char s"

lemma ulit_Nil [simp]: "ulit [] = []"
  by (simp add: ulit_def)

lemma ulit_Cons: "ulit (c # s) = of_char c # ulit s"
  by (simp add: ulit_def)

lemma ulit_eq_iff [simp]: "ulit s = ulit t \<longleftrightarrow> s = t"
proof -
  have "inj (of_char :: char \<Rightarrow> nat)"
    by (rule inj_of_char)
  then show ?thesis
    by (simp add: ulit_def)
qed

lemma ulit_eq_Nil_iff [simp]: "ulit s = [] \<longleftrightarrow> s = []" "[] = ulit s \<longleftrightarrow> s = []"
  by (auto simp: ulit_def)

lemma length_ulit [simp]: "length (ulit s) = length s"
  by (simp add: ulit_def)

primrec map_result :: "('a \<Rightarrow> 'b) \<Rightarrow> 'a result \<Rightarrow> 'b result" where
  "map_result f (Inl e) = Inl e"
| "map_result f (Inr x) = Inr (f x)"

primrec bind_result :: "'a result \<Rightarrow> ('a \<Rightarrow> 'b result) \<Rightarrow> 'b result" where
  "bind_result (Inl e) f = Inl e"
| "bind_result (Inr x) f = f x"

lemma map_result_id [simp]: "map_result (\<lambda>x. x) r = r"
  by (cases r) auto

lemma bind_result_Inr_iff: "bind_result m f = Inr y \<longleftrightarrow> (\<exists>x. m = Inr x \<and> f x = Inr y)"
  by (cases m) auto

lemma bind_result_Inl_iff:
  "bind_result m f = Inl e \<longleftrightarrow> m = Inl e \<or> (\<exists>x. m = Inr x \<and> f x = Inl e)"
  by (cases m) auto

lemma map_result_Inr_iff: "map_result f m = Inr y \<longleftrightarrow> (\<exists>x. m = Inr x \<and> y = f x)"
  by (cases m) auto

section \<open>The Unicode database\<close>

record ucd =
  uc_word :: "codepoint \<Rightarrow> bool"
  uc_digit :: "codepoint \<Rightarrow> bool"
  uc_digit_value :: "codepoint \<Rightarrow> nat"
  uc_space :: "codepoint \<Rightarrow> bool"
  uc_lower :: "codepoint \<Rightarrow> codepoint"
  uc_upper :: "codepoint \<Rightarrow> codepoint"
  uc_casefold :: "codepoint \<Rightarrow> ustr"

definition ascii_ucd :: ucd where
  "ascii_ucd =
     \<lparr>uc_word = (\<lambda>c. 48 \<le> c \<and> c \<le> 57 \<or> 65 \<le> c \<and> c \<le> 90 \<or> c = 95 \<or> 97 \<le> c \<and> c \<le> 122),
      uc_digit = (\<lambda>c. 48 \<le> c \<and> c \<le> 57),
      uc_digit_value = (\<lambda>c. c - 48),
      uc_space = (\<lambda>c. 9 \<le> c \<and> c \<le> 13 \<or> 28 \<le> c \<and> c \<le> 32),
      uc_lower = (\<lambda>c. if 65 \<le> c \<and> c \<le> 90 then c + 32 else c),
      uc_upper = (\<lambda>c. if 97 \<le> c \<and> c \<le> 122 then c - 32 else c),
      uc_casefold = (\<lambda>c. [if 65 \<le> c \<and> c \<le> 90 then c + 32 else c])\<rparr>"

section \<open>Slices\<close>

text \<open>\<open>substr s a b\<close> is Python's \<open>s[a:b]\<close> for \<open>a\<close> and \<open>b\<close> not negative.\<close>

definition substr :: "'a list \<Rightarrow> nat \<Rightarrow> nat \<Rightarrow> 'a list" where
  "substr s a b = drop a (take b s)"

lemma length_substr [simp]: "length (substr s a b) = min b (length s) - a"
  by (simp add: substr_def)

lemma substr_whole [simp]: "substr s 0 (length s) = s"
  by (simp add: substr_def)

lemma substr_empty [simp]: "substr s a a = []"
  by (simp add: substr_def)

lemma substr_append: "a \<le> b \<Longrightarrow> b \<le> c \<Longrightarrow> substr s a b @ substr s b c = substr s a c"
proof -
  assume ab: "a \<le> b" and bc: "b \<le> c"
  let ?t = "drop a (take c s)"
  have "substr s a b = take (b - a) ?t"
    using ab bc by (simp add: substr_def drop_take)
  moreover have "substr s b c = drop (b - a) ?t"
    using ab by (simp add: substr_def)
  ultimately have "substr s a b @ substr s b c = ?t"
    by (metis append_take_drop_id)
  then show ?thesis
    by (simp add: substr_def)
qed

lemma take_append_substr: "a \<le> b \<Longrightarrow> take a s @ substr s a b = take b s"
  using substr_append [of 0 a b s] by (simp add: substr_def)

lemma substr_append_left: "b \<le> length s \<Longrightarrow> substr (s @ t) a b = substr s a b"
  by (simp add: substr_def)

section \<open>Tilings\<close>

text \<open>Half-open spans that lie end to end from \<open>a\<close> to \<open>b\<close>, none of them empty.\<close>

type_synonym span = "nat \<times> nat"

primrec tiles :: "span list \<Rightarrow> nat \<Rightarrow> nat \<Rightarrow> bool" where
  "tiles [] a b \<longleftrightarrow> a = b"
| "tiles (x # xs) a b \<longleftrightarrow> fst x = a \<and> a < snd x \<and> tiles xs (snd x) b"

lemma tiles_append: "tiles (xs @ ys) a c \<longleftrightarrow> (\<exists>b. tiles xs a b \<and> tiles ys b c)"
  by (induction xs arbitrary: a) auto

lemma tiles_le: "tiles xs a b \<Longrightarrow> a \<le> b"
  by (induction xs arbitrary: a) fastforce+

lemma tiles_within: "tiles xs a b \<Longrightarrow> x \<in> set xs \<Longrightarrow> a \<le> fst x \<and> fst x < snd x \<and> snd x \<le> b"
  by (induction xs arbitrary: a) (use tiles_le in fastforce)+

lemma tiles_cover: "tiles xs a b \<Longrightarrow> a \<le> k \<Longrightarrow> k < b \<Longrightarrow> \<exists>x \<in> set xs. fst x \<le> k \<and> k < snd x"
  by (induction xs arbitrary: a) (auto simp: not_le, force)

lemma tiles_text:
  "tiles xs a b \<Longrightarrow> concat (map (\<lambda>x. substr t (fst x) (snd x)) xs) = substr t a b"
proof (induction xs arbitrary: a)
  case (Cons x xs)
  then have x: "fst x = a" "a < snd x" "tiles xs (snd x) b" by simp_all
  from substr_append [of a "snd x" b t] tiles_le [OF x(3)] x(2) Cons.IH [OF x(3)] x(1)
  show ?case by simp
qed simp

lemma list_all2_mem: "list_all2 R xs ys \<Longrightarrow> y \<in> set ys \<Longrightarrow> \<exists>x \<in> set xs. R x y"
  by (induction rule: list_all2_induct) auto

lemma list_all2_mem1: "list_all2 R xs ys \<Longrightarrow> x \<in> set xs \<Longrightarrow> \<exists>y \<in> set ys. R x y"
  by (induction rule: list_all2_induct) auto

section \<open>Strings and numbers\<close>

fun decimal :: "nat \<Rightarrow> ustr" where  \<comment> \<open>\<open>str(n)\<close>\<close>
  "decimal n = (if n < 10 then [48 + n] else decimal (n div 10) @ [48 + n mod 10])"

lemma decimal_small: "n < 10 \<Longrightarrow> decimal n = [48 + n]"
  by (simp add: decimal.simps)

lemma decimal_big: "\<not> n < 10 \<Longrightarrow> decimal n = decimal (n div 10) @ [48 + n mod 10]"
  by (simp add: decimal.simps [of n])

definition digit_char :: "codepoint \<Rightarrow> bool" where
  "digit_char x = (48 \<le> x \<and> x \<le> 57)"

lemma decimal_digits: "list_all digit_char (decimal n) \<and> decimal n \<noteq> []"
proof (induction n rule: decimal.induct)
  case (1 n)
  have "n mod 10 < 10" by simp
  then have "n mod 10 \<le> 9" by linarith
  with 1 show ?case by (cases "n < 10") (simp_all add: decimal_small decimal_big digit_char_def)
qed

declare decimal.simps [simp del]

definition decimal2 :: "nat \<Rightarrow> ustr" where  \<comment> \<open>\<open>f"{n:02d}"\<close>\<close>
  "decimal2 n = (if n < 10 then 48 # decimal n else decimal n)"

definition py_int :: "ucd \<Rightarrow> ustr \<Rightarrow> nat result" where  \<comment> \<open>\<open>int(s)\<close> for a string without sign or space\<close>
  "py_int U s =
     (if s \<noteq> [] \<and> list_all (uc_digit U) s
      then Inr (foldl (\<lambda>n c. 10 * n + uc_digit_value U c) 0 s) else Inl ''ValueError'')"

definition py_lower :: "ucd \<Rightarrow> ustr \<Rightarrow> ustr" where
  "py_lower U s = map (uc_lower U) s"

definition py_upper :: "ucd \<Rightarrow> ustr \<Rightarrow> ustr" where
  "py_upper U s = map (uc_upper U) s"

definition py_casefold :: "ucd \<Rightarrow> ustr \<Rightarrow> ustr" where
  "py_casefold U s = concat (map (uc_casefold U) s)"

definition starts_with :: "'a list \<Rightarrow> 'a list \<Rightarrow> bool" where
  "starts_with s p = (take (length p) s = p)"

definition ends_with :: "'a list \<Rightarrow> 'a list \<Rightarrow> bool" where
  "ends_with s p = (length p \<le> length s \<and> drop (length s - length p) s = p)"

definition removesuffix :: "'a list \<Rightarrow> 'a list \<Rightarrow> 'a list" where
  "removesuffix s p = (if ends_with s p then take (length s - length p) s else s)"

definition rstrip_char :: "'a \<Rightarrow> 'a list \<Rightarrow> 'a list" where
  "rstrip_char c s = rev (dropWhile (\<lambda>x. x = c) (rev s))"

definition strip_by :: "('a \<Rightarrow> bool) \<Rightarrow> 'a list \<Rightarrow> 'a list" where
  "strip_by p s = rev (dropWhile p (rev (dropWhile p s)))"

fun find_sub :: "'a list \<Rightarrow> 'a list \<Rightarrow> nat option" where  \<comment> \<open>\<open>s.find(p)\<close>, absent as \<open>None\<close>\<close>
  "find_sub p [] = (if p = [] then Some 0 else None)"
| "find_sub p (x # xs) =
     (if starts_with (x # xs) p then Some 0 else map_option Suc (find_sub p xs))"

definition contains_sub :: "'a list \<Rightarrow> 'a list \<Rightarrow> bool" where
  "contains_sub s p = (find_sub p s \<noteq> None)"

text \<open>\<open>s.split(sep)\<close> for a separator of one character, and \<open>sep.join(parts)\<close>.\<close>

fun split_on :: "'a \<Rightarrow> 'a list \<Rightarrow> 'a list list" where
  "split_on c [] = [[]]"
| "split_on c (x # xs) =
     (if x = c then [] # split_on c xs
      else case split_on c xs of [] \<Rightarrow> [[x]] | l # ls \<Rightarrow> (x # l) # ls)"

primrec join_with :: "'a list \<Rightarrow> 'a list list \<Rightarrow> 'a list" where
  "join_with sep [] = []"
| "join_with sep (p # ps) = (case ps of [] \<Rightarrow> p | _ \<Rightarrow> p @ sep @ join_with sep ps)"

lemma split_on_not_Nil [simp]: "split_on c xs \<noteq> []"
  by (induction xs) (auto split: list.splits)

lemma split_on_absent [simp]: "c \<notin> set xs \<Longrightarrow> split_on c xs = [xs]"
  by (induction xs) auto

lemma join_split: "join_with [c] (split_on c xs) = xs"
proof (induction xs)
  case (Cons x xs)
  obtain l ls where "split_on c xs = l # ls" by (cases "split_on c xs") auto
  with Cons show ?case by (cases ls) auto
qed simp

text \<open>\<open>s.split()\<close>: the maximal runs of characters that are not white space.\<close>

fun split_words :: "('a \<Rightarrow> bool) \<Rightarrow> 'a list \<Rightarrow> 'a list list" where
  "split_words p [] = []"
| "split_words p (x # xs) =
     (if p x then split_words p xs
      else (case xs of
              [] \<Rightarrow> [[x]]
            | y # ys \<Rightarrow>
                if p y then [x] # split_words p xs
                else (case split_words p xs of [] \<Rightarrow> [[x]] | w # ws \<Rightarrow> (x # w) # ws)))"

lemma split_words_Nil_iff: "split_words p xs = [] \<longleftrightarrow> list_all p xs"
  by (induction p xs rule: split_words.induct) (auto split: list.splits)

lemma split_words_sep: "p c \<Longrightarrow> split_words p (xs @ c # ys) = split_words p xs @ split_words p ys"
proof (induction p xs rule: split_words.induct)
  case (2 p x xs)
  show ?case
  proof (cases "p x")
    case False
    show ?thesis
    proof (cases xs)
      case Nil
      with False "2.prems" show ?thesis by simp
    next
      case (Cons y zs)
      show ?thesis
      proof (cases "p y")
        case True
        with False Cons 2 show ?thesis by simp
      next
        case y: False
        with Cons have "split_words p xs \<noteq> []" unfolding split_words_Nil_iff by simp
        then obtain w ws where w: "split_words p xs = w # ws" by (cases "split_words p xs") auto
        from "2.IH"(3) [OF False Cons y "2.prems"] w
        have "split_words p (xs @ c # ys) = (w # ws) @ split_words p ys" by simp
        with y False Cons w show ?thesis by (simp del: split_words.simps add: split_words.simps(2) [of p x])
      qed
    qed
  qed (use 2 in simp)
qed simp

lemma join_with_append:
  "ys \<noteq> [] \<Longrightarrow> \<exists>z. join_with sep (xs @ ys) = z @ join_with sep ys"
proof (induction xs)
  case (Cons x xs)
  then obtain z where z: "join_with sep (xs @ ys) = z @ join_with sep ys" by blast
  from Cons.prems have "xs @ ys \<noteq> []" by simp
  then have "join_with sep ((x # xs) @ ys) = x @ sep @ join_with sep (xs @ ys)"
    by (cases "xs @ ys") auto
  with z show ?case by (intro exI [of _ "x @ sep @ z"]) simp
qed simp

lemma find_sub_Some:
  "find_sub p s = Some i \<Longrightarrow> i + length p \<le> length s \<and> take (length p) (drop i s) = p"
proof (induction s arbitrary: i)
  case (Cons x xs)
  show ?case
  proof (cases "starts_with (x # xs) p")
    case True
    then have "length p \<le> length (x # xs)"
      unfolding starts_with_def by (metis length_take min.cobounded1)
    with True Cons.prems show ?thesis by (simp add: starts_with_def)
  next
    case False
    with Cons.prems obtain k where "find_sub p xs = Some k" "i = Suc k" by auto
    with Cons.IH show ?thesis by auto
  qed
qed (simp split: if_splits)

lemma find_sub_least:
  "take (length p) (drop i s) = p \<Longrightarrow> i \<le> length s \<Longrightarrow> \<exists>k \<le> i. find_sub p s = Some k"
proof (induction s arbitrary: i)
  case (Cons x xs)
  show ?case
  proof (cases i)
    case 0
    with Cons.prems have "starts_with (x # xs) p" by (simp add: starts_with_def)
    then show ?thesis by simp
  next
    case (Suc j)
    with Cons.prems Cons.IH [of j] show ?thesis by fastforce
  qed
qed simp

lemma find_sub_append: "find_sub p s = Some i \<Longrightarrow> find_sub p (s @ t) = Some i"
proof (induction s arbitrary: i)
  case Nil
  then have "p = []" by (simp split: if_splits)
  with Nil show ?case by (cases t) (auto simp: starts_with_def)
next
  case (Cons x xs)
  show ?case
  proof (cases "starts_with (x # xs) p")
    case True
    then have "length p \<le> length (x # xs)"
      unfolding starts_with_def by (metis length_take min.cobounded1)
    with True have "starts_with ((x # xs) @ t) p" unfolding starts_with_def by (simp only: take_append) simp
    with True Cons.prems show ?thesis by simp
  next
    case False
    with Cons.prems obtain k where k: "find_sub p xs = Some k" "i = Suc k" by auto
    from find_sub_Some [OF k(1)] have "length p \<le> length xs" by simp
    with False have "\<not> starts_with ((x # xs) @ t) p" unfolding starts_with_def by (simp only: take_append) simp
    with Cons.IH k show ?thesis by simp
  qed
qed

primrec collect_results :: "'a result list \<Rightarrow> 'a list result" where
  "collect_results [] = Inr []"
| "collect_results (r # rs) =
     bind_result r (\<lambda>x. bind_result (collect_results rs) (\<lambda>xs. Inr (x # xs)))"

lemma collect_results_Inr_iff:
  "collect_results rs = Inr xs \<longleftrightarrow> rs = map Inr xs"
proof (induction rs arbitrary: xs)
  case (Cons r rs)
  show ?case
  proof
    assume "collect_results (r # rs) = Inr xs"
    then obtain y ys where "r = Inr y" "collect_results rs = Inr ys" "xs = y # ys"
      by (auto simp: bind_result_Inr_iff)
    moreover from this(2) have "rs = map Inr ys" by (rule Cons.IH [THEN iffD1])
    ultimately show "r # rs = map Inr xs" by simp
  next
    assume "r # rs = map Inr xs"
    then obtain y ys where "xs = y # ys" "r = Inr y" "rs = map Inr ys" by (cases xs) auto
    moreover from this(3) have "collect_results rs = Inr ys" by (rule Cons.IH [THEN iffD2])
    ultimately show "collect_results (r # rs) = Inr xs" by simp
  qed
qed auto

lemma starts_with_append [simp]: "starts_with (p @ s) p"
  by (simp add: starts_with_def)

lemma ends_with_append [simp]: "ends_with (s @ p) p"
  by (simp add: ends_with_def)

lemma ends_withD: "ends_with s p \<Longrightarrow> \<exists>r. s = r @ p"
  by (metis append_take_drop_id ends_with_def)

end
