(* ===== verification/Py_Regex.thy ===== *)
theory Py_Regex
  imports Gideon_Prelude
begin

text \<open>
  Python's \<open>re\<close> on \<open>str\<close> patterns, for the constructs the program's patterns use: character
  classes, sequence, ordered alternation, greedy and lazy bounded and unbounded repetition, look-ahead,
  fixed-width look-behind, \<open>\b\<close>, \<open>^\<close>, \<open>$\<close>, \<open>\Z\<close>, the multi-line \<open>^\<close> and \<open>$\<close>, \<open>(?i:...)\<close> and groups.
  \<open>rmatch r\<close> lists the ends a backtracking search reaches from a start, in the order it tries
  them, each with the groups captured on the way, so the first one is the match \<open>re\<close> returns.
  \<open>max_width\<close> bounds the length of every match of a pattern, which the guardrail's window
  depends on; \<open>rmatch_width\<close> is that bound's proof.
\<close>

section \<open>Patterns\<close>

datatype citem = CChar codepoint | CRange codepoint codepoint | CDigit | CWord | CSpace | CNotSpace

datatype regex =
    Eps
  | Cls bool "citem list"  \<comment> \<open>the flag negates the class\<close>
  | Seq regex regex
  | Alt regex regex
  | Rep bool nat nat regex  \<comment> \<open>greedy flag, least and greatest number of repetitions\<close>
  | Many nat regex  \<comment> \<open>greedy, at least that many repetitions\<close>
  | Lazy nat regex  \<comment> \<open>lazy, at least that many repetitions\<close>
  | Look bool regex  \<comment> \<open>look-ahead, positive when the flag is set\<close>
  | Behind bool nat regex  \<comment> \<open>look-behind of the given width\<close>
  | WordB
  | TextStart
  | TextEnd  \<comment> \<open>\<open>\Z\<close>\<close>
  | LineEnd  \<comment> \<open>\<open>$\<close>\<close>
  | LineStart  \<comment> \<open>\<open>^\<close> under \<open>re.MULTILINE\<close>\<close>
  | LineStop  \<comment> \<open>\<open>$\<close> under \<open>re.MULTILINE\<close>\<close>
  | CaseI regex  \<comment> \<open>\<open>(?i:...)\<close>\<close>
  | Group string regex

type_synonym caps = "(string \<times> nat \<times> nat) list"

record match =
  m_start :: nat
  m_end :: nat
  m_caps :: caps

section \<open>Matching\<close>

fun same_char :: "ucd \<Rightarrow> bool \<Rightarrow> codepoint \<Rightarrow> codepoint \<Rightarrow> bool" where
  "same_char U ic c x = (x = c \<or> ic \<and> (uc_lower U x = uc_lower U c \<or> uc_upper U x = uc_upper U c))"

fun in_range :: "codepoint \<Rightarrow> codepoint \<Rightarrow> codepoint \<Rightarrow> bool" where
  "in_range a b x = (a \<le> x \<and> x \<le> b)"

primrec item_match :: "ucd \<Rightarrow> bool \<Rightarrow> codepoint \<Rightarrow> citem \<Rightarrow> bool" where
  "item_match U ic x (CChar c) = same_char U ic c x"
| "item_match U ic x (CRange a b) =
     (in_range a b x \<or> ic \<and> (in_range a b (uc_lower U x) \<or> in_range a b (uc_upper U x)))"
| "item_match U ic x CDigit = uc_digit U x"
| "item_match U ic x CWord = uc_word U x"
| "item_match U ic x CSpace = uc_space U x"
| "item_match U ic x CNotSpace = (\<not> uc_space U x)"

definition class_match :: "ucd \<Rightarrow> bool \<Rightarrow> bool \<Rightarrow> citem list \<Rightarrow> codepoint \<Rightarrow> bool" where
  "class_match U ic neg items x = (neg \<noteq> list_ex (item_match U ic x) items)"

definition word_at :: "ucd \<Rightarrow> ustr \<Rightarrow> nat \<Rightarrow> bool" where
  "word_at U s i = (i < length s \<and> uc_word U (s ! i))"

definition at_word_boundary :: "ucd \<Rightarrow> ustr \<Rightarrow> nat \<Rightarrow> bool" where
  "at_word_boundary U s i = ((0 < i \<and> word_at U s (i - 1)) \<noteq> word_at U s i)"

primrec repeats ::
    "(nat \<Rightarrow> caps \<Rightarrow> (nat \<times> caps) list) \<Rightarrow> bool \<Rightarrow> nat \<Rightarrow> nat \<Rightarrow> caps \<Rightarrow> nat \<Rightarrow> (nat \<times> caps) list"
  where
  "repeats f greedy lo i c 0 = (if lo = 0 then [(i, c)] else [])"
| "repeats f greedy lo i c (Suc hi) =
     (let more = concat (map (\<lambda>(j, d). repeats f greedy (lo - 1) j d hi) (f i c))
      in if 0 < lo then more else if greedy then more @ [(i, c)] else (i, c) # more)"

primrec rmatch :: "regex \<Rightarrow> ucd \<Rightarrow> bool \<Rightarrow> ustr \<Rightarrow> nat \<Rightarrow> caps \<Rightarrow> (nat \<times> caps) list" where
  "rmatch Eps U ic s i c = [(i, c)]"
| "rmatch (Cls neg items) U ic s i c =
     (if i < length s \<and> class_match U ic neg items (s ! i) then [(Suc i, c)] else [])"
| "rmatch (Seq r q) U ic s i c =
     concat (map (\<lambda>(j, d). rmatch q U ic s j d) (rmatch r U ic s i c))"
| "rmatch (Alt r q) U ic s i c = rmatch r U ic s i c @ rmatch q U ic s i c"
| "rmatch (Rep greedy lo hi r) U ic s i c = repeats (rmatch r U ic s) greedy lo i c hi"
| "rmatch (Many lo r) U ic s i c =
     repeats (rmatch r U ic s) True lo i c (lo + (length s - i))"
| "rmatch (Lazy lo r) U ic s i c =
     repeats (rmatch r U ic s) False lo i c (lo + (length s - i))"
| "rmatch (Look positive r) U ic s i c =
     (case rmatch r U ic s i c of
        [] \<Rightarrow> if positive then [] else [(i, c)]
      | (j, d) # _ \<Rightarrow> if positive then [(i, d)] else [])"
| "rmatch (Behind positive w r) U ic s i c =
     (if positive = (w \<le> i \<and> list_ex (\<lambda>(j, d). j = i) (rmatch r U ic s (i - w) c))
      then [(i, c)] else [])"
| "rmatch WordB U ic s i c = (if at_word_boundary U s i then [(i, c)] else [])"
| "rmatch TextStart U ic s i c = (if i = 0 then [(i, c)] else [])"
| "rmatch TextEnd U ic s i c = (if i = length s then [(i, c)] else [])"
| "rmatch LineEnd U ic s i c =
     (if i = length s \<or> Suc i = length s \<and> s ! i = 10 then [(i, c)] else [])"
| "rmatch LineStart U ic s i c = (if i = 0 \<or> i \<le> length s \<and> s ! (i - 1) = 10 then [(i, c)] else [])"
| "rmatch LineStop U ic s i c = (if i = length s \<or> i < length s \<and> s ! i = 10 then [(i, c)] else [])"
| "rmatch (CaseI r) U ic s i c = rmatch r U True s i c"
| "rmatch (Group name r) U ic s i c =
     map (\<lambda>(j, d). (j, (name, i, j) # d)) (rmatch r U ic s i c)"

text \<open>\<open>scan\<close> tries each start in turn; \<open>p\<close> keeps the match's end (an empty one may be refused).\<close>

primrec scan :: "ucd \<Rightarrow> bool \<Rightarrow> regex \<Rightarrow> ustr \<Rightarrow> bool \<Rightarrow> nat \<Rightarrow> nat \<Rightarrow> match option" where
  "scan U ic r s advance i 0 =
     (case filter (\<lambda>(j, d). \<not> advance \<or> j \<noteq> i) (rmatch r U ic s i []) of
        [] \<Rightarrow> None
      | (j, d) # _ \<Rightarrow> Some \<lparr>m_start = i, m_end = j, m_caps = d\<rparr>)"
| "scan U ic r s advance i (Suc n) =
     (case filter (\<lambda>(j, d). \<not> advance \<or> j \<noteq> i) (rmatch r U ic s i []) of
        [] \<Rightarrow> scan U ic r s False (Suc i) n
      | (j, d) # _ \<Rightarrow> Some \<lparr>m_start = i, m_end = j, m_caps = d\<rparr>)"

definition search_from :: "ucd \<Rightarrow> bool \<Rightarrow> regex \<Rightarrow> ustr \<Rightarrow> bool \<Rightarrow> nat \<Rightarrow> match option" where
  "search_from U ic r s advance i =
     (if i \<le> length s then scan U ic r s advance i (length s - i) else None)"

definition re_search :: "ucd \<Rightarrow> bool \<Rightarrow> regex \<Rightarrow> ustr \<Rightarrow> match option" where
  "re_search U ic r s = search_from U ic r s False 0"

text \<open>\<open>r.match(s, i)\<close> for an \<open>i\<close> within the string.\<close>

definition re_match_at :: "ucd \<Rightarrow> bool \<Rightarrow> regex \<Rightarrow> ustr \<Rightarrow> nat \<Rightarrow> match option" where
  "re_match_at U ic r s i =
     (case rmatch r U ic s i [] of
        [] \<Rightarrow> None
      | (j, d) # _ \<Rightarrow> Some \<lparr>m_start = i, m_end = j, m_caps = d\<rparr>)"

definition re_match :: "ucd \<Rightarrow> bool \<Rightarrow> regex \<Rightarrow> ustr \<Rightarrow> match option" where
  "re_match U ic r s =
     (case rmatch r U ic s 0 [] of
        [] \<Rightarrow> None
      | (j, d) # _ \<Rightarrow> Some \<lparr>m_start = 0, m_end = j, m_caps = d\<rparr>)"

definition re_fullmatch :: "ucd \<Rightarrow> bool \<Rightarrow> regex \<Rightarrow> ustr \<Rightarrow> match option" where
  "re_fullmatch U ic r s =
     (case filter (\<lambda>(j, d). j = length s) (rmatch r U ic s 0 []) of
        [] \<Rightarrow> None
      | (j, d) # _ \<Rightarrow> Some \<lparr>m_start = 0, m_end = j, m_caps = d\<rparr>)"

section \<open>Bounds on a match\<close>

fun opt_add :: "nat option \<Rightarrow> nat option \<Rightarrow> nat option" where
  "opt_add (Some a) (Some b) = Some (a + b)"
| "opt_add _ _ = None"

fun opt_max :: "nat option \<Rightarrow> nat option \<Rightarrow> nat option" where
  "opt_max (Some a) (Some b) = Some (max a b)"
| "opt_max _ _ = None"

primrec max_width :: "regex \<Rightarrow> nat option" where
  "max_width Eps = Some 0"
| "max_width (Cls neg items) = Some 1"
| "max_width (Seq r q) = opt_add (max_width r) (max_width q)"
| "max_width (Alt r q) = opt_max (max_width r) (max_width q)"
| "max_width (Rep greedy lo hi r) = map_option ((*) hi) (max_width r)"
| "max_width (Many lo r) = (if max_width r = Some 0 then Some 0 else None)"
| "max_width (Lazy lo r) = (if max_width r = Some 0 then Some 0 else None)"
| "max_width (Look positive r) = Some 0"
| "max_width (Behind positive w r) = Some 0"
| "max_width WordB = Some 0"
| "max_width TextStart = Some 0"
| "max_width TextEnd = Some 0"
| "max_width LineEnd = Some 0"
| "max_width LineStart = Some 0"
| "max_width LineStop = Some 0"
| "max_width (CaseI r) = max_width r"
| "max_width (Group name r) = max_width r"

definition width_ok :: "nat option \<Rightarrow> nat \<Rightarrow> nat \<Rightarrow> bool" where
  "width_ok w i j = (case w of None \<Rightarrow> True | Some n \<Rightarrow> j \<le> i + n)"

lemma width_ok_None [simp]: "width_ok None i j"
  by (simp add: width_ok_def)

lemma width_ok_Some [simp]: "width_ok (Some n) i j \<longleftrightarrow> j \<le> i + n"
  by (simp add: width_ok_def)

lemma width_ok_add: "width_ok v i j \<Longrightarrow> width_ok w j k \<Longrightarrow> width_ok (opt_add v w) i k"
  by (cases v; cases w) (auto simp: width_ok_def)

lemma width_ok_max: "width_ok v i j \<or> width_ok w i j \<Longrightarrow> width_ok (opt_max v w) i j"
  by (cases v; cases w) (auto simp: width_ok_def)

lemma repeats_forward:
  assumes f: "\<And>i c j d. i \<le> n \<Longrightarrow> (j, d) \<in> set (f i c) \<Longrightarrow> i \<le> j \<and> j \<le> n"
  shows "i \<le> n \<Longrightarrow> (j, d) \<in> set (repeats f g lo i c hi) \<Longrightarrow> i \<le> j \<and> j \<le> n"
proof (induction hi arbitrary: lo i c)
  case 0
  then show ?case by (auto split: if_splits)
next
  case (Suc hi)
  show ?case
  proof (cases "j = i")
    case True
    with Suc.prems show ?thesis by simp
  next
    case False
    with Suc.prems obtain k e where k: "(k, e) \<in> set (f i c)"
      and rest: "(j, d) \<in> set (repeats f g (lo - 1) k e hi)"
      by (auto simp: Let_def split: if_splits)
    from f [OF Suc.prems(1) k] have "i \<le> k" "k \<le> n" by auto
    with Suc.IH [OF _ rest] show ?thesis by auto
  qed
qed

lemma repeats_width:
  assumes f: "\<And>i c j d. (j, d) \<in> set (f i c) \<Longrightarrow> j \<le> i + w"
  shows "(j, d) \<in> set (repeats f g lo i c hi) \<Longrightarrow> j \<le> i + hi * w"
proof (induction hi arbitrary: lo i c)
  case 0
  then show ?case by (auto split: if_splits)
next
  case (Suc hi)
  show ?case
  proof (cases "j = i")
    case True
    then show ?thesis by simp
  next
    case False
    with Suc.prems obtain k e where k: "(k, e) \<in> set (f i c)"
      and rest: "(j, d) \<in> set (repeats f g (lo - 1) k e hi)"
      by (auto simp: Let_def split: if_splits)
    from f [OF k] Suc.IH [OF rest] show ?thesis by simp
  qed
qed

lemma rmatch_forward:
  "i \<le> length s \<Longrightarrow> (j, d) \<in> set (rmatch r U ic s i c) \<Longrightarrow> i \<le> j \<and> j \<le> length s"
proof (induction r arbitrary: ic i j c d)
  case (Seq r q)
  from Seq.prems obtain k e where k: "(k, e) \<in> set (rmatch r U ic s i c)"
    and j: "(j, d) \<in> set (rmatch q U ic s k e)"
    by auto
  from Seq.IH(1) [OF Seq.prems(1) k] have "i \<le> k" "k \<le> length s" by auto
  with Seq.IH(2) [OF _ j] show ?case by auto
next
  case (Rep g lo hi r)
  have "i \<le> j \<and> j \<le> length s" if "i \<le> length s"
    "(j, d) \<in> set (repeats (rmatch r U ic s) g lo i c hi)"
    using repeats_forward [where f = "rmatch r U ic s" and n = "length s", OF Rep.IH that] .
  with Rep.prems show ?case by simp
next
  case (Many lo r)
  have "i \<le> j \<and> j \<le> length s" if "i \<le> length s"
    "(j, d) \<in> set (repeats (rmatch r U ic s) True lo i c (lo + (length s - i)))"
    using repeats_forward [where f = "rmatch r U ic s" and n = "length s", OF Many.IH that] .
  with Many.prems show ?case by simp
next
  case (Lazy lo r)
  have "i \<le> j \<and> j \<le> length s" if "i \<le> length s"
    "(j, d) \<in> set (repeats (rmatch r U ic s) False lo i c (lo + (length s - i)))"
    using repeats_forward [where f = "rmatch r U ic s" and n = "length s", OF Lazy.IH that] .
  with Lazy.prems show ?case by simp
next
  case (CaseI r)
  from CaseI.IH [OF CaseI.prems(1)] CaseI.prems(2) show ?case by simp
next
  case (Alt r q)
  from Alt.prems(2)
  consider "(j, d) \<in> set (rmatch r U ic s i c)" | "(j, d) \<in> set (rmatch q U ic s i c)"
    by auto
  then show ?case
    by cases (blast dest: Alt.IH(1) [OF Alt.prems(1)] Alt.IH(2) [OF Alt.prems(1)])+
next
  case (Look p r)
  from Look.prems show ?case by (simp split: list.splits if_splits prod.splits)
next
  case (Behind p w r)
  from Behind.prems show ?case by (simp split: if_splits)
next
  case (Group name r)
  from Group.prems obtain d' where "(j, d') \<in> set (rmatch r U ic s i c)" by auto
  from Group.IH [OF Group.prems(1) this] show ?case .
qed (simp_all split: if_splits)

theorem rmatch_width: "(j, d) \<in> set (rmatch r U ic s i c) \<Longrightarrow> width_ok (max_width r) i j"
proof (induction r arbitrary: ic i j c d)
  case (Seq r q)
  from Seq.prems obtain k e where k: "(k, e) \<in> set (rmatch r U ic s i c)"
    and j: "(j, d) \<in> set (rmatch q U ic s k e)"
    by auto
  with Seq.IH(1) [OF k] Seq.IH(2) [OF j] show ?case by (simp add: width_ok_add)
next
  case (Alt r q)
  then show ?case by (auto intro: width_ok_max)
next
  case (Rep g lo hi r)
  show ?case
  proof (cases "max_width r")
    case (Some w)
    with Rep.IH have "\<And>i c j d. (j, d) \<in> set (rmatch r U ic s i c) \<Longrightarrow> j \<le> i + w"
      by (metis width_ok_Some)
    from repeats_width [of "rmatch r U ic s", OF this] Rep.prems Some show ?thesis by simp
  qed simp
next
  case (Many lo r)
  show ?case
  proof (cases "max_width r = Some 0")
    case True
    with Many.IH have "\<And>i c j d. (j, d) \<in> set (rmatch r U ic s i c) \<Longrightarrow> j \<le> i + 0"
      by (metis width_ok_Some)
    from repeats_width [of "rmatch r U ic s", OF this] Many.prems True show ?thesis
      by fastforce
  qed simp
next
  case (Lazy lo r)
  show ?case
  proof (cases "max_width r = Some 0")
    case True
    with Lazy.IH have "\<And>i c j d. (j, d) \<in> set (rmatch r U ic s i c) \<Longrightarrow> j \<le> i + 0"
      by (metis width_ok_Some)
    from repeats_width [of "rmatch r U ic s", OF this] Lazy.prems True show ?thesis
      by fastforce
  qed simp
next
  case (Look p r)
  then show ?case by (simp split: list.splits if_splits prod.splits)
next
  case (Group name r)
  then obtain d' where "(j, d') \<in> set (rmatch r U ic s i c)" by auto
  from Group.IH [OF this] show ?case by simp
qed (simp_all split: if_splits)

section \<open>Searching and iterating\<close>

definition is_match :: "ucd \<Rightarrow> bool \<Rightarrow> regex \<Rightarrow> ustr \<Rightarrow> match \<Rightarrow> bool" where
  "is_match U ic r s m =
     ((m_end m, m_caps m) \<in> set (rmatch r U ic s (m_start m) []) \<and>
      m_start m \<le> m_end m \<and> m_end m \<le> length s)"

lemma is_match_width:
  "is_match U ic r s m \<Longrightarrow> max_width r = Some w \<Longrightarrow> m_end m \<le> m_start m + w"
  using rmatch_width [of "m_end m" "m_caps m" r U ic s "m_start m" "[]"]
  by (simp add: is_match_def)

lemma filter_head_in: "filter P xs = x # ys \<Longrightarrow> x \<in> set xs \<and> P x"
proof -
  assume "filter P xs = x # ys"
  then have "x \<in> set (filter P xs)" by simp
  then show ?thesis by simp
qed

lemma scan_Some:
  "scan U ic r s adv i n = Some m \<Longrightarrow> i + n = length s \<Longrightarrow>
     is_match U ic r s m \<and> i \<le> m_start m \<and> (adv \<longrightarrow> i < m_end m)"
proof (induction n arbitrary: adv i)
  case 0
  then obtain j d where "(j, d) \<in> set (rmatch r U ic s i [])" "adv \<longrightarrow> j \<noteq> i"
    and m: "m = \<lparr>m_start = i, m_end = j, m_caps = d\<rparr>"
    by (auto split: list.splits dest!: filter_head_in)
  moreover from this have "i \<le> j \<and> j \<le> length s"
    using rmatch_forward [of i s j d] "0.prems"(2) by simp
  ultimately show ?case by (auto simp: is_match_def)
next
  case (Suc n)
  show ?case
  proof (cases "filter (\<lambda>(j, d). \<not> adv \<or> j \<noteq> i) (rmatch r U ic s i [])")
    case Nil
    with Suc.prems have "scan U ic r s False (Suc i) n = Some m" by simp
    from Suc.IH [OF this] Suc.prems(2) show ?thesis
      by (auto simp: is_match_def)
  next
    case (Cons p ps)
    then obtain j d where "(j, d) \<in> set (rmatch r U ic s i [])" "adv \<longrightarrow> j \<noteq> i"
      and m: "m = \<lparr>m_start = i, m_end = j, m_caps = d\<rparr>"
      using Suc.prems(1) by (cases p) (auto dest!: filter_head_in)
    moreover from this have "i \<le> j \<and> j \<le> length s"
      using rmatch_forward [of i s j d] Suc.prems(2) by simp
    ultimately show ?thesis by (auto simp: is_match_def)
  qed
qed

lemma search_from_Some:
  "search_from U ic r s adv i = Some m \<Longrightarrow>
     is_match U ic r s m \<and> i \<le> m_start m \<and> (adv \<longrightarrow> i < m_end m)"
  by (auto simp: search_from_def split: if_splits dest!: scan_Some)

text \<open>
  \<open>finditer\<close> restarts where the last match ended; after an empty match it refuses another empty
  one there, so each step either moves on or turns the flag on.
\<close>

function finditer :: "ucd \<Rightarrow> bool \<Rightarrow> regex \<Rightarrow> ustr \<Rightarrow> bool \<Rightarrow> nat \<Rightarrow> match list" where
  "finditer U ic r s adv i =
     (case search_from U ic r s adv i of
        None \<Rightarrow> []
      | Some m \<Rightarrow> m # finditer U ic r s (m_end m = m_start m) (m_end m))"
  by pat_completeness auto
termination
proof (relation "measure (\<lambda>(U, ic, r, s, adv, i). 2 * (length s - i) + (if adv then 0 else 1))",
    goal_cases)
  case (2 U ic r s adv i m)
  from search_from_Some [OF 2]
  have "is_match U ic r s m" "i \<le> m_start m" "adv \<longrightarrow> i < m_end m" by auto
  then show ?case by (auto simp: is_match_def)
qed simp

declare finditer.simps [simp del]

lemma finditer_in:
  "m \<in> set (finditer U ic r s adv i) \<Longrightarrow> is_match U ic r s m \<and> i \<le> m_start m"
proof (induction U ic r s adv i rule: finditer.induct)
  case (1 U ic r s adv i)
  show ?case
  proof (cases "search_from U ic r s adv i")
    case None
    with "1.prems" show ?thesis by (simp add: finditer.simps)
  next
    case (Some k)
    from "1.prems" have "m \<in> set (k # finditer U ic r s (m_end k = m_start k) (m_end k))"
      by (simp add: finditer.simps [of U ic r s adv i] Some)
    then consider "m = k" | "m \<in> set (finditer U ic r s (m_end k = m_start k) (m_end k))"
      by auto
    then show ?thesis
    proof cases
      case 1
      then show ?thesis using search_from_Some [OF Some] by simp
    next
      case 2
      from "1.IH" [OF Some this] search_from_Some [OF Some] show ?thesis
        by (auto simp: is_match_def)
    qed
  qed
qed

lemma finditer_ordered:
  "sorted_wrt (\<lambda>m m'. m_end m \<le> m_start m') (finditer U ic r s adv i)"
proof (induction U ic r s adv i rule: finditer.induct)
  case (1 U ic r s adv i)
  show ?case
  proof (cases "search_from U ic r s adv i")
    case None
    then show ?thesis by (simp add: finditer.simps)
  next
    case (Some k)
    have "\<forall>m' \<in> set (finditer U ic r s (m_end k = m_start k) (m_end k)). m_end k \<le> m_start m'"
      using finditer_in by blast
    with "1.IH" [OF Some] show ?thesis
      by (simp add: finditer.simps [of U ic r s adv i] Some)
  qed
qed

definition re_finditer :: "ucd \<Rightarrow> bool \<Rightarrow> regex \<Rightarrow> ustr \<Rightarrow> match list" where
  "re_finditer U ic r s = finditer U ic r s False 0"

text \<open>\<open>pattern.finditer(s, a, b)\<close>: matches start at \<open>a\<close> or later and see no character from \<open>b\<close> on.\<close>

definition re_finditer_in :: "ucd \<Rightarrow> bool \<Rightarrow> regex \<Rightarrow> ustr \<Rightarrow> nat \<Rightarrow> nat \<Rightarrow> match list" where
  "re_finditer_in U ic r s a b = finditer U ic r (take b s) False a"

text \<open>\<open>r.sub(repl, s)\<close> for a replacement without back-references.\<close>

primrec sub_from :: "ustr \<Rightarrow> ustr \<Rightarrow> nat \<Rightarrow> match list \<Rightarrow> ustr" where
  "sub_from repl s i [] = drop i s"
| "sub_from repl s i (m # ms) = substr s i (m_start m) @ repl @ sub_from repl s (m_end m) ms"

definition re_sub :: "ucd \<Rightarrow> bool \<Rightarrow> regex \<Rightarrow> ustr \<Rightarrow> ustr \<Rightarrow> ustr" where
  "re_sub U ic r repl s = sub_from repl s 0 (re_finditer U ic r s)"

definition span :: "match \<Rightarrow> string \<Rightarrow> (nat \<times> nat) option" where
  "span m name = map_of (m_caps m) name"

definition group0 :: "ustr \<Rightarrow> match \<Rightarrow> ustr" where
  "group0 s m = substr s (m_start m) (m_end m)"

definition group_text :: "ustr \<Rightarrow> match \<Rightarrow> string \<Rightarrow> ustr" where
  "group_text s m name = (case span m name of Some (a, b) \<Rightarrow> substr s a b | None \<Rightarrow> [])"

lemmas re_finditer_inD =
  finditer_in [where adv = False and i = 0, folded re_finditer_def]

section \<open>Building patterns\<close>

definition rx_chars :: "ustr \<Rightarrow> regex" where
  "rx_chars s = foldr (\<lambda>c r. Seq (Cls False [CChar c]) r) s Eps"

definition lit :: "string \<Rightarrow> regex" where
  "lit s = rx_chars (ulit s)"

definition seqs :: "regex list \<Rightarrow> regex" where
  "seqs rs = foldr Seq rs Eps"

primrec alts :: "regex list \<Rightarrow> regex" where
  "alts [] = Cls False []"
| "alts (r # rs) = (case rs of [] \<Rightarrow> r | _ \<Rightarrow> Alt r (alts rs))"

definition optional :: "regex \<Rightarrow> regex" where
  "optional r = Rep True 0 1 r"

definition any_upto :: "nat \<Rightarrow> regex" where  \<comment> \<open>\<open>[\s\S]{0,n}\<close>\<close>
  "any_upto n = Rep True 0 n (Cls False [CSpace, CNotSpace])"

definition digits :: "nat \<Rightarrow> nat \<Rightarrow> regex" where  \<comment> \<open>\<open>\d{a,b}\<close>\<close>
  "digits a b = Rep True a b (Cls False [CDigit])"

definition spaces :: "nat \<Rightarrow> nat \<Rightarrow> regex" where  \<comment> \<open>\<open>\s{a,b}\<close>\<close>
  "spaces a b = Rep True a b (Cls False [CSpace])"

definition chars :: "codepoint list \<Rightarrow> regex" where  \<comment> \<open>\<open>[...]\<close> of single characters\<close>
  "chars cs = Cls False (map CChar cs)"

definition not_after :: "citem list \<Rightarrow> regex" where  \<comment> \<open>\<open>(?<![...])\<close>\<close>
  "not_after items = Behind False 1 (Cls False items)"

definition not_before :: "citem list \<Rightarrow> regex" where  \<comment> \<open>\<open>(?![...])\<close>\<close>
  "not_before items = Look False (Cls False items)"

lemma max_width_rx_chars [simp]: "max_width (rx_chars s) = Some (length s)"
  by (induction s) (auto simp: rx_chars_def)

lemma max_width_lit [simp]: "max_width (lit s) = Some (length s)"
  by (simp add: lit_def)

lemma max_width_seqs_Nil [simp]: "max_width (seqs []) = Some 0"
  by (simp add: seqs_def)

lemma max_width_seqs_Cons [simp]: "max_width (seqs (r # rs)) = opt_add (max_width r) (max_width (seqs rs))"
  by (simp add: seqs_def)

lemma max_width_builders [simp]:
  "max_width (optional r) = max_width r"
  "max_width (any_upto n) = Some n"
  "max_width (digits a b) = Some b"
  "max_width (spaces a b) = Some b"
  "max_width (chars cs) = Some 1"
  "max_width (not_after items) = Some 0"
  "max_width (not_before items) = Some 0"
  by (simp_all add: optional_def any_upto_def digits_def spaces_def chars_def not_after_def
      not_before_def option.map_ident option.map_id0 fun_eq_iff split: option.splits)
    (cases "max_width r"; simp)

section \<open>Finding matches by rule\<close>

text \<open>\<open>reads r U ic s i j c d\<close>: from \<open>i\<close> with groups \<open>c\<close> the pattern can end at \<open>j\<close> with groups \<open>d\<close>. A
  match is established by naming the way through the pattern, without evaluating the search.\<close>

definition reads ::
    "regex \<Rightarrow> ucd \<Rightarrow> bool \<Rightarrow> ustr \<Rightarrow> nat \<Rightarrow> nat \<Rightarrow> caps \<Rightarrow> caps \<Rightarrow> bool" where
  "reads r U ic s i j c d \<longleftrightarrow> (j, d) \<in> set (rmatch r U ic s i c)"

lemma reads_Eps [simp]: "reads Eps U ic s i j c d \<longleftrightarrow> j = i \<and> d = c"
  by (simp add: reads_def)

lemma reads_Cls [simp]:
  "reads (Cls neg items) U ic s i j c d \<longleftrightarrow>
     i < length s \<and> class_match U ic neg items (s ! i) \<and> j = Suc i \<and> d = c"
  by (auto simp: reads_def)

lemma reads_Seq:
  "reads (Seq r q) U ic s i j c d \<longleftrightarrow> (\<exists>k e. reads r U ic s i k c e \<and> reads q U ic s k j e d)"
  by (auto simp: reads_def)

lemma reads_Alt:
  "reads (Alt r q) U ic s i j c d \<longleftrightarrow> reads r U ic s i j c d \<or> reads q U ic s i j c d"
  by (auto simp: reads_def)

lemma reads_forward: "reads r U ic s i j c d \<Longrightarrow> i \<le> length s \<Longrightarrow> i \<le> j \<and> j \<le> length s"
  unfolding reads_def by (rule rmatch_forward)

lemma filter_not_Nil: "filter P xs \<noteq> [] \<longleftrightarrow> (\<exists>x \<in> set xs. P x)"
  by (induction xs) auto

lemma fullmatch_iff_reads:
  "re_fullmatch U ic r s \<noteq> None \<longleftrightarrow> (\<exists>d. reads r U ic s 0 (length s) [] d)"
proof -
  have head: "(case xs of [] \<Rightarrow> None | (j, d) # _ \<Rightarrow> Some (f j d)) \<noteq> None \<longleftrightarrow> xs \<noteq> []"
    for xs :: "(nat \<times> caps) list" and f :: "nat \<Rightarrow> caps \<Rightarrow> match"
    by (cases xs) auto
  have "re_fullmatch U ic r s \<noteq> None \<longleftrightarrow> filter (\<lambda>(j, d). j = length s) (rmatch r U ic s 0 []) \<noteq> []"
    unfolding re_fullmatch_def by (rule head)
  also have "\<dots> \<longleftrightarrow> (\<exists>d. (length s, d) \<in> set (rmatch r U ic s 0 []))"
    unfolding filter_not_Nil by auto
  finally show ?thesis by (simp add: reads_def)
qed

lemma reads_rx_chars_exact:
  "take (length w) (drop i s) = w \<Longrightarrow> i + length w \<le> length s \<Longrightarrow>
     reads (rx_chars w) U ic s i (i + length w) c c"
proof (induction w arbitrary: i)
  case (Cons x w)
  then have "i < length s" by simp
  then have d: "drop i s = s ! i # drop (Suc i) s" by (simp add: Cons_nth_drop_Suc)
  with Cons.prems have x: "s ! i = x" "take (length w) (drop (Suc i) s) = w" by simp_all
  from Cons.IH [OF x(2)] Cons.prems(2) have "reads (rx_chars w) U ic s (Suc i) (Suc i + length w) c c"
    by simp
  with x(1) \<open>i < length s\<close> show ?case
    by (auto simp: rx_chars_def reads_Seq class_match_def)
qed (simp add: rx_chars_def)

lemma reads_rx_chars_only:
  "reads (rx_chars w) U False s i j c d \<Longrightarrow>
     j = i + length w \<and> d = c \<and> take (length w) (drop i s) = w \<and> (w = [] \<or> j \<le> length s)"
proof (induction w arbitrary: i)
  case (Cons x w)
  then have i: "i < length s" "s ! i = x" and rest: "reads (rx_chars w) U False s (Suc i) j c d"
    by (auto simp: rx_chars_def reads_Seq class_match_def)
  from i(1) have "drop i s = s ! i # drop (Suc i) s" by (simp add: Cons_nth_drop_Suc)
  with Cons.IH [OF rest] i show ?case by (auto simp: Suc_le_eq)
qed (simp add: rx_chars_def)

definition one_char :: "(nat \<Rightarrow> bool) \<Rightarrow> nat \<Rightarrow> caps \<Rightarrow> (nat \<times> caps) list" where
  "one_char P i c = (if P i then [(Suc i, c)] else [])"

lemma set_one_char: "set (one_char P i c) = (if P i then {(Suc i, c)} else {})"
  by (simp add: one_char_def)

lemma set_repeats_Suc:
  "set (repeats f g lo i c (Suc hi)) =
     (if lo = 0 then {(i, c)} else {}) \<union> (\<Union>(j, d) \<in> set (f i c). set (repeats f g (lo - 1) j d hi))"
  by (auto simp: Let_def)

lemma rmatch_Cls_one_char:
  "rmatch (Cls neg items) U ic s = one_char (\<lambda>i. i < length s \<and> class_match U ic neg items (s ! i))"
  by (simp add: fun_eq_iff one_char_def)

lemma repeats_class:
  "(\<forall>k < n. P (i + k)) \<Longrightarrow> lo \<le> n \<Longrightarrow> n \<le> hi \<Longrightarrow>
     (i + n, c) \<in> set (repeats (one_char P) g lo i c hi)"
proof (induction n arbitrary: i lo hi)
  case 0
  then show ?case by (cases hi) (auto simp: Let_def)
next
  case (Suc n)
  then obtain h where hi: "hi = Suc h" by (cases hi) auto
  from Suc.prems(1) have head: "P i" by force
  have "\<forall>k < n. P (Suc i + k)"
  proof (intro allI impI)
    fix k assume "k < n"
    then show "P (Suc i + k)" using Suc.prems(1) [rule_format, of "Suc k"] by simp
  qed
  from Suc.IH [OF this, of "lo - 1" h] Suc.prems(2,3) hi
  have "(Suc i + n, c) \<in> set (repeats (one_char P) g (lo - 1) (Suc i) c h)" by simp
  with head show ?case unfolding hi set_repeats_Suc by (simp add: set_one_char)
qed

lemma repeats_class_only:
  "(j, d) \<in> set (repeats (one_char P) g lo i c hi) \<Longrightarrow>
     \<exists>n. j = i + n \<and> d = c \<and> lo \<le> n \<and> n \<le> hi \<and> (\<forall>k < n. P (i + k))"
proof (induction hi arbitrary: i lo)
  case 0
  then show ?case by (auto split: if_splits)
next
  case (Suc hi)
  then consider (stop) "j = i" "d = c" "lo = 0"
    | (go) "P i" "(j, d) \<in> set (repeats (one_char P) g (lo - 1) (Suc i) c hi)"
    unfolding set_repeats_Suc by (auto simp: set_one_char split: if_splits)
  then show ?case
  proof cases
    case stop
    then show ?thesis by (intro exI [of _ 0]) simp
  next
    case go
    from Suc.IH [OF go(2)] obtain n where n: "j = Suc i + n" "d = c" "lo - 1 \<le> n" "n \<le> hi"
      "\<forall>k < n. P (Suc i + k)"
      by blast
    have "\<forall>k < Suc n. P (i + k)"
    proof (intro allI impI)
      fix k assume "k < Suc n"
      then show "P (i + k)" using go(1) n(5) by (cases k) auto
    qed
    with n show ?thesis by (intro exI [of _ "Suc n"]) auto
  qed
qed

lemma reads_Rep_class:
  "(\<forall>k < n. i + k < length s \<and> class_match U ic neg items (s ! (i + k))) \<Longrightarrow> lo \<le> n \<Longrightarrow> n \<le> hi \<Longrightarrow>
     reads (Rep g lo hi (Cls neg items)) U ic s i (i + n) c c"
  unfolding reads_def rmatch.simps(5) rmatch_Cls_one_char by (rule repeats_class)

lemma reads_Rep_class_only:
  "reads (Rep g lo hi (Cls neg items)) U ic s i j c d \<Longrightarrow>
     \<exists>n. j = i + n \<and> d = c \<and> lo \<le> n \<and> n \<le> hi \<and>
       (\<forall>k < n. i + k < length s \<and> class_match U ic neg items (s ! (i + k)))"
  unfolding reads_def rmatch.simps(5) rmatch_Cls_one_char by (rule repeats_class_only)

lemma fullmatch_class:
  "re_fullmatch U ic (Rep g lo hi (Cls neg items)) s \<noteq> None \<longleftrightarrow>
     lo \<le> length s \<and> length s \<le> hi \<and> list_all (class_match U ic neg items) s"
proof
  assume "re_fullmatch U ic (Rep g lo hi (Cls neg items)) s \<noteq> None"
  then obtain d where "reads (Rep g lo hi (Cls neg items)) U ic s 0 (length s) [] d"
    using fullmatch_iff_reads by blast
  from reads_Rep_class_only [OF this]
  show "lo \<le> length s \<and> length s \<le> hi \<and> list_all (class_match U ic neg items) s"
    by (auto simp: list_all_length)
next
  assume "lo \<le> length s \<and> length s \<le> hi \<and> list_all (class_match U ic neg items) s"
  then have "reads (Rep g lo hi (Cls neg items)) U ic s 0 (0 + length s) [] []"
    by (intro reads_Rep_class) (auto simp: list_all_length)
  then show "re_fullmatch U ic (Rep g lo hi (Cls neg items)) s \<noteq> None"
    using fullmatch_iff_reads by auto
qed

end
