(* ===== verification/Guardrail_Vocabulary.thy ===== *)
theory Guardrail_Vocabulary
  imports Py_Regex
begin

text \<open>
  The vocabulary and the bounds of \<open>gideon/guardrail/grammar.py\<close>: one definition per constant,
  under its own name. The regular expressions over them are in \<open>Guardrail_Grammar\<close>.
\<close>

section \<open>Bounds\<close>

definition MAX_MATCH_CHARS :: nat where
  "MAX_MATCH_CHARS = 150"

definition MAX_GAP_CHARS :: nat where
  "MAX_GAP_CHARS = 80"

definition RESTATEMENT_LOOKAHEAD_CHARS :: nat where
  "RESTATEMENT_LOOKAHEAD_CHARS = 40"

definition EXCLUSION_REACH_CHARS :: nat where
  "EXCLUSION_REACH_CHARS = 40"

definition LAG_CHARS :: nat where
  "LAG_CHARS = MAX_MATCH_CHARS + RESTATEMENT_LOOKAHEAD_CHARS"

definition REFUSAL_SEPARATOR :: ustr where
  "REFUSAL_SEPARATOR = [10, 10]"

definition SP_MAX_CHARS :: nat where
  "SP_MAX_CHARS = 3"

section \<open>Vocabulary\<close>

definition DEADLINE_LEADS :: "string list" where
  "DEADLINE_LEADS =
    [''deadline'', ''due date'', ''last day'', ''no later than'', ''on or before'',
     ''expires'', ''expire'', ''runs out'', ''run out'', ''have until'', ''has until'',
     ''too late'', ''cutoff'', ''time limit'']"

definition SHORT_DEADLINE_LEADS :: "string list" where
  "SHORT_DEADLINE_LEADS =
    [''due'', ''must be filed by'', ''be filed by'', ''filed by'', ''file by'']"

definition DUE_EXCLUSIONS :: "string list" where
  "DUE_EXCLUSIONS =
    [''process'', ''diligence'', ''course'', ''regard'', ''to'']"

definition DEADLINE_NOUNS :: "string list" where
  "DEADLINE_NOUNS =
    [''deadline'', ''due date'', ''last day'', ''cutoff'', ''due'']"

definition DEADLINE_FIGURE_NOUNS :: "string list" where
  "DEADLINE_FIGURE_NOUNS =
    [''deadline'', ''due date'', ''date'', ''last day'', ''filing deadline'', ''count'',
     ''day count'']"

definition RELEASE_DATE_NOUNS :: "string list" where
  "RELEASE_DATE_NOUNS =
    [''release date'', ''full-term date'', ''full term date'', ''out date'', ''out-date'',
     ''outdate'', ''date of release'', ''home confinement date'', ''home detention date'',
     ''halfway house date'', ''RRC date'', ''RRC placement date'', ''prerelease custody date'']"

definition RELEASE_DATE_MODIFIERS :: "string list" where
  "RELEASE_DATE_MODIFIERS =
    [''projected'', ''anticipated'', ''expected'', ''estimated'', ''probable'',
     ''good conduct'', ''GCT'', ''statutory'']"

definition RELEASE_VERBS :: "string list" where
  "RELEASE_VERBS =
    [''be released'', ''get out'', ''be out'', ''walk out'', ''go home'']"

definition RELEASE_AUXILIARIES :: "string list" where
  "RELEASE_AUXILIARIES =
    [''will'', ''would'', ''should'', ('''' @ CHR 0x27 # ''ll''), ''is going to'',
     ''is expected to'', ''is likely to'', ''is set to'', ''is scheduled to'']"

definition EXPIRY_SUBJECTS :: "string list" where
  "EXPIRY_SUBJECTS =
    [''sentence'', ''term'', ''supervision'', ''supervised release'', ''probation'',
     ''custody'', ''imprisonment'', ''confinement'']"

definition EXPIRY_VERBS :: "string list" where
  "EXPIRY_VERBS =
    [''expires'', ''will expire'', ''would expire'', ''should expire'', ''is set to expire'',
     ''is due to expire'', ''ends'', ''will end'', ''would end'', ''should end'', ''is up'',
     ''runs out'', ''will run out'', ''would run out'', ''should run out'', ''runs through'',
     ''runs until'', ''runs to'', ''terminates'', ''will terminate'']"

definition ELIGIBILITY_PLACES :: "string list" where
  "ELIGIBILITY_PLACES =
    [''home confinement'', ''home detention'', ''halfway house'', ''RRC'', ''RRC placement'',
     ''residential reentry'', ''prerelease custody'', ''community confinement'', ''release'',
     ''parole'', ''transfer'']"

definition RELEASE_LINKS :: "string list" where
  "RELEASE_LINKS =
    [''is'', ''would be'', ''will be'', ''should be'', ''falls in'', ''falls on'',
     ''would fall in'', ''would fall on'', ''will fall in'', ''will fall on'', ''lands in'',
     ''lands on'', ''moves to'', ''moves up to'', ''comes in'', ''comes on'', ''is set for'',
     ''is projected for'', ''is scheduled for'', ''of'']"

definition RELEASE_QUALIFIERS :: "string list" where
  "RELEASE_QUALIFIERS =
    [''about'', ''around'', ''roughly'', ''approximately'', ''likely'', ''now'', ''then'',
     ''therefore'']"

definition CREDIT_NOUNS :: "string list" where
  "CREDIT_NOUNS =
    [''good time'', ''good conduct time'', ''good-time credit'', ''GCT'',
     ''earned time credit'', ''earned time credits'', ''ETC'', ''ETCs'', ''FSA credit'',
     ''FSA credits'', ''FSA time credit'', ''FSA time credits'', ''First Step Act credit'',
     ''First Step Act credits'', ''time credit'', ''time credits'', ''jail credit'',
     ''jail-time credit'', ''prior custody credit'', ''presentence credit'',
     ''pretrial credit'', ''credit for time served'', ([CHR 0xA7] @ '' 3585(b) credit''),
     ''sentence credit'', ''credit'']"

definition EARNING_VERBS :: "string list" where
  "EARNING_VERBS =
    [''earns'', ''will earn'', ''would earn'', ''has earned'', ''accrues'', ''will accrue'',
     ''has accrued'', ''is credited with'', ''will be credited with'', ''gets'', ''will get'',
     ''receives'', ''will receive'', ''is entitled to'', ''should receive'']"

definition REDUCTION_VERBS :: "string list" where
  "REDUCTION_VERBS =
    [''reduces'', ''reduce'', ''would reduce'', ''will reduce'', ''reducing'', ''cuts'',
     ''cut'', ''would cut'', ''will cut'', ''shortens'', ''shorten'', ''would shorten'',
     ''will shorten'', ''takes'', ''take'', ''shaves'', ''shave'', ''knocks'', ''knock'',
     ''brings forward by'', ''moves up by'', ''advances by'']"

definition CREDIT_REMAINING_WORDS :: "string list" where
  "CREDIT_REMAINING_WORDS =
    [''remain'', ''remains'', ''remaining'', ''left'', ''to go'', ''to serve'']"

definition RATE_WORDS :: "string list" where
  "RATE_WORDS =
    [''per'', ''for each'', ''for every'', ''a year'', ''each year'', ''every year'',
     ''of each'', ''annually'']"

definition CAP_WORDS :: "string list" where
  "CAP_WORDS =
    [''up to'', ''not more than'', ''no more than'', ''at most'', ''a maximum of'',
     ''maximum of'', ''capped at'', ''as much as'', ''as many as'', ''not to exceed'',
     ''limited to'']"

definition SEASON_WORDS :: "string list" where
  "SEASON_WORDS =
    [''spring'', ''summer'', ''fall'', ''autumn'', ''winter'', ''early'', ''mid'', ''late'']"

definition SENTENCE_FIGURE_NOUNS :: "string list" where
  "SENTENCE_FIGURE_NOUNS =
    [''release date'', ''out date'', ''date'', ''good time'', ''credit'', ''credits'',
     ''figure'', ''count'', ''number'', ''time'']"

definition SERVED_AUXILIARIES :: "string list" where
  "SERVED_AUXILIARIES =
    [''would'', ''will'', ('''' @ CHR 0x27 # ''ll''), ''should'', ''is going to'',
     ''is likely to'', ''is expected to'', ''can expect to'', ''would actually'',
     ''will actually'']"

definition SERVED_ACTIONS :: "string list" where
  "SERVED_ACTIONS =
    [''serve'', ''do'', ''spend'', ''be in custody for'', ''remain in custody for'',
     ''sit for'']"

definition SERVED_MONTH_UNITS :: "string list" where
  "SERVED_MONTH_UNITS =
    [''months'', ''month'']"

definition SERVED_QUALIFIERS :: "string list" where
  "SERVED_QUALIFIERS =
    [''about'', ''roughly'', ''approximately'', ''around'', ''close to'', ''just over'',
     ''just under'', ''nearly'']"

definition ACTUAL_TIME_WORDS :: "string list" where
  "ACTUAL_TIME_WORDS =
    [''actual'', ''real'', ''effective'']"

definition ACTUAL_TIME_NOUNS :: "string list" where
  "ACTUAL_TIME_NOUNS =
    [''time'', ''time served'', ''time in custody'', ''term'']"

definition ACTUAL_TIME_LINKS :: "string list" where
  "ACTUAL_TIME_LINKS =
    [''is'', ''would be'', ''will be'', ''comes to'', ''works out to'', ''of'']"

definition PERCENTAGE_RESOLUTION_LINKS :: "string list" where
  "PERCENTAGE_RESOLUTION_LINKS =
    [''roughly'', ''about'', ''or'', ''which is'', ''comes to'', ''is'', ''equals'',
     ''works out to'']"

definition PERCENTAGE_SUBJECT_WORDS :: "string list" where
  "PERCENTAGE_SUBJECT_WORDS =
    [''sentence'', ''term'']"

definition SENTENCE_CREDIT_CONFIRMATION_NOUNS :: "string list" where
  "SENTENCE_CREDIT_CONFIRMATION_NOUNS =
    [''release date'', ''out date'', ''full-term date'', ''good time'', ''good conduct time'',
     ''credit'', ''credits'', ''time served'', ''serve'', ''home confinement'',
     ''halfway house'', ''RRC'', ''release'', ''released'', ''gets out'', ''get out'',
     ''getting out'']"

definition SENTENCE_CREDIT_CONFIRMATION_TARGETS :: "string list" where
  "SENTENCE_CREDIT_CONFIRMATION_TARGETS =
    [''release date'', ''out date'', ''full-term date'', ''good time'', ''good conduct time'',
     ''credit'', ''credits'', ''time served'', ''date'', ''figure'', ''computation'',
     ''calculation'', ''number'']"

definition SENTENCE_CREDIT_CONFIRMATION_FAMILY_NOUNS :: "string list" where
  "SENTENCE_CREDIT_CONFIRMATION_FAMILY_NOUNS =
    [''release date'', ''out date'', ''full-term date'', ''good time'', ''credits'']"

definition GUIDELINES_LEVEL_PREFIXES :: "string list" where
  "GUIDELINES_LEVEL_PREFIXES =
    [''total'', ''adjusted'', ''final'', ''base'']"

definition GUIDELINES_RANGE_WORDS :: "string list" where
  "GUIDELINES_RANGE_WORDS =
    [''to'']"

definition GUIDELINES_RANGE_UNITS :: "string list" where
  "GUIDELINES_RANGE_UNITS =
    [''months'', ''month'', ''mos'', ''mo'']"

definition GUIDELINES_RESOLVING_LINKS :: "string list" where
  "GUIDELINES_RESOLVING_LINKS =
    [''is'', ''yields'', ''would yield'', ''gives'', ''would give'', ''produces'',
     ''results in'', ''comes to'', ''calls for'', ''would be'', ''equals'', ''of'']"

definition GUIDELINES_MATTER_MODIFIERS :: "string list" where
  "GUIDELINES_MATTER_MODIFIERS =
    [''advisory'', ''guideline'', ''guidelines'', ''applicable'', ''sentencing'']"

definition GUIDELINES_MATTER_LEADS :: "string list" where
  "GUIDELINES_MATTER_LEADS =
    [''faces'', ''is looking at'', ''is exposed to'', ''would face'', ''is facing'']"

definition GUIDELINES_RANGE_LINKS :: "string list" where
  "GUIDELINES_RANGE_LINKS =
    [''is'', ''would be'', ''comes to'', ''falls at'', ''of'']"

definition GUIDELINES_TOTAL_WORDS :: "string list" where
  "GUIDELINES_TOTAL_WORDS =
    [''total'', ''adjusted'', ''final'', ''combined'', ''resulting'']"

definition GUIDELINES_LEVEL_LINKS :: "string list" where
  "GUIDELINES_LEVEL_LINKS =
    [''of'', ''is'', ''would be'', ''would then be'', ''comes to'', ''equals'', ''totals'',
     ''becomes'', ''at'']"

definition GUIDELINES_LINK_ADVERBS :: "string list" where
  "GUIDELINES_LINK_ADVERBS =
    [''therefore'', ''then'', ''now'', ''thus'']"

definition GUIDELINES_COMPARATIVES :: "string list" where
  "GUIDELINES_COMPARATIVES =
    [''less than'', ''more than'', ''greater than'', ''at least'', ''at most'', ''below'',
     ''above'', ''under'', ''over'']"

definition GUIDELINES_TRAILING_COMPARATIVES :: "string list" where
  "GUIDELINES_TRAILING_COMPARATIVES =
    [''or greater'', ''or higher'', ''or more'', ''or less'', ''or lower'', ''or above'',
     ''or below'']"

definition GUIDELINES_UNIT_WORDS :: "string list" where
  "GUIDELINES_UNIT_WORDS =
    [''month'', ''months'', ''firearm'', ''firearms'']"

definition GUIDELINES_PLACING_VERBS :: "string list" where
  "GUIDELINES_PLACING_VERBS =
    [''puts'', ''places'', ''put'', ''place'', ''leaves'', ''lands'', ''brings'', ''takes'',
     ''ends up'']"

definition GUIDELINES_PLACED_OBJECTS :: "string list" where
  "GUIDELINES_PLACED_OBJECTS =
    [''him'', ''her'', ''them'', ''you'', ''your client'', ''the defendant'', ''the client'']"

definition GUIDELINES_POINT_PLACING_VERBS :: "string list" where
  "GUIDELINES_POINT_PLACING_VERBS =
    [''puts'', ''places'', ''lands'']"

definition GUIDELINES_POINT_LINKS :: "string list" where
  "GUIDELINES_POINT_LINKS =
    [''falls into'', ''falls in'', ''falls within'', ''is'', ''is in'', ''is a'', ''means'',
     ''yields'', ''equals'', ''gives'', ''results in'', ''would be'', ''corresponds to'',
     ''translates to'']"

definition GUIDELINES_CATEGORY_LEADS :: "string list" where
  "GUIDELINES_CATEGORY_LEADS =
    [''from'', ''based on'', ''with'', ''on'', ''given'']"

definition GUIDELINES_FIGURE_NOUNS :: "string list" where
  "GUIDELINES_FIGURE_NOUNS =
    [''range'', ''guideline range'', ''offense level'', ''category'', ''level'', ''figure'']"

definition TIMELINESS_WORDS :: "string list" where
  "TIMELINESS_WORDS =
    [''timely'', ''untimely'', ''too late'', ''out of time'', ''time-barred'']"

definition REMAINING_WORDS :: "string list" where
  "REMAINING_WORDS =
    [''remain'', ''remaining'', ''left'', ''to go'']"

definition ELAPSED_PAST_VERBS :: "string list" where
  "ELAPSED_PAST_VERBS =
    [''elapsed'', ''ran'', ''passed'', ''expired'']"

definition ELAPSED_PERFECT_VERBS :: "string list" where
  "ELAPSED_PERFECT_VERBS =
    [''elapsed'', ''run'', ''passed'', ''expired'']"

definition ELAPSED_AUXILIARIES :: "string list" where
  "ELAPSED_AUXILIARIES =
    [''had'', ''have'', ''has'']"

definition PASSIVE_AUXILIARIES :: "string list" where
  "PASSIVE_AUXILIARIES =
    [''was'', ''were'']"

definition LEAVING_WORDS :: "string list" where
  "LEAVING_WORDS =
    [''leaving'', ''leaves'', ''left'']"

definition USING_VERBS :: "string list" where
  "USING_VERBS =
    [''used'', ''consumed'', ''exhausted'']"

definition PERIOD_SUBJECTS :: "string list" where
  "PERIOD_SUBJECTS =
    [''clock'', ''period'', ''year'', ''time'', ''limitations period'', ''one-year period'',
     ''statute'']"

definition ELAPSED_LINKS :: "string list" where
  "ELAPSED_LINKS =
    [''is'', ''was'', ''comes to'', ''totals'', ''equals'', ''makes'', ''='']"

definition COUNT_QUALIFIERS :: "string list" where
  "COUNT_QUALIFIERS =
    [''calendar'', ''full'', ''business'']"

definition CONFIRMATION_WORDS :: "string list" where
  "CONFIRMATION_WORDS =
    [''yes'', ''correct'', (''that'' @ CHR 0x27 # ''s right''),
     (''you'' @ CHR 0x27 # ''re right''), ''confirmed'', ''indeed'']"

definition CONFIRMATION_TARGETS :: "string list" where
  "CONFIRMATION_TARGETS =
    [''date'', ''deadline'', ''due date'']"

definition NUMBER_WORDS :: "string list" where
  "NUMBER_WORDS =
    [''one'', ''two'', ''three'', ''four'', ''five'', ''six'', ''seven'', ''eight'', ''nine'',
     ''ten'', ''eleven'', ''twelve'', ''thirteen'', ''fourteen'', ''fifteen'', ''sixteen'',
     ''seventeen'', ''eighteen'', ''nineteen'', ''twenty'', ''thirty'', ''forty'', ''fifty'',
     ''sixty'', ''seventy'', ''eighty'', ''ninety'']"

definition COUNT_UNITS :: "string list" where
  "COUNT_UNITS =
    [''days'', ''day'', ''months'', ''month'', ''years'', ''year'']"

definition DAY_UNITS :: "string list" where
  "DAY_UNITS =
    [''days'', ''day'']"

definition DETERMINER_WORDS :: "string list" where
  "DETERMINER_WORDS =
    [''the'', ''your'', ''my'', ''his'', ''her'', ''their'', ''a'', ''that'', ''this'']"

definition CLAUSE_BREAK_WORDS :: "string list" where
  "CLAUSE_BREAK_WORDS =
    [''but'', ''and'', ''however'', ''though'', ''yet'', ''so'', ''while'']"

definition ATTRIBUTION_ACTOR_SUBJECTS :: "string list" where
  "ATTRIBUTION_ACTOR_SUBJECTS =
    [''court'', ''district court'', ''sentencing court'', ''trial court'',
     ''court of appeals'', ''circuit'', ''panel'', ''judge'', ''probation'',
     ''probation officer'', ''probation office'', ''government'', ''prosecution'',
     ''prosecutor'', ''United States'', ''Bureau'', ''Bureau of Prisons'', ''BOP'', ''warden'',
     ''parties'']"

definition ATTRIBUTION_DOCUMENT_SUBJECTS :: "string list" where
  "ATTRIBUTION_DOCUMENT_SUBJECTS =
    [''PSR'', ''presentence report'', ''presentence investigation report'',
     ''computation sheet'', ''sentence computation'', ''worksheet'', ''judgment'',
     ''plea agreement'', ''sentencing memorandum'']"

definition ATTRIBUTION_AUXILIARIES :: "string list" where
  "ATTRIBUTION_AUXILIARIES =
    [''had'', ''has'', ''have'']"

definition ATTRIBUTION_ADVERBS :: "string list" where
  "ATTRIBUTION_ADVERBS =
    [''correctly'', ''properly'', ''ultimately'', ''then'', ''also'', ''initially'',
     ''expressly'', ''erroneously'', ''first'', ''later'']"

definition ATTRIBUTION_PAST_VERBS :: "string list" where
  "ATTRIBUTION_PAST_VERBS =
    [''found'', ''calculated'', ''computed'', ''determined'', ''held'', ''concluded'',
     ''adopted'', ''applied'', ''assigned'', ''scored'', ''set'', ''fixed'', ''placed'',
     ''put'', ''arrived at'', ''reached'', ''assessed'', ''counted'', ''tallied'',
     ''identified'', ''treated'', ''noted'', ''stated'', ''recited'', ''reported'', ''showed'',
     ''argued'', ''argued for'', ''urged'', ''sought'', ''requested'', ''asked for'',
     ''proposed'', ''recommended'', ''objected to'', ''agreed on'', ''stipulated to'',
     ''refused'', ''denied'', ''awarded'', ''credited'', ''imposed'', ''gave'']"

definition ATTRIBUTION_PRESENT_VERBS :: "string list" where
  "ATTRIBUTION_PRESENT_VERBS =
    [''calculates'', ''computes'', ''puts'', ''places'', ''assigns'', ''scores'', ''sets'',
     ''shows'', ''lists'', ''states'', ''reflects'', ''reports'', ''projects'', ''recommends'',
     ''proposes'', ''identifies'', ''treats'', ''notes'', ''recites'']"

definition ATTRIBUTION_HONORIFICS :: "string list" where
  "ATTRIBUTION_HONORIFICS =
    [''Mr.'', ''Ms.'', ''Mrs.'', ''Dr.'']"

definition RELEASE_REVERSE_LINKS :: "string list" where
  "RELEASE_REVERSE_LINKS =
    [''is'', ''would be'', ''will be'', ''marks'', ''becomes'', ''remains'']"

definition CREDIT_TERM_NOUNS :: "string list" where
  "CREDIT_TERM_NOUNS =
    [''sentence'', ''term'', ''release date'', ''time'', ''custody'', ''imprisonment'']"

definition REFUSAL_NEGATIONS :: "string list" where
  "REFUSAL_NEGATIONS =
    [''cannot'', (''can'' @ CHR 0x27 # ''t''), (''won'' @ CHR 0x27 # ''t''), ''will not'',
     (''don'' @ CHR 0x27 # ''t''), ''do not'', ''unable to'', ''not able to'', ''refuse to'',
     ''decline to'']"

definition REFUSAL_VERBS :: "string list" where
  "REFUSAL_VERBS =
    [''confirm'', ''verify'', ''compute'', ''calculate'', ''determine'', ''vouch for'',
     ''endorse'', ''validate'']"

definition FROM_DATE_DETERMINERS :: "string list" where
  "FROM_DATE_DETERMINERS =
    [''the'', ''your'', ''a'', ''that'', ''this'']"


end
