(* ===== verification/Guardrail_Grammar.thy ===== *)
theory Guardrail_Grammar
  imports Guardrail_Vocabulary
begin

text \<open>
  The patterns of \<open>gideon/guardrail/grammar.py\<close> as \<open>regex\<close> terms, one definition per
  constant or builder of the source, under its own name. A source that is spliced into others is
  a shared subterm here. All of them are compiled with \<open>re.IGNORECASE\<close>.
\<close>

section \<open>Phrases\<close>

definition SP :: regex where
  "SP = spaces 1 SP_MAX_CHARS"

definition APOSTROPHE :: regex where
  "APOSTROPHE = chars [8217, 39]"

definition phrase_char :: "char \<Rightarrow> regex" where
  "phrase_char c =
     (if c = CHR 0x20 then SP else if c = CHR 0x27 then APOSTROPHE else lit [c])"

definition phrase :: "string \<Rightarrow> regex" where
  "phrase v = seqs (map phrase_char v)"

definition phrases :: "string list \<Rightarrow> regex" where
  "phrases vs = alts (map phrase vs)"

definition words :: "string list \<Rightarrow> regex" where  \<comment> \<open>a literal \<open>(?:a|b|c)\<close>\<close>
  "words vs = alts (map lit vs)"

definition longest_phrase :: "string list \<Rightarrow> nat" where
  "longest_phrase vs =
     foldr (\<lambda>v m. max (length v + count_list v (CHR 0x20) * (SP_MAX_CHARS - 1)) m) vs 0"

section \<open>Dates and counts\<close>

definition MONTH_NAMES :: "regex list" where
  "MONTH_NAMES =
    [seqs [lit ''Jan'', optional (lit ''uary''), optional (lit ''.'')],
     seqs [lit ''Feb'', optional (lit ''ruary''), optional (lit ''.'')],
     seqs [lit ''Mar'', optional (lit ''ch''), optional (lit ''.'')],
     seqs [lit ''Apr'', optional (lit ''il''), optional (lit ''.'')],
     lit ''May'',
     seqs [lit ''Jun'', optional (lit ''e''), optional (lit ''.'')],
     seqs [lit ''Jul'', optional (lit ''y''), optional (lit ''.'')],
     seqs [lit ''Aug'', optional (lit ''ust''), optional (lit ''.'')],
     seqs [lit ''Sep'', optional (seqs [lit ''t'', optional (lit ''ember'')]), optional (lit ''.'')],
     seqs [lit ''Oct'', optional (lit ''ober''), optional (lit ''.'')],
     seqs [lit ''Nov'', optional (lit ''ember''), optional (lit ''.'')],
     seqs [lit ''Dec'', optional (lit ''ember''), optional (lit ''.'')]]"

definition MONTH :: regex where
  "MONTH = alts MONTH_NAMES"

definition ORDINAL :: regex where
  "ORDINAL = optional (words [''st'', ''nd'', ''rd'', ''th''])"

definition NUMBER :: regex where
  "NUMBER = Alt (digits 1 3) (phrases NUMBER_WORDS)"

definition DATE :: regex where
  "DATE = alts
    [seqs [WordB, MONTH, SP, digits 1 2, ORDINAL, optional (lit '',''), SP, digits 4 4, WordB],
     seqs [WordB, digits 1 2, ORDINAL, SP, optional (seqs [lit ''of'', SP]), MONTH,
       optional (lit '',''), SP, digits 4 4, WordB],
     seqs [WordB, digits 1 2, lit ''/'', digits 1 2, lit ''/'', digits 2 4, WordB],
     seqs [WordB, digits 4 4, lit ''-'', digits 2 2, lit ''-'', digits 2 2, WordB]]"

definition MONTH_AND_YEAR :: regex where
  "MONTH_AND_YEAR = seqs [WordB, MONTH, SP, digits 4 4, WordB]"

definition SEASON_AND_YEAR :: regex where
  "SEASON_AND_YEAR =
    seqs [WordB, optional (seqs [lit ''the'', SP]), phrases SEASON_WORDS,
      Alt (seqs [optional (seqs [SP, lit ''of'']), SP, digits 4 4]) (seqs [lit ''-'', digits 4 4]),
      WordB]"

definition RELEASE_DATE :: regex where
  "RELEASE_DATE = alts [DATE, MONTH_AND_YEAR, SEASON_AND_YEAR]"

definition NUMBER_DIGITS :: regex where
  "NUMBER_DIGITS = seqs [digits 1 3, optional (seqs [lit ''.'', digits 1 2])]"

definition NUMBER_COMPOUNDS :: "string list" where
  "NUMBER_COMPOUNDS =
     concat (map (\<lambda>tens. map (\<lambda>unit. tens @ ''-'' @ unit) (take 9 NUMBER_WORDS)) (drop 19 NUMBER_WORDS))"

definition NUMBER_VALUE :: regex where
  "NUMBER_VALUE = alts [NUMBER_DIGITS, phrases NUMBER_WORDS, phrases NUMBER_COMPOUNDS]"

definition MARK :: regex where
  "MARK = Rep True 0 2 (chars [42])"

definition RATE_PHRASE :: regex where
  "RATE_PHRASE =
    Alt (seqs [MARK, spaces 0 3, MARK, phrases RATE_WORDS, WordB]) (seqs [MARK, spaces 0 3, lit ''/''])"

definition RATE_LOOKAHEAD :: regex where
  "RATE_LOOKAHEAD = Look False RATE_PHRASE"

definition RATE_OPTIONAL :: regex where
  "RATE_OPTIONAL = optional RATE_PHRASE"

definition deadline_count :: "regex \<Rightarrow> bool \<Rightarrow> regex" where
  "deadline_count separator named =
    (let number = (if named then Group ''number'' NUMBER_VALUE else NUMBER_VALUE);
         unit = (if named then Group ''unit'' (phrases DAY_UNITS) else phrases DAY_UNITS)
     in seqs [MARK, not_after [CWord, CChar 47], number, separator,
          optional (seqs [phrases COUNT_QUALIFIERS, SP]), unit, WordB, MARK])"

definition DEADLINE_COUNT_SEPARATOR :: regex where
  "DEADLINE_COUNT_SEPARATOR = Alt SP (lit ''-'')"

definition DEADLINE_COUNT :: regex where
  "DEADLINE_COUNT = deadline_count DEADLINE_COUNT_SEPARATOR False"

definition ELAPSED_COUNT :: regex where
  "ELAPSED_COUNT = deadline_count SP False"

definition DEADLINE_FIGURE :: regex where
  "DEADLINE_FIGURE = Alt DATE DEADLINE_COUNT"

definition DEADLINE_FIGURE_FORM :: regex where
  "DEADLINE_FIGURE_FORM =
    seqs [not_after [CWord, CChar 47], DEADLINE_FIGURE, not_before [CWord, CChar 47]]"

definition SENTENCE_COUNT :: regex where
  "SENTENCE_COUNT =
    seqs [not_after [CWord, CChar 46], NUMBER_VALUE, Alt SP (lit ''-''),
      optional (seqs [lit ''more'', SP]), phrases COUNT_UNITS, WordB, RATE_LOOKAHEAD]"

definition SENTENCE_COUNT_FORM :: regex where
  "SENTENCE_COUNT_FORM =
    seqs [not_after [CWord, CChar 47], Group ''number'' NUMBER_VALUE, Alt SP (lit ''-''),
      optional (seqs [lit ''more'', SP]), Group ''unit'' (phrases COUNT_UNITS), RATE_LOOKAHEAD,
      not_before [CWord, CChar 47]]"

definition SENTENCE_FIGURE :: regex where
  "SENTENCE_FIGURE = Alt RELEASE_DATE SENTENCE_COUNT"

definition SENTENCE_FIGURE_FORM :: regex where
  "SENTENCE_FIGURE_FORM =
    seqs [not_after [CWord, CChar 47], SENTENCE_FIGURE, not_before [CWord, CChar 47]]"

section \<open>The deadline family's sources\<close>

definition DUE :: regex where
  "DUE = seqs [WordB, lit ''due'', WordB, Look False (seqs [SP, phrases DUE_EXCLUSIONS, WordB])]"

definition LONG_LEAD :: regex where
  "LONG_LEAD = seqs [WordB, phrases DEADLINE_LEADS, WordB]"

definition SHORT_LEAD :: regex where
  "SHORT_LEAD = Alt DUE (seqs [WordB, phrases (drop 1 SHORT_DEADLINE_LEADS), WordB])"

definition LINK :: regex where
  "LINK = seqs [WordB,
     alts [lit ''is'', lit ''was'', seqs [lit ''would'', SP, lit ''be''], seqs [lit ''will'', SP, lit ''be''],
       lit ''falls'', lit ''marks'', lit ''remains'', lit ''becomes''], WordB]"

definition ARTICLE :: regex where
  "ARTICLE = optional (seqs [SP,
     words [''the'', ''your'', ''a'', ''an'', ''still'', ''now'', ''therefore'', ''thus'']])"

definition DAY_COUNT :: regex where
  "DAY_COUNT = seqs [NUMBER, Alt SP (lit ''-''), optional (seqs [lit ''more'', SP]), lit ''day'',
     optional (lit ''s'')]"

definition GAP :: regex where
  "GAP = any_upto MAX_GAP_CHARS"

definition DATE_NEAR_DEADLINE_WORD :: regex where
  "DATE_NEAR_DEADLINE_WORD = alts
    [seqs [LONG_LEAD, GAP, DATE],
     seqs [SHORT_LEAD, any_upto 8, DATE],
     seqs [DATE, any_upto 30, LINK, ARTICLE, SP, optional (seqs [lit ''filing'', SP]), WordB,
       phrases DEADLINE_NOUNS, WordB],
     seqs [DATE, any_upto 30, LINK, ARTICLE, SP, WordB, phrases TIMELINESS_WORDS, WordB],
     seqs [DATE, spaces 0 3, chars [40, 8212, 8211, 45], spaces 0 3, words [''the'', ''your''], SP,
       optional (seqs [lit ''filing'', SP]), WordB, phrases DEADLINE_NOUNS, WordB]]"

definition DAYS_REMAINING :: regex where
  "DAYS_REMAINING = alts
    [seqs [WordB, DAY_COUNT, SP, WordB, phrases REMAINING_WORDS, WordB],
     seqs [WordB,
       alts [lit ''you'', lit ''we'', lit ''they'', lit ''he'', lit ''she'',
         seqs [lit ''the'', SP, lit ''client''], lit ''counsel''],
       SP, optional (seqs [lit ''still'', SP]), words [''have'', ''has'', ''had''], SP,
       optional (alts [seqs [lit ''only'', SP], seqs [lit ''about'', SP], seqs [lit ''roughly'', SP]]),
       DAY_COUNT, WordB],
     seqs [WordB, DAY_COUNT, SP, lit ''from'', SP, words [''today'', ''now''], WordB],
     seqs [WordB, phrases DEADLINE_NOUNS, WordB, any_upto 40, WordB, lit ''in'', SP,
       optional (alts [seqs [lit ''about'', SP], seqs [lit ''roughly'', SP], seqs [lit ''just'', SP]]),
       DAY_COUNT, WordB],
     seqs [WordB, lit ''in'', SP,
       optional (alts [seqs [lit ''about'', SP], seqs [lit ''roughly'', SP], seqs [lit ''just'', SP]]),
       DAY_COUNT, WordB, any_upto 40, WordB, phrases DEADLINE_NOUNS, WordB]]"

definition ELAPSED_PREDICATE :: regex where
  "ELAPSED_PREDICATE = seqs [SP, alts
    [seqs [optional (seqs [lit ''already'', SP]), WordB, phrases ELAPSED_PAST_VERBS, WordB],
     seqs [WordB, phrases ELAPSED_AUXILIARIES, SP, optional (seqs [lit ''already'', SP]),
       Alt (phrases ELAPSED_PERFECT_VERBS) (seqs [lit ''been'', SP, phrases USING_VERBS]), WordB],
     seqs [WordB, phrases PASSIVE_AUXILIARIES, SP, optional (seqs [lit ''already'', SP]),
       phrases USING_VERBS, WordB]]]"

definition ELAPSED_PERIOD :: regex where
  "ELAPSED_PERIOD = optional (seqs [SP, lit ''of'', SP, optional (seqs [lit ''the'', SP]),
     phrases PERIOD_SUBJECTS, WordB])"

definition ELAPSED_DATE_LINK :: regex where
  "ELAPSED_DATE_LINK = Alt (seqs [WordB, phrases (butlast ELAPSED_LINKS), WordB]) (lit ''='')"

definition ELAPSED_DATE_SPAN :: regex where
  "ELAPSED_DATE_SPAN = Alt
    (seqs [WordB, lit ''from'', SP, DATE, SP, lit ''to'', SP, DATE])
    (seqs [WordB, lit ''between'', SP, DATE, SP, lit ''and'', SP, DATE])"

definition ELAPSED_DATE_PAIR :: regex where
  "ELAPSED_DATE_PAIR = Alt ELAPSED_DATE_SPAN
    (seqs [DATE, Alt (seqs [SP, lit ''to'', SP]) (seqs [spaces 0 3, chars [45, 8211, 8212], spaces 0 3]),
      DATE])"

definition ELAPSED_DATE_RESOLUTION :: regex where
  "ELAPSED_DATE_RESOLUTION = Alt
    (seqs [ELAPSED_DATE_PAIR, SP, ELAPSED_DATE_LINK, SP,
       optional (seqs [phrases [''about'', ''roughly'', ''approximately'', ''around''], SP]),
       ELAPSED_COUNT])
    (seqs [ELAPSED_COUNT, optional ELAPSED_PREDICATE, SP, ELAPSED_DATE_SPAN])"

definition ELAPSED_SUBJECT_STOPS :: "string list" where
  "ELAPSED_SUBJECT_STOPS = ELAPSED_AUXILIARIES @ PASSIVE_AUXILIARIES @
    [''is'', ''will'', ''would'', ''should'', ''could'', ''may'', ''might'', ''must'', ''does'',
     ''did'', ''not'', ''never'']"

definition ELAPSED_SUBJECT_WORD :: regex where
  "ELAPSED_SUBJECT_WORD =
    seqs [Look False (seqs [WordB, phrases ELAPSED_SUBJECT_STOPS, WordB]), Rep True 1 20 (Cls False [CWord])]"

definition ELAPSED_PERIOD_SUBJECT :: regex where
  "ELAPSED_PERIOD_SUBJECT =
    seqs [WordB, optional (seqs [lit ''the'', SP]), phrases PERIOD_SUBJECTS,
      Rep True 0 2 (seqs [SP, ELAPSED_SUBJECT_WORD])]"

definition ELAPSED_PERIOD_VERB :: regex where
  "ELAPSED_PERIOD_VERB =
    seqs [Alt
      (seqs [SP, WordB, phrases ELAPSED_AUXILIARIES, SP, phrases [''run'', ''elapsed'', ''expired'']])
      (seqs [SP, phrases [''ran'', ''elapsed'', ''expired'']]), WordB]"

definition ELAPSED_LEAVING_LEAD :: regex where
  "ELAPSED_LEAVING_LEAD =
    seqs [WordB, phrases LEAVING_WORDS, SP,
      optional (seqs [words [''me'', ''you'', ''him'', ''her'', ''us'', ''them'', ''it''], SP]),
      optional (seqs [phrases [''only'', ''about'', ''roughly'', ''just''], SP])]"

definition DAYS_ELAPSED :: regex where
  "DAYS_ELAPSED = alts
    [seqs [ELAPSED_COUNT, ELAPSED_PERIOD, ELAPSED_PREDICATE,
       Look False (seqs [SP, words [''between'', ''from''], SP, DATE])],
     seqs [ELAPSED_LEAVING_LEAD, ELAPSED_COUNT],
     seqs [WordB, phrases USING_VERBS, SP, optional (seqs [lit ''up'', SP]), ELAPSED_COUNT,
       SP, lit ''of'', SP, optional (seqs [lit ''the'', SP]), phrases PERIOD_SUBJECTS, WordB],
     ELAPSED_DATE_RESOLUTION,
     seqs [ELAPSED_PERIOD_SUBJECT, ELAPSED_PERIOD_VERB, SP,
       optional (seqs [words [''for'', ''after''], SP]), ELAPSED_COUNT]]"

definition SENTENCE_START :: regex where
  "SENTENCE_START = alts
    [TextStart, seqs [chars [46, 33, 63], spaces 1 3], seqs [chars [10], spaces 0 3]]"

definition AFFIRMATION :: regex where
  "AFFIRMATION = phrases CONFIRMATION_WORDS"

definition NEGATION :: regex where
  "NEGATION = seqs [WordB, alts
    [lit ''not'', lit ''never'', lit ''whether'', lit ''if'', lit ''cannot'',
     seqs [lit ''can'', APOSTROPHE, lit ''t''], seqs [lit ''won'', APOSTROPHE, lit ''t''],
     seqs [lit ''don'', APOSTROPHE, lit ''t''], seqs [lit ''isn'', APOSTROPHE, lit ''t''],
     lit ''unable'', lit ''unverified'', lit ''hypothetical'',
     seqs [lit ''assum'', words [''e'', ''ing'']],
     seqs [lit ''you'', SP, words [''say'', ''said'', ''calculated'', ''computed'', ''supplied'',
       ''gave'', ''make'', ''wrote'']],
     seqs [lit ''your'', SP, words [''calculation'', ''computation'', ''figure'', ''date'']]], WordB]"

definition DETERMINER :: regex where
  "DETERMINER = optional (seqs [phrases DETERMINER_WORDS, SP])"

definition UNNEGATED_PREFIX :: regex where
  "UNNEGATED_PREFIX =
    Rep False 0 70 (seqs [Look False NEGATION, Cls True (map CChar [46, 33, 63, 10])])"

definition AFFIRMATION_NEAR :: regex where
  "AFFIRMATION_NEAR = seqs [WordB,
    words [''yes'', ''correct'', ''indeed'', ''right'', ''confirmed'', ''exactly'', ''precisely'',
      ''affirmative''], WordB]"

text \<open>The punctuation after an affirmation, \<open>[,.!:;\<close>, em dash, en dash, \<open>-]?\<close>, and the end of a confirmation.\<close>

definition AFFIRMATION_STOP :: regex where
  "AFFIRMATION_STOP = optional (chars [44, 46, 33, 58, 59, 8212, 8211, 45])"

definition confirmed_form :: "string list \<Rightarrow> string list \<Rightarrow> regex" where
  "confirmed_form targets verbs = alts
    [seqs [SENTENCE_START, AFFIRMATION, WordB, AFFIRMATION_STOP, any_upto 60, WordB, phrases targets, WordB],
     seqs [SENTENCE_START, UNNEGATED_PREFIX, WordB, phrases targets, WordB,
       Rep True 0 30 (Cls True (map CChar [46, 33, 63, 10])), WordB,
       alts (map (\<lambda>v. if v = ''looks'' \<or> v = ''seems'' then seqs [lit (butlast v), optional (lit ''s'')] else lit v) verbs),
       SP, optional (alts [seqs [lit ''also'', SP], seqs [lit ''indeed'', SP]]),
       words [''correct'', ''right'', ''accurate'', ''fine''], WordB]]"

definition DATE_CONFIRMED :: regex where
  "DATE_CONFIRMED =
    confirmed_form CONFIRMATION_TARGETS [''is'', ''are'', ''looks'', ''seems'', ''was'']"

section \<open>The Guidelines family's sources\<close>

definition GUIDELINES_WORD_SPACE :: regex where
  "GUIDELINES_WORD_SPACE = Cls False [CSpace]"

definition GUIDELINES_OPTIONAL_SPACE :: regex where
  "GUIDELINES_OPTIONAL_SPACE = optional (Cls False [CSpace])"

definition GUIDELINES_RANGE_SEPARATORS :: "codepoint list" where
  "GUIDELINES_RANGE_SEPARATORS = [45, 8211, 8212, 8209]"

definition GUIDELINES_RANGE_SEPARATOR :: regex where
  "GUIDELINES_RANGE_SEPARATOR =
    alts (map (\<lambda>c. rx_chars [c]) GUIDELINES_RANGE_SEPARATORS @
      [seqs [GUIDELINES_WORD_SPACE, phrases GUIDELINES_RANGE_WORDS, GUIDELINES_WORD_SPACE]])"

definition GUIDELINES_RANGE_UNIT_SEPARATOR :: regex where
  "GUIDELINES_RANGE_UNIT_SEPARATOR =
    alts [Cls False [CSpace], rx_chars [8239], rx_chars [160], lit ''-'']"

definition GUIDELINES_RANGE_SOURCE :: regex where
  "GUIDELINES_RANGE_SOURCE = Alt
    (seqs [WordB, digits 1 3, GUIDELINES_OPTIONAL_SPACE, GUIDELINES_RANGE_SEPARATOR,
       GUIDELINES_OPTIONAL_SPACE, Alt (digits 1 3) (lit ''life''), GUIDELINES_RANGE_UNIT_SEPARATOR,
       phrases GUIDELINES_RANGE_UNITS, optional (lit ''.''), not_before [CWord]])
    (seqs [WordB, digits 1 3, GUIDELINES_RANGE_UNIT_SEPARATOR, phrases GUIDELINES_RANGE_UNITS,
       optional (lit ''.''), not_before [CWord], GUIDELINES_OPTIONAL_SPACE,
       GUIDELINES_RANGE_SEPARATOR, GUIDELINES_OPTIONAL_SPACE, lit ''life'', WordB])"

definition GUIDELINES_ROMAN :: regex where
  "GUIDELINES_ROMAN = words [''VI'', ''IV'', ''V'', ''III'', ''II'', ''I'']"

definition GUIDELINES_LEVEL_SOURCE :: regex where
  "GUIDELINES_LEVEL_SOURCE = Alt
    (seqs [WordB, optional (seqs [phrases GUIDELINES_LEVEL_PREFIXES, GUIDELINES_WORD_SPACE]),
       optional (seqs [lit ''offense'', GUIDELINES_WORD_SPACE]), lit ''level'', GUIDELINES_WORD_SPACE,
       optional (seqs [lit ''of'', GUIDELINES_WORD_SPACE]), digits 1 2, not_before [CDigit]])
    (seqs [WordB, words [''OL'', ''TOL''], GUIDELINES_OPTIONAL_SPACE, digits 1 2, not_before [CDigit]])"

definition GUIDELINES_CATEGORY_NUMERAL :: regex where
  "GUIDELINES_CATEGORY_NUMERAL =
    seqs [Alt GUIDELINES_ROMAN (Cls False [CRange 49 54]), not_before [CWord]]"

definition GUIDELINES_CATEGORY_SOURCE :: regex where
  "GUIDELINES_CATEGORY_SOURCE = alts
    [seqs [WordB, optional (seqs [lit ''criminal'', Alt GUIDELINES_WORD_SPACE (lit ''-''),
         lit ''history'', GUIDELINES_WORD_SPACE]), lit ''category'', GUIDELINES_WORD_SPACE,
       optional (seqs [lit ''of'', GUIDELINES_WORD_SPACE]), GUIDELINES_CATEGORY_NUMERAL],
     seqs [WordB, lit ''CHC'', GUIDELINES_OPTIONAL_SPACE, GUIDELINES_CATEGORY_NUMERAL],
     seqs [WordB, lit ''crim'', optional (lit ''.''), GUIDELINES_WORD_SPACE, lit ''hist'',
       optional (lit ''.''), GUIDELINES_WORD_SPACE, lit ''cat'', optional (lit ''.''),
       GUIDELINES_OPTIONAL_SPACE, GUIDELINES_CATEGORY_NUMERAL]]"

definition GUIDELINES_PAIR_GAP :: regex where
  "GUIDELINES_PAIR_GAP = any_upto 12"

definition GUIDELINES_PAIR_SOURCE :: regex where
  "GUIDELINES_PAIR_SOURCE = alts
    [seqs [GUIDELINES_LEVEL_SOURCE, GUIDELINES_PAIR_GAP, GUIDELINES_CATEGORY_SOURCE],
     seqs [GUIDELINES_CATEGORY_SOURCE, GUIDELINES_PAIR_GAP, GUIDELINES_LEVEL_SOURCE],
     seqs [WordB, digits 1 2, GUIDELINES_OPTIONAL_SPACE, lit ''/'', GUIDELINES_OPTIONAL_SPACE,
       GUIDELINES_ROMAN, WordB]]"

definition GUIDELINES_RESOLUTION_PREFIX_GAP :: regex where
  "GUIDELINES_RESOLUTION_PREFIX_GAP = any_upto 24"

definition GUIDELINES_RESOLUTION_SUFFIX_GAP :: regex where
  "GUIDELINES_RESOLUTION_SUFFIX_GAP = any_upto 12"

definition GUIDELINES_LINK :: regex where
  "GUIDELINES_LINK = alts
    [rx_chars [8594], lit ''->'', lit ''=>'', lit ''='', lit '':'',
     seqs [WordB, phrases GUIDELINES_RESOLVING_LINKS, WordB]]"

definition GUIDELINES_LEVEL_AND_CATEGORY_TO_RANGE :: regex where
  "GUIDELINES_LEVEL_AND_CATEGORY_TO_RANGE = Alt
    (seqs [GUIDELINES_PAIR_SOURCE, GUIDELINES_RESOLUTION_PREFIX_GAP, GUIDELINES_LINK,
       GUIDELINES_RESOLUTION_SUFFIX_GAP, GUIDELINES_RANGE_SOURCE])
    (seqs [GUIDELINES_RANGE_SOURCE, GUIDELINES_RESOLUTION_PREFIX_GAP, WordB, words [''for'', ''at''],
       SP, DETERMINER, GUIDELINES_PAIR_SOURCE])"

definition GUIDELINES_POSSESSIVE_SUBJECT :: regex where
  "GUIDELINES_POSSESSIVE_SUBJECT = alts
    [seqs [WordB, words [''your'', ''his'', ''her'', ''their''], SP],
     seqs [WordB, words [''my'', ''your'', ''the''], SP, lit ''client'', APOSTROPHE, lit ''s'', SP],
     seqs [WordB, lit ''the'', SP, lit ''defendant'', APOSTROPHE, lit ''s'', SP]]"

definition GUIDELINES_MATTER_MODIFIER :: regex where
  "GUIDELINES_MATTER_MODIFIER = optional (seqs [phrases GUIDELINES_MATTER_MODIFIERS, SP])"

definition GUIDELINES_ASSERTION_LINK :: regex where
  "GUIDELINES_ASSERTION_LINK = Alt (phrases GUIDELINES_RANGE_LINKS) (lit '':'')"

definition GUIDELINES_ASSERTION_TAIL :: regex where  \<comment> \<open>an optional link, then \<open>[\s,:]{1,3}\<close>\<close>
  "GUIDELINES_ASSERTION_TAIL =
    seqs [optional (seqs [SP, GUIDELINES_ASSERTION_LINK]), Rep True 1 3 (Cls False [CSpace, CChar 44, CChar 58])]"

definition GUIDELINES_RANGE_ASSERTED :: regex where
  "GUIDELINES_RANGE_ASSERTED = seqs [alts
    [seqs [GUIDELINES_POSSESSIVE_SUBJECT, GUIDELINES_MATTER_MODIFIER, lit ''range'', GUIDELINES_ASSERTION_TAIL],
     seqs [WordB, lit ''the'', SP, phrases GUIDELINES_MATTER_MODIFIERS, SP, lit ''range'',
       GUIDELINES_ASSERTION_TAIL],
     seqs [WordB, phrases GUIDELINES_MATTER_LEADS, SP,
       optional (seqs [alts [seqs [lit ''a'', SP, lit ''range'', SP, lit ''of''], lit ''about'', lit ''roughly''], SP])],
     seqs [WordB, lit ''the'', SP, lit ''range'', SP, lit ''for'', SP,
       alts [lit ''him'', lit ''her'', lit ''them'', seqs [lit ''your'', SP, lit ''client''],
         seqs [lit ''the'', SP, lit ''defendant''], seqs [lit ''the'', SP, lit ''client'']],
       SP, phrases GUIDELINES_RANGE_LINKS, SP]], GUIDELINES_RANGE_SOURCE]"

definition GUIDELINES_LIST_NUMBER :: regex where
  "GUIDELINES_LIST_NUMBER = alts [digits 1 2, phrases NUMBER_WORDS, phrases NUMBER_COMPOUNDS]"

definition GUIDELINES_POINT_COUNT_SOURCE :: regex where
  "GUIDELINES_POINT_COUNT_SOURCE =
    seqs [MARK, not_after [CWord, CChar 47],
      alts [digits 1 2, phrases NUMBER_WORDS, phrases NUMBER_COMPOUNDS],
      optional (seqs [SP, lit ''criminal'', SP, lit ''history'']), SP, lit ''point'',
      optional (lit ''s''), MARK, not_before [CWord, CChar 47]]"

definition GUIDELINES_SENTENCE_BREAK :: regex where
  "GUIDELINES_SENTENCE_BREAK =
    Alt (seqs [chars [46, 33, 63], Alt (Cls False [CSpace]) LineEnd]) (chars [10])"

definition GUIDELINES_CHAIN_GAP_CHARS :: nat where
  "GUIDELINES_CHAIN_GAP_CHARS = 60"

definition GUIDELINES_POINT_GAP_CHARS :: nat where
  "GUIDELINES_POINT_GAP_CHARS = 30"

definition sentence_gap :: "nat \<Rightarrow> regex" where
  \<comment> \<open>\<open>(?:(?!GUIDELINES_SENTENCE_BREAK)[\s\S]){0,n}?\<close>\<close>
  "sentence_gap n =
    Rep False 0 n (seqs [Look False GUIDELINES_SENTENCE_BREAK, Cls False [CSpace, CNotSpace]])"

definition GUIDELINES_CHAINED_TOTAL_PREFIX :: regex where
  "GUIDELINES_CHAINED_TOTAL_PREFIX =
    seqs [GUIDELINES_LEVEL_SOURCE, sentence_gap GUIDELINES_CHAIN_GAP_CHARS, WordB, lit ''for'', SP,
      lit ''a'', SP, lit ''total'', optional (seqs [SP, lit ''offense'', SP, lit ''level'']),
      optional (seqs [SP, lit ''of'']), SP,
      Look True (seqs [MARK, digits 1 2, not_before [CDigit],
        Look False (seqs [SP, WordB, phrases GUIDELINES_UNIT_WORDS, WordB]), MARK,
        Rep True 0 3 (chars [32, 9]),
        alts [chars [46, 33, 63, 44, 59, 58], chars [10], LineEnd]])]"

definition GUIDELINES_CHAINED_TOTAL_SOURCE :: regex where
  "GUIDELINES_CHAINED_TOTAL_SOURCE =
    seqs [GUIDELINES_CHAINED_TOTAL_PREFIX, MARK, Group ''result'' (seqs [digits 1 2, not_before [CDigit]])]"

definition GUIDELINES_CHAINED_TOTAL_FORM :: regex where
  "GUIDELINES_CHAINED_TOTAL_FORM =
    seqs [not_after [CWord, CChar 47], GUIDELINES_CHAINED_TOTAL_SOURCE, not_before [CWord, CChar 47]]"

definition GUIDELINES_TOTAL_WORD_PREFIX :: regex where
  "GUIDELINES_TOTAL_WORD_PREFIX =
    seqs [WordB, phrases GUIDELINES_TOTAL_WORDS, SP, optional (seqs [lit ''offense'', SP]), lit ''level'', alts
      [seqs [SP, WordB, phrases GUIDELINES_LEVEL_LINKS, WordB,
         Look False (seqs [SP, WordB, phrases GUIDELINES_COMPARATIVES, WordB]),
         optional (seqs [SP, WordB, phrases GUIDELINES_LINK_ADVERBS, WordB]), SP,
         optional (seqs [lit ''level'', SP])],
       seqs [spaces 0 3, alts [rx_chars [8594], lit ''->'', lit ''=>'', lit ''='', lit '':''], spaces 0 3,
         optional (seqs [lit ''level'', SP])],
       SP]]"

definition GUIDELINES_PLACING_PREFIX :: regex where
  "GUIDELINES_PLACING_PREFIX =
    seqs [WordB, phrases GUIDELINES_PLACING_VERBS, SP, phrases GUIDELINES_PLACED_OBJECTS, SP, lit ''at'',
      optional (seqs [SP, words [''the'', ''a'', ''an'']]),
      optional (seqs [SP, WordB, phrases GUIDELINES_TOTAL_WORDS, WordB]),
      optional (seqs [SP, lit ''offense'']), SP, lit ''level'', optional (seqs [SP, lit ''of'']), SP]"

definition level_result :: "string option \<Rightarrow> regex" where
  "level_result grp =
    (let number = seqs [digits 1 2, not_before [CDigit]];
         captured = (case grp of Some name \<Rightarrow> Group name number | None \<Rightarrow> number)
     in seqs [MARK, not_after [CChar 36], captured,
          Look False (seqs [SP, WordB, phrases GUIDELINES_TRAILING_COMPARATIVES, WordB])])"

definition GUIDELINES_LEVEL_TOTAL :: regex where
  "GUIDELINES_LEVEL_TOTAL =
    seqs [alts [GUIDELINES_TOTAL_WORD_PREFIX, GUIDELINES_CHAINED_TOTAL_PREFIX, GUIDELINES_PLACING_PREFIX],
      level_result (Some ''result'')]"

definition GUIDELINES_STATED_TOTAL_SOURCE :: regex where
  "GUIDELINES_STATED_TOTAL_SOURCE =
    seqs [Alt GUIDELINES_TOTAL_WORD_PREFIX GUIDELINES_PLACING_PREFIX, level_result None]"

definition GUIDELINES_STATED_TOTAL_FORM :: regex where
  "GUIDELINES_STATED_TOTAL_FORM =
    seqs [Alt GUIDELINES_TOTAL_WORD_PREFIX GUIDELINES_PLACING_PREFIX, level_result (Some ''result'')]"

definition GUIDELINES_POINTS_TO_CATEGORY :: regex where
  "GUIDELINES_POINTS_TO_CATEGORY = Alt
    (seqs [GUIDELINES_POINT_COUNT_SOURCE, sentence_gap GUIDELINES_POINT_GAP_CHARS, alts
        [seqs [WordB, phrases GUIDELINES_POINT_PLACING_VERBS, SP, phrases GUIDELINES_PLACED_OBJECTS, SP,
           lit ''in'', WordB],
         seqs [WordB, phrases GUIDELINES_POINT_LINKS, WordB],
         seqs [spaces 0 3, alts [rx_chars [8594], lit ''->'', lit ''=>'', lit ''='', lit '':''], spaces 0 3]],
      SP, optional (seqs [words [''the'', ''a'', ''an''], SP]),
      Group ''category_after'' GUIDELINES_CATEGORY_SOURCE])
    (seqs [Group ''category_before'' GUIDELINES_CATEGORY_SOURCE, sentence_gap GUIDELINES_POINT_GAP_CHARS,
      WordB, phrases GUIDELINES_CATEGORY_LEADS, WordB,
      optional (seqs [SP, words [''his'', ''her'', ''their'', ''your'', ''my'', ''the'']]), SP,
      GUIDELINES_POINT_COUNT_SOURCE])"

definition GUIDELINES_POINT_LIST_ITEMS :: nat where
  "GUIDELINES_POINT_LIST_ITEMS = 5"

definition GUIDELINES_POINT_LIST_EXCLUSION_SOURCE :: regex where
  "GUIDELINES_POINT_LIST_EXCLUSION_SOURCE =
    seqs [WordB, GUIDELINES_LIST_NUMBER, Rep True 1 GUIDELINES_POINT_LIST_ITEMS
      (seqs [Alt (seqs [spaces 0 3, lit '','', optional (seqs [SP, words [''or'', ''and'']])])
           (seqs [SP, words [''or'', ''and'']]), SP, GUIDELINES_LIST_NUMBER, WordB])]"

definition GUIDELINES_RANGE_OR_PAIR_SOURCE :: regex where
  "GUIDELINES_RANGE_OR_PAIR_SOURCE = Alt GUIDELINES_RANGE_SOURCE GUIDELINES_PAIR_SOURCE"

definition GUIDELINES_FIGURE_SOURCE :: regex where
  "GUIDELINES_FIGURE_SOURCE =
    alts [GUIDELINES_RANGE_OR_PAIR_SOURCE, GUIDELINES_LEVEL_SOURCE, GUIDELINES_CATEGORY_SOURCE,
      GUIDELINES_POINT_COUNT_SOURCE, GUIDELINES_STATED_TOTAL_SOURCE]"

definition GUIDELINES_FIGURE :: regex where
  "GUIDELINES_FIGURE =
    seqs [not_after [CWord, CChar 47], GUIDELINES_FIGURE_SOURCE, not_before [CWord, CChar 47]]"

definition GUIDELINES_RANGE_FORM :: regex where
  "GUIDELINES_RANGE_FORM =
    seqs [not_after [CWord, CChar 47], GUIDELINES_RANGE_SOURCE, not_before [CWord, CChar 47]]"

definition GUIDELINES_REVERSE_FORM :: regex where
  "GUIDELINES_REVERSE_FORM =
    seqs [not_after [CWord, CChar 47],
      alts [GUIDELINES_RANGE_SOURCE, GUIDELINES_CATEGORY_SOURCE, GUIDELINES_POINT_COUNT_SOURCE],
      not_before [CWord, CChar 47]]"

section \<open>Attribution and the restatement constructions\<close>

definition no_clause_break :: "nat \<Rightarrow> string list \<Rightarrow> regex" where
  "no_clause_break max_chars honorifics =
    (let plain = Cls True (map CChar [46, 44, 59, 58, 33, 63, 10, 8212, 8211]);
         period = (\<lambda>h. let stem = (if last h = CHR 0x2E then butlast h else h)
                    in seqs [Behind True (length stem) (seqs [WordB, lit stem]), lit ''.'']);
         body = (if honorifics = [] then plain else Alt plain (alts (map period honorifics)))
     in Rep False 0 max_chars
          (seqs [Look False (seqs [WordB, phrases CLAUSE_BREAK_WORDS, WordB]),
             Look False (seqs [Cls False [CSpace], lit ''-'']), body]))"

definition CLAUSE_REACH_CHARS :: nat where
  "CLAUSE_REACH_CHARS = 40"

definition NO_CLAUSE_BREAK :: regex where
  "NO_CLAUSE_BREAK = no_clause_break CLAUSE_REACH_CHARS []"

definition FROM_DATE_NO_CLAUSE_BREAK :: regex where
  "FROM_DATE_NO_CLAUSE_BREAK = no_clause_break MAX_GAP_CHARS []"

definition NOUN_WORD_MAX_CHARS :: nat where
  "NOUN_WORD_MAX_CHARS = 20"

definition NOUN_WORD :: regex where
  "NOUN_WORD = seqs [Cls False [CWord],
     optional (seqs [Rep True 0 (NOUN_WORD_MAX_CHARS - 2) (Cls False [CWord, CChar 45]), Cls False [CWord]])]"

definition ATTRIBUTION_OBJECT_GAP :: regex where
  "ATTRIBUTION_OBJECT_GAP = no_clause_break MAX_GAP_CHARS ATTRIBUTION_HONORIFICS"

definition attribution_subject :: "string list \<Rightarrow> string list \<Rightarrow> regex" where
  \<comment> \<open>one alternative of the attribution form: its subjects and its verbs\<close>
  "attribution_subject subjects verbs =
    seqs [DETERMINER, optional (seqs [NOUN_WORD, SP]), WordB, phrases subjects, WordB,
      optional (seqs [APOSTROPHE, lit ''s'']), SP,
      optional (seqs [WordB, phrases ATTRIBUTION_AUXILIARIES, WordB, SP]),
      optional (seqs [WordB, phrases ATTRIBUTION_ADVERBS, WordB, SP]),
      WordB, phrases verbs, WordB, SP, ATTRIBUTION_OBJECT_GAP]"

definition ATTRIBUTION_FORM_SOURCE :: regex where
  "ATTRIBUTION_FORM_SOURCE = Alt
    (attribution_subject ATTRIBUTION_ACTOR_SUBJECTS ATTRIBUTION_PAST_VERBS)
    (attribution_subject ATTRIBUTION_DOCUMENT_SUBJECTS (ATTRIBUTION_PAST_VERBS @ ATTRIBUTION_PRESENT_VERBS))"

definition ATTRIBUTION_FORM :: regex where
  "ATTRIBUTION_FORM = seqs [ATTRIBUTION_FORM_SOURCE, Cls False [CSpace, CNotSpace], TextEnd]"

definition NOUN_PHRASE :: regex where
  "NOUN_PHRASE = seqs [NOUN_WORD, Rep True 0 2 (seqs [SP, NOUN_WORD])]"

definition SUBJECT_WORDS :: nat where
  "SUBJECT_WORDS = 3"

definition POSSESSIVE_WORDS :: nat where
  "POSSESSIVE_WORDS = 2"

definition POSSESSIVE :: regex where
  "POSSESSIVE = optional (seqs [chars [8217, 39], lit ''s''])"

definition SUBJECT_WORD :: regex where
  "SUBJECT_WORD = seqs [Look False (seqs [WordB, phrases CLAUSE_BREAK_WORDS, WordB]), NOUN_WORD]"

section \<open>The sentence-credit family's sources\<close>

definition PERSON_SUBJECT :: regex where
  "PERSON_SUBJECT = alts
    [seqs [WordB, lit ''he'', WordB], seqs [WordB, lit ''she'', WordB], seqs [WordB, lit ''they'', WordB],
     seqs [WordB, lit ''your'', SP, lit ''client'', WordB], seqs [WordB, lit ''the'', SP, lit ''client'', WordB],
     seqs [WordB, lit ''the'', SP, lit ''defendant'', WordB],
     seqs [WordB, lit ''your'', SP, lit ''client'', APOSTROPHE, lit ''s'', SP, NOUN_WORD, WordB]]"

definition YOUR_CLIENT :: regex where  \<comment> \<open>\<open>your client(?:'s)?\<close>\<close>
  "YOUR_CLIENT = seqs [lit ''your'', SP, lit ''client'', optional (seqs [APOSTROPHE, lit ''s''])]"

definition RELEASE_OWNER :: regex where
  "RELEASE_OWNER = optional (Alt
    (seqs [WordB, words [''his'', ''her'', ''their'', ''the'', ''a'', ''an'', ''my''], SP])
    (seqs [WordB, YOUR_CLIENT, SP]))"

definition RELEASE_NOUN :: regex where
  "RELEASE_NOUN = phrases RELEASE_DATE_NOUNS"

definition RELEASE_MODIFIER :: regex where
  "RELEASE_MODIFIER = seqs [phrases RELEASE_DATE_MODIFIERS, optional (seqs [SP, lit ''time''])]"

definition RELEASE_NOUN_PHRASE :: regex where
  "RELEASE_NOUN_PHRASE = seqs [optional (seqs [RELEASE_MODIFIER, SP]), RELEASE_NOUN]"

definition RELEASE_LAST_DAY :: regex where
  "RELEASE_LAST_DAY =
    seqs [lit ''last'', SP, lit ''day'', SP, words [''of'', ''in''], SP,
      alts [lit ''his'', lit ''her'', lit ''their'', lit ''the'', YOUR_CLIENT], SP,
      words [''sentence'', ''term'', ''custody'', ''imprisonment'', ''supervision'', ''confinement'']]"

definition RELEASE_NOUN_ASSERTION :: regex where
  "RELEASE_NOUN_ASSERTION = Alt RELEASE_NOUN_PHRASE RELEASE_LAST_DAY"

definition release_link :: "string list \<Rightarrow> regex" where
  \<comment> \<open>a spaced word link, or a symbol link with up to three spaces on either side\<close>
  "release_link links = Alt
    (seqs [SP, WordB, phrases links, WordB, SP])
    (seqs [spaces 0 3, alts [lit '':'', lit ''=>'', lit ''->'', rx_chars [8594], lit ''='', lit ''|''], spaces 0 3])"

definition RELEASE_LINK :: regex where
  "RELEASE_LINK = release_link RELEASE_LINKS"

definition RELEASE_REVERSE_LINK :: regex where
  "RELEASE_REVERSE_LINK = release_link RELEASE_REVERSE_LINKS"

definition RELEASE_QUALIFIER :: regex where
  "RELEASE_QUALIFIER = optional (seqs [phrases RELEASE_QUALIFIERS, SP])"

definition RELEASE_PREPOSITION :: regex where
  "RELEASE_PREPOSITION =
    phrases [''on'', ''in'', ''by'', ''around'', ''about'', ''on or about'', ''as early as'']"

definition RELEASE_VERB_AUXILIARY :: regex where
  "RELEASE_VERB_AUXILIARY =
    Alt (seqs [SP, WordB, phrases RELEASE_AUXILIARIES, WordB]) (seqs [chars [8217, 39], lit ''ll''])"

definition RELEASE_VERB_PHRASE :: regex where
  "RELEASE_VERB_PHRASE =
    seqs [PERSON_SUBJECT, RELEASE_VERB_AUXILIARY, SP, phrases RELEASE_VERBS,
      optional (seqs [SP, RELEASE_PREPOSITION]), SP, RELEASE_DATE]"

definition EXPIRY_SUBJECT :: regex where
  "EXPIRY_SUBJECT = phrases EXPIRY_SUBJECTS"

definition EXPIRY_VERB :: regex where
  "EXPIRY_VERB = phrases EXPIRY_VERBS"

definition date_preposition :: regex where
  \<comment> \<open>\<open>(?:SP(?:on|in|as SP of|by|around|starting))?\<close>\<close>
  "date_preposition = optional (seqs [SP,
     alts [lit ''on'', lit ''in'', seqs [lit ''as'', SP, lit ''of''], lit ''by'', lit ''around'', lit ''starting'']])"

definition EXPIRY_PATTERN_SOURCE :: regex where
  "EXPIRY_PATTERN_SOURCE =
    seqs [WordB, Rep True 0 2 (seqs [NOUN_WORD, SP]), EXPIRY_SUBJECT, optional (seqs [SP, lit ''itself'']),
      SP, EXPIRY_VERB, date_preposition, SP, RELEASE_DATE]"

definition ELIGIBILITY_LINK :: regex where
  "ELIGIBILITY_LINK =
    phrases [''is'', ''becomes'', ''would be'', ''will be'', ''would become'', ''will become'']"

definition ELIGIBILITY_PLACE :: regex where
  "ELIGIBILITY_PLACE = phrases ELIGIBILITY_PLACES"

definition ELIGIBILITY_PATTERN_SOURCE :: regex where
  "ELIGIBILITY_PATTERN_SOURCE = Alt
    (seqs [WordB, ELIGIBILITY_LINK, WordB, SP, lit ''eligible'', SP, lit ''for'', SP, ELIGIBILITY_PLACE,
       date_preposition, SP, RELEASE_DATE])
    (seqs [WordB, lit ''eligibility'', SP, lit ''date'',
       Alt (seqs [SP, words [''is'', ''of''], SP]) (seqs [lit '':'', spaces 0 3]), RELEASE_DATE])"

definition RELEASE_DATE_PATTERN_SOURCE :: regex where
  "RELEASE_DATE_PATTERN_SOURCE = alts
    [seqs [RELEASE_OWNER, RELEASE_NOUN_ASSERTION, RELEASE_LINK, RELEASE_QUALIFIER, RELEASE_DATE],
     RELEASE_VERB_PHRASE,
     EXPIRY_PATTERN_SOURCE,
     ELIGIBILITY_PATTERN_SOURCE,
     seqs [RELEASE_DATE, RELEASE_REVERSE_LINK, RELEASE_OWNER, RELEASE_NOUN_ASSERTION]]"

definition CREDIT_NOUN :: regex where
  "CREDIT_NOUN = phrases CREDIT_NOUNS"

definition CREDIT_OWNER :: regex where
  "CREDIT_OWNER = optional (Alt
    (seqs [WordB, words [''his'', ''her'', ''their'', ''the''], SP]) (seqs [WordB, YOUR_CLIENT, SP]))"

definition CREDIT_WORD_LINK :: regex where
  "CREDIT_WORD_LINK =
    phrases [''of'', ''is'', ''would be'', ''comes to'', ''totals'', ''total'', ''totaling'', ''amounts to'', ''at'']"

definition CREDIT_LINK :: regex where
  "CREDIT_LINK = Alt (seqs [SP, WordB, CREDIT_WORD_LINK, WordB, SP])
    (seqs [spaces 0 3, chars [61, 58], spaces 0 3])"

definition CREDIT_QUALIFIER :: regex where
  "CREDIT_QUALIFIER = phrases [''about'', ''roughly'', ''approximately'', ''around'']"

definition CREDIT_TERM :: regex where
  "CREDIT_TERM = Alt
    (seqs [WordB, words [''his'', ''her'', ''their'', ''the''], SP, phrases CREDIT_TERM_NOUNS, WordB])
    (seqs [WordB, YOUR_CLIENT, SP, phrases CREDIT_TERM_NOUNS, WordB])"

definition REDUCTION_LEAD :: regex where
  "REDUCTION_LEAD = phrases (take (length REDUCTION_VERBS - 3) REDUCTION_VERBS)"

definition REDUCTION_MOVE :: regex where
  "REDUCTION_MOVE = phrases [''brings'', ''moves'', ''advances'']"

definition CREDIT_COUNT_PATTERN_SOURCE :: regex where
  "CREDIT_COUNT_PATTERN_SOURCE = alts
    [seqs [WordB, SENTENCE_COUNT, MARK, SP, lit ''of'', SP, MARK, CREDIT_NOUN, WordB, RATE_LOOKAHEAD],
     seqs [CREDIT_OWNER, CREDIT_NOUN, CREDIT_LINK, SENTENCE_COUNT],
     seqs [PERSON_SUBJECT, SP, phrases EARNING_VERBS, optional (seqs [SP, CREDIT_QUALIFIER]), SP, SENTENCE_COUNT],
     seqs [REDUCTION_LEAD, SP, CREDIT_TERM, SP, lit ''by'', SP, SENTENCE_COUNT],
     seqs [REDUCTION_MOVE, SP, CREDIT_TERM, SP, optional (Alt (seqs [lit ''forward'', SP]) (seqs [lit ''up'', SP])),
       lit ''by'', SP, SENTENCE_COUNT],
     seqs [WordB, optional (seqs [CREDIT_QUALIFIER, SP]), SENTENCE_COUNT, SP, phrases CREDIT_REMAINING_WORDS, SP,
       words [''on'', ''of''], SP, CREDIT_TERM],
     seqs [PERSON_SUBJECT, SP, words [''has'', ''have''], SP, optional (seqs [CREDIT_QUALIFIER, SP]), SENTENCE_COUNT, SP,
       alts [lit ''left'', lit ''remaining'', seqs [lit ''to'', SP, lit ''go'']], SP, words [''on'', ''of''], SP, CREDIT_TERM],
     seqs [PERSON_SUBJECT, SP, words [''has'', ''have''], SP, optional (seqs [CREDIT_QUALIFIER, SP]), SENTENCE_COUNT, SP,
       lit ''to'', SP, lit ''serve''],
     seqs [WordB, SENTENCE_COUNT, SP, optional (Alt (seqs [lit ''left'', SP]) (seqs [lit ''remaining'', SP])),
       lit ''to'', SP, lit ''serve'', WordB]]"

definition SERVED_COUNT_TAIL :: regex where
  "SERVED_COUNT_TAIL = optional (seqs [SP, lit ''and'', SP, not_after [CWord, CChar 46], NUMBER_VALUE,
     Alt SP (lit ''-''), phrases SERVED_MONTH_UNITS, WordB, RATE_LOOKAHEAD])"

definition SERVED_WORD_AUXILIARIES :: "string list" where
  "SERVED_WORD_AUXILIARIES = filter (\<lambda>auxiliary. auxiliary \<noteq> CHR 0x27 # ''ll'') SERVED_AUXILIARIES"

definition SERVED_AUXILIARY :: regex where
  "SERVED_AUXILIARY =
    Alt (seqs [SP, WordB, phrases SERVED_WORD_AUXILIARIES, WordB]) (seqs [chars [8217, 39], lit ''ll''])"

definition SERVED_TERM_PATTERN_SOURCE :: regex where
  "SERVED_TERM_PATTERN_SOURCE =
    seqs [PERSON_SUBJECT, SERVED_AUXILIARY, SP, phrases SERVED_ACTIONS, SP,
      optional (seqs [phrases SERVED_QUALIFIERS, SP]), SENTENCE_COUNT, SERVED_COUNT_TAIL]"

definition ACTUAL_TIME_PHRASE :: regex where
  "ACTUAL_TIME_PHRASE =
    Alt (seqs [phrases ACTUAL_TIME_WORDS, SP, phrases ACTUAL_TIME_NOUNS]) (seqs [lit ''time'', SP, lit ''served''])"

definition ACTUAL_TIME_LINK :: regex where
  "ACTUAL_TIME_LINK = Alt
    (seqs [SP, WordB, phrases ACTUAL_TIME_LINKS, WordB, SP, optional (seqs [phrases SERVED_QUALIFIERS, SP])])
    (seqs [spaces 0 3, alts [lit ''='', rx_chars [8776], lit '':''], spaces 0 3])"

definition ACTUAL_TIME_PATTERN_SOURCE :: regex where
  "ACTUAL_TIME_PATTERN_SOURCE = seqs [ACTUAL_TIME_PHRASE, ACTUAL_TIME_LINK, SENTENCE_COUNT]"

definition PERCENTAGE_VALUE :: regex where
  "PERCENTAGE_VALUE =
    Alt (seqs [NUMBER_VALUE, SP, lit ''percent'']) (seqs [NUMBER_DIGITS, spaces 0 3, lit ''%''])"

definition percentage_link :: "string list \<Rightarrow> regex" where
  "percentage_link links = Alt (seqs [SP, WordB, phrases links, WordB, SP])
     (seqs [spaces 0 3, alts [lit ''='', rx_chars [8594]], spaces 0 3])"

definition PERCENTAGE_LINK :: regex where
  "PERCENTAGE_LINK = percentage_link PERCENTAGE_RESOLUTION_LINKS"

definition PERCENTAGE_RESOLUTION_LINKS_WITHOUT_OR :: "string list" where
  "PERCENTAGE_RESOLUTION_LINKS_WITHOUT_OR = filter (\<lambda>link. link \<noteq> ''or'') PERCENTAGE_RESOLUTION_LINKS"

definition PERCENTAGE_LINK_WITHOUT_OR :: regex where
  "PERCENTAGE_LINK_WITHOUT_OR = percentage_link PERCENTAGE_RESOLUTION_LINKS_WITHOUT_OR"

definition PERCENTAGE_PATTERN_SOURCE :: regex where
  "PERCENTAGE_PATTERN_SOURCE = Alt
    (seqs [PERCENTAGE_VALUE, SP, lit ''of'', SP, words [''the'', ''his'', ''her'', ''a''], SP, SENTENCE_COUNT,
       any_upto 24, PERCENTAGE_LINK, SENTENCE_COUNT])
    (seqs [PERCENTAGE_VALUE, SP, lit ''of'', SP, words [''the'', ''his'', ''her'', ''a''], SP,
       phrases PERCENTAGE_SUBJECT_WORDS, any_upto 24, PERCENTAGE_LINK_WITHOUT_OR, SENTENCE_COUNT])"

definition TIME_TO_SERVE_PATTERN_SOURCE :: regex where
  "TIME_TO_SERVE_PATTERN_SOURCE =
    alts [SERVED_TERM_PATTERN_SOURCE, ACTUAL_TIME_PATTERN_SOURCE, PERCENTAGE_PATTERN_SOURCE]"

section \<open>Exclusions\<close>

definition YOUR_CLIENTS :: regex where  \<comment> \<open>\<open>your client's\<close>\<close>
  "YOUR_CLIENTS = seqs [lit ''your'', SP, lit ''client'', APOSTROPHE, lit ''s'']"

definition EXPIRY_EXCLUSION_SOURCE :: regex where
  "EXPIRY_EXCLUSION_SOURCE = Alt
    (seqs [WordB, EXPIRY_SUBJECT, optional (seqs [SP, lit ''itself'']),
       optional (seqs [SP, phrases [''will'', ''would'', ''should'', ''is set to'', ''is due to'']]), SP,
       phrases [''expire'', ''expires'', ''runs out'', ''run out''], WordB])
    (seqs [optional (seqs [DATE, any_upto 30, LINK, ARTICLE, SP]), WordB, lit ''last'', SP, lit ''day'', SP,
       words [''of'', ''in''], SP, alts [lit ''his'', lit ''her'', lit ''their'', lit ''the'', YOUR_CLIENTS], SP,
       phrases [''sentence'', ''term'', ''custody'', ''imprisonment'', ''supervision'', ''confinement''], WordB])"

definition DAYS_EXCLUSION_PREFIX :: regex where
  "DAYS_EXCLUSION_PREFIX = optional (seqs [WordB,
     alts [lit ''you'', lit ''we'', lit ''they'', lit ''he'', lit ''she'', seqs [lit ''the'', SP, lit ''client''],
       lit ''counsel''], SP, optional (seqs [lit ''still'', SP]), words [''have'', ''has'', ''had''], SP,
     optional (alts [seqs [lit ''only'', SP], seqs [lit ''about'', SP], seqs [lit ''roughly'', SP]])])"

definition DAYS_EXCLUSION_SOURCE :: regex where
  "DAYS_EXCLUSION_SOURCE = alts
    [seqs [DAYS_EXCLUSION_PREFIX, WordB, DAY_COUNT, SP, lit ''of'', SP, CREDIT_NOUN, WordB],
     seqs [DAYS_EXCLUSION_PREFIX, WordB, DAY_COUNT, SP,
       phrases [''remain'', ''remains'', ''remaining'', ''left'', ''to go''], SP, words [''on'', ''of''], SP,
       alts [lit ''his'', lit ''her'', lit ''their'', lit ''the'', YOUR_CLIENTS], SP,
       phrases [''sentence'', ''term'', ''custody'', ''imprisonment''], WordB],
     seqs [DAYS_EXCLUSION_PREFIX, WordB, DAY_COUNT, SP,
       optional (Alt (seqs [lit ''left'', SP]) (seqs [lit ''remaining'', SP])), lit ''to'', SP, lit ''serve'', WordB]]"

definition ELAPSED_OWNER :: regex where
  "ELAPSED_OWNER = seqs [WordB,
     alts [lit ''his'', lit ''her'', lit ''their'', lit ''the'', lit ''my'', YOUR_CLIENTS]]"

definition ELAPSED_SENTENCE :: regex where
  "ELAPSED_SENTENCE = seqs [words [''on'', ''of'', ''against'', ''toward''], SP, ELAPSED_OWNER, SP, EXPIRY_SUBJECT, WordB]"

definition ELAPSED_EXCLUSION_SOURCE :: regex where
  "ELAPSED_EXCLUSION_SOURCE = alts
    [seqs [optional ELAPSED_LEAVING_LEAD, ELAPSED_COUNT, SP, lit ''of'', SP, CREDIT_NOUN, WordB],
     seqs [ELAPSED_COUNT, ELAPSED_PREDICATE, SP, ELAPSED_SENTENCE],
     seqs [ELAPSED_LEAVING_LEAD, ELAPSED_COUNT, SP, optional (seqs [words [''left'', ''remaining''], SP]),
       Alt (seqs [lit ''to'', SP, lit ''serve'', WordB]) ELAPSED_SENTENCE]]"

definition CAP_EXCLUSION_SOURCE :: regex where
  "CAP_EXCLUSION_SOURCE = seqs [WordB, phrases CAP_WORDS, SP, MARK, SENTENCE_COUNT]"

section \<open>Restatement constructions and reaches\<close>

definition SENTENCE_CREDIT_ECHO_FORM :: regex where
  "SENTENCE_CREDIT_ECHO_FORM =
    seqs [WordB, words [''the'', ''your'', ''his'', ''her'', ''their'', ''that'', ''those'', ''these''], SP, MARK,
      Group ''echo_figure'' SENTENCE_COUNT, MARK, SP, lit ''of'', SP, MARK, CREDIT_NOUN, WordB]"

definition REFUSAL_OPTIONAL_WORDS :: nat where
  "REFUSAL_OPTIONAL_WORDS = 2"

definition REFUSAL_OPTIONAL_WORD_MAX_CHARS :: nat where
  "REFUSAL_OPTIONAL_WORD_MAX_CHARS = 12"

definition REFUSAL_PREFIX :: regex where
  "REFUSAL_PREFIX =
    seqs [WordB, phrases REFUSAL_NEGATIONS, SP,
      Rep True 0 REFUSAL_OPTIONAL_WORDS
        (seqs [Rep True 1 REFUSAL_OPTIONAL_WORD_MAX_CHARS (Cls False [CWord]), SP]),
      phrases REFUSAL_VERBS]"

definition DEADLINE_COUNT_QUESTION_FORM :: regex where
  "DEADLINE_COUNT_QUESTION_FORM =
    seqs [Alt (seqs [WordB, lit ''whether'', SP, NO_CLAUSE_BREAK])
        (seqs [REFUSAL_PREFIX, SP, lit ''if'', SP, NO_CLAUSE_BREAK]),
      Group ''echo_figure'' DEADLINE_COUNT]"

definition FROM_DATE_PREFIXES :: "string list" where
  "FROM_DATE_PREFIXES = map (\<lambda>determiner. ''from '' @ determiner) FROM_DATE_DETERMINERS"

definition FROM_DATE_PREFIX_REACH_CHARS :: nat where
  "FROM_DATE_PREFIX_REACH_CHARS =
     longest_phrase FROM_DATE_PREFIXES + SP_MAX_CHARS +
     POSSESSIVE_WORDS * (NOUN_WORD_MAX_CHARS + 2 + SP_MAX_CHARS)"

definition build_constructions :: "regex \<Rightarrow> string list \<Rightarrow> regex \<times> regex \<times> regex \<times> regex" where
  "build_constructions figure_form_source figure_nouns =
    (let figure_noun = phrases figure_nouns;
         question_form =
           seqs [Alt
             (seqs [Alt (seqs [WordB, lit ''whether'', SP, NO_CLAUSE_BREAK])
                  (seqs [REFUSAL_PREFIX, SP, lit ''if'', SP, NO_CLAUSE_BREAK]),
                figure_form_source, SP, Rep True 0 SUBJECT_WORDS (seqs [SUBJECT_WORD, SP])])
             (seqs [WordB, lit ''if'', SP, DETERMINER,
                optional (seqs [words [''calculated'', ''proposed'', ''filing'', ''supplied''], SP]),
                optional (seqs [figure_noun, SP, optional (seqs [lit ''of'', SP])]), figure_form_source, SP]),
             alts [lit ''is'', lit ''was'', seqs [lit ''would'', SP, lit ''be''], lit ''as''], SP, DETERMINER,
             alts [lit ''correct'', lit ''right'', lit ''accurate'', figure_noun, phrases TIMELINESS_WORDS], WordB];
         refusal_form =
           seqs [REFUSAL_PREFIX, SP, Group ''object'' NO_CLAUSE_BREAK, Group ''refusal_figure'' figure_form_source];
         that_clause =
           seqs [TextStart, optional (seqs [Rep True 0 SUBJECT_WORDS (seqs [SUBJECT_WORD, SP]), lit ''or'', SP,
             phrases REFUSAL_VERBS, SP]), lit ''that'', SP];
         from_date_form =
           seqs [REFUSAL_PREFIX, SP, FROM_DATE_NO_CLAUSE_BREAK, lit ''from'', SP, phrases FROM_DATE_DETERMINERS, SP,
             Rep True 0 POSSESSIVE_WORDS (seqs [SUBJECT_WORD, POSSESSIVE, SP]),
             Group ''from_figure'' figure_form_source, SP, NOUN_PHRASE, WordB]
     in (question_form, refusal_form, that_clause, from_date_form))"

definition REFUSAL_PREFIX_REACH_CHARS :: nat where
  "REFUSAL_PREFIX_REACH_CHARS =
     longest_phrase REFUSAL_NEGATIONS + SP_MAX_CHARS +
     REFUSAL_OPTIONAL_WORDS * (REFUSAL_OPTIONAL_WORD_MAX_CHARS + SP_MAX_CHARS) +
     longest_phrase REFUSAL_VERBS + SP_MAX_CHARS"

definition ATTRIBUTION_REACH_CHARS :: nat where
  "ATTRIBUTION_REACH_CHARS =
     longest_phrase DETERMINER_WORDS + SP_MAX_CHARS + NOUN_WORD_MAX_CHARS + SP_MAX_CHARS +
     longest_phrase (ATTRIBUTION_ACTOR_SUBJECTS @ ATTRIBUTION_DOCUMENT_SUBJECTS) + 2 + SP_MAX_CHARS +
     longest_phrase ATTRIBUTION_AUXILIARIES + SP_MAX_CHARS +
     longest_phrase ATTRIBUTION_ADVERBS + SP_MAX_CHARS +
     longest_phrase (ATTRIBUTION_PAST_VERBS @ ATTRIBUTION_PRESENT_VERBS) + SP_MAX_CHARS + MAX_GAP_CHARS"

definition RESTATEMENT_REACH_CHARS :: nat where
  "RESTATEMENT_REACH_CHARS = REFUSAL_PREFIX_REACH_CHARS + MAX_GAP_CHARS + FROM_DATE_PREFIX_REACH_CHARS"

definition EXEMPTION_REACH_CHARS :: nat where
  "EXEMPTION_REACH_CHARS = RESTATEMENT_REACH_CHARS"

end
