(* ===== verification/Guardrail_Families.thy ===== *)
theory Guardrail_Families
  imports Guardrail_Grammar
begin

text \<open>
  \<open>gideon/guardrail/families.py\<close>: the shapes \<open>Pattern\<close>, \<open>Family\<close> and \<open>Trip\<close>, the compiled
  patterns and confirmation contexts, the normalisers that turn a written date, count or
  Guidelines figure into its key, the three families and the refusal lookups. A normaliser may
  raise (\<open>int\<close> of a month that the pattern accepts through case folding but the table lacks), so
  each returns a \<open>result\<close>.
\<close>

section \<open>Shapes\<close>

record pattern =
  p_id :: string
  p_regex :: regex
  p_needs_context :: bool
  p_exclusion :: "regex option"
  p_yields_to :: "string list"
  p_anchor :: "string list"
  p_rate_form :: "regex option"

record family =
  f_name :: string
  f_refusal :: ustr
  f_patterns :: "pattern list"
  f_pattern_set_version :: nat
  f_figure_form :: regex
  f_reverse_form :: regex
  f_figures :: "ucd \<Rightarrow> ustr \<Rightarrow> ustr set result"
  f_figure_nouns :: "string list"
  f_constructions :: "regex \<times> regex \<times> regex \<times> regex"
  f_confirmation :: "(regex \<times> string) option"
  f_confirmation_displaces :: "string list"
  f_echo_form :: "regex option"
  f_attribution_form :: "regex option"

record trip =
  t_family :: string
  t_pattern_id :: string

definition ERROR_PATTERN_ID :: string where
  "ERROR_PATTERN_ID = ''guardrail/error@1''"

section \<open>Refusals\<close>

definition DEADLINE_REFUSAL :: ustr where
  "DEADLINE_REFUSAL =
     ulit ''GIDEON does not compute or confirm filing deadlines. Working out when'' @
     ulit '' something is due depends on legal judgments '' @
     [8212] @
     ulit '' what started the clock, what stopped it, and for how long '' @
     [8212] @
     ulit '' that a language model cannot make reliably, and the cost of being wrong can'' @
     ulit '' be the claim itself. Calculate this deadline with your unit's deadline'' @
     ulit '' procedure and a person who is responsible for it. GIDEON can explain how the'' @
     ulit '' limitations period works and cite the authorities '' @
     [8212] @
     ulit '' ask it that way.''"

definition GUIDELINES_REFUSAL :: ustr where
  "GUIDELINES_REFUSAL =
     ulit ''GIDEON does not compute or confirm a Sentencing Guidelines range. Turning an'' @
     ulit '' offense level and a criminal history category into a range, and the'' @
     ulit '' adjustments on the way there, are calculations a language model cannot make'' @
     ulit '' reliably '' @
     [8212] @
     ulit '' it has no table to read, only a memory of one, and a range recalled wrong is'' @
     ulit '' measured in months of a person'' @
     [8217] @
     ulit ''s liberty. Work the range out with the Sentencing Table and a person who is'' @
     ulit '' responsible for it. GIDEON can explain how a guideline applies and cite the'' @
     ulit '' authorities '' @
     [8212] @
     ulit '' ask it that way.''"

definition SENTENCE_CREDIT_REFUSAL :: ustr where
  "SENTENCE_CREDIT_REFUSAL =
     ulit ''GIDEON does not compute or confirm sentence credit, good time, or a release'' @
     ulit '' date. When a person will actually be released turns on facts and judgments a'' @
     ulit '' language model does not have '' @
     [8212] @
     ulit '' the judgment as entered, every day of prior custody and what it was already'' @
     ulit '' credited against, the conduct and the programming the Bureau of Prisons will'' @
     ulit '' credit '' @
     [8212] @
     ulit '' and a date given wrong reaches a client as a promise. Get the figure from'' @
     ulit '' the Bureau of Prisons' sentence computation and a person who is responsible'' @
     ulit '' for it. GIDEON can explain how good conduct time, earned time credits, prior'' @
     ulit '' custody credit, and supervised release work and cite the authorities '' @
     [8212] @
     ulit '' ask it that way.''"

section \<open>Compiled patterns\<close>

text \<open>
  \<open>source.replace(RATE_LOOKAHEAD, RATE_OPTIONAL)\<close> rewrites the pattern's text; the look-ahead is
  one subterm of the pattern here, so the rewrite is on terms.
\<close>

primrec replace_rx :: "regex \<Rightarrow> regex \<Rightarrow> regex \<Rightarrow> regex" where
  "replace_rx old new Eps = (if Eps = old then new else Eps)"
| "replace_rx old new (Cls neg items) = (if Cls neg items = old then new else Cls neg items)"
| "replace_rx old new (Seq r q) =
     (if Seq r q = old then new else Seq (replace_rx old new r) (replace_rx old new q))"
| "replace_rx old new (Alt r q) =
     (if Alt r q = old then new else Alt (replace_rx old new r) (replace_rx old new q))"
| "replace_rx old new (Rep g lo hi r) =
     (if Rep g lo hi r = old then new else Rep g lo hi (replace_rx old new r))"
| "replace_rx old new (Many lo r) =
     (if Many lo r = old then new else Many lo (replace_rx old new r))"
| "replace_rx old new (Look p r) = (if Look p r = old then new else Look p (replace_rx old new r))"
| "replace_rx old new (Behind p w r) =
     (if Behind p w r = old then new else Behind p w (replace_rx old new r))"
| "replace_rx old new WordB = (if WordB = old then new else WordB)"
| "replace_rx old new TextStart = (if TextStart = old then new else TextStart)"
| "replace_rx old new TextEnd = (if TextEnd = old then new else TextEnd)"
| "replace_rx old new LineEnd = (if LineEnd = old then new else LineEnd)"
| "replace_rx old new (Lazy lo r) =
     (if Lazy lo r = old then new else Lazy lo (replace_rx old new r))"
| "replace_rx old new LineStart = (if LineStart = old then new else LineStart)"
| "replace_rx old new LineStop = (if LineStop = old then new else LineStop)"
| "replace_rx old new (CaseI r) = (if CaseI r = old then new else CaseI (replace_rx old new r))"
| "replace_rx old new (Group n r) =
     (if Group n r = old then new else Group n (replace_rx old new r))"

primrec contains_rx :: "regex \<Rightarrow> regex \<Rightarrow> bool" where
  "contains_rx old Eps = (Eps = old)"
| "contains_rx old (Cls neg items) = (Cls neg items = old)"
| "contains_rx old (Seq r q) = (Seq r q = old \<or> contains_rx old r \<or> contains_rx old q)"
| "contains_rx old (Alt r q) = (Alt r q = old \<or> contains_rx old r \<or> contains_rx old q)"
| "contains_rx old (Rep g lo hi r) = (Rep g lo hi r = old \<or> contains_rx old r)"
| "contains_rx old (Many lo r) = (Many lo r = old \<or> contains_rx old r)"
| "contains_rx old (Look p r) = (Look p r = old \<or> contains_rx old r)"
| "contains_rx old (Behind p w r) = (Behind p w r = old \<or> contains_rx old r)"
| "contains_rx old WordB = (WordB = old)"
| "contains_rx old TextStart = (TextStart = old)"
| "contains_rx old TextEnd = (TextEnd = old)"
| "contains_rx old LineEnd = (LineEnd = old)"
| "contains_rx old (Lazy lo r) = (Lazy lo r = old \<or> contains_rx old r)"
| "contains_rx old LineStart = (LineStart = old)"
| "contains_rx old LineStop = (LineStop = old)"
| "contains_rx old (CaseI r) = (CaseI r = old \<or> contains_rx old r)"
| "contains_rx old (Group n r) = (Group n r = old \<or> contains_rx old r)"

definition compiled ::
    "string \<Rightarrow> regex \<Rightarrow> bool \<Rightarrow> regex option \<Rightarrow> string list \<Rightarrow> string list \<Rightarrow> pattern" where
  "compiled pattern_id source needs_context exclusion yields_to anchor =
     \<lparr>p_id = pattern_id, p_regex = source, p_needs_context = needs_context,
      p_exclusion = exclusion, p_yields_to = yields_to, p_anchor = anchor,
      p_rate_form =
        (if contains_rx RATE_LOOKAHEAD source
         then Some (replace_rx RATE_LOOKAHEAD RATE_OPTIONAL source) else None)\<rparr>"

definition DATE_NEAR_DEADLINE :: pattern where
  "DATE_NEAR_DEADLINE = compiled ''deadline/date-near-deadline-word@1'' DATE_NEAR_DEADLINE_WORD
     False (Some EXPIRY_EXCLUSION_SOURCE) [] []"

definition DAYS_REMAINING_PATTERN :: pattern where
  "DAYS_REMAINING_PATTERN =
     compiled ''deadline/days-remaining@1'' DAYS_REMAINING False (Some DAYS_EXCLUSION_SOURCE) [] []"

definition DATE_CONFIRMED_PATTERN :: pattern where
  "DATE_CONFIRMED_PATTERN =
     compiled ''deadline/date-confirmed@1'' DATE_CONFIRMED False None [''sentence-credit''] []"

definition DAYS_ELAPSED_PATTERN :: pattern where
  "DAYS_ELAPSED_PATTERN =
     compiled ''deadline/days-elapsed@1'' DAYS_ELAPSED False (Some ELAPSED_EXCLUSION_SOURCE) [] []"

definition GUIDELINES_LEVEL_AND_CATEGORY_TO_RANGE_PATTERN :: pattern where
  "GUIDELINES_LEVEL_AND_CATEGORY_TO_RANGE_PATTERN =
     compiled ''guidelines/level-and-category-to-range@1'' GUIDELINES_LEVEL_AND_CATEGORY_TO_RANGE
       False None [] []"

definition GUIDELINES_RANGE_ASSERTED_PATTERN :: pattern where
  "GUIDELINES_RANGE_ASSERTED_PATTERN =
     compiled ''guidelines/range-asserted@1'' GUIDELINES_RANGE_ASSERTED False None [] []"

definition GUIDELINES_LEVEL_TOTAL_PATTERN :: pattern where
  "GUIDELINES_LEVEL_TOTAL_PATTERN =
     compiled ''guidelines/level-total@1'' GUIDELINES_LEVEL_TOTAL False None [] [''result'']"

definition GUIDELINES_POINTS_TO_CATEGORY_PATTERN :: pattern where
  "GUIDELINES_POINTS_TO_CATEGORY_PATTERN =
     compiled ''guidelines/points-to-category@1'' GUIDELINES_POINTS_TO_CATEGORY False
       (Some GUIDELINES_POINT_LIST_EXCLUSION_SOURCE) [] [''category_after'', ''category_before'']"

definition SENTENCE_CREDIT_RELEASE_DATE_PATTERN :: pattern where
  "SENTENCE_CREDIT_RELEASE_DATE_PATTERN =
     compiled ''sentence-credit/release-date@1'' RELEASE_DATE_PATTERN_SOURCE False None [] []"

definition SENTENCE_CREDIT_CREDIT_COUNT_PATTERN :: pattern where
  "SENTENCE_CREDIT_CREDIT_COUNT_PATTERN =
     compiled ''sentence-credit/credit-count@1'' CREDIT_COUNT_PATTERN_SOURCE False
       (Some CAP_EXCLUSION_SOURCE) [] []"

definition SENTENCE_CREDIT_TIME_TO_SERVE_PATTERN :: pattern where
  "SENTENCE_CREDIT_TIME_TO_SERVE_PATTERN =
     compiled ''sentence-credit/time-to-serve@1'' TIME_TO_SERVE_PATTERN_SOURCE False None [] []"

section \<open>Confirmation contexts\<close>

text \<open>The ask vocabulary the three families share: \<open>is ... correct\<close>, \<open>right?\<close>, \<open>confirm\<close>.\<close>

definition generic_ask :: "regex list" where
  "generic_ask =
    [seqs [WordB, alts [lit ''is'', seqs [lit ''am'', SP, lit ''i''], seqs [lit ''did'', SP, lit ''i''],
         seqs [lit ''have'', SP, lit ''i''], lit ''was'', lit ''are''], WordB, any_upto 60, WordB,
       words [''correct'', ''right'', ''accurate''], WordB],
     seqs [WordB, words [''correct'', ''right'', ''accurate''], spaces 0 3, lit ''?''],
     seqs [WordB, lit ''confirm'', optional (words [''ed'', ''ation'', ''s'']), WordB]]"

definition CONFIRMATION_ASK :: regex where
  "CONFIRMATION_ASK = alts (generic_ask @
    [seqs [WordB, lit ''is'', SP, words [''my'', ''the'', ''this'', ''that'', ''our''], SP,
       optional (seqs [lit ''filing'', SP]), Alt (lit ''deadline'') (seqs [lit ''due'', SP, lit ''date'']), WordB],
     seqs [WordB, lit ''is'', SP, words [''it'', ''this'', ''that''], SP, lit ''due'', WordB],
     seqs [WordB, lit ''my'', SP, optional (seqs [lit ''filing'', SP]),
       Alt (lit ''deadline'') (seqs [lit ''due'', SP, lit ''date'']), SP,
       Alt (lit ''is'') (seqs [lit ''would'', SP, lit ''be'']), WordB]])"

definition CONFIRMATION_CONTEXT :: regex where
  "CONFIRMATION_CONTEXT =
     Alt (seqs [DATE, any_upto 120, CONFIRMATION_ASK]) (seqs [CONFIRMATION_ASK, any_upto 120, DATE])"

definition GUIDELINES_CONFIRMATION_TARGETS :: "string list" where
  "GUIDELINES_CONFIRMATION_TARGETS =
    [''range'', ''guideline range'', ''guidelines range'', ''advisory range'', ''offense level'', ''category'']"

definition GUIDELINES_CONFIRMATION_ASK :: regex where
  "GUIDELINES_CONFIRMATION_ASK = alts (generic_ask @
    [seqs [WordB, lit ''is'', SP, words [''my'', ''the'', ''this'', ''that'', ''our''], SP,
       optional (seqs [words [''guideline'', ''advisory'', ''applicable'', ''sentencing''], SP]), lit ''range'', WordB],
     seqs [WordB, lit ''is'', SP, lit ''that'', SP, optional (seqs [words [''right'', ''correct''], SP]),
       lit ''range'', WordB],
     seqs [not_after [CWord, CChar 47], GUIDELINES_RANGE_OR_PAIR_SOURCE, not_before [CWord, CChar 47],
       spaces 0 3, WordB, words [''right'', ''correct''], WordB, spaces 0 3, lit ''?'']])"

definition GUIDELINES_CONFIRMATION_CONTEXT :: regex where
  "GUIDELINES_CONFIRMATION_CONTEXT = Alt
     (seqs [GUIDELINES_RANGE_OR_PAIR_SOURCE, any_upto 120, GUIDELINES_CONFIRMATION_ASK])
     (seqs [GUIDELINES_CONFIRMATION_ASK, any_upto 120, GUIDELINES_RANGE_OR_PAIR_SOURCE])"

definition GUIDELINES_RANGE_CONFIRMED :: regex where
  "GUIDELINES_RANGE_CONFIRMED =
     confirmed_form GUIDELINES_CONFIRMATION_TARGETS [''is'', ''are'', ''looks'', ''seems'', ''was'']"

definition GUIDELINES_RANGE_CONFIRMED_PATTERN :: pattern where
  "GUIDELINES_RANGE_CONFIRMED_PATTERN =
     compiled ''guidelines/range-confirmed@1'' GUIDELINES_RANGE_CONFIRMED True None [] []"

definition AFFIRMATION_OPEN :: regex where
  "AFFIRMATION_OPEN = seqs [TextStart, spaces 0 20, AFFIRMATION, WordB]"

definition SENTENCE_CREDIT_GENERIC_CONFIRMATION_ASK :: regex where
  "SENTENCE_CREDIT_GENERIC_CONFIRMATION_ASK = alts generic_ask"

definition SENTENCE_CREDIT_FAMILY_SPECIFIC_ASK :: regex where
  "SENTENCE_CREDIT_FAMILY_SPECIFIC_ASK = alts
    [seqs [WordB, lit ''is'', SP,
       alts [lit ''his'', lit ''her'', lit ''their'', lit ''the'',
         seqs [lit ''my'', SP, lit ''client'', APOSTROPHE, lit ''s'']], SP,
       optional (seqs [words [''projected'', ''anticipated'', ''expected''], SP]),
       phrases SENTENCE_CREDIT_CONFIRMATION_FAMILY_NOUNS, WordB],
     seqs [WordB, lit ''is'', SP, lit ''that'', SP, words [''his'', ''the''], SP,
       words [''release'', ''out''], SP, lit ''date'', WordB],
     seqs [WordB, lit ''does'', SP, lit ''he'', SP, lit ''get'', SP, lit ''out'',
       optional (seqs [SP, words [''on'', ''in'']]), WordB]]"

definition SENTENCE_CREDIT_CONFIRMATION_ASK :: regex where
  "SENTENCE_CREDIT_CONFIRMATION_ASK =
     Alt SENTENCE_CREDIT_GENERIC_CONFIRMATION_ASK SENTENCE_CREDIT_FAMILY_SPECIFIC_ASK"

definition SENTENCE_CREDIT_CONFIRMATION_REACH_CHARS :: nat where
  "SENTENCE_CREDIT_CONFIRMATION_REACH_CHARS = 120"

definition SENTENCE_CREDIT_CONFIRMATION_CONTEXT :: regex where
  "SENTENCE_CREDIT_CONFIRMATION_CONTEXT =
    (let reach = any_upto SENTENCE_CREDIT_CONFIRMATION_REACH_CHARS;
         noun = Look True (seqs [reach, WordB, phrases SENTENCE_CREDIT_CONFIRMATION_NOUNS, WordB])
     in alts
       [seqs [Look True (seqs [reach, SENTENCE_FIGURE, reach, SENTENCE_CREDIT_GENERIC_CONFIRMATION_ASK]), noun, reach],
        seqs [Look True (seqs [reach, SENTENCE_CREDIT_GENERIC_CONFIRMATION_ASK, reach, SENTENCE_FIGURE]), noun, reach],
        seqs [Look True (seqs [reach, SENTENCE_FIGURE, reach, SENTENCE_CREDIT_FAMILY_SPECIFIC_ASK]), reach],
        seqs [Look True (seqs [reach, SENTENCE_CREDIT_FAMILY_SPECIFIC_ASK, reach, SENTENCE_FIGURE]), reach]])"

definition SENTENCE_CREDIT_CONFIRMED :: regex where
  "SENTENCE_CREDIT_CONFIRMED =
     confirmed_form SENTENCE_CREDIT_CONFIRMATION_TARGETS [''is'', ''are'', ''looks'', ''seems'']"

definition SENTENCE_CREDIT_CONFIRMED_PATTERN :: pattern where
  "SENTENCE_CREDIT_CONFIRMED_PATTERN =
     compiled ''sentence-credit/release-date-confirmed@1'' SENTENCE_CREDIT_CONFIRMED True None [] []"

section \<open>Dates and counts in canonical form\<close>

definition DATE_FORM :: regex where
  "DATE_FORM = DATE"

definition RELEASE_DATE_FORM :: regex where
  "RELEASE_DATE_FORM = RELEASE_DATE"

text \<open>\<open>name[:3].lower()\<close> over the month names is these twelve abbreviations, numbered from 1.\<close>

definition MONTH_NUMBERS :: "(ustr \<times> ustr) list" where
  "MONTH_NUMBERS =
     zip (map ulit [''jan'', ''feb'', ''mar'', ''apr'', ''may'', ''jun'', ''jul'', ''aug'', ''sep'',
            ''oct'', ''nov'', ''dec''])
         (map decimal2 [1..<13])"

definition get_or :: "('a \<times> 'b) list \<Rightarrow> 'a \<Rightarrow> 'b \<Rightarrow> 'b" where  \<comment> \<open>\<open>d.get(k, v)\<close>\<close>
  "get_or d k v = (case map_of d k of Some x \<Rightarrow> x | None \<Rightarrow> v)"

definition month_number :: "ucd \<Rightarrow> ustr \<Rightarrow> ustr" where
  "month_number U month = get_or MONTH_NUMBERS (py_lower U (take 3 month)) month"

definition DATE_PARTS :: "(bool \<times> regex) list" where  \<comment> \<open>the flag is \<open>re.IGNORECASE\<close>\<close>
  "DATE_PARTS =
    [(True, seqs [Group ''month'' MONTH, SP, Group ''day'' (digits 1 2), ORDINAL, optional (lit '',''),
       SP, Group ''year'' (digits 4 4)]),
     (True, seqs [Group ''day'' (digits 1 2), ORDINAL, SP, optional (seqs [lit ''of'', SP]),
       Group ''month'' MONTH, optional (lit '',''), SP, Group ''year'' (digits 4 4)]),
     (False, seqs [Group ''month'' (digits 1 2), lit ''/'', Group ''day'' (digits 1 2), lit ''/'',
       Group ''year'' (digits 2 4)]),
     (False, seqs [Group ''year'' (digits 4 4), lit ''-'', Group ''month'' (digits 2 2), lit ''-'',
       Group ''day'' (digits 2 2)])]"

primrec normalised_date_by :: "(bool \<times> regex) list \<Rightarrow> ucd \<Rightarrow> ustr \<Rightarrow> ustr result" where
  "normalised_date_by [] U found = Inr found"
| "normalised_date_by (p # ps) U found =
     (case re_fullmatch U (fst p) (snd p) found of
        None \<Rightarrow> normalised_date_by ps U found
      | Some m \<Rightarrow>
          (let month = month_number U (group_text found m ''month'');
               written = group_text found m ''year'';
               year = (if length written = 2 then ulit ''20'' @ written else written)
           in bind_result (py_int U month) (\<lambda>mm.
                map_result (\<lambda>dd. year @ ulit ''-'' @ decimal2 mm @ ulit ''-'' @ decimal2 dd)
                  (py_int U (group_text found m ''day'')))))"

definition normalised_date :: "ucd \<Rightarrow> ustr \<Rightarrow> ustr result" where
  "normalised_date U found = normalised_date_by DATE_PARTS U found"

definition normalized_dates :: "ucd \<Rightarrow> ustr \<Rightarrow> ustr set result" where
  "normalized_dates U text =
     map_result set (collect_results
       (map (\<lambda>m. normalised_date U (group0 text m)) (re_finditer U True DATE_FORM text)))"

definition DEADLINE_COUNT_FORM :: regex where
  "DEADLINE_COUNT_FORM =
     seqs [deadline_count DEADLINE_COUNT_SEPARATOR True, not_before [CWord, CChar 47]]"

definition MONTH_AND_YEAR_PART :: regex where
  "MONTH_AND_YEAR_PART = seqs [Group ''month'' MONTH, SP, Group ''year'' (digits 4 4)]"

definition SEASON_AND_YEAR_PART :: regex where
  "SEASON_AND_YEAR_PART =
    seqs [optional (seqs [lit ''the'', SP]), Group ''season'' (phrases SEASON_WORDS),
      Alt (seqs [optional (seqs [SP, lit ''of'']), SP, Group ''year'' (digits 4 4)])
          (seqs [lit ''-'', Group ''hyphen_year'' (digits 4 4)])]"

definition normalised_release_date :: "ucd \<Rightarrow> ustr \<Rightarrow> ustr result" where
  "normalised_release_date U found =
    (if re_fullmatch U True DATE_FORM found \<noteq> None then normalised_date U found
     else case re_fullmatch U True MONTH_AND_YEAR_PART found of
       Some m \<Rightarrow>
         map_result (\<lambda>mm. group_text found m ''year'' @ ulit ''-'' @ decimal2 mm)
           (py_int U (month_number U (group_text found m ''month'')))
     | None \<Rightarrow>
         (case re_fullmatch U True SEASON_AND_YEAR_PART found of
            Some m \<Rightarrow>
              (let year = group_text found m ''year'';
                   year' = (if year \<noteq> [] then year else group_text found m ''hyphen_year'')
               in Inr (year' @ ulit ''-'' @ py_lower U (group_text found m ''season'')))
          | None \<Rightarrow> Inr found))"

definition NUMBER_WORD_VALUES :: "(ustr \<times> ustr) list" where
  "NUMBER_WORD_VALUES =
    (let simple = zip (map ulit NUMBER_WORDS) (map decimal ([1..<21] @ map (\<lambda>k. 10 * k) [3..<10]))
     in simple @
        concat (map (\<lambda>tens. map (\<lambda>unit.
            (ulit (tens @ ''-'' @ unit),
             take 1 (get_or simple (ulit tens) []) @ get_or simple (ulit unit) []))
          (take 9 NUMBER_WORDS)) (drop 19 NUMBER_WORDS)))"

definition normalised_count :: "ucd \<Rightarrow> ustr \<Rightarrow> match \<Rightarrow> ustr" where
  "normalised_count U text m =
    (let number = group_text text m ''number'';
         canonical_number = get_or NUMBER_WORD_VALUES (py_lower U number) number;
         canonical_number = removesuffix canonical_number (ulit ''.0'')
     in canonical_number @ ulit ''-'' @ rstrip_char 115 (py_lower U (group_text text m ''unit'')))"

definition normalized_sentence_figures :: "ucd \<Rightarrow> ustr \<Rightarrow> ustr set result" where
  "normalized_sentence_figures U text =
     map_result
       (\<lambda>dates. set dates \<union>
          set (map (normalised_count U text) (re_finditer U True SENTENCE_COUNT_FORM text)))
       (collect_results (map (\<lambda>m. normalised_release_date U (group0 text m))
          (re_finditer U True RELEASE_DATE_FORM text)))"

definition normalized_deadline_figures :: "ucd \<Rightarrow> ustr \<Rightarrow> ustr set result" where
  "normalized_deadline_figures U text =
     map_result
       (\<lambda>dates. dates \<union>
          set (map (normalised_count U text) (re_finditer U True DEADLINE_COUNT_FORM text)))
       (normalized_dates U text)"

section \<open>Guidelines figures in canonical form\<close>

definition GUIDELINES_LEVEL_VALUE :: regex where
  "GUIDELINES_LEVEL_VALUE =
    seqs [WordB, words [''level'', ''OL'', ''TOL''], spaces 0 3, optional (seqs [lit ''of'', spaces 0 3]),
      Group ''value'' (digits 1 2), WordB]"

definition GUIDELINES_CATEGORY_VALUE :: regex where
  "GUIDELINES_CATEGORY_VALUE =
    seqs [WordB, alts [lit ''category'', lit ''CHC'', seqs [lit ''cat'', optional (lit ''.'')]], spaces 0 3,
      optional (seqs [lit ''of'', spaces 0 3]),
      Group ''value'' (Alt (words [''VI'', ''IV'', ''V'', ''III'', ''II'', ''I''])
        (Cls False [CRange 49 54])), WordB]"

definition GUIDELINES_CATEGORY_ROMANS :: "(ustr \<times> ustr) list" where
  "GUIDELINES_CATEGORY_ROMANS =
    [(ulit ''1'', ulit ''I''), (ulit ''2'', ulit ''II''), (ulit ''3'', ulit ''III''),
     (ulit ''4'', ulit ''IV''), (ulit ''5'', ulit ''V''), (ulit ''6'', ulit ''VI'')]"

definition GUIDELINES_POINT_VALUE :: regex where
  "GUIDELINES_POINT_VALUE =
    seqs [MARK, Group ''value'' (alts [digits 1 2, phrases NUMBER_COMPOUNDS, phrases NUMBER_WORDS]),
      optional (seqs [SP, lit ''criminal'', SP, lit ''history'']), SP, lit ''point'', optional (lit ''s''), MARK]"

definition category_roman :: "ucd \<Rightarrow> ustr \<Rightarrow> match \<Rightarrow> ustr" where
  "category_roman U found category =
    (let value = py_upper U (group_text found category ''value'')
     in get_or GUIDELINES_CATEGORY_ROMANS value value)"

definition GUIDELINES_SHORTHAND :: regex where
  "GUIDELINES_SHORTHAND =
    seqs [Many 0 (Cls False [CSpace]), Group ''1'' (digits 1 2), GUIDELINES_OPTIONAL_SPACE, lit ''/'',
      GUIDELINES_OPTIONAL_SPACE, Group ''2'' (words [''VI'', ''IV'', ''V'', ''III'', ''II'', ''I'']),
      Many 0 (Cls False [CSpace])]"

definition pair_keys :: "nat \<Rightarrow> ustr \<Rightarrow> ustr list" where
  "pair_keys level roman =
    [decimal level @ ulit ''/'' @ roman, ulit ''level-'' @ decimal level, ulit ''category-'' @ roman]"

definition nth_int :: "ucd \<Rightarrow> ustr list \<Rightarrow> nat \<Rightarrow> nat result" where  \<comment> \<open>\<open>int(numbers[i])\<close>\<close>
  "nth_int U numbers i =
     (if i < length numbers then py_int U (numbers ! i) else Inl ''IndexError'')"

definition normalised_guidelines_figure :: "ucd \<Rightarrow> ustr \<Rightarrow> ustr list result" where
  "normalised_guidelines_figure U found =
    (if re_fullmatch U True GUIDELINES_RANGE_FORM found \<noteq> None then
       (let numbers = map (group0 found) (re_finditer U False (digits 1 3) found)
        in if contains_sub (py_lower U found) (ulit ''life'')
           then map_result (\<lambda>a. [decimal a @ ulit ''-life'']) (nth_int U numbers 0)
           else bind_result (nth_int U numbers 0) (\<lambda>a.
             map_result (\<lambda>b. [decimal a @ ulit ''-'' @ decimal b]) (nth_int U numbers 1)))
     else case re_fullmatch U True GUIDELINES_SHORTHAND found of
       Some shorthand \<Rightarrow>
         map_result (\<lambda>level. pair_keys level (py_upper U (group_text found shorthand ''2'')))
           (py_int U (group_text found shorthand ''1''))
     | None \<Rightarrow>
    (case re_fullmatch U True GUIDELINES_STATED_TOTAL_FORM found of
       Some tot \<Rightarrow>
         map_result (\<lambda>n. [ulit ''level-'' @ decimal n]) (py_int U (group_text found tot ''result''))
     | None \<Rightarrow>
    (case (re_search U True GUIDELINES_LEVEL_VALUE found, re_search U True GUIDELINES_CATEGORY_VALUE found) of
       (Some level, Some category) \<Rightarrow>
         map_result (\<lambda>n. pair_keys n (category_roman U found category))
           (py_int U (group_text found level ''value''))
     | (Some level, None) \<Rightarrow>
         map_result (\<lambda>n. [ulit ''level-'' @ decimal n]) (py_int U (group_text found level ''value''))
     | (None, Some category) \<Rightarrow> Inr [ulit ''category-'' @ category_roman U found category]
     | (None, None) \<Rightarrow>
    (case re_fullmatch U True GUIDELINES_POINT_VALUE found of
       Some point_count \<Rightarrow>
         (let number = group_text found point_count ''value''
          in Inr [get_or NUMBER_WORD_VALUES (py_lower U number) number @ ulit ''-point''])
     | None \<Rightarrow> Inr [found]))))"

definition normalized_figures :: "ucd \<Rightarrow> ustr \<Rightarrow> ustr set result" where
  "normalized_figures U text =
    bind_result
      (collect_results (map (\<lambda>m. normalised_guidelines_figure U (group0 text m))
         (re_finditer U True GUIDELINES_FIGURE text)))
      (\<lambda>figures. map_result (\<lambda>totals. set (concat figures) \<union> set totals)
        (collect_results (map
           (\<lambda>m. map_result (\<lambda>n. ulit ''level-'' @ decimal n) (py_int U (group_text text m ''result'')))
           (re_finditer U True GUIDELINES_CHAINED_TOTAL_FORM text))))"

section \<open>The families\<close>

definition DEADLINE_FAMILY :: family where
  "DEADLINE_FAMILY =
    \<lparr>f_name = ''deadline'', f_refusal = DEADLINE_REFUSAL,
     f_patterns = [DATE_NEAR_DEADLINE, DAYS_REMAINING_PATTERN, DATE_CONFIRMED_PATTERN, DAYS_ELAPSED_PATTERN],
     f_pattern_set_version = 2, f_figure_form = DEADLINE_FIGURE_FORM, f_reverse_form = DATE_FORM,
     f_figures = normalized_deadline_figures, f_figure_nouns = DEADLINE_FIGURE_NOUNS,
     f_constructions = build_constructions DEADLINE_FIGURE DEADLINE_FIGURE_NOUNS,
     f_confirmation = Some (CONFIRMATION_CONTEXT, ''deadline/date-confirmed@1''),
     f_confirmation_displaces = [], f_echo_form = Some DEADLINE_COUNT_QUESTION_FORM,
     f_attribution_form = None\<rparr>"

definition GUIDELINES_FAMILY :: family where
  "GUIDELINES_FAMILY =
    \<lparr>f_name = ''guidelines'', f_refusal = GUIDELINES_REFUSAL,
     f_patterns =
       [GUIDELINES_LEVEL_AND_CATEGORY_TO_RANGE_PATTERN, GUIDELINES_RANGE_ASSERTED_PATTERN,
        GUIDELINES_RANGE_CONFIRMED_PATTERN, GUIDELINES_LEVEL_TOTAL_PATTERN,
        GUIDELINES_POINTS_TO_CATEGORY_PATTERN],
     f_pattern_set_version = 2, f_figure_form = GUIDELINES_FIGURE,
     f_reverse_form = GUIDELINES_REVERSE_FORM, f_figures = normalized_figures,
     f_figure_nouns = GUIDELINES_FIGURE_NOUNS,
     f_constructions = build_constructions GUIDELINES_FIGURE_SOURCE GUIDELINES_FIGURE_NOUNS,
     f_confirmation = Some (GUIDELINES_CONFIRMATION_CONTEXT, ''guidelines/range-confirmed@1''),
     f_confirmation_displaces = [], f_echo_form = None, f_attribution_form = Some ATTRIBUTION_FORM\<rparr>"

definition SENTENCE_CREDIT_FAMILY :: family where
  "SENTENCE_CREDIT_FAMILY =
    \<lparr>f_name = ''sentence-credit'', f_refusal = SENTENCE_CREDIT_REFUSAL,
     f_patterns =
       [SENTENCE_CREDIT_RELEASE_DATE_PATTERN, SENTENCE_CREDIT_CREDIT_COUNT_PATTERN,
        SENTENCE_CREDIT_TIME_TO_SERVE_PATTERN, SENTENCE_CREDIT_CONFIRMED_PATTERN],
     f_pattern_set_version = 1, f_figure_form = SENTENCE_FIGURE_FORM,
     f_reverse_form = RELEASE_DATE_FORM, f_figures = normalized_sentence_figures,
     f_figure_nouns = SENTENCE_FIGURE_NOUNS,
     f_constructions = build_constructions SENTENCE_FIGURE SENTENCE_FIGURE_NOUNS,
     f_confirmation =
       Some (SENTENCE_CREDIT_CONFIRMATION_CONTEXT, ''sentence-credit/release-date-confirmed@1''),
     f_confirmation_displaces = [''deadline''], f_echo_form = Some SENTENCE_CREDIT_ECHO_FORM,
     f_attribution_form = Some ATTRIBUTION_FORM\<rparr>"

definition FAMILIES :: "family list" where
  "FAMILIES = [DEADLINE_FAMILY, GUIDELINES_FAMILY, SENTENCE_CREDIT_FAMILY]"

definition REFUSALS :: "ustr list" where
  "REFUSALS = map f_refusal FAMILIES"

definition REFUSAL_BY_FAMILY :: "(string \<times> ustr) list" where
  "REFUSAL_BY_FAMILY = map (\<lambda>f. (f_name f, f_refusal f)) FAMILIES"

text \<open>The argument of \<open>refusal_for\<close> is \<open>None\<close> for any object that is not a string.\<close>

definition refusal_for :: "string option \<Rightarrow> ustr" where
  "refusal_for family_name =
     (case family_name of
        Some n \<Rightarrow> get_or REFUSAL_BY_FAMILY n DEADLINE_REFUSAL
      | None \<Rightarrow> DEADLINE_REFUSAL)"

end
