(* ===== verification/Py_Effects.thy ===== *)
theory Py_Effects
  imports Gideon_Prelude
begin

text \<open>
  Values decoded from JSON and the effects of a Python method. A \<open>json\<close> object is the association
  list of its keys in insertion order, as a \<open>dict\<close> keeps them; a float is kept as the text it was
  written with. A method of a mutable object is a \<open>prog\<close>: from a state it gives \<open>None\<close> when it
  never returns, else the state it leaves behind together with the value it returned or the exception
  it raised. A raise keeps the assignments made before it.
\<close>

section \<open>JSON values\<close>

datatype json =
    JNull
  | JBool bool
  | JInt int
  | JFloat ustr
  | JStr ustr
  | JArr "json list"
  | JObj "(ustr \<times> json) list"

type_synonym jobject = "(ustr \<times> json) list"

definition jget :: "string \<Rightarrow> jobject \<Rightarrow> json option" where  \<comment> \<open>\<open>d.get(k)\<close>\<close>
  "jget k d = map_of d (ulit k)"

definition has_key :: "string \<Rightarrow> jobject \<Rightarrow> bool" where
  "has_key k d = (jget k d \<noteq> None)"

primrec jset_key :: "ustr \<Rightarrow> json \<Rightarrow> jobject \<Rightarrow> jobject" where
  "jset_key k v [] = [(k, v)]"
| "jset_key k v (p # d) = (if fst p = k then (k, v) # d else p # jset_key k v d)"

definition jset :: "string \<Rightarrow> json \<Rightarrow> jobject \<Rightarrow> jobject" where  \<comment> \<open>\<open>d[k] = v\<close>\<close>
  "jset k v d = jset_key (ulit k) v d"

definition jdel :: "string \<Rightarrow> jobject \<Rightarrow> jobject" where
  "jdel k d = filter (\<lambda>p. fst p \<noteq> ulit k) d"

definition jpick :: "string list \<Rightarrow> jobject \<Rightarrow> jobject" where
  \<comment> \<open>\<open>{key: d[key] for key in keys if key in d}\<close>\<close>
  "jpick keys d =
     concat (map (\<lambda>k. case jget k d of Some v \<Rightarrow> [(ulit k, v)] | None \<Rightarrow> []) keys)"

primrec as_str :: "json \<Rightarrow> ustr option" where
  "as_str JNull = None"
| "as_str (JBool b) = None"
| "as_str (JInt i) = None"
| "as_str (JFloat f) = None"
| "as_str (JStr s) = Some s"
| "as_str (JArr xs) = None"
| "as_str (JObj d) = None"

primrec as_obj :: "json \<Rightarrow> jobject option" where
  "as_obj JNull = None"
| "as_obj (JBool b) = None"
| "as_obj (JInt i) = None"
| "as_obj (JFloat f) = None"
| "as_obj (JStr s) = None"
| "as_obj (JArr xs) = None"
| "as_obj (JObj d) = Some d"

primrec as_arr :: "json \<Rightarrow> json list option" where
  "as_arr JNull = None"
| "as_arr (JBool b) = None"
| "as_arr (JInt i) = None"
| "as_arr (JFloat f) = None"
| "as_arr (JStr s) = None"
| "as_arr (JArr xs) = Some xs"
| "as_arr (JObj d) = None"

definition jget_str :: "string \<Rightarrow> jobject \<Rightarrow> ustr option" where
  "jget_str k d = Option.bind (jget k d) as_str"

lemma as_str_Some [simp]: "as_str j = Some s \<longleftrightarrow> j = JStr s"
  by (cases j) auto

lemma as_obj_Some [simp]: "as_obj j = Some d \<longleftrightarrow> j = JObj d"
  by (cases j) auto

lemma as_arr_Some [simp]: "as_arr j = Some xs \<longleftrightarrow> j = JArr xs"
  by (cases j) auto

lemma fst_set_jset_key: "fst ` set (jset_key k v d) = insert k (fst ` set d)"
  by (induction d) auto

lemma map_of_jset_key [simp]: "map_of (jset_key k v d) = (map_of d)(k \<mapsto> v)"
  by (induction d) (auto simp: fun_eq_iff)

lemma jget_jset: "jget k (jset k' v d) = (if k = k' then Some v else jget k d)"
  by (simp add: jget_def jset_def)

lemma jget_Nil [simp]: "jget k [] = None"
  by (simp add: jget_def)

lemma jget_Cons_same [simp]: "jget k ((ulit k, v) # d) = Some v"
  by (simp add: jget_def)

lemma jget_Cons_other [simp]: "k \<noteq> k' \<Longrightarrow> jget k ((ulit k', v) # d) = jget k d"
  by (simp add: jget_def)

lemma jpick_keys: "fst ` set (jpick keys d) \<subseteq> ulit ` set keys"
  by (auto simp: jpick_def split: option.splits)

lemma jpick_sub: "(k, v) \<in> set (jpick keys d) \<Longrightarrow> map_of d k = Some v"
  by (auto simp: jpick_def jget_def split: option.splits)

lemma jget_Cons: "jget k ((ulit k', v) # d) = (if k = k' then Some v else jget k d)"
  by (simp add: jget_def)

lemma jget_jpick: "jget k (jpick keys d) = (if k \<in> set keys then jget k d else None)"
  by (induction keys) (auto simp: jpick_def jget_Cons split: option.splits)

lemma jdel_absent [simp]: "jget k (jdel k d) = None"
  by (auto simp: jget_def jdel_def map_of_eq_None_iff)

lemma jget_jdel_other: "k \<noteq> k' \<Longrightarrow> jget k (jdel k' d) = jget k d"
  by (induction d) (auto simp: jget_def jdel_def)

section \<open>Methods over a mutable state\<close>

type_synonym ('s, 'a) prog = "'s \<Rightarrow> ('s \<times> 'a result) option"

definition ret :: "'a \<Rightarrow> ('s, 'a) prog" where
  "ret x s = Some (s, Inr x)"

definition raise :: "exn \<Rightarrow> ('s, 'a) prog" where
  "raise e s = Some (s, Inl e)"

definition fetch :: "('s \<Rightarrow> 'a) \<Rightarrow> ('s, 'a) prog" where
  "fetch f s = Some (s, Inr (f s))"

definition assign :: "('s \<Rightarrow> 's) \<Rightarrow> ('s, unit) prog" where
  "assign f s = Some (f s, Inr ())"

definition lift_result :: "'a result \<Rightarrow> ('s, 'a) prog" where
  "lift_result r s = Some (s, r)"

definition bindp :: "('s, 'a) prog \<Rightarrow> ('a \<Rightarrow> ('s, 'b) prog) \<Rightarrow> ('s, 'b) prog" where
  "bindp m f s =
     (case m s of
        None \<Rightarrow> None
      | Some (s', Inl e) \<Rightarrow> Some (s', Inl e)
      | Some (s', Inr x) \<Rightarrow> f x s')"

definition catch :: "('s, 'a) prog \<Rightarrow> (exn \<Rightarrow> ('s, 'a) prog) \<Rightarrow> ('s, 'a) prog" where
  "catch m h s =
     (case m s of
        None \<Rightarrow> None
      | Some (s', Inl e) \<Rightarrow> h e s'
      | Some (s', Inr x) \<Rightarrow> Some (s', Inr x))"

definition on_part :: "('s \<Rightarrow> 't) \<Rightarrow> ('t \<Rightarrow> 's \<Rightarrow> 's) \<Rightarrow> ('t, 'a) prog \<Rightarrow> ('s, 'a) prog" where
  \<comment> \<open>a call on an object that is a field of the state\<close>
  "on_part get_part put_part m s =
     (case m (get_part s) of None \<Rightarrow> None | Some (t, r) \<Rightarrow> Some (put_part t s, r))"

definition skip :: "('s, unit) prog" where
  "skip = ret ()"

definition when_p :: "bool \<Rightarrow> ('s, unit) prog \<Rightarrow> ('s, unit) prog" where
  "when_p b m = (if b then m else skip)"

text \<open>\<open>keeps P Q m\<close>: from a state of \<open>P\<close>, \<open>m\<close> leaves one of \<open>P\<close> whether it returns or raises, and
  what it returns satisfies \<open>Q\<close> there.\<close>

definition keeps :: "('s \<Rightarrow> bool) \<Rightarrow> ('a \<Rightarrow> 's \<Rightarrow> bool) \<Rightarrow> ('s, 'a) prog \<Rightarrow> bool" where
  "keeps P Q m =
     (\<forall>s s' r. P s \<longrightarrow> m s = Some (s', r) \<longrightarrow> P s' \<and> (\<forall>x. r = Inr x \<longrightarrow> Q x s'))"

lemma keepsI:
  "(\<And>s s' r. P s \<Longrightarrow> m s = Some (s', r) \<Longrightarrow> P s' \<and> (\<forall>x. r = Inr x \<longrightarrow> Q x s')) \<Longrightarrow> keeps P Q m"
  by (simp add: keeps_def)

lemma keepsD:
  "keeps P Q m \<Longrightarrow> P s \<Longrightarrow> m s = Some (s', r) \<Longrightarrow> P s' \<and> (\<forall>x. r = Inr x \<longrightarrow> Q x s')"
  by (simp add: keeps_def)

lemmas prog_defs =
  ret_def raise_def fetch_def assign_def lift_result_def bindp_def catch_def on_part_def
  skip_def when_p_def

lemma bindp_ret [simp]: "bindp (ret x) f = f x"
  by (simp add: fun_eq_iff prog_defs)

lemma bindp_raise [simp]: "bindp (raise e) f = raise e"
  by (simp add: fun_eq_iff prog_defs)

lemma bindp_assoc: "bindp (bindp m f) g = bindp m (\<lambda>x. bindp (f x) g)"
  by (auto simp: fun_eq_iff prog_defs split: option.splits sum.splits)

lemma bindp_Some_iff:
  "bindp m f s = Some (s', r) \<longleftrightarrow>
     (\<exists>e. m s = Some (s', Inl e) \<and> r = Inl e) \<or>
     (\<exists>s1 x. m s = Some (s1, Inr x) \<and> f x s1 = Some (s', r))"
  by (auto simp: bindp_def split: option.splits sum.splits)

lemma catch_Some_iff:
  "catch m h s = Some (s', r) \<longleftrightarrow>
     (\<exists>x. m s = Some (s', Inr x) \<and> r = Inr x) \<or>
     (\<exists>s1 e. m s = Some (s1, Inl e) \<and> h e s1 = Some (s', r))"
  by (auto simp: catch_def split: option.splits sum.splits)

lemma keeps_ret [intro]: "(\<And>s. P s \<Longrightarrow> Q x s) \<Longrightarrow> keeps P Q (ret x)"
  by (auto simp: keeps_def ret_def)

lemma keeps_raise [intro]: "keeps P Q (raise e)"
  by (auto simp: keeps_def raise_def)

lemma keeps_bindp:
  "keeps P R m \<Longrightarrow> (\<And>x. keeps (\<lambda>s. P s \<and> R x s) (\<lambda>y s. P s \<longrightarrow> Q y s) (f x)) \<Longrightarrow>
     (\<And>x. keeps P (\<lambda>_ _. True) (f x)) \<Longrightarrow> keeps P Q (bindp m f)"
  unfolding keeps_def bindp_Some_iff by blast

lemma keeps_catch:
  "keeps P Q m \<Longrightarrow> (\<And>e. keeps P Q (h e)) \<Longrightarrow> keeps P Q (catch m h)"
  unfolding keeps_def catch_Some_iff by blast

end
