(* ===== verification/Guardrail_Judge.thy ===== *)
theory Guardrail_Judge
  imports Guardrail_Families Py_Effects "HOL-Library.Code_Target_Nat"
begin

text \<open>
  \<open>gideon/guardrail/judge.py\<close>: the restatement and attribution tests, \<open>judge_text\<close>, the message
  readers and the entries over a rendered message. The tuple \<open>FAMILIES\<close> is an argument, so that what
  is proved of the judge holds for any families; the service passes \<open>FAMILIES\<close>. A family's
  normaliser may raise, so a judgement is a \<open>result\<close>.
\<close>

section \<open>Judgements\<close>

record rconstraint =
  c_start :: nat
  c_end :: nat

datatype verdict = Tripped trip | Constrained "rconstraint list" | Clear
  \<comment> \<open>a \<open>Trip\<close>, a tuple of constraints, or \<open>None\<close>\<close>

type_synonym supplied = "string \<Rightarrow> ustr set option"

definition NO_SUPPLIED :: supplied where
  "NO_SUPPLIED = (\<lambda>_. None)"

definition supplied_for :: "supplied \<Rightarrow> string \<Rightarrow> ustr set" where
  "supplied_for supplied name = (case supplied name of Some f \<Rightarrow> f | None \<Rightarrow> {})"

section \<open>Reading a message\<close>

definition part_texts :: "json \<Rightarrow> ustr list" where
  "part_texts part =
     (case as_obj part of
        None \<Rightarrow> []
      | Some p \<Rightarrow> (case jget_str ''text'' p of Some text \<Rightarrow> [text] | None \<Rightarrow> []))"

definition item_texts :: "json \<Rightarrow> ustr list" where
  "item_texts item =
     (case as_obj item of
        None \<Rightarrow> []
      | Some it \<Rightarrow>
          if jget ''type'' it \<noteq> Some (JStr (ulit ''message'')) then []
          else (case Option.bind (jget ''content'' it) as_arr of
                  None \<Rightarrow> []
                | Some parts \<Rightarrow> concat (map part_texts parts)))"

definition rendered_texts :: "jobject \<Rightarrow> ustr list" where
  "rendered_texts message =
     (case jget_str ''content'' message of Some c \<Rightarrow> [c] | None \<Rightarrow> []) @
     (case Option.bind (jget ''output'' message) as_arr of
        None \<Rightarrow> []
      | Some items \<Rightarrow> concat (map item_texts items))"

definition has_role :: "string \<Rightarrow> json \<Rightarrow> bool" where
  "has_role role message =
     (case as_obj message of
        None \<Rightarrow> False
      | Some m \<Rightarrow> jget ''role'' m = Some (JStr (ulit role)))"

primrec last_position :: "(json \<Rightarrow> bool) \<Rightarrow> json list \<Rightarrow> nat \<Rightarrow> nat option" where
  \<comment> \<open>the greatest index below the bound whose element satisfies the test\<close>
  "last_position p messages 0 = None"
| "last_position p messages (Suc i) =
     (if i < length messages \<and> p (messages ! i) then Some i else last_position p messages i)"

definition last_assistant_position :: "json list \<Rightarrow> nat option" where
  "last_assistant_position messages = last_position (has_role ''assistant'') messages (length messages)"

definition last_assistant_message :: "json list \<Rightarrow> jobject option" where
  "last_assistant_message messages =
     (case last_assistant_position messages of
        None \<Rightarrow> None
      | Some position \<Rightarrow> as_obj (messages ! position))"

definition preceding_user_message :: "json list \<Rightarrow> nat \<Rightarrow> jobject option" where
  "preceding_user_message messages assistant_position =
     (case last_position (has_role ''user'') messages assistant_position of
        None \<Rightarrow> None
      | Some i \<Rightarrow> as_obj (messages ! i))"

section \<open>The restatement and attribution tests\<close>

definition within :: "nat \<Rightarrow> nat \<Rightarrow> (nat \<times> nat) option \<Rightarrow> bool" where
  \<comment> \<open>a group that took no part has the span \<open>(-1, -1)\<close>, which no match contains\<close>
  "within span_start span_end s =
     (case s of None \<Rightarrow> False | Some (a, b) \<Rightarrow> span_start \<le> a \<and> b \<le> span_end)"

definition last_chars :: "nat \<Rightarrow> 'a list \<Rightarrow> 'a list" where  \<comment> \<open>\<open>s[-n:]\<close>\<close>
  "last_chars n s = drop (length s - n) s"

definition is_restatement :: "ucd \<Rightarrow> ustr \<Rightarrow> match \<Rightarrow> family \<Rightarrow> bool" where
  "is_restatement U text m family =
    (let matched = group0 text m;
         reverse = (re_match U True (f_reverse_form family) matched \<noteq> None);
         preceding = substr text (m_start m - RESTATEMENT_REACH_CHARS) (m_start m);
         after = substr text (m_end m) (m_end m + RESTATEMENT_LOOKAHEAD_CHARS);
         window = preceding @ matched @ after;
         span_start = length preceding;
         span_end = length preceding + length matched;
         (question_form, refusal_form, that_clause, from_date_form) = f_constructions family;
         unaffirmed_after = (re_search U True AFFIRMATION_NEAR (take 30 after) = None)
     in if list_ex (\<lambda>form. m_start form < span_end \<and> m_end form > span_start)
             (re_finditer U True question_form window) then True
        else if re_search U True AFFIRMATION_NEAR (last_chars 40 preceding @ matched) \<noteq> None then False
        else if (case f_echo_form family of
                   None \<Rightarrow> False
                 | Some echo \<Rightarrow> list_ex (\<lambda>form. within span_start span_end (span form ''echo_figure''))
                     (re_finditer U True echo window)) then unaffirmed_after
        else if list_ex (\<lambda>form. within span_start span_end (span form ''refusal_figure'') \<and>
                   (\<not> reverse \<or> re_match U True that_clause (group_text window form ''object'') \<noteq> None))
                 (re_finditer U True refusal_form window) then unaffirmed_after
        else if reverse then False
        else if list_ex (\<lambda>form. within span_start span_end (span form ''from_figure''))
                 (re_finditer U True from_date_form window) then unaffirmed_after
        else False)"

primrec anchor_of :: "match \<Rightarrow> string list \<Rightarrow> nat" where
  "anchor_of m [] = m_start m"
| "anchor_of m (name # names) =
     (case span m name of Some (a, b) \<Rightarrow> a | None \<Rightarrow> anchor_of m names)"

definition is_attributed :: "ucd \<Rightarrow> ustr \<Rightarrow> match \<Rightarrow> pattern \<Rightarrow> family \<Rightarrow> bool" where
  "is_attributed U text m pattern family =
    (case f_attribution_form family of
       None \<Rightarrow> False
     | Some form \<Rightarrow>
         (let anchor = anchor_of m (p_anchor pattern);
              window = substr text (anchor - ATTRIBUTION_REACH_CHARS) (anchor + 1)
          in re_search U True form window \<noteq> None))"

section \<open>Judging a text\<close>

text \<open>The first hit of the pattern's exclusion that covers the match's start; the end it has.\<close>

definition exclusion_end_of :: "ucd \<Rightarrow> ustr \<Rightarrow> match \<Rightarrow> pattern \<Rightarrow> nat option" where
  "exclusion_end_of U text m pattern =
    (case p_exclusion pattern of
       None \<Rightarrow> None
     | Some exclusion \<Rightarrow>
         (let exclusion_start = m_start m - EXCLUSION_REACH_CHARS;
              exclusion_end = min (length text) (m_end m + EXCLUSION_REACH_CHARS)
          in map_option (\<lambda>hit. exclusion_start + m_end hit)
               (find (\<lambda>hit. exclusion_start + m_start hit \<le> m_start m \<and>
                            m_start m < exclusion_start + m_end hit)
                 (re_finditer U True exclusion (substr text exclusion_start exclusion_end)))))"

datatype hit = Passed | Held rconstraint | Trips

definition judge_match ::
    "ucd \<Rightarrow> ustr \<Rightarrow> ustr set \<Rightarrow> bool \<Rightarrow> nat \<Rightarrow> family \<Rightarrow> pattern \<Rightarrow> match \<Rightarrow> hit result" where
  "judge_match U text family_supplied prefix since family pattern m =
    (case exclusion_end_of U text m pattern of
       Some hit_end \<Rightarrow>
         Inr (if prefix \<and> hit_end > m_end m
              then Held \<lparr>c_start = m_start m, c_end = hit_end\<rparr> else Passed)
     | None \<Rightarrow>
         if m_end m \<le> since then Inr Passed
         else if prefix \<and> m_end m + RESTATEMENT_LOOKAHEAD_CHARS > length text then Inr Passed
         else if is_attributed U text m pattern family then Inr Passed
         else map_result (\<lambda>found.
             if found = {} \<or> \<not> found \<subseteq> family_supplied then Trips
             else if \<not> is_restatement U text m family then Trips
             else if prefix
             then Held \<lparr>c_start = m_start m, c_end = m_end m + RESTATEMENT_LOOKAHEAD_CHARS\<rparr>
             else Passed)
           (f_figures family U (group0 text m)))"

text \<open>The loops either run on with the constraints gathered so far, or return a trip early.\<close>

primrec judge_matches ::
    "(match \<Rightarrow> hit result) \<Rightarrow> trip \<Rightarrow> match list \<Rightarrow> rconstraint list \<Rightarrow>
       (trip + rconstraint list) result" where
  "judge_matches j trip [] held = Inr (Inr held)"
| "judge_matches j trip (m # ms) held =
     bind_result (j m) (\<lambda>h. case h of
         Passed \<Rightarrow> judge_matches j trip ms held
       | Held c \<Rightarrow> judge_matches j trip ms (held @ [c])
       | Trips \<Rightarrow> Inr (Inl trip))"

definition pattern_active :: "family \<Rightarrow> string set \<Rightarrow> pattern \<Rightarrow> bool" where
  "pattern_active family contexts pattern =
     (\<not> (p_needs_context pattern \<and> f_name family \<notin> contexts) \<and>
      \<not> list_ex (\<lambda>name. name \<in> contexts) (p_yields_to pattern))"

definition rate_constraints :: "ucd \<Rightarrow> ustr \<Rightarrow> bool \<Rightarrow> pattern \<Rightarrow> rconstraint list" where
  "rate_constraints U text prefix pattern =
     (case p_rate_form pattern of
        Some rate \<Rightarrow>
          if prefix
          then map (\<lambda>hit. \<lparr>c_start = m_start hit, c_end = m_end hit\<rparr>) (re_finditer U True rate text)
          else []
      | None \<Rightarrow> [])"

primrec judge_patterns ::
    "ucd \<Rightarrow> ustr \<Rightarrow> supplied \<Rightarrow> string set \<Rightarrow> bool \<Rightarrow> nat \<Rightarrow> family \<Rightarrow> pattern list \<Rightarrow>
       rconstraint list \<Rightarrow> (trip + rconstraint list) result" where
  "judge_patterns U text supplied contexts prefix since family [] held = Inr (Inr held)"
| "judge_patterns U text supplied contexts prefix since family (p # ps) held =
     (if \<not> pattern_active family contexts p
      then judge_patterns U text supplied contexts prefix since family ps held
      else bind_result
        (judge_matches
           (judge_match U text (supplied_for supplied (f_name family)) prefix since family p)
           \<lparr>t_family = f_name family, t_pattern_id = p_id p\<rparr> (re_finditer U True (p_regex p) text) held)
        (\<lambda>r. case r of
            Inl trip \<Rightarrow> Inr (Inl trip)
          | Inr held' \<Rightarrow> judge_patterns U text supplied contexts prefix since family ps
              (held' @ rate_constraints U text prefix p)))"

primrec judge_families ::
    "ucd \<Rightarrow> ustr \<Rightarrow> supplied \<Rightarrow> string set \<Rightarrow> bool \<Rightarrow> nat \<Rightarrow> family list \<Rightarrow>
       rconstraint list \<Rightarrow> (trip + rconstraint list) result" where
  "judge_families U text supplied contexts prefix since [] held = Inr (Inr held)"
| "judge_families U text supplied contexts prefix since (f # fs) held =
     bind_result (judge_patterns U text supplied contexts prefix since f (f_patterns f) held)
       (\<lambda>r. case r of
           Inl trip \<Rightarrow> Inr (Inl trip)
         | Inr held' \<Rightarrow> judge_families U text supplied contexts prefix since fs held')"

definition judgement :: "bool \<Rightarrow> trip + rconstraint list \<Rightarrow> verdict" where
  "judgement prefix r =
     (case r of
        Inl trip \<Rightarrow> Tripped trip
      | Inr held \<Rightarrow> if prefix \<and> held \<noteq> [] then Constrained held else Clear)"

definition judge_text ::
    "ucd \<Rightarrow> family list \<Rightarrow> ustr \<Rightarrow> supplied \<Rightarrow> string set \<Rightarrow> bool \<Rightarrow> nat \<Rightarrow> verdict result" where
  "judge_text U fams text supplied contexts prefix since =
     map_result (judgement prefix) (judge_families U text supplied contexts prefix since fams [])"

section \<open>Judging a message\<close>

primrec displace :: "family list \<Rightarrow> string set \<Rightarrow> string set" where
  "displace [] contexts = contexts"
| "displace (f # fs) contexts =
     displace fs
       (if f_name f \<in> contexts then contexts - set (f_confirmation_displaces f) else contexts)"

primrec family_figures :: "ucd \<Rightarrow> ustr \<Rightarrow> family list \<Rightarrow> supplied \<Rightarrow> supplied result" where
  "family_figures U content [] supplied = Inr supplied"
| "family_figures U content (f # fs) supplied =
     bind_result (f_figures f U content)
       (\<lambda>figures. family_figures U content fs (supplied(f_name f \<mapsto> figures)))"

definition message_context ::
    "ucd \<Rightarrow> family list \<Rightarrow> json list \<Rightarrow> nat \<Rightarrow> (supplied \<times> string set) result" where
  "message_context U fams messages assistant_position =
    (let user_content =
           (case Option.bind (preceding_user_message messages assistant_position) (jget_str ''content'') of
              Some c \<Rightarrow> c | None \<Rightarrow> []);
         contexts = set (map f_name (filter (\<lambda>f. case f_confirmation f of
             None \<Rightarrow> False
           | Some (form, _) \<Rightarrow> user_content \<noteq> [] \<and> re_search U True form user_content \<noteq> None) fams))
     in map_result (\<lambda>supplied. (supplied, displace fams contexts))
          (family_figures U user_content fams NO_SUPPLIED))"

primrec opening_trip :: "family list \<Rightarrow> string set \<Rightarrow> trip option" where
  "opening_trip [] contexts = None"
| "opening_trip (f # fs) contexts =
     (case f_confirmation f of
        Some (_, pattern_id) \<Rightarrow>
          if f_name f \<in> contexts then Some \<lparr>t_family = f_name f, t_pattern_id = pattern_id\<rparr>
          else opening_trip fs contexts
      | None \<Rightarrow> opening_trip fs contexts)"

primrec judge_each ::
    "(ustr \<Rightarrow> verdict result) \<Rightarrow> ustr list \<Rightarrow> rconstraint list \<Rightarrow> (trip + rconstraint list) result" where
  "judge_each j [] held = Inr (Inr held)"
| "judge_each j (text # texts) held =
     bind_result (j text) (\<lambda>v. case v of
         Tripped trip \<Rightarrow> Inr (Inl trip)
       | Constrained cs \<Rightarrow> judge_each j texts (held @ cs)
       | Clear \<Rightarrow> judge_each j texts held)"

definition judge_rendered ::
    "ucd \<Rightarrow> family list \<Rightarrow> ustr list \<Rightarrow> ustr \<Rightarrow> supplied \<Rightarrow> string set \<Rightarrow> bool \<Rightarrow> nat \<Rightarrow> verdict result"
  where
  "judge_rendered U fams texts answer supplied contexts prefix since =
    map_result (\<lambda>r. case r of
        Inl trip \<Rightarrow> Tripped trip
      | Inr held \<Rightarrow>
          (let opening_decided = (\<not> prefix \<or> length answer \<ge> MAX_MATCH_CHARS)
           in case (if opening_decided \<and>
                       re_search U True AFFIRMATION_OPEN (take MAX_MATCH_CHARS answer) \<noteq> None
                    then opening_trip fams contexts else None) of
                Some trip \<Rightarrow> Tripped trip
              | None \<Rightarrow> judgement prefix (Inr held)))
      (judge_each (\<lambda>text. judge_text U fams text supplied contexts prefix since) texts [])"

definition judge_message ::
    "ucd \<Rightarrow> family list \<Rightarrow> jobject \<Rightarrow> json list \<Rightarrow> nat \<Rightarrow> trip option result" where
  "judge_message U fams message messages assistant_position =
    bind_result (message_context U fams messages assistant_position) (\<lambda>(supplied, contexts).
      map_result (\<lambda>v. case v of Tripped trip \<Rightarrow> Some trip | _ \<Rightarrow> None)
        (judge_rendered U fams (rendered_texts message)
          (case jget_str ''content'' message of Some answer \<Rightarrow> answer | None \<Rightarrow> [])
          supplied contexts False 0))"

definition judge_floor :: "nat \<Rightarrow> nat" where
  "judge_floor since = since - MAX_MATCH_CHARS - EXEMPTION_REACH_CHARS"

section \<open>What a judgement means\<close>

text \<open>
  The hits a judgement looks at, in the order it looks: families, then their active patterns, then
  the matches of each from left to right.
\<close>

definition pattern_hits :: "ucd \<Rightarrow> ustr \<Rightarrow> family \<Rightarrow> pattern \<Rightarrow> (family \<times> pattern \<times> match) list" where
  "pattern_hits U text f p = map (\<lambda>m. (f, p, m)) (re_finditer U True (p_regex p) text)"

definition family_hits :: "ucd \<Rightarrow> ustr \<Rightarrow> string set \<Rightarrow> family \<Rightarrow> (family \<times> pattern \<times> match) list" where
  "family_hits U text contexts f =
     concat (map (pattern_hits U text f) (filter (pattern_active f contexts) (f_patterns f)))"

definition hits :: "ucd \<Rightarrow> family list \<Rightarrow> ustr \<Rightarrow> string set \<Rightarrow> (family \<times> pattern \<times> match) list" where
  "hits U fams text contexts = concat (map (family_hits U text contexts) fams)"

definition judge_hit ::
    "ucd \<Rightarrow> ustr \<Rightarrow> supplied \<Rightarrow> bool \<Rightarrow> nat \<Rightarrow> family \<times> pattern \<times> match \<Rightarrow> hit result" where
  "judge_hit U text supplied prefix since h =
     (case h of (f, p, m) \<Rightarrow>
        judge_match U text (supplied_for supplied (f_name f)) prefix since f p m)"

definition trip_of :: "family \<times> pattern \<times> match \<Rightarrow> trip" where
  "trip_of h = (case h of (f, p, m) \<Rightarrow> \<lparr>t_family = f_name f, t_pattern_id = p_id p\<rparr>)"

definition stops :: "hit result \<Rightarrow> bool" where
  "stops r = (case r of Inl e \<Rightarrow> True | Inr h \<Rightarrow> h = Trips)"

definition decided_by :: "hit result \<Rightarrow> trip \<Rightarrow> (trip + rconstraint list) result" where
  "decided_by r trip = (case r of Inl e \<Rightarrow> Inl e | Inr h \<Rightarrow> Inr (Inl trip))"

text \<open>\<open>runs_as r hs\<close>: the loop result \<open>r\<close> is the one the first stopping hit of \<open>hs\<close> gives.\<close>

definition runs_as ::
    "(trip + rconstraint list) result \<Rightarrow> (family \<times> pattern \<times> match \<Rightarrow> hit result) \<Rightarrow>
       (family \<times> pattern \<times> match) list \<Rightarrow> bool" where
  "runs_as r j hs =
     (case find (\<lambda>h. stops (j h)) hs of
        Some h \<Rightarrow> r = decided_by (j h) (trip_of h)
      | None \<Rightarrow> \<exists>held. r = Inr (Inr held))"

lemma find_append: "find P (xs @ ys) = (case find P xs of Some x \<Rightarrow> Some x | None \<Rightarrow> find P ys)"
  by (induction xs) auto

lemma early_return_iff:
  "bind_result r (\<lambda>x. case x of Inl t \<Rightarrow> Inr (Inl t) | Inr h \<Rightarrow> k h) = Inr (Inr y) \<longleftrightarrow>
     (\<exists>h. r = Inr (Inr h) \<and> k h = Inr (Inr y))"
  by (cases r) (auto split: sum.splits)

lemma runs_as_append:
  assumes "runs_as r j hs" and "\<And>held. runs_as (k held) j hs'"
  shows "runs_as (bind_result r (\<lambda>x. case x of Inl trip \<Rightarrow> Inr (Inl trip) | Inr held \<Rightarrow> k held)) j (hs @ hs')"
proof (cases "find (\<lambda>h. stops (j h)) hs")
  case None
  with assms(1) obtain held where "r = Inr (Inr held)" by (auto simp: runs_as_def)
  with None assms(2) [of held] show ?thesis by (simp add: runs_as_def find_append)
next
  case (Some h)
  with assms(1) show ?thesis
    by (cases "j h") (auto simp: runs_as_def find_append decided_by_def)
qed

lemma judge_matches_runs:
  "runs_as (judge_matches (\<lambda>m. j (f, p, m)) \<lparr>t_family = f_name f, t_pattern_id = p_id p\<rparr> ms held) j
     (map (\<lambda>m. (f, p, m)) ms)"
proof (induction ms arbitrary: held)
  case (Cons m ms)
  then show ?case
    by (cases "j (f, p, m)")
      (auto simp: runs_as_def stops_def decided_by_def trip_of_def split: hit.splits)
qed (simp add: runs_as_def)

lemma judge_patterns_runs:
  "runs_as (judge_patterns U text supplied contexts prefix since f ps held)
     (judge_hit U text supplied prefix since)
     (concat (map (pattern_hits U text f) (filter (pattern_active f contexts) ps)))"
proof (induction ps arbitrary: held)
  case (Cons p ps)
  have "judge_match U text (supplied_for supplied (f_name f)) prefix since f p =
      (\<lambda>m. judge_hit U text supplied prefix since (f, p, m))"
    by (simp add: judge_hit_def fun_eq_iff)
  with Cons show ?case
    by (auto simp: pattern_hits_def intro!: runs_as_append judge_matches_runs)
qed (simp add: runs_as_def)

lemma judge_families_runs:
  "runs_as (judge_families U text supplied contexts prefix since fs held)
     (judge_hit U text supplied prefix since) (hits U fs text contexts)"
proof (induction fs arbitrary: held)
  case (Cons f fs)
  then show ?case
    by (auto simp: hits_def family_hits_def intro!: runs_as_append judge_patterns_runs)
qed (simp add: runs_as_def hits_def)

lemma judgement_iff:
  "judgement b r = Tripped t \<longleftrightarrow> r = Inl t"
  "judgement b r = Constrained cs \<longleftrightarrow> b \<and> cs \<noteq> [] \<and> r = Inr cs"
  "judgement b r = Clear \<longleftrightarrow> (\<exists>held. r = Inr held \<and> \<not> (b \<and> held \<noteq> []))"
  by (cases r; auto simp: judgement_def)+

lemma judge_text_Tripped_iff:
  "judge_text U fams text supplied contexts prefix since = Inr (Tripped t) \<longleftrightarrow>
     (\<exists>h. find (\<lambda>h. stops (judge_hit U text supplied prefix since h)) (hits U fams text contexts) = Some h \<and>
        judge_hit U text supplied prefix since h = Inr Trips \<and> t = trip_of h)"
proof -
  note run = judge_families_runs [of U "text" supplied contexts "prefix" since fams "[]"]
  show ?thesis
  proof (cases "find (\<lambda>h. stops (judge_hit U text supplied prefix since h)) (hits U fams text contexts)")
    case None
    with run show ?thesis
      by (auto simp: judge_text_def runs_as_def map_result_Inr_iff eq_commute [of "Tripped t"] judgement_iff)
  next
    case (Some h)
    then have "stops (judge_hit U text supplied prefix since h)"
      by (auto simp: find_Some_iff)
    with run Some show ?thesis
      by (cases "judge_hit U text supplied prefix since h")
        (auto simp: judge_text_def runs_as_def judgement_def decided_by_def stops_def)
  qed
qed

lemma judge_text_not_Tripped:
  assumes "judge_text U fams text supplied contexts prefix since = Inr v" "\<And>t. v \<noteq> Tripped t"
    and "h \<in> set (hits U fams text contexts)"
  shows "\<not> stops (judge_hit U text supplied prefix since h)"
proof (cases "find (\<lambda>h. stops (judge_hit U text supplied prefix since h)) (hits U fams text contexts)")
  case None
  with assms(3) show ?thesis unfolding find_None_iff by blast
next
  case (Some k)
  then have "stops (judge_hit U text supplied prefix since k)"
    by (auto simp: find_Some_iff)
  with Some assms(1,2) judge_families_runs [of U "text" supplied contexts "prefix" since fams "[]"]
  show ?thesis
    by (cases "judge_hit U text supplied prefix since k")
      (auto simp: judge_text_def runs_as_def judgement_def decided_by_def stops_def)
qed

text \<open>The conditions under which the judge lets a hit stand in a complete text.\<close>

definition exempt :: "ucd \<Rightarrow> ustr \<Rightarrow> supplied \<Rightarrow> family \<Rightarrow> pattern \<Rightarrow> match \<Rightarrow> bool" where
  "exempt U text supplied f p m =
     (exclusion_end_of U text m p \<noteq> None \<or> is_attributed U text m p f \<or>
      (\<exists>found. f_figures f U (group0 text m) = Inr found \<and> found \<noteq> {} \<and>
         found \<subseteq> supplied_for supplied (f_name f) \<and> is_restatement U text m f))"

lemma judge_match_whole:
  "m_end m > 0 \<Longrightarrow>
     \<not> stops (judge_match U text (supplied_for supplied (f_name f)) False 0 f p m) \<longleftrightarrow>
     exempt U text supplied f p m"
  by (cases "f_figures f U (group0 text m)")
    (auto simp: judge_match_def exempt_def stops_def split: option.splits if_splits)

lemma judge_match_Held:
  assumes "judge_match U text S prefix since f p m = Inr (Held c)" and "m_start m \<le> m_end m"
  shows "prefix \<and> c_start c \<le> c_end c \<and> c_end c \<le> length text"
proof (cases "exclusion_end_of U text m p")
  case None
  with assms show ?thesis
    by (auto simp: judge_match_def map_result_Inr_iff split: if_splits)
next
  case (Some e)
  then obtain x hit where x: "p_exclusion p = Some x"
    and hit: "find (\<lambda>hit. m_start m - EXCLUSION_REACH_CHARS + m_start hit \<le> m_start m \<and>
        m_start m < m_start m - EXCLUSION_REACH_CHARS + m_end hit)
      (re_finditer U True x (substr text (m_start m - EXCLUSION_REACH_CHARS)
        (min (length text) (m_end m + EXCLUSION_REACH_CHARS)))) = Some hit"
    and e: "e = m_start m - EXCLUSION_REACH_CHARS + m_end hit"
    by (auto simp: exclusion_end_of_def Let_def split: option.splits)
  from hit have "hit \<in> set (re_finditer U True x (substr text (m_start m - EXCLUSION_REACH_CHARS)
        (min (length text) (m_end m + EXCLUSION_REACH_CHARS))))"
    by (auto simp: find_Some_iff)
  then have "m_end hit \<le> min (length text) (m_end m + EXCLUSION_REACH_CHARS) - (m_start m - EXCLUSION_REACH_CHARS)"
    and "m_start hit \<le> m_end hit"
    by (auto simp: re_finditer_def is_match_def dest!: finditer_in)
  moreover from hit have "m_start m < e" unfolding e by (auto simp: find_Some_iff)
  ultimately have "e \<le> length text" "m_start m < e" by (auto simp: e)
  with Some assms show ?thesis
    by (auto simp: judge_match_def split: if_splits)
qed

definition within_text :: "nat \<Rightarrow> rconstraint list \<Rightarrow> bool" where
  "within_text n cs = list_all (\<lambda>c. c_start c \<le> c_end c \<and> c_end c \<le> n) cs"

lemma within_text_append [simp]: "within_text n (cs @ ds) \<longleftrightarrow> within_text n cs \<and> within_text n ds"
  by (simp add: within_text_def)

lemma within_text_Nil [simp]: "within_text n []"
  by (simp add: within_text_def)

lemma rate_constraints_within: "within_text (length text) (rate_constraints U text prefix p)"
  by (auto simp: rate_constraints_def within_text_def list_all_iff re_finditer_def is_match_def
      dest!: finditer_in split: option.splits)

lemma judge_matches_within:
  "judge_matches (judge_match U text S prefix since f p) t ms held = Inr (Inr held') \<Longrightarrow>
     (\<forall>m \<in> set ms. m_start m \<le> m_end m) \<Longrightarrow> within_text (length text) held \<Longrightarrow>
     within_text (length text) held'"
proof (induction ms arbitrary: held)
  case (Cons m ms)
  from Cons.prems(1) obtain h where h: "judge_match U text S prefix since f p m = Inr h"
    by (auto simp: bind_result_Inr_iff)
  show ?case
  proof (cases h)
    case Passed
    with h Cons.prems show ?thesis by (auto intro: Cons.IH)
  next
    case (Held c)
    with h Cons.prems(1)
    have rest: "judge_matches (judge_match U text S prefix since f p) t ms (held @ [c]) = Inr (Inr held')"
      by simp
    from h Held Cons.prems(2,3) have "within_text (length text) (held @ [c])"
      using judge_match_Held [of U "text" S "prefix" since f p m c] by (simp add: within_text_def)
    with Cons.prems(2) show ?thesis by (auto intro: Cons.IH [OF rest])
  qed (use h Cons.prems in simp)
qed simp

lemma finditer_forward: "m \<in> set (re_finditer U ic r s) \<Longrightarrow> m_start m \<le> m_end m \<and> m_end m \<le> length s"
  by (auto simp: re_finditer_def is_match_def dest!: finditer_in)

lemma judge_patterns_within:
  "judge_patterns U text supplied contexts prefix since f ps held = Inr (Inr held') \<Longrightarrow>
     within_text (length text) held \<Longrightarrow> within_text (length text) held'"
proof (induction ps arbitrary: held)
  case (Cons p ps)
  show ?case
  proof (cases "pattern_active f contexts p")
    case True
    with Cons.prems(1) obtain h where
      "judge_matches (judge_match U text (supplied_for supplied (f_name f)) prefix since f p)
        \<lparr>t_family = f_name f, t_pattern_id = p_id p\<rparr> (re_finditer U True (p_regex p) text) held = Inr (Inr h)"
      and rest: "judge_patterns U text supplied contexts prefix since f ps
        (h @ rate_constraints U text prefix p) = Inr (Inr held')"
      by (auto simp: early_return_iff)
    with judge_matches_within [OF this(1)] Cons.prems(2) have "within_text (length text) h"
      using finditer_forward by blast
    then show ?thesis
      by (auto intro!: Cons.IH [OF rest] simp: rate_constraints_within)
  qed (use Cons in simp)
qed simp

lemma judge_families_within:
  "judge_families U text supplied contexts prefix since fs held = Inr (Inr held') \<Longrightarrow>
     within_text (length text) held \<Longrightarrow> within_text (length text) held'"
proof (induction fs arbitrary: held)
  case (Cons f fs)
  from Cons.prems(1) obtain h where
    "judge_patterns U text supplied contexts prefix since f (f_patterns f) held = Inr (Inr h)"
    and rest: "judge_families U text supplied contexts prefix since fs h = Inr (Inr held')"
    by (auto simp: early_return_iff)
  with judge_patterns_within Cons.prems(2) show ?case by (blast intro: Cons.IH)
qed simp

lemma judge_text_within:
  "judge_text U fams text supplied contexts prefix since = Inr (Constrained cs) \<Longrightarrow>
     prefix \<and> cs \<noteq> [] \<and> within_text (length text) cs"
  using judge_families_within [of U "text" supplied contexts "prefix" since fams "[]"]
  by (auto simp: judge_text_def map_result_Inr_iff eq_commute [of "Constrained cs"] judgement_iff)

lemma judge_match_not_stops_mono:
  "S \<subseteq> S' \<Longrightarrow> \<not> stops (judge_match U text S b since f p m) \<Longrightarrow>
     \<not> stops (judge_match U text S' b since f p m)"
  by (cases "f_figures f U (group0 text m)")
    (auto simp: judge_match_def stops_def split: option.splits if_splits)

lemma judge_text_Clear_whole_iff:
  "judge_text U fams text supplied contexts False since = Inr Clear \<longleftrightarrow>
     (\<forall>h \<in> set (hits U fams text contexts). \<not> stops (judge_hit U text supplied False since h))"
proof
  assume "judge_text U fams text supplied contexts False since = Inr Clear"
  then show "\<forall>h \<in> set (hits U fams text contexts). \<not> stops (judge_hit U text supplied False since h)"
    using judge_text_not_Tripped by blast
next
  assume "\<forall>h \<in> set (hits U fams text contexts). \<not> stops (judge_hit U text supplied False since h)"
  then have "find (\<lambda>h. stops (judge_hit U text supplied False since h)) (hits U fams text contexts) = None"
    unfolding find_None_iff by blast
  with judge_families_runs [of U "text" supplied contexts False since fams "[]"]
  obtain held where "judge_families U text supplied contexts False since fams [] = Inr (Inr held)"
    by (auto simp: runs_as_def)
  then show "judge_text U fams text supplied contexts False since = Inr Clear"
    by (simp add: judge_text_def judgement_def)
qed

lemma hits_iff:
  "(f, p, m) \<in> set (hits U fams text contexts) \<longleftrightarrow>
     f \<in> set fams \<and> p \<in> set (f_patterns f) \<and> pattern_active f contexts p \<and>
     m \<in> set (re_finditer U True (p_regex p) text)"
  by (auto simp: hits_def family_hits_def pattern_hits_def)

lemma judge_each_within:
  "judge_each j texts held = Inr (Inr held') \<Longrightarrow>
     (\<And>text cs. text \<in> set texts \<Longrightarrow> j text = Inr (Constrained cs) \<Longrightarrow> within_text n cs) \<Longrightarrow>
     within_text n held \<Longrightarrow> within_text n held'"
proof (induction texts arbitrary: held)
  case (Cons x xs)
  from Cons.prems(1) obtain v where v: "j x = Inr v" by (auto simp: bind_result_Inr_iff)
  show ?case
  proof (cases v)
    case (Constrained cs)
    with v Cons.prems have "judge_each j xs (held @ cs) = Inr (Inr held')" "within_text n (held @ cs)"
      by auto
    with Cons.IH Cons.prems(2) show ?thesis by (meson list.set_intros(2))
  next
    case Clear
    with v Cons.prems have "judge_each j xs held = Inr (Inr held')" by simp
    with Cons.IH Cons.prems(2,3) show ?thesis by (meson list.set_intros(2))
  qed (use v Cons.prems in simp)
qed simp

lemma judge_rendered_within:
  assumes "judge_rendered U fams [text] answer supplied contexts b since = Inr (Constrained cs)"
  shows "b \<and> cs \<noteq> [] \<and> within_text (length text) cs"
proof -
  obtain r where
    each: "judge_each (\<lambda>text. judge_text U fams text supplied contexts b since) [text] [] = Inr r"
    and r: "Constrained cs = (case r of
        Inl trip \<Rightarrow> Tripped trip
      | Inr held \<Rightarrow>
          (case (if (\<not> b \<or> length answer \<ge> MAX_MATCH_CHARS) \<and>
                       re_search U True AFFIRMATION_OPEN (take MAX_MATCH_CHARS answer) \<noteq> None
                    then opening_trip fams contexts else None) of
                Some trip \<Rightarrow> Tripped trip
              | None \<Rightarrow> judgement b (Inr held)))"
    using assms unfolding judge_rendered_def Let_def map_result_Inr_iff by blast
  from r obtain held where held: "r = Inr held" by (cases r) auto
  with r have "judgement b (Inr held) = Constrained cs"
    by (cases "opening_trip fams contexts") (auto split: if_splits)
  then have b: "b \<and> cs \<noteq> [] \<and> held = cs" by (auto simp: judgement_iff)
  from each held have "judge_each (\<lambda>text. judge_text U fams text supplied contexts b since) [text] [] = Inr (Inr held)"
    by simp
  from judge_each_within [OF this] have "within_text (length text) held"
    using judge_text_within by fastforce
  with b show ?thesis by simp
qed

lemma displace_keeps_out: "x \<notin> contexts \<Longrightarrow> x \<notin> displace fs contexts"
  by (induction fs arbitrary: contexts) auto

lemma displace_subset: "displace fs contexts \<subseteq> contexts"
  using displace_keeps_out by blast

lemma last_position_Some:
  "last_position q messages n = Some i \<longleftrightarrow>
     i < n \<and> i < length messages \<and> q (messages ! i) \<and>
     (\<forall>k. i < k \<and> k < n \<and> k < length messages \<longrightarrow> \<not> q (messages ! k))"
proof (induction n)
  case (Suc n)
  show ?case
  proof (cases "n < length messages \<and> q (messages ! n)")
    case True
    then show ?thesis by (auto simp: less_Suc_eq)
  next
    case False
    with Suc show ?thesis by (auto simp: less_Suc_eq)
  qed
qed simp

section \<open>A small family for worked examples\<close>

text \<open>The examples that apply the general theorems evaluate this family, whose one detector is the
  word \<open>due\<close>, excluded inside \<open>overdue\<close>.\<close>

definition sample_pattern :: pattern where
  "sample_pattern = compiled ''sample/due@1'' (lit ''due'') False (Some (lit ''overdue'')) [] []"

definition sample_family :: family where
  "sample_family =
    \<lparr>f_name = ''deadline'', f_refusal = DEADLINE_REFUSAL, f_patterns = [sample_pattern],
     f_pattern_set_version = 1, f_figure_form = lit ''due'', f_reverse_form = lit ''on'',
     f_figures = (\<lambda>U s. Inr {s}), f_figure_nouns = [],
     f_constructions = (seqs [lit ''if '', lit ''due''], lit ''@'', lit ''@'', lit ''@''),
     f_confirmation = None, f_confirmation_displaces = [], f_echo_form = None,
     f_attribution_form = None\<rparr>"

section \<open>Properties\<close>

text \<open>C1: when the judge passes a complete text, every match of every active pattern was let through
  for a stated reason: an exclusion covers its start, an authority is named as its source, or all its
  figures were supplied by the user and a restating construction governs it.\<close>

theorem judge_text_sound:
  assumes "judge_text U fams text supplied contexts False 0 = Inr Clear"
    and "f \<in> set fams" "p \<in> set (f_patterns f)" "pattern_active f contexts p"
    and "m \<in> set (re_finditer U True (p_regex p) text)" "0 < m_end m"
  shows "exempt U text supplied f p m"
proof -
  from assms(2-5) have "(f, p, m) \<in> set (hits U fams text contexts)" by (simp add: hits_iff)
  with assms(1) have "\<not> stops (judge_hit U text supplied False 0 (f, p, m))"
    by (simp add: judge_text_Clear_whole_iff)
  with judge_match_whole [OF assms(6)] show ?thesis by (simp add: judge_hit_def)
qed

theorem judge_text_sound_witness:
  "exempt ascii_ucd (ulit ''overdue'') NO_SUPPLIED sample_family sample_pattern
     \<lparr>m_start = 4, m_end = 7, m_caps = []\<rparr>"
proof (rule judge_text_sound [where fams = "[sample_family]" and contexts = "{}"])
  show "judge_text ascii_ucd [sample_family] (ulit ''overdue'') NO_SUPPLIED {} False 0 = Inr Clear"
    by code_simp
  show "\<lparr>m_start = 4, m_end = 7, m_caps = []\<rparr>
      \<in> set (re_finditer ascii_ucd True (p_regex sample_pattern) (ulit ''overdue''))"
    by code_simp
qed (simp_all add: sample_family_def pattern_active_def sample_pattern_def compiled_def)

text \<open>C2: a text trips exactly when, in the order families, active patterns, matches, some hit is
  not let through before any normaliser raises, and the trip names that first hit's family and
  pattern.\<close>

theorem judge_text_first_trip:
  "judge_text U fams text supplied contexts prefix since = Inr (Tripped t) \<longleftrightarrow>
     (\<exists>h. find (\<lambda>h. stops (judge_hit U text supplied prefix since h)) (hits U fams text contexts) = Some h \<and>
        judge_hit U text supplied prefix since h = Inr Trips \<and> t = trip_of h)"
  by (rule judge_text_Tripped_iff)

text \<open>The default context is the stricter side: with no figure supplied by the user, no
  restatement is accepted, so a passed text has only excluded and attributed matches.\<close>

theorem judge_text_nothing_supplied:
  assumes "judge_text U fams text NO_SUPPLIED contexts False 0 = Inr Clear"
    and "f \<in> set fams" "p \<in> set (f_patterns f)" "pattern_active f contexts p"
    and "m \<in> set (re_finditer U True (p_regex p) text)" "0 < m_end m"
  shows "exclusion_end_of U text m p \<noteq> None \<or> is_attributed U text m p f"
proof -
  from assms(2-5) have "(f, p, m) \<in> set (hits U fams text contexts)" by (simp add: hits_iff)
  with assms(1) have "\<not> stops (judge_hit U text NO_SUPPLIED False 0 (f, p, m))"
    by (simp add: judge_text_Clear_whole_iff)
  then have "exempt U text NO_SUPPLIED f p m"
    using judge_match_whole [OF assms(6), of U "text" NO_SUPPLIED f p] by (simp add: judge_hit_def)
  then show ?thesis
    by (auto simp: exempt_def NO_SUPPLIED_def supplied_for_def)
qed

theorem judge_text_nothing_supplied_witness:
  "exclusion_end_of ascii_ucd (ulit ''overdue'') \<lparr>m_start = 4, m_end = 7, m_caps = []\<rparr> sample_pattern \<noteq> None"
proof -
  let ?m = "\<lparr>m_start = 4, m_end = 7, m_caps = []\<rparr>"
  have "judge_text ascii_ucd [sample_family] (ulit ''overdue'') NO_SUPPLIED {} False 0 = Inr Clear"
    by code_simp
  moreover have "?m \<in> set (re_finditer ascii_ucd True (p_regex sample_pattern) (ulit ''overdue''))"
    by code_simp
  moreover have "sample_pattern \<in> set (f_patterns sample_family)" "pattern_active sample_family {} sample_pattern"
    by (simp_all add: sample_family_def pattern_active_def sample_pattern_def compiled_def)
  ultimately have "exclusion_end_of ascii_ucd (ulit ''overdue'') ?m sample_pattern \<noteq> None \<or>
      is_attributed ascii_ucd (ulit ''overdue'') ?m sample_pattern sample_family"
    by (intro judge_text_nothing_supplied [where fams = "[sample_family]" and contexts = "{}"]) simp_all
  then show ?thesis by (simp add: is_attributed_def sample_family_def)
qed

text \<open>Figures the user supplies only ever let more through: a complete text passed with some
  supplied figures is passed with any further ones.\<close>

theorem judge_text_supplied_mono:
  assumes "judge_text U fams text supplied contexts False since = Inr Clear"
    and "\<And>name. supplied_for supplied name \<subseteq> supplied_for supplied' name"
  shows "judge_text U fams text supplied' contexts False since = Inr Clear"
  unfolding judge_text_Clear_whole_iff
proof
  fix h assume "h \<in> set (hits U fams text contexts)"
  with assms(1) have "\<not> stops (judge_hit U text supplied False since h)"
    by (simp add: judge_text_Clear_whole_iff)
  with judge_match_not_stops_mono [OF assms(2)]
  show "\<not> stops (judge_hit U text supplied' False since h)"
    by (auto simp: judge_hit_def split: prod.splits)
qed

theorem judge_text_supplied_mono_witness:
  "judge_text ascii_ucd [sample_family] (ulit ''if due'')
     ((\<lambda>_. None)(''deadline'' \<mapsto> {ulit ''due'', ulit ''late''})) {} False 0 = Inr Clear"
  by (rule judge_text_supplied_mono [where supplied = "(\<lambda>_. None)(''deadline'' \<mapsto> {ulit ''due''})"])
    (code_simp, simp add: supplied_for_def)

text \<open>The constraints a prefix judgement hands the stream lie inside the judged text, and only a
  prefix judgement hands any.\<close>

theorem judge_text_constraints_bounded:
  assumes "judge_text U fams text supplied contexts prefix since = Inr (Constrained cs)"
  shows "prefix \<and> cs \<noteq> [] \<and> list_all (\<lambda>c. c_start c \<le> c_end c \<and> c_end c \<le> length text) cs"
  using judge_text_within [OF assms] by (simp add: within_text_def)

theorem judge_text_constraints_bounded_witness:
  "True \<and> [\<lparr>c_start = 3, c_end = 46\<rparr>] \<noteq> [] \<and>
   list_all (\<lambda>c. c_start c \<le> c_end c \<and> c_end c \<le> length (ulit ''if due'' @ replicate 40 32))
     [\<lparr>c_start = 3, c_end = 46\<rparr>]"
  by (rule judge_text_constraints_bounded [where U = ascii_ucd and fams = "[sample_family]" and
        supplied = "(\<lambda>_. None)(''deadline'' \<mapsto> {ulit ''due''})" and contexts = "{}" and since = 0])
    code_simp

text \<open>A message that asks about a release date and a deadline is judged under the
  sentence-credit context alone: the sentence-credit context displaces the deadline's.\<close>

theorem message_context_displaces:
  assumes "message_context U FAMILIES messages position = Inr (supplied, contexts)"
  shows "\<not> (''sentence-credit'' \<in> contexts \<and> ''deadline'' \<in> contexts)"
proof -
  from assms obtain found where "contexts = displace FAMILIES found"
    by (auto simp: message_context_def map_result_Inr_iff Let_def)
  moreover have "displace FAMILIES found = displace [SENTENCE_CREDIT_FAMILY] found"
    by (simp add: FAMILIES_def DEADLINE_FAMILY_def GUIDELINES_FAMILY_def)
  ultimately show ?thesis
    by (auto simp: SENTENCE_CREDIT_FAMILY_def split: if_splits)
qed

lemma figures_of_empty:
  "normalized_deadline_figures ascii_ucd [] = Inr {}"
  "normalized_figures ascii_ucd [] = Inr {}"
  "normalized_sentence_figures ascii_ucd [] = Inr {}"
  by code_simp+

theorem message_context_displaces_witness:
  "\<not> (''sentence-credit'' \<in> ({} :: string set) \<and> ''deadline'' \<in> ({} :: string set))"
proof (rule message_context_displaces [where U = ascii_ucd and messages = "[]" and position = 0])
  show "message_context ascii_ucd FAMILIES [] 0 =
      Inr ((\<lambda>_. None)(''deadline'' \<mapsto> {}, ''guidelines'' \<mapsto> {}, ''sentence-credit'' \<mapsto> {}), {})"
    by (simp add: message_context_def preceding_user_message_def FAMILIES_def DEADLINE_FAMILY_def
        GUIDELINES_FAMILY_def SENTENCE_CREDIT_FAMILY_def figures_of_empty NO_SUPPLIED_def)
qed

text \<open>The user message read for an answer is the nearest one before it: it has the role
  \<open>user\<close>, and no later message before the answer has.\<close>

theorem preceding_user_message_nearest:
  "preceding_user_message messages position = Some m \<longleftrightarrow>
     (\<exists>i. i < position \<and> i < length messages \<and> messages ! i = JObj m \<and>
        has_role ''user'' (JObj m) \<and>
        (\<forall>k. i < k \<and> k < position \<and> k < length messages \<longrightarrow> \<not> has_role ''user'' (messages ! k)))"
    (is "?l \<longleftrightarrow> (\<exists>i. ?nearest i)")
proof
  assume ?l
  then obtain i where i: "last_position (has_role ''user'') messages position = Some i"
    and m: "as_obj (messages ! i) = Some m"
    by (auto simp: preceding_user_message_def split: option.splits)
  from i m have "?nearest i" unfolding last_position_Some by simp
  then show "\<exists>i. ?nearest i" by (rule exI [of _ i])
next
  assume "\<exists>i. ?nearest i"
  then obtain i where i: "?nearest i" by (elim exE)
  then have "last_position (has_role ''user'') messages position = Some i"
    unfolding last_position_Some by simp
  with i show ?l by (simp add: preceding_user_message_def)
qed

theorem preceding_user_message_nearest_witness:
  "preceding_user_message
     [JObj [(ulit ''role'', JStr (ulit ''user''))], JObj [(ulit ''role'', JStr (ulit ''assistant''))]] 2 =
   Some [(ulit ''role'', JStr (ulit ''user''))]"
proof (subst preceding_user_message_nearest, intro exI [of _ 0] conjI allI impI)
  fix k assume "(0::nat) < k \<and> k < 2 \<and>
    k < length [JObj [(ulit ''role'', JStr (ulit ''user''))], JObj [(ulit ''role'', JStr (ulit ''assistant''))]]"
  then have "k = 1" by simp
  then show "\<not> has_role ''user''
    ([JObj [(ulit ''role'', JStr (ulit ''user''))], JObj [(ulit ''role'', JStr (ulit ''assistant''))]] ! k)"
    by (simp add: has_role_def)
qed (simp_all add: has_role_def)

end
