(* ===== verification/Guardrail_Window.thy ===== *)
theory Guardrail_Window
  imports Guardrail_Judge
begin

text \<open>
  \<open>gideon/guardrail/window.py\<close> and the row half of \<open>writer.py\<close>: the typed state of one stream and
  \<open>StreamCheck\<close>, which takes generated text in and gives released text out, holding back the last
  \<open>LAG_CHARS\<close> characters and never releasing a part of a constraint the judge reported. The judge is
  an argument here as it is in the source. The trip rows handed to the database writer are the field
  \<open>s_rows\<close>, in the order they were dispatched; the database itself is not modelled.
\<close>

section \<open>Trip rows\<close>

definition USER_SOURCE :: string where "USER_SOURCE = ''user''"
definition EVAL_SOURCE :: string where "EVAL_SOURCE = ''eval''"

definition SOURCE_VOCABULARY :: "string list" where
  "SOURCE_VOCABULARY = [USER_SOURCE, EVAL_SOURCE]"

definition UNKNOWN_BRANCH :: ustr where
  "UNKNOWN_BRANCH = ulit ''unknown''"

definition TRIP_CHAT_ID_PATTERN :: regex where
  "TRIP_CHAT_ID_PATTERN =
     Rep True 1 128 (Cls False [CRange 65 90, CRange 97 122, CRange 48 57, CChar 95, CChar 45])"

record trip_row =
  row_branch :: ustr
  row_family :: string
  row_pattern_id :: string
  row_source :: string
  row_chat_id :: "ustr option"

text \<open>The pattern names its characters, so the Unicode database it is matched under is immaterial.\<close>

definition bounded_id :: "ustr option \<Rightarrow> ustr option" where
  "bounded_id value =
     (case value of
        None \<Rightarrow> None
      | Some v \<Rightarrow>
          if re_fullmatch ascii_ucd False TRIP_CHAT_ID_PATTERN v \<noteq> None then Some v else None)"

definition record_trip :: "trip \<Rightarrow> ustr option \<Rightarrow> string \<Rightarrow> ustr option \<Rightarrow> trip_row" where
  "record_trip trip branch source chat_id =
     \<lparr>row_branch = (case branch of Some b \<Rightarrow> b | None \<Rightarrow> UNKNOWN_BRANCH),
      row_family = t_family trip, row_pattern_id = t_pattern_id trip,
      row_source = (if source \<in> set SOURCE_VOCABULARY then source else USER_SOURCE),
      row_chat_id = bounded_id chat_id\<rparr>"

section \<open>The state of a stream\<close>

record text_state =
  x_text :: ustr
  x_released :: nat
  x_decided :: nat
  x_constraints :: "rconstraint list"
  x_finished :: bool

definition new_text :: text_state where
  "new_text = \<lparr>x_text = [], x_released = 0, x_decided = 0, x_constraints = [], x_finished = False\<rparr>"

record stream_state =
  s_supplied :: supplied
  s_confirmation :: "string set"
  s_branch :: "ustr option"
  s_source :: string
  s_chat_id :: "ustr option"
  s_content :: text_state
  s_trip :: "trip option"
  s_finished :: bool
  s_rows :: "trip_row list"

definition new_stream ::
    "supplied \<Rightarrow> string set \<Rightarrow> ustr option \<Rightarrow> string \<Rightarrow> ustr option \<Rightarrow> stream_state" where
  "new_stream supplied confirmation branch source chat_id =
     \<lparr>s_supplied = supplied, s_confirmation = confirmation, s_branch = branch, s_source = source,
      s_chat_id = chat_id, s_content = new_text, s_trip = None, s_finished = False, s_rows = []\<rparr>"

definition record_stream_trip :: "stream_state \<Rightarrow> trip \<Rightarrow> stream_state" where
  "record_stream_trip state trip =
    (if s_trip state \<noteq> None then state
     else state\<lparr>s_trip := Some trip,
                s_rows := s_rows state @
                  [record_trip trip (s_branch state) (s_source state) (s_chat_id state)],
                s_content := (s_content state)\<lparr>x_text := [], x_constraints := []\<rparr>\<rparr>)"

section \<open>The release point\<close>

type_synonym judge_fun =
  "ustr list \<Rightarrow> ustr \<Rightarrow> supplied \<Rightarrow> string set \<Rightarrow> bool \<Rightarrow> nat \<Rightarrow> verdict result"

definition shift :: "nat \<Rightarrow> rconstraint \<Rightarrow> rconstraint" where
  "shift n c = \<lparr>c_start = c_start c + n, c_end = c_end c + n\<rparr>"

definition shifted :: "nat \<Rightarrow> verdict \<Rightarrow> verdict" where
  "shifted n v =
     (case v of Constrained cs \<Rightarrow> Constrained (map (shift n) cs) | Tripped t \<Rightarrow> Tripped t | Clear \<Rightarrow> Clear)"

definition window_judge :: "judge_fun \<Rightarrow> stream_state \<Rightarrow> ustr \<Rightarrow> nat \<Rightarrow> bool \<Rightarrow> verdict result" where
  "window_judge j state text decided prefix =
    (let floor = judge_floor decided;
         opening = take MAX_MATCH_CHARS text
     in map_result (shifted floor)
          (j [drop floor text] opening (s_supplied state) (s_confirmation state) prefix (decided - floor)))"

text \<open>One pass of the loop's body over the constraints; the flag is \<open>moved\<close>.\<close>

primrec pull_back :: "nat \<Rightarrow> rconstraint list \<Rightarrow> nat \<times> bool \<Rightarrow> nat \<times> bool" where
  "pull_back released [] r = r"
| "pull_back released (c # cs) r =
     pull_back released cs
       (if c_start c < fst r \<and> fst r < c_end c then (max released (c_start c), True) else r)"

text \<open>The loop \<open>while moved\<close>. Nothing in it bounds the number of passes, so it is partial.\<close>

partial_function (option) settle :: "nat \<Rightarrow> rconstraint list \<Rightarrow> nat \<Rightarrow> nat option" where
  "settle released cs target =
     (let r = pull_back released cs (target, False)
      in if snd r then settle released cs (fst r) else Some (fst r))"

definition add_key :: "rconstraint list \<Rightarrow> rconstraint \<Rightarrow> rconstraint list" where
  \<comment> \<open>\<open>active[(item.start, item.end)] = item\<close>: a new key goes last, a known one keeps its place\<close>
  "add_key active c = (if c \<in> set active then active else active @ [c])"

definition active_constraints :: "rconstraint list \<Rightarrow> rconstraint list \<Rightarrow> rconstraint list" where
  "active_constraints held fresh = foldl add_key [] (held @ fresh)"

section \<open>StreamCheck\<close>

definition check_judge :: "judge_fun \<Rightarrow> (stream_state, ustr) prog" where
  "check_judge j state =
    (if s_trip state \<noteq> None then Some (state, Inr [])
     else
       (let entry = s_content state;
            text = x_text entry; released = x_released entry; decided = x_decided entry
        in case window_judge j state text decided True of
             Inl e \<Rightarrow> Some (state, Inl e)
           | Inr (Tripped trip) \<Rightarrow> Some (record_stream_trip state trip, Inr [])
           | Inr v \<Rightarrow>
               (let fresh = (case v of Constrained cs \<Rightarrow> cs | _ \<Rightarrow> []);
                    constraints = filter (\<lambda>c. c_end c > released)
                      (active_constraints (x_constraints entry) fresh)
                in case settle released constraints (length text - LAG_CHARS) of
                     None \<Rightarrow> None
                   | Some t \<Rightarrow>
                       (let target = max released (min t (length text))
                        in Some (state\<lparr>s_content := entry\<lparr>
                              x_decided := max decided (length text - RESTATEMENT_LOOKAHEAD_CHARS),
                              x_constraints := filter (\<lambda>c. c_end c > target) constraints,
                              x_released := target\<rparr>\<rparr>,
                            Inr (substr text released target))))))"

definition check_append :: "judge_fun \<Rightarrow> ustr \<Rightarrow> (stream_state, ustr) prog" where
  "check_append j delta state =
    (if s_trip state \<noteq> None then Some (state, Inr [])
     else check_judge j
       (state\<lparr>s_content := (s_content state)\<lparr>x_text := x_text (s_content state) @ delta\<rparr>\<rparr>))"

definition check_finish :: "judge_fun \<Rightarrow> (stream_state, ustr) prog" where
  "check_finish j state =
    (if s_trip state \<noteq> None then Some (state, Inr [])
     else
       (let entry = s_content state;
            text = x_text entry; released = x_released entry; decided = x_decided entry
        in if x_finished entry then Some (state, Inr [])
           else case window_judge j state text decided False of
             Inl e \<Rightarrow> Some (state, Inl e)
           | Inr (Tripped trip) \<Rightarrow> Some (record_stream_trip state trip, Inr [])
           | Inr _ \<Rightarrow>
               Some (state\<lparr>s_content := entry\<lparr>x_released := length text, x_decided := length text,
                       x_constraints := [], x_finished := True\<rparr>\<rparr>,
                     Inr (drop released text))))"

text \<open>A stream fed piece by piece: the outputs of the calls, up to the first that raises.\<close>

primrec feed :: "judge_fun \<Rightarrow> ustr list \<Rightarrow> (stream_state, ustr list) prog" where
  "feed j [] = ret []"
| "feed j (d # ds) =
     bindp (check_append j d) (\<lambda>out. bindp (feed j ds) (\<lambda>outs. ret (out # outs)))"

section \<open>The loop\<close>

definition splits :: "nat \<Rightarrow> rconstraint \<Rightarrow> bool" where
  "splits n c = (c_start c < n \<and> n < c_end c)"

lemma pull_back_cases:
  "pull_back r cs (t, b) = (t', b') \<Longrightarrow> r \<le> t \<Longrightarrow>
     r \<le> t' \<and> t' \<le> t \<and> (b \<longrightarrow> b') \<and> (\<not> b' \<longrightarrow> t' = t \<and> (\<forall>c \<in> set cs. \<not> splits t c))"
proof (induction cs arbitrary: t b)
  case (Cons c cs)
  show ?case
  proof (cases "splits t c")
    case True
    with Cons.prems have "pull_back r cs (max r (c_start c), True) = (t', b')" by (simp add: splits_def)
    with Cons.IH [OF this] True Cons.prems(2) show ?thesis by (auto simp: splits_def)
  next
    case False
    with Cons.prems have "pull_back r cs (t, b) = (t', b')" by (auto simp: splits_def)
    with Cons.IH [OF this Cons.prems(2)] False show ?thesis by auto
  qed
qed auto

lemma pull_back_moves:
  "pull_back r cs (t, b) = (t', True) \<Longrightarrow> r \<le> t \<Longrightarrow> \<not> b \<Longrightarrow> (\<forall>c \<in> set cs. \<not> splits r c) \<Longrightarrow> t' < t"
proof (induction cs arbitrary: t b)
  case (Cons c cs)
  show ?case
  proof (cases "splits t c")
    case True
    with Cons.prems have "t \<noteq> r" by auto
    with True Cons.prems(2) have less: "max r (c_start c) < t" by (simp add: splits_def)
    from True Cons.prems(1) have "pull_back r cs (max r (c_start c), True) = (t', True)"
      by (simp add: splits_def)
    from pull_back_cases [OF this] have "t' \<le> max r (c_start c)" by simp
    with less show ?thesis by linarith
  next
    case False
    with Cons.prems(1) have "pull_back r cs (t, b) = (t', True)" by (auto simp: splits_def)
    with Cons.IH [OF this] Cons.prems show ?thesis by simp
  qed
qed simp

lemma settle_returns:
  "r \<le> t \<Longrightarrow> (\<forall>c \<in> set cs. \<not> splits r c) \<Longrightarrow> \<exists>t'. settle r cs t = Some t'"
proof (induction t rule: less_induct)
  case (less t)
  obtain t' b where step: "pull_back r cs (t, False) = (t', b)" by (cases "pull_back r cs (t, False)")
  show ?case
  proof (cases b)
    case True
    with pull_back_moves [of r cs t False t'] step less.prems have "t' < t" by simp
    moreover have "r \<le> t'" using pull_back_cases [OF step less.prems(1)] by simp
    ultimately have "t' < t" "r \<le> t'" by auto
    with less.IH less.prems(2) obtain t'' where "settle r cs t' = Some t''" by blast
    with step True show ?thesis by (simp add: settle.simps [of r cs t] Let_def)
  next
    case False
    with step show ?thesis by (simp add: settle.simps [of r cs t] Let_def)
  qed
qed

lemma settle_result:
  assumes "settle r cs t = Some t'"
  shows "r \<le> t \<longrightarrow> r \<le> t' \<and> t' \<le> t \<and> (\<forall>c \<in> set cs. \<not> splits t' c)"
proof (rule settle.raw_induct [OF _ assms])
  fix f r cs t t'
  assume IH: "\<And>r cs t t'. f r cs t = Some t' \<Longrightarrow>
      r \<le> t \<longrightarrow> r \<le> t' \<and> t' \<le> t \<and> (\<forall>c \<in> set cs. \<not> splits t' c)"
    and eq: "(let p = pull_back r cs (t, False) in if snd p then f r cs (fst p) else Some (fst p)) = Some t'"
  obtain u b where step: "pull_back r cs (t, False) = (u, b)" by (cases "pull_back r cs (t, False)")
  show "r \<le> t \<longrightarrow> r \<le> t' \<and> t' \<le> t \<and> (\<forall>c \<in> set cs. \<not> splits t' c)"
  proof (cases b)
    case True
    with eq step have "f r cs u = Some t'" by (simp add: Let_def)
    from IH [OF this] pull_back_cases [OF step] show ?thesis by auto
  next
    case False
    with eq step have "t' = u" by (simp add: Let_def)
    with pull_back_cases [OF step] False show ?thesis by auto
  qed
qed

lemma pull_back_stuck:
  "\<exists>c \<in> set cs. splits r c \<and> \<not> (c_end c \<le> t) \<Longrightarrow> r \<le> t \<Longrightarrow>
     snd (pull_back r cs (t, b)) \<and> (\<exists>c \<in> set cs. splits r c \<and> \<not> (c_end c \<le> fst (pull_back r cs (t, b)))) \<and>
     r \<le> fst (pull_back r cs (t, b))"
proof -
  assume straddle: "\<exists>c \<in> set cs. splits r c \<and> \<not> (c_end c \<le> t)" and le: "r \<le> t"
  obtain u b' where step: "pull_back r cs (t, b) = (u, b')" by (cases "pull_back r cs (t, b)")
  from pull_back_cases [OF step le] straddle le show ?thesis
    by (auto simp: step splits_def)
qed

lemma settle_stuck:
  assumes "settle r cs t = Some t'"
  shows "r \<le> t \<longrightarrow> \<not> (\<exists>c \<in> set cs. splits r c \<and> \<not> c_end c \<le> t)"
proof (rule settle.raw_induct [OF _ assms])
  fix f r cs t t'
  assume IH: "\<And>r cs t t'. f r cs t = Some t' \<Longrightarrow>
      r \<le> t \<longrightarrow> \<not> (\<exists>c \<in> set cs. splits r c \<and> \<not> c_end c \<le> t)"
    and eq: "(let p = pull_back r cs (t, False) in if snd p then f r cs (fst p) else Some (fst p)) = Some t'"
  show "r \<le> t \<longrightarrow> \<not> (\<exists>c \<in> set cs. splits r c \<and> \<not> c_end c \<le> t)"
  proof (intro impI notI)
    assume le: "r \<le> t" and stuck: "\<exists>c \<in> set cs. splits r c \<and> \<not> c_end c \<le> t"
    note s = pull_back_stuck [OF stuck le, of False]
    with eq have "f r cs (fst (pull_back r cs (t, False))) = Some t'" by (simp add: Let_def)
    from IH [OF this] s show False by blast
  qed
qed

section \<open>What one call does\<close>

lemma set_active [simp]: "set (active_constraints held fresh) = set held \<union> set fresh"
proof -
  have "set (foldl add_key acc cs) = set acc \<union> set cs" for acc cs
    by (induction cs arbitrary: acc) (auto simp: add_key_def)
  then show ?thesis by (simp add: active_constraints_def)
qed

definition fresh_of :: "verdict \<Rightarrow> rconstraint list" where
  "fresh_of v = (case v of Constrained cs \<Rightarrow> cs | _ \<Rightarrow> [])"

lemma fresh_of_simps [simp]:
  "fresh_of (Constrained cs) = cs" "fresh_of Clear = []" "fresh_of (Tripped t) = []"
  by (simp_all add: fresh_of_def)

definition grown :: "stream_state \<Rightarrow> ustr \<Rightarrow> stream_state" where
  "grown s d = s\<lparr>s_content := (s_content s)\<lparr>x_text := x_text (s_content s) @ d\<rparr>\<rparr>"

lemma grown_simps [simp]:
  "x_text (s_content (grown s d)) = x_text (s_content s) @ d"
  "x_released (s_content (grown s d)) = x_released (s_content s)"
  "x_decided (s_content (grown s d)) = x_decided (s_content s)"
  "x_constraints (s_content (grown s d)) = x_constraints (s_content s)"
  "x_finished (s_content (grown s d)) = x_finished (s_content s)"
  "s_trip (grown s d) = s_trip s" "s_rows (grown s d) = s_rows s"
  "s_branch (grown s d) = s_branch s" "s_source (grown s d) = s_source s"
  "s_chat_id (grown s d) = s_chat_id s" "s_finished (grown s d) = s_finished s"
  by (simp_all add: grown_def)

lemma record_stream_trip_simps [simp]:
  "x_released (s_content (record_stream_trip s t)) = x_released (s_content s)"
  "s_trip (record_stream_trip s t) = (case s_trip s of None \<Rightarrow> Some t | Some t' \<Rightarrow> Some t')"
  "s_finished (record_stream_trip s t) = s_finished s"
  "x_finished (s_content (record_stream_trip s t)) = x_finished (s_content s)"
  by (auto simp: record_stream_trip_def split: option.splits)

lemma check_append_grown:
  "check_append j d s = (if s_trip s \<noteq> None then Some (s, Inr []) else check_judge j (grown s d))"
  by (simp add: check_append_def grown_def)

definition gathered :: "stream_state \<Rightarrow> rconstraint list \<Rightarrow> rconstraint list" where
  "gathered s fresh =
     filter (\<lambda>c. c_end c > x_released (s_content s)) (active_constraints (x_constraints (s_content s)) fresh)"

definition released_to :: "stream_state \<Rightarrow> rconstraint list \<Rightarrow> nat \<Rightarrow> stream_state" where
  "released_to s fresh target =
     s\<lparr>s_content := (s_content s)\<lparr>
        x_decided := max (x_decided (s_content s)) (length (x_text (s_content s)) - RESTATEMENT_LOOKAHEAD_CHARS),
        x_constraints := filter (\<lambda>c. c_end c > target) (gathered s fresh),
        x_released := target\<rparr>\<rparr>"

lemma released_to_simps [simp]:
  "x_text (s_content (released_to s fresh t)) = x_text (s_content s)"
  "x_released (s_content (released_to s fresh t)) = t"
  "x_constraints (s_content (released_to s fresh t)) = filter (\<lambda>c. c_end c > t) (gathered s fresh)"
  "x_finished (s_content (released_to s fresh t)) = x_finished (s_content s)"
  "s_trip (released_to s fresh t) = s_trip s" "s_rows (released_to s fresh t) = s_rows s"
  "s_branch (released_to s fresh t) = s_branch s" "s_source (released_to s fresh t) = s_source s"
  "s_chat_id (released_to s fresh t) = s_chat_id s" "s_finished (released_to s fresh t) = s_finished s"
  by (simp_all add: released_to_def)

text \<open>The four ways a call of \<open>judge\<close> goes on an untripped stream.\<close>

lemma check_judge_eq:
  assumes "s_trip s = None"
  shows "check_judge j s =
    (let c = s_content s in
     case window_judge j s (x_text c) (x_decided c) True of
       Inl e \<Rightarrow> Some (s, Inl e)
     | Inr (Tripped t) \<Rightarrow> Some (record_stream_trip s t, Inr [])
     | Inr v \<Rightarrow>
         (case settle (x_released c) (gathered s (fresh_of v)) (length (x_text c) - LAG_CHARS) of
            None \<Rightarrow> None
          | Some t \<Rightarrow>
              (let target = max (x_released c) (min t (length (x_text c)))
               in Some (released_to s (fresh_of v) target, Inr (substr (x_text c) (x_released c) target)))))"
  using assms
  by (auto simp: check_judge_def Let_def gathered_def released_to_def fresh_of_def
      split: sum.splits verdict.splits option.splits)

lemma check_judge_cases:
  assumes "check_judge j s = Some (s', r)" "s_trip s = None"
  obtains (raised) e where "r = Inl e" "s' = s"
  | (tripped) t where "r = Inr []" "s' = record_stream_trip s t"
      "window_judge j s (x_text (s_content s)) (x_decided (s_content s)) True = Inr (Tripped t)"
  | (released) v t target where
      "window_judge j s (x_text (s_content s)) (x_decided (s_content s)) True = Inr v"
      "settle (x_released (s_content s)) (gathered s (fresh_of v))
         (length (x_text (s_content s)) - LAG_CHARS) = Some t"
      "target = max (x_released (s_content s)) (min t (length (x_text (s_content s))))"
      "s' = released_to s (fresh_of v) target"
      "r = Inr (substr (x_text (s_content s)) (x_released (s_content s)) target)"
  using assms unfolding check_judge_eq [OF assms(2)]
  by (auto simp: Let_def split: sum.splits verdict.splits option.splits)

section \<open>Streams\<close>

text \<open>
  \<open>relays s T out\<close>: a stream given the text \<open>T\<close> so far has released \<open>out\<close>, which is the first part of
  \<open>T\<close>, at least \<open>LAG_CHARS\<close> behind it, and an untripped stream holds no constraint that the release
  point splits.
\<close>

definition relays :: "stream_state \<Rightarrow> ustr \<Rightarrow> ustr \<Rightarrow> bool" where
  "relays s T out =
     (let c = s_content s in
      out = take (x_released c) T \<and>
      (x_released c = 0 \<or> x_released c + LAG_CHARS \<le> length T) \<and>
      (s_trip s = None \<longrightarrow> x_text c = T \<and> (\<forall>k \<in> set (x_constraints c). \<not> splits (x_released c) k)))"

lemma relays_new [simp]: "relays (new_stream supplied ctx branch src chat) [] []"
  by (simp add: relays_def new_stream_def new_text_def)

lemma relays_length: "relays s T out \<Longrightarrow> x_released (s_content s) \<le> length T"
  by (auto simp: relays_def Let_def)

lemma relays_grow: "relays s T out \<Longrightarrow> s_trip s = None \<Longrightarrow> relays (grown s d) (T @ d) out"
  by (auto simp: relays_def Let_def)

lemma settle_within:
  assumes "settle r cs (n - LAG_CHARS) = Some t" and "r = 0 \<or> r + LAG_CHARS \<le> n"
  shows "r \<le> t" "t \<le> n - LAG_CHARS" "\<forall>c \<in> set cs. \<not> splits t c"
  using settle_result [OF assms(1)] assms(2) by auto

lemma check_judge_relays:
  assumes inv: "relays s T out" and trip: "s_trip s = None"
    and call: "check_judge j s = Some (s', r)"
  shows "relays s' T (out @ (case r of Inl e \<Rightarrow> [] | Inr out' \<Rightarrow> out'))"
  using call trip
proof (cases rule: check_judge_cases)
  case raised
  with inv show ?thesis by simp
next
  case (tripped t)
  with inv trip show ?thesis by (auto simp: relays_def Let_def)
next
  case (released v t target)
  let ?c = "s_content s"
  from inv trip have T: "x_text ?c = T" and lag: "x_released ?c = 0 \<or> x_released ?c + LAG_CHARS \<le> length T"
    and out: "out = take (x_released ?c) T"
    by (auto simp: relays_def Let_def)
  note w = settle_within [OF released(2) [unfolded T] lag]
  from w have target: "target = t" using released(3) T by simp
  have "out @ substr T (x_released ?c) t = take t T"
    using out w(1) by (simp add: take_append_substr)
  with w trip T show ?thesis
    unfolding released(4,5) target by (auto simp: relays_def Let_def)
qed

lemma check_append_relays:
  assumes "relays s T out" and "check_append j d s = Some (s', r)"
  shows "relays s' (T @ d) (out @ (case r of Inl e \<Rightarrow> [] | Inr out' \<Rightarrow> out'))"
proof (cases "s_trip s")
  case None
  with assms(2) have "check_judge j (grown s d) = Some (s', r)" by (simp add: check_append_grown)
  from check_judge_relays [OF relays_grow [OF assms(1) None] _ this] None show ?thesis by simp
next
  case (Some t)
  with assms have "s' = s" "r = Inr []" by (auto simp: check_append_grown)
  with assms(1) Some relays_length [OF assms(1)] show ?thesis
    by (auto simp: relays_def Let_def)
qed

lemma feed_relays:
  "relays s T out \<Longrightarrow> feed j ds s = Some (s', Inr outs) \<Longrightarrow> relays s' (T @ concat ds) (out @ concat outs)"
proof (induction ds arbitrary: s T out outs)
  case (Cons d ds)
  from Cons.prems(2) obtain s1 x xs where one: "check_append j d s = Some (s1, Inr x)"
    and rest: "feed j ds s1 = Some (s', Inr xs)" and outs: "outs = x # xs"
    by (auto simp: bindp_Some_iff ret_def)
  from check_append_relays [OF Cons.prems(1) one] have "relays s1 (T @ d) (out @ x)" by simp
  from Cons.IH [OF this rest] show ?case by (simp add: outs)
qed (auto simp: ret_def)

lemma check_finish_cases:
  assumes "check_finish j s = Some (s', r)" "s_trip s = None" "\<not> x_finished (s_content s)"
  obtains (raised) e where "r = Inl e" "s' = s"
  | (tripped) t where "r = Inr []" "s' = record_stream_trip s t"
      "window_judge j s (x_text (s_content s)) (x_decided (s_content s)) False = Inr (Tripped t)"
  | (released) v where
      "window_judge j s (x_text (s_content s)) (x_decided (s_content s)) False = Inr v"
      "\<And>t. v \<noteq> Tripped t"
      "r = Inr (drop (x_released (s_content s)) (x_text (s_content s)))"
      "s' = s\<lparr>s_content := (s_content s)\<lparr>x_released := length (x_text (s_content s)),
         x_decided := length (x_text (s_content s)), x_constraints := [], x_finished := True\<rparr>\<rparr>"
  using assms unfolding check_finish_def
  by (auto simp: Let_def split: sum.splits verdict.splits)

lemma judge_stuck:
  assumes "s_trip s = None" "relays s T out"
    and "window_judge j s (x_text (s_content s)) (x_decided (s_content s)) True = Inr (Constrained cs)"
    and "c \<in> set cs" "splits (x_released (s_content s)) c"
    and "length (x_text (s_content s)) - LAG_CHARS < c_end c"
    and "x_released (s_content s) + LAG_CHARS \<le> length (x_text (s_content s))"
  shows "check_judge j s = None"
proof -
  have "c \<in> set (gathered s cs)"
    using assms(4,5) by (simp add: gathered_def splits_def)
  then have "\<exists>c \<in> set (gathered s cs). splits (x_released (s_content s)) c \<and>
      \<not> c_end c \<le> length (x_text (s_content s)) - LAG_CHARS"
    using assms(5,6) by auto
  then have "settle (x_released (s_content s)) (gathered s cs) (length (x_text (s_content s)) - LAG_CHARS) = None"
    using settle_stuck assms(7) by fastforce
  with assms(1,3) show ?thesis by (simp add: check_judge_eq Let_def)
qed

lemma shifted_iff:
  "Constrained cs = shifted n v \<longleftrightarrow> (\<exists>ds. v = Constrained ds \<and> cs = map (shift n) ds)"
  by (cases v) (auto simp: shifted_def)

text \<open>The contract of the judge a stream is checked by: it constrains a prefix only, inside its text.\<close>

locale prefix_judge =
  fixes j :: judge_fun
  assumes constrains_inside:
    "j [text] opening supplied contexts b since = Inr (Constrained cs) \<Longrightarrow>
       b \<and> within_text (length text) cs"
begin

lemma window_judge_inside:
  assumes "window_judge j s text decided b = Inr (Constrained cs)" and "judge_floor decided \<le> length text"
  shows "b \<and> within_text (length text) cs"
proof -
  from assms(1) obtain ds where ds:
    "j [drop (judge_floor decided) text] (take MAX_MATCH_CHARS text) (s_supplied s) (s_confirmation s) b
       (decided - judge_floor decided) = Inr (Constrained ds)"
    and cs: "cs = map (shift (judge_floor decided)) ds"
    by (auto simp: window_judge_def Let_def map_result_Inr_iff shifted_iff)
  from constrains_inside [OF ds] assms(2) show ?thesis
    by (auto simp: within_text_def list_all_iff cs shift_def)
qed

lemma finish_unconstrained:
  "judge_floor decided \<le> length text \<Longrightarrow> window_judge j s text decided False \<noteq> Inr (Constrained cs)"
  using window_judge_inside by blast

lemma fresh_inside:
  assumes "window_judge j s text decided b = Inr v" and "judge_floor decided \<le> length text"
  shows "within_text (length text) (fresh_of v)"
  using assms window_judge_inside by (cases v) auto

end

interpretation rendered: prefix_judge "judge_rendered U fams" for U fams
  by unfold_locales (use judge_rendered_within in blast)

lemma judge_floor_le: "d \<le> n \<Longrightarrow> judge_floor d \<le> n"
  by (simp add: judge_floor_def)

text \<open>Held constraints reach no further than the text, so none is left when the text is complete.\<close>

definition held_inside :: "stream_state \<Rightarrow> bool" where
  "held_inside s \<longleftrightarrow>
     x_decided (s_content s) \<le> length (x_text (s_content s)) \<and>
     within_text (length (x_text (s_content s))) (x_constraints (s_content s))
   \<or> s_trip s \<noteq> None"

lemma held_inside_new [simp]: "held_inside (new_stream supplied ctx branch src chat)"
  by (simp add: held_inside_def new_stream_def new_text_def)

lemma check_append_held_inside:
  assumes "held_inside s" and "check_append (judge_rendered U fams) d s = Some (s', r)"
  shows "held_inside s'"
proof (cases "s_trip s")
  case None
  let ?g = "grown s d"
  from assms(1) None have le: "x_decided (s_content ?g) \<le> length (x_text (s_content ?g))"
    and old: "within_text (length (x_text (s_content ?g))) (x_constraints (s_content ?g))"
    by (auto simp: held_inside_def within_text_def list_all_iff)
  from assms(2) None have call: "check_judge (judge_rendered U fams) ?g = Some (s', r)"
    by (simp add: check_append_grown)
  from None have "s_trip ?g = None" by simp
  from call this show ?thesis
  proof (cases rule: check_judge_cases)
    case raised
    with le old show ?thesis by (simp add: held_inside_def)
  next
    case (tripped t)
    then show ?thesis by (simp add: held_inside_def split: option.splits)
  next
    case (released v t target)
    have "within_text (length (x_text (s_content ?g))) (fresh_of v)"
      using rendered.fresh_inside [OF released(1) judge_floor_le [OF le]] .
    with old have "within_text (length (x_text (s_content ?g))) (gathered ?g (fresh_of v))"
      by (auto simp: gathered_def within_text_def list_all_iff)
    with le released(4) show ?thesis
      by (auto simp: held_inside_def released_to_def within_text_def list_all_iff)
  qed
next
  case (Some t)
  with assms show ?thesis by (simp add: check_append_grown)
qed

definition row_of :: "stream_state \<Rightarrow> trip_row list" where
  "row_of s = (case s_trip s of
     None \<Rightarrow> [] | Some t \<Rightarrow> [record_trip t (s_branch s) (s_source s) (s_chat_id s)])"

definition trip_recorded :: "stream_state \<Rightarrow> bool" where
  "trip_recorded s \<longleftrightarrow>
     s_rows s = row_of s \<and> (s_trip s \<noteq> None \<longrightarrow> x_text (s_content s) = [] \<and> x_constraints (s_content s) = [])"

lemma trip_recorded_record: "trip_recorded s \<Longrightarrow> trip_recorded (record_stream_trip s t)"
  by (auto simp: trip_recorded_def record_stream_trip_def row_of_def)

lemma trip_recorded_new [simp]: "trip_recorded (new_stream supplied ctx branch src chat)"
  by (simp add: trip_recorded_def new_stream_def row_of_def)

lemma check_append_recorded:
  assumes "trip_recorded s" and "check_append j d s = Some (s', r)"
  shows "trip_recorded s'"
proof (cases "s_trip s")
  case None
  have g: "trip_recorded (grown s d)"
    using assms(1) None by (simp add: trip_recorded_def row_of_def)
  from assms(2) None have call: "check_judge j (grown s d) = Some (s', r)"
    by (simp add: check_append_grown)
  from None have "s_trip (grown s d) = None" by simp
  from call this show ?thesis
  proof (cases rule: check_judge_cases)
    case (released v t target)
    with g None show ?thesis by (simp add: trip_recorded_def row_of_def)
  qed (use g in \<open>simp_all add: trip_recorded_record\<close>)
next
  case (Some t)
  with assms show ?thesis by (simp add: check_append_grown)
qed

lemma check_finish_recorded:
  assumes "trip_recorded s" and "check_finish j s = Some (s', r)"
  shows "trip_recorded s'"
proof (cases "s_trip s = None \<and> \<not> x_finished (s_content s)")
  case True
  then have "s_trip s = None" "\<not> x_finished (s_content s)" by auto
  from assms(2) this show ?thesis
  proof (cases rule: check_finish_cases)
    case (released v)
    with assms(1) True show ?thesis by (simp add: trip_recorded_def row_of_def)
  qed (use assms(1) in \<open>simp_all add: trip_recorded_record\<close>)
next
  case False
  with assms show ?thesis by (auto simp: check_finish_def Let_def split: if_splits)
qed

lemma feed_recorded:
  "trip_recorded s \<Longrightarrow> feed j ds s = Some (s', r) \<Longrightarrow> trip_recorded s'"
proof (induction ds arbitrary: s r)
  case (Cons d ds)
  from Cons.prems(2) obtain s1 q where one: "check_append j d s = Some (s1, q)"
    and rest: "s1 = s' \<or> (\<exists>q. feed j ds s1 = Some (s', q))"
    by (auto simp: bindp_Some_iff ret_def)
  from check_append_recorded [OF Cons.prems(1) one] rest Cons.IH show ?case by blast
qed (simp add: ret_def)

lemma check_append_unfinished:
  assumes "check_append j d s = Some (s', r)"
  shows "x_finished (s_content s') = x_finished (s_content s)"
proof (cases "s_trip s")
  case None
  with assms have "check_judge j (grown s d) = Some (s', r)" by (simp add: check_append_grown)
  moreover from None have "s_trip (grown s d) = None" by simp
  ultimately show ?thesis by (cases rule: check_judge_cases) simp_all
next
  case (Some t)
  with assms show ?thesis by (simp add: check_append_grown)
qed

lemma feed_unfinished:
  "feed j ds s = Some (s', r) \<Longrightarrow> x_finished (s_content s') = x_finished (s_content s)"
proof (induction ds arbitrary: s r)
  case (Cons d ds)
  from Cons.prems obtain s1 q where one: "check_append j d s = Some (s1, q)"
    and rest: "s1 = s' \<or> (\<exists>q. feed j ds s1 = Some (s', q))"
    by (auto simp: bindp_Some_iff ret_def)
  from check_append_unfinished [OF one] rest Cons.IH show ?case by metis
qed (simp add: ret_def)

lemma check_finish_relays:
  assumes "relays s T out" "\<not> x_finished (s_content s)"
    and "check_finish j s = Some (s', Inr tail)" "s_trip s' = None"
  shows "out @ tail = T"
proof -
  have "s_trip s = None"
    using assms(3,4) by (auto simp: check_finish_def split: if_splits)
  from assms(3) this assms(2) show ?thesis
  proof (cases rule: check_finish_cases)
    case (tripped t)
    with assms(4) \<open>s_trip s = None\<close> show ?thesis by simp
  next
    case (released v)
    with assms(1) \<open>s_trip s = None\<close> show ?thesis by (auto simp: relays_def Let_def)
  qed simp
qed

lemma check_append_context:
  assumes "relays s T out" "s_trip s = None"
    and "check_append j d s = Some (s', Inr out')" "s_trip s' = None"
    and "window_judge j (grown s d) (T @ d) (x_decided (s_content s)) True = Inr v"
    and "c \<in> set (x_constraints (s_content s)) \<union> set (fresh_of v)"
  shows "\<not> splits (x_released (s_content s')) c \<and>
    (c_end c \<le> x_released (s_content s') \<or> c \<in> set (x_constraints (s_content s')))"
proof -
  let ?g = "grown s d"
  have g: "relays ?g (T @ d) out" using relays_grow [OF assms(1,2)] .
  have T: "x_text (s_content ?g) = T @ d" and lag: "x_released (s_content ?g) = 0 \<or>
      x_released (s_content ?g) + LAG_CHARS \<le> length (T @ d)"
    using g assms(2) by (auto simp: relays_def Let_def)
  from assms(2,3) have call: "check_judge j ?g = Some (s', Inr out')" by (simp add: check_append_grown)
  from assms(2) have "s_trip ?g = None" by simp
  from call this show ?thesis
  proof (cases rule: check_judge_cases)
    case (tripped t)
    with assms(2,4) show ?thesis by simp
  next
    case (released w t target)
    from released(1) T assms(5) have w: "w = v" by simp
    note b = settle_within [OF released(2) [unfolded T] lag]
    from b T have target: "target = t" using released(3) by simp
    show ?thesis
    proof (cases "c_end c \<le> x_released (s_content ?g)")
      case True
      with b(1) show ?thesis by (auto simp: released(4) target splits_def)
    next
      case False
      with assms(6) have "c \<in> set (gathered ?g (fresh_of v))" by (auto simp: gathered_def)
      with b(3) show ?thesis by (auto simp: released(4) target w)
    qed
  qed simp
qed

lemma settle_Nil [simp]: "settle r [] n = Some n"
  by (simp add: settle.simps)

section \<open>Properties\<close>

text \<open>C3: whatever pieces a stream's text arrives in, what has been released is the first part of the
  text generated so far, and the last \<open>LAG_CHARS\<close> characters of it are still held.\<close>

theorem released_is_lagging_prefix:
  assumes "feed j ds (new_stream supplied ctx branch src chat) = Some (s', Inr outs)"
  shows "concat outs = take (x_released (s_content s')) (concat ds) \<and>
    (x_released (s_content s') = 0 \<or> x_released (s_content s') + LAG_CHARS \<le> length (concat ds))"
  using feed_relays [OF relays_new assms] by (simp add: relays_def Let_def)

definition clear_judge :: judge_fun where
  "clear_judge = (\<lambda>texts opening supplied ctx b since. Inr Clear)"

lemmas stream_eval =
  bindp_def ret_def check_append_def check_judge_def check_finish_def clear_judge_def new_stream_def
  new_text_def window_judge_def shifted_def active_constraints_def LAG_CHARS_def MAX_MATCH_CHARS_def
  RESTATEMENT_LOOKAHEAD_CHARS_def substr_def Let_def

lemma clear_stream:
  "\<exists>s'. feed clear_judge [replicate 150 120, replicate 50 120] (new_stream NO_SUPPLIED {} None src None) =
       Some (s', Inr [[], replicate 10 120]) \<and> x_released (s_content s') = 10 \<and>
     (\<exists>s''. check_finish clear_judge s' = Some (s'', Inr (replicate 190 120)) \<and> s_trip s'' = None)"
  by (simp add: stream_eval replicate_add [symmetric])

theorem released_is_lagging_prefix_witness:
  "concat [[], replicate 10 120] = take 10 (concat [replicate 150 120, replicate 50 (120::nat)]) \<and>
   ((10::nat) = 0 \<or> 10 + LAG_CHARS \<le> length (concat [replicate 150 120, replicate 50 (120::nat)]))"
  using released_is_lagging_prefix clear_stream [of USER_SOURCE] by metis

text \<open>C4: a stream that finishes without a trip has released exactly the text it was given: nothing is
  lost, repeated or reordered by the window.\<close>

theorem untripped_stream_complete:
  assumes "feed j ds (new_stream supplied ctx branch src chat) = Some (s', Inr outs)"
    and "check_finish j s' = Some (s'', Inr tail)" "s_trip s'' = None"
  shows "concat outs @ tail = concat ds"
proof -
  have "\<not> x_finished (s_content s')"
    using feed_unfinished [OF assms(1)] by (simp add: new_stream_def new_text_def)
  from check_finish_relays [OF feed_relays [OF relays_new assms(1)] this assms(2,3)]
  show ?thesis by simp
qed

theorem untripped_stream_complete_witness:
  "concat [[], replicate 10 120] @ replicate 190 120 = concat [replicate 150 120, replicate 50 (120::nat)]"
  using untripped_stream_complete clear_stream [of USER_SOURCE] by metis

text \<open>C5: the context that decided a hit travels with it: after a call that releases text, the release
  point splits no constraint that was held before or reported by that call, and each of them is either
  wholly released or still held.\<close>

theorem release_never_splits_context:
  assumes "feed j ds (new_stream supplied ctx branch src chat) = Some (s, Inr outs)" "s_trip s = None"
    and "check_append j d s = Some (s', Inr out')" "s_trip s' = None"
    and "window_judge j (grown s d) (concat ds @ d) (x_decided (s_content s)) True = Inr v"
    and "c \<in> set (x_constraints (s_content s)) \<union> set (fresh_of v)"
  shows "\<not> (c_start c < x_released (s_content s') \<and> x_released (s_content s') < c_end c) \<and>
    (c_end c \<le> x_released (s_content s') \<or> c \<in> set (x_constraints (s_content s')))"
  using check_append_context [OF feed_relays [OF relays_new assms(1)], of j d s' out' v c] assms(2-6)
  by (simp add: splits_def)

definition one_constraint_judge :: judge_fun where
  "one_constraint_judge = (\<lambda>texts opening supplied ctx b since.
     if b then Inr (Constrained [\<lparr>c_start = 5, c_end = 30\<rparr>]) else Inr Clear)"

theorem release_never_splits_context_witness:
  "\<not> ((5::nat) < 5 \<and> 5 < (30::nat)) \<and> ((30::nat) \<le> 5 \<or>
     \<lparr>c_start = 5, c_end = 30\<rparr> \<in> set [\<lparr>c_start = 5, c_end = 30\<rparr>])"
proof -
  let ?s = "new_stream NO_SUPPLIED {} None USER_SOURCE None"
  let ?c = "\<lparr>c_start = 5, c_end = 30\<rparr>"
  have settle: "settle 0 [?c] 10 = Some 5"
    by (simp add: settle.simps)
  have w: "window_judge one_constraint_judge (grown ?s (replicate 200 120)) (concat [] @ replicate 200 120) 0 True =
      Inr (Constrained [?c])"
    by (simp add: window_judge_def one_constraint_judge_def shifted_def shift_def judge_floor_def Let_def)
  have "\<exists>s'. check_append one_constraint_judge (replicate 200 120) ?s = Some (s', Inr (replicate 5 120)) \<and>
      s_trip s' = None \<and> x_released (s_content s') = 5 \<and> x_constraints (s_content s') = [?c]"
    by (simp add: stream_eval one_constraint_judge_def shift_def judge_floor_def add_key_def settle)
  then obtain s' where s': "check_append one_constraint_judge (replicate 200 120) ?s = Some (s', Inr (replicate 5 120))"
    "s_trip s' = None" "x_released (s_content s') = 5" "x_constraints (s_content s') = [?c]" by blast
  have f: "feed one_constraint_judge [] ?s = Some (?s, Inr [])" by (simp add: ret_def)
  have d: "x_decided (s_content ?s) = 0" "s_trip ?s = None" by (simp_all add: new_stream_def new_text_def)
  from release_never_splits_context [OF f d(2) s'(1,2) w [folded d(1)], where c = ?c] s'(3,4)
  show ?thesis by simp
qed

text \<open>C13: the call that judges a stream returns, or raises the judge's own exception, unless a freshly
  reported constraint straddles the text already released.\<close>

theorem judge_call_returns:
  assumes "feed j ds (new_stream supplied ctx branch src chat) = Some (s, Inr outs)"
    and "\<And>v c. window_judge j (grown s d) (concat ds @ d) (x_decided (s_content s)) True = Inr v \<Longrightarrow>
       c \<in> set (fresh_of v) \<Longrightarrow>
       \<not> (c_start c < x_released (s_content s) \<and> x_released (s_content s) < c_end c)"
  shows "\<exists>s' r. check_append j d s = Some (s', r)"
proof (cases "s_trip s")
  case None
  let ?g = "grown s d"
  have rel: "relays s (concat ds) (concat outs)" using feed_relays [OF relays_new assms(1)] by simp
  have g: "relays ?g (concat ds @ d) (concat outs)" using relays_grow [OF rel None] .
  with None have T: "x_text (s_content ?g) = concat ds @ d"
    and old: "\<forall>k \<in> set (x_constraints (s_content ?g)). \<not> splits (x_released (s_content ?g)) k"
    and lag: "x_released (s_content ?g) = 0 \<or> x_released (s_content ?g) + LAG_CHARS \<le> length (concat ds @ d)"
    by (auto simp: relays_def Let_def)
  have tripless: "s_trip ?g = None" using None by simp
  show ?thesis
  proof (cases "window_judge j ?g (x_text (s_content ?g)) (x_decided (s_content ?g)) True")
    case (Inl e)
    with None tripless show ?thesis by (simp add: check_append_grown check_judge_eq Let_def)
  next
    case (Inr v)
    with assms(2) T have "\<forall>c \<in> set (fresh_of v). \<not> splits (x_released (s_content ?g)) c"
      by (auto simp: splits_def)
    with old have "\<forall>c \<in> set (gathered ?g (fresh_of v)). \<not> splits (x_released (s_content ?g)) c"
      by (auto simp: gathered_def)
    moreover from lag have "x_released (s_content ?g) \<le> length (x_text (s_content ?g)) - LAG_CHARS"
      unfolding T by auto
    ultimately obtain t where "settle (x_released (s_content ?g)) (gathered ?g (fresh_of v))
        (length (x_text (s_content ?g)) - LAG_CHARS) = Some t"
      using settle_returns by blast
    with None tripless Inr show ?thesis
      by (cases v) (simp_all add: check_append_grown check_judge_eq Let_def)
  qed
qed (simp add: check_append_grown)

theorem judge_call_returns_witness:
  "\<exists>s' r. check_append clear_judge (ulit ''hello'') (new_stream NO_SUPPLIED {} None USER_SOURCE None) = Some (s', r)"
  by (rule judge_call_returns [where ds = "[]" and outs = "[]"])
    (auto simp: ret_def window_judge_def clear_judge_def shifted_def Let_def)

text \<open>C14: it does not return where a freshly reported constraint straddles the text already released - it starts before
  the release point and ends after it - and also ends past the new lag point: the loop then moves for ever.\<close>

theorem judge_call_diverges:
  assumes "feed j ds (new_stream supplied ctx branch src chat) = Some (s, Inr outs)"
    and "s_trip s = None" "0 < x_released (s_content s)"
    and "window_judge j (grown s d) (concat ds @ d) (x_decided (s_content s)) True = Inr (Constrained cs)"
    and "c \<in> set cs" "c_start c < x_released (s_content s)" "x_released (s_content s) < c_end c"
    and "length (concat ds @ d) - LAG_CHARS < c_end c"
  shows "check_append j d s = None"
proof -
  let ?g = "grown s d"
  have rel: "relays s (concat ds) (concat outs)" using feed_relays [OF relays_new assms(1)] by simp
  have g: "relays ?g (concat ds @ d) (concat outs)" using relays_grow [OF rel assms(2)] .
  with assms(2) have T: "x_text (s_content ?g) = concat ds @ d" by (auto simp: relays_def Let_def)
  from g assms(3) have "x_released (s_content ?g) + LAG_CHARS \<le> length (x_text (s_content ?g))"
    unfolding T by (auto simp: relays_def Let_def)
  with judge_stuck [of ?g _ _ j cs c] g assms(2-8) T have "check_judge j ?g = None"
    by (auto simp: splits_def)
  with assms(2) show ?thesis by (simp add: check_append_grown)
qed

definition straddling_judge :: judge_fun where
  "straddling_judge = (\<lambda>texts opening supplied ctx b since.
     if concat texts = replicate 200 120 then Inr Clear
     else Inr (Constrained [\<lparr>c_start = 5, c_end = 30\<rparr>]))"

theorem judge_call_diverges_witness:
  "\<exists>s. check_append straddling_judge [120] s = None"
proof -
  let ?s = "new_stream NO_SUPPLIED {} None USER_SOURCE None"
  have "\<exists>s. feed straddling_judge [replicate 200 120] ?s = Some (s, Inr [replicate 10 120]) \<and>
      s_trip s = None \<and> x_released (s_content s) = 10 \<and> x_decided (s_content s) = 160 \<and>
      x_text (s_content s) = replicate 200 120"
    by (simp add: stream_eval straddling_judge_def judge_floor_def)
  then obtain s where s: "feed straddling_judge [replicate 200 120] ?s = Some (s, Inr [replicate 10 120])"
    "s_trip s = None" "x_released (s_content s) = 10" "x_decided (s_content s) = 160" by blast
  have floor: "judge_floor 160 = 0" by code_simp
  have w: "window_judge straddling_judge (grown s [120]) (concat [replicate 200 120] @ [120])
      (x_decided (s_content s)) True = Inr (Constrained [\<lparr>c_start = 5, c_end = 30\<rparr>])"
    by (simp add: s floor window_judge_def straddling_judge_def shifted_def shift_def Let_def)
  have "check_append straddling_judge [120] s = None"
    by (rule judge_call_diverges [OF s(1,2) _ w, of "\<lparr>c_start = 5, c_end = 30\<rparr>"])
      (simp_all add: s LAG_CHARS_def MAX_MATCH_CHARS_def RESTATEMENT_LOOKAHEAD_CHARS_def)
  then show ?thesis by blast
qed

text \<open>C15: one row is dispatched for a stream that trips, none for one that does not, and the texts of a
  tripped stream are discarded.\<close>

theorem trip_recorded_once:
  assumes "feed j ds (new_stream supplied ctx branch src chat) = Some (s, r)"
    and "check_finish j s = Some (s', r')"
  shows "s_rows s' = (case s_trip s' of
      None \<Rightarrow> []
    | Some t \<Rightarrow> [record_trip t (s_branch s') (s_source s') (s_chat_id s')]) \<and>
    (s_trip s' = None \<or> x_text (s_content s') = [] \<and> x_constraints (s_content s') = [])"
  using check_finish_recorded [OF feed_recorded [OF trip_recorded_new assms(1)] assms(2)]
  by (auto simp: trip_recorded_def row_of_def)

definition tripping_judge :: judge_fun where
  "tripping_judge = (\<lambda>texts opening supplied ctx b since.
     Inr (Tripped \<lparr>t_family = ''deadline'', t_pattern_id = ''deadline/days-remaining@1''\<rparr>))"

theorem trip_recorded_once_witness:
  "\<exists>s' :: stream_state. s_trip s' = Some \<lparr>t_family = ''deadline'', t_pattern_id = ''deadline/days-remaining@1''\<rparr> \<and>
     s_rows s' = (case s_trip s' of
      None \<Rightarrow> []
    | Some t \<Rightarrow> [record_trip t (s_branch s') (s_source s') (s_chat_id s')])"
proof -
  let ?s = "new_stream NO_SUPPLIED {} None USER_SOURCE None"
  let ?t = "\<lparr>t_family = ''deadline'', t_pattern_id = ''deadline/days-remaining@1''\<rparr>"
  have "\<exists>s. feed tripping_judge [ulit ''x''] ?s = Some (s, Inr [[]]) \<and>
      check_finish tripping_judge s = Some (s, Inr []) \<and> s_trip s = Some ?t"
    by (simp add: stream_eval tripping_judge_def record_stream_trip_def)
  then obtain s where s: "feed tripping_judge [ulit ''x''] ?s = Some (s, Inr [[]])"
    "check_finish tripping_judge s = Some (s, Inr [])" "s_trip s = Some ?t" by blast
  have "s_rows s = (case s_trip s of None \<Rightarrow> []
      | Some t \<Rightarrow> [record_trip t (s_branch s) (s_source s) (s_chat_id s)])"
    using trip_recorded_once [OF s(1,2)] by (rule conjunct1)
  with s(3) show ?thesis by blast
qed

text \<open>The window a stream judges reaches far enough back: a hit no wider than the match bound that is
  not yet decided starts in it, with its whole exemption context before it, or the window is the text.\<close>

theorem judge_floor_covers:
  assumes "max_width r \<noteq> None" "the (max_width r) \<le> MAX_MATCH_CHARS"
    and "is_match U ic r text m" "since < m_end m"
  shows "judge_floor since = 0 \<or> judge_floor since + EXEMPTION_REACH_CHARS \<le> m_start m"
proof -
  from assms(1,2) obtain w where "max_width r = Some w" "w \<le> MAX_MATCH_CHARS" by auto
  with is_match_width [OF assms(3)] have "m_end m \<le> m_start m + MAX_MATCH_CHARS" by fastforce
  with assms(4) show ?thesis by (auto simp: judge_floor_def)
qed

theorem judge_floor_covers_witness:
  "judge_floor 2 = 0 \<or> judge_floor 2 + EXEMPTION_REACH_CHARS \<le> 0"
  using judge_floor_covers [of "lit ''due''" ascii_ucd True "ulit ''due''" "\<lparr>m_start = 0, m_end = 3, m_caps = []\<rparr>" 2]
  by (simp add: is_match_def lit_def rx_chars_def ulit_def class_match_def MAX_MATCH_CHARS_def)

end
