(* ===== verification/Py_Utf8.thy ===== *)
theory Py_Utf8
  imports Gideon_Prelude
begin

text \<open>
  \<open>bytes.decode("utf-8")\<close> and \<open>str.encode("utf-8")\<close> with the strict error handler: overlong forms,
  surrogates and values past \<open>U+10FFFF\<close> raise.
\<close>

definition cont_byte :: "nat \<Rightarrow> bool" where
  "cont_byte b = (128 \<le> b \<and> b \<le> 191)"

fun utf8_points :: "nat list \<Rightarrow> ustr result" where
  "utf8_points [] = Inr []"
| "utf8_points (a # bs) =
     (if a < 128 then map_result ((#) a) (utf8_points bs)
      else if 194 \<le> a \<and> a \<le> 223 then
        (case bs of
           b # bs' \<Rightarrow>
             if cont_byte b then map_result ((#) ((a - 192) * 64 + (b - 128))) (utf8_points bs')
             else Inl ''UnicodeDecodeError''
         | [] \<Rightarrow> Inl ''UnicodeDecodeError'')
      else if 224 \<le> a \<and> a \<le> 239 then
        (case bs of
           b # c # bs' \<Rightarrow>
             if cont_byte b \<and> cont_byte c \<and> (a = 224 \<longrightarrow> 160 \<le> b) \<and> (a = 237 \<longrightarrow> b \<le> 159)
             then map_result ((#) ((a - 224) * 4096 + (b - 128) * 64 + (c - 128))) (utf8_points bs')
             else Inl ''UnicodeDecodeError''
         | _ \<Rightarrow> Inl ''UnicodeDecodeError'')
      else if 240 \<le> a \<and> a \<le> 244 then
        (case bs of
           b # c # d # bs' \<Rightarrow>
             if cont_byte b \<and> cont_byte c \<and> cont_byte d \<and> (a = 240 \<longrightarrow> 144 \<le> b) \<and> (a = 244 \<longrightarrow> b \<le> 143)
             then map_result ((#) ((a - 240) * 262144 + (b - 128) * 4096 + (c - 128) * 64 + (d - 128)))
               (utf8_points bs')
             else Inl ''UnicodeDecodeError''
         | _ \<Rightarrow> Inl ''UnicodeDecodeError'')
      else Inl ''UnicodeDecodeError'')"

definition utf8_decode :: "bytes \<Rightarrow> ustr result" where
  "utf8_decode bs = utf8_points (map unat bs)"

definition utf8_of_point :: "codepoint \<Rightarrow> nat list" where
  "utf8_of_point c =
     (if c < 128 then [c]
      else if c < 2048 then [192 + c div 64, 128 + c mod 64]
      else if c < 65536 then [224 + c div 4096, 128 + c div 64 mod 64, 128 + c mod 64]
      else [240 + c div 262144, 128 + c div 4096 mod 64, 128 + c div 64 mod 64, 128 + c mod 64])"

definition is_scalar :: "codepoint \<Rightarrow> bool" where
  "is_scalar c = (c < 1114112 \<and> \<not> (55296 \<le> c \<and> c \<le> 57343))"

definition utf8_encode :: "ustr \<Rightarrow> bytes result" where
  "utf8_encode s =
     (if list_all is_scalar s then Inr (map of_nat (concat (map utf8_of_point s)))
      else Inl ''UnicodeEncodeError'')"

lemma split64: "\<exists>q r. c div 64 = q \<and> c mod 64 = r \<and> c = q * 64 + r \<and> r \<le> (63::nat)"
proof -
  have "c mod 64 < 64" by simp
  then have "c mod 64 \<le> 63" by linarith
  moreover have "c = c div 64 * 64 + c mod 64" by simp
  ultimately show ?thesis by blast
qed

lemma split4096:
  "\<exists>q r t. c div 4096 = q \<and> c div 64 mod 64 = r \<and> c mod 64 = t \<and> c = q * 4096 + r * 64 + t \<and>
     r \<le> 63 \<and> t \<le> (63::nat)"
proof -
  obtain p t where c: "c div 64 = p" "c mod 64 = t" "c = p * 64 + t" "t \<le> 63"
    using split64 by blast
  obtain q r where p: "p div 64 = q" "p mod 64 = r" "p = q * 64 + r" "r \<le> 63"
    using split64 by blast
  have "c div 4096 = q" using div_mult2_eq [of c 64 64] c(1) p(1) by simp
  moreover have "c = q * 4096 + r * 64 + t" using c(3) p(3) by simp
  moreover have "c div 64 mod 64 = r" using c(1) p(2) by simp
  ultimately show ?thesis using c(2,4) p(4) by blast
qed

lemma split262144:
  "\<exists>q r t u. c div 262144 = q \<and> c div 4096 mod 64 = r \<and> c div 64 mod 64 = t \<and> c mod 64 = u \<and>
     c = q * 262144 + r * 4096 + t * 64 + u \<and> r \<le> 63 \<and> t \<le> 63 \<and> u \<le> (63::nat)"
proof -
  obtain p t u where c: "c div 4096 = p" "c div 64 mod 64 = t" "c mod 64 = u"
    "c = p * 4096 + t * 64 + u" "t \<le> 63" "u \<le> 63"
    using split4096 by blast
  obtain q r where p: "p div 64 = q" "p mod 64 = r" "p = q * 64 + r" "r \<le> 63"
    using split64 by blast
  have "c div 262144 = q" using div_mult2_eq [of c 4096 64] c(1) p(1) by simp
  moreover have "c = q * 262144 + r * 4096 + t * 64 + u" using c(4) p(3) by simp
  moreover have "c div 4096 mod 64 = r" using c(1) p(2) by simp
  ultimately show ?thesis using c(2,3,5,6) p(4) by blast
qed

lemma utf8_points_of_point:
  assumes "is_scalar c"
  shows "utf8_points (utf8_of_point c @ bs) = map_result ((#) c) (utf8_points bs)"
proof -
  consider (one) "c < 128" | (two) "128 \<le> c" "c < 2048" | (three) "2048 \<le> c" "c < 65536"
    | (four) "65536 \<le> c" "c < 1114112"
    using assms by (fastforce simp: is_scalar_def)
  then show ?thesis
  proof cases
    case one
    then show ?thesis by (simp add: utf8_of_point_def)
  next
    case two
    obtain a b where ab: "c div 64 = a" "c mod 64 = b" "c = a * 64 + b" "b \<le> 63"
      using split64 by blast
    with two have "2 \<le> a" "a \<le> 31" by linarith+
    with ab(3,4) have "utf8_points ([192 + a, 128 + b] @ bs) = map_result ((#) c) (utf8_points bs)"
      by (simp add: cont_byte_def)
    with two ab(1,2) show ?thesis by (simp add: utf8_of_point_def)
  next
    case three
    obtain a b d where abd: "c div 4096 = a" "c div 64 mod 64 = b" "c mod 64 = d"
      "c = a * 4096 + b * 64 + d" "b \<le> 63" "d \<le> 63"
      using split4096 by blast
    with three have a: "a \<le> 15" "a = 0 \<longrightarrow> 32 \<le> b" by linarith+
    have "a = 13 \<longrightarrow> b \<le> 31" using abd(4-6) assms unfolding is_scalar_def by presburger
    with a abd(4-6) have "utf8_points ([224 + a, 128 + b, 128 + d] @ bs) = map_result ((#) c) (utf8_points bs)"
      by (simp add: cont_byte_def)
    with three abd(1-3) show ?thesis by (simp add: utf8_of_point_def)
  next
    case four
    obtain a b d e where abd: "c div 262144 = a" "c div 4096 mod 64 = b" "c div 64 mod 64 = d"
      "c mod 64 = e" "c = a * 262144 + b * 4096 + d * 64 + e" "b \<le> 63" "d \<le> 63" "e \<le> 63"
      using split262144 by blast
    with four have "a \<le> 4" "a = 0 \<longrightarrow> 16 \<le> b" "a = 4 \<longrightarrow> b \<le> 15" by linarith+
    with abd(5-8) have "utf8_points ([240 + a, 128 + b, 128 + d, 128 + e] @ bs) = map_result ((#) c) (utf8_points bs)"
      by (simp add: cont_byte_def)
    with four abd(1-4) show ?thesis by (simp add: utf8_of_point_def)
  qed
qed

lemma utf8_of_point_byte:
  assumes "is_scalar c" "b \<in> set (utf8_of_point c)"
  shows "b < 256"
proof -
  have m: "x mod 64 < 64" for x :: nat by simp
  have d: "c < 2048 \<Longrightarrow> c div 64 < 32" "c < 65536 \<Longrightarrow> c div 4096 < 16" "c < 1114112 \<Longrightarrow> c div 262144 < 5"
    by (simp_all add: less_mult_imp_div_less)
  from assms m [of c] m [of "c div 64"] m [of "c div 4096"] d show ?thesis
    by (auto simp: utf8_of_point_def is_scalar_def simp del: mod_less_divisor split: if_splits)
qed

lemma utf8_of_point_ascii: "b \<in> set (utf8_of_point c) \<Longrightarrow> b < 128 \<Longrightarrow> b = c"
  unfolding utf8_of_point_def by (auto split: if_splits)

lemma utf8_points_encode:
  "list_all is_scalar s \<Longrightarrow> utf8_points (concat (map utf8_of_point s)) = Inr s"
  by (induction s) (simp_all add: utf8_points_of_point)

lemma map_unat_of_nat:
  "\<forall>b \<in> set bs. b < 256 \<Longrightarrow> map unat (map (of_nat :: nat \<Rightarrow> byte) bs) = bs"
  by (induction bs) (auto simp: unat_of_nat)

theorem utf8_decode_encode: "utf8_encode s = Inr bs \<Longrightarrow> utf8_decode bs = Inr s"
proof -
  assume "utf8_encode s = Inr bs"
  then have s: "list_all is_scalar s" and bs: "bs = map of_nat (concat (map utf8_of_point s))"
    by (auto simp: utf8_encode_def split: if_splits)
  have "\<forall>b \<in> set (concat (map utf8_of_point s)). b < 256"
    using s utf8_of_point_byte by (auto simp: list_all_iff)
  then have "map unat bs = concat (map utf8_of_point s)" unfolding bs by (rule map_unat_of_nat)
  with utf8_points_encode [OF s] show ?thesis by (simp add: utf8_decode_def)
qed

lemma utf8_encode_ascii_absent:
  "utf8_encode s = Inr bs \<Longrightarrow> c < 128 \<Longrightarrow> c \<notin> set s \<Longrightarrow> of_nat c \<notin> set bs"
proof
  assume enc: "utf8_encode s = Inr bs" and c: "c < 128" "c \<notin> set s" and "of_nat c \<in> set bs"
  then obtain p b where p: "p \<in> set s" "b \<in> set (utf8_of_point p)" "(of_nat c :: byte) = of_nat b"
    and s: "list_all is_scalar s"
    by (auto simp: utf8_encode_def split: if_splits)
  then have "b < 256" using utf8_of_point_byte by (auto simp: list_all_iff)
  then have "unat (of_nat b :: byte) = b" by (simp add: unat_of_nat)
  moreover from c(1) have "unat (of_nat c :: byte) = c" by (simp add: unat_of_nat)
  ultimately have "b = c" using p(3) by simp
  with utf8_of_point_ascii [OF p(2)] c p(1) show False by simp
qed

end
