(* ===== verification/Api_Sse.thy ===== *)
theory Api_Sse
  imports Py_Utf8 "HOL-Library.Code_Target_Nat"
begin

text \<open>
  \<open>gideon/api/sse.py\<close>: the reassembly of the engine's raw byte chunks into complete Server-Sent
  Events, with the bound on an event's bytes, and the content-type predicate. The reassembler's state
  is its byte buffer; a call that raises keeps the buffer it had reached and loses its events.
\<close>

section \<open>The reassembler\<close>

definition SSE_EVENT_BUFFER_LIMIT_BYTES :: nat where
  "SSE_EVENT_BUFFER_LIMIT_BYTES = 1048576"

definition DONE_EVENT :: ustr where
  "DONE_EVENT = ulit ''[DONE]''"

definition EVENT_STREAM_MEDIA_TYPE :: ustr where
  "EVENT_STREAM_MEDIA_TYPE = ulit ''text/event-stream''"

definition is_event_stream :: "ucd \<Rightarrow> ustr option \<Rightarrow> bool" where
  "is_event_stream U content_type =
     (case content_type of
        None \<Rightarrow> False
      | Some t \<Rightarrow>
          py_casefold U (strip_by (uc_space U) (hd (split_on 59 t))) = EVENT_STREAM_MEDIA_TYPE)"

definition LF2 :: bytes where "LF2 = [10, 10]"
definition CRLF2 :: bytes where "CRLF2 = [13, 10, 13, 10]"

text \<open>The least of the boundaries present, as a pair of the event's end and the separator's length.\<close>

definition boundary :: "bytes \<Rightarrow> (nat \<times> nat) option" where
  "boundary buffer =
     (case (find_sub LF2 buffer, find_sub CRLF2 buffer) of
        (None, None) \<Rightarrow> None
      | (Some a, None) \<Rightarrow> Some (a, a + 2)
      | (None, Some b) \<Rightarrow> Some (b, b + 4)
      | (Some a, Some b) \<Rightarrow> if a \<le> b then Some (a, a + 2) else Some (b, b + 4))"

definition strip_cr :: "ustr \<Rightarrow> ustr" where
  "strip_cr line = (if ends_with line [13] then butlast line else line)"

definition data_value :: "ustr \<Rightarrow> ustr option" where
  "data_value line =
     (if starts_with line (ulit ''data:'')
      then (let value = drop 5 line in Some (if starts_with value [32] then drop 1 value else value))
      else None)"

definition payload :: "bytes \<Rightarrow> ustr option result" where
  "payload event =
     map_result (\<lambda>decoded.
         let data = List.map_filter (\<lambda>line. data_value (strip_cr line)) (split_on 10 decoded)
         in if data = [] then None else Some (join_with [10] data))
       (utf8_decode event)"

lemma boundary_consumes: "boundary b = Some (e, c) \<Longrightarrow> e < c \<and> c \<le> length b"
  by (auto simp: boundary_def LF2_def CRLF2_def dest!: find_sub_Some split: option.splits if_splits)

function drain :: "bytes \<Rightarrow> bytes \<times> ustr list result" where
  "drain buffer =
     (case boundary buffer of
        None \<Rightarrow>
          (buffer, if length buffer > SSE_EVENT_BUFFER_LIMIT_BYTES then Inl ''SSEEventTooLargeError''
                   else Inr [])
      | Some (event_end, consumed) \<Rightarrow>
          (if length (take event_end buffer) > SSE_EVENT_BUFFER_LIMIT_BYTES
           then (drop consumed buffer, Inl ''SSEEventTooLargeError'')
           else case payload (take event_end buffer) of
               Inl e \<Rightarrow> (drop consumed buffer, Inl e)
             | Inr None \<Rightarrow> drain (drop consumed buffer)
             | Inr (Some p) \<Rightarrow> apsnd (map_result ((#) p)) (drain (drop consumed buffer))))"
  by pat_completeness auto
termination
  by (relation "measure length") (auto dest!: boundary_consumes)

declare drain.simps [simp del]

definition sse_feed :: "bytes \<Rightarrow> bytes \<Rightarrow> bytes \<times> ustr list result" where
  "sse_feed buffer chunk = drain (buffer @ chunk)"

definition byte_space :: "byte \<Rightarrow> bool" where  \<comment> \<open>\<open>bytes.strip()\<close> strips these\<close>
  "byte_space b = (b = 32 \<or> 9 \<le> unat b \<and> unat b \<le> 13)"

definition has_pending_bytes :: "bytes \<Rightarrow> bool" where
  "has_pending_bytes buffer = (strip_by byte_space buffer \<noteq> [])"

text \<open>The chunks of a whole body, one call each, up to the first that raises.\<close>

primrec feed_chunks :: "bytes \<Rightarrow> bytes list \<Rightarrow> bytes \<times> ustr list result" where
  "feed_chunks buffer [] = (buffer, Inr [])"
| "feed_chunks buffer (c # cs) =
     (case sse_feed buffer c of
        (b, Inl e) \<Rightarrow> (b, Inl e)
      | (b, Inr events) \<Rightarrow> (case feed_chunks b cs of (b', r) \<Rightarrow> (b', map_result ((@) events) r)))"

section \<open>Boundaries do not move\<close>

lemma separator_lengths [simp]: "length LF2 = 2" "length CRLF2 = 4"
  by (simp_all add: LF2_def CRLF2_def)

lemma take2_iff: "take 2 (drop i s) = LF2 \<longleftrightarrow> Suc i < length s \<and> s ! i = 10 \<and> s ! Suc i = 10"
proof (cases "Suc i < length s")
  case True
  then have "take 2 (drop i s) = [s ! i, s ! Suc i]"
    by (simp add: Cons_nth_drop_Suc [symmetric] numeral_2_eq_2)
  with True show ?thesis by (simp add: LF2_def)
next
  case False
  then have "length (take 2 (drop i s)) \<noteq> length LF2" by (simp add: LF2_def)
  then have "take 2 (drop i s) \<noteq> LF2" by metis
  with False show ?thesis by simp
qed

lemma take4_iff:
  "take 4 (drop i s) = CRLF2 \<longleftrightarrow> i + 3 < length s \<and> s ! i = 13 \<and> s ! (i + 1) = 10 \<and>
     s ! (i + 2) = 13 \<and> s ! (i + 3) = 10"
proof (cases "i + 3 < length s")
  case True
  then have "take 4 (drop i s) = [s ! i, s ! (i + 1), s ! (i + 2), s ! (i + 3)]"
    by (simp add: Cons_nth_drop_Suc [symmetric] eval_nat_numeral)
  with True show ?thesis by (simp add: CRLF2_def)
next
  case False
  then have "length (take 4 (drop i s)) \<noteq> length CRLF2" by (simp add: CRLF2_def)
  then have "take 4 (drop i s) \<noteq> CRLF2" by metis
  with False show ?thesis by simp
qed

lemma find_LF2:
  "find_sub LF2 s = Some i \<Longrightarrow> Suc i < length s \<and> s ! i = 10 \<and> s ! Suc i = 10"
  using find_sub_Some [of LF2 s i] take2_iff [of i s] by simp

lemma find_CRLF2:
  "find_sub CRLF2 s = Some i \<Longrightarrow> i + 3 < length s \<and> s ! i = 13 \<and> s ! (i + 1) = 10 \<and>
     s ! (i + 2) = 13 \<and> s ! (i + 3) = 10"
  using find_sub_Some [of CRLF2 s i] take4_iff [of i s] by simp

lemma find_sub_new:
  assumes "find_sub p s = None" "find_sub p (s @ t) = Some i"
  shows "length s < i + length p"
proof (rule ccontr)
  assume "\<not> length s < i + length p"
  then have le: "i + length p \<le> length s" by simp
  with find_sub_Some [OF assms(2)] have "take (length p) (drop i s) = p" by simp
  with find_sub_least [of p i s] le assms(1) show False by auto
qed

lemma boundary_append:
  assumes "boundary b = Some x"
  shows "boundary (b @ c) = Some x"
proof (cases "find_sub LF2 b")
  case (Some i)
  note lf = this find_sub_append [OF this, of c] find_LF2 [OF this]
  show ?thesis
  proof (cases "find_sub CRLF2 b")
    case (Some k)
    with lf assms find_sub_append [OF Some, of c] show ?thesis by (auto simp: boundary_def split: if_splits)
  next
    case None
    have "i \<le> k" if k: "find_sub CRLF2 (b @ c) = Some k" for k
    proof (rule ccontr)
      assume "\<not> i \<le> k"
      with find_sub_new [OF None k] lf(3) have "i = Suc k" by (simp add: CRLF2_def)
      with find_CRLF2 [OF k] lf(3) have "(b @ c) ! Suc i = 13" "(b @ c) ! Suc i = 10"
        by (auto simp: nth_append)
      then show False by simp
    qed
    with lf None assms show ?thesis by (auto simp: boundary_def split: option.splits)
  qed
next
  case None
  with assms obtain k where k: "find_sub CRLF2 b = Some k" and x: "x = (k, k + 4)"
    by (auto simp: boundary_def split: option.splits)
  have "\<not> i \<le> k" if i: "find_sub LF2 (b @ c) = Some i" for i
    using find_sub_new [OF None i] find_CRLF2 [OF k] by (simp add: LF2_def)
  with k x find_sub_append [OF k, of c] show ?thesis by (auto simp: boundary_def split: option.splits)
qed

section \<open>Reassembly does not depend on the chunks\<close>

lemma drain_step:
  assumes "boundary b = Some (e, k)" "\<not> length (take e b) > SSE_EVENT_BUFFER_LIMIT_BYTES"
    and "payload (take e b) = Inr p"
  shows "drain b =
    (case p of None \<Rightarrow> drain (drop k b) | Some q \<Rightarrow> apsnd (map_result ((#) q)) (drain (drop k b)))"
  by (subst drain.simps) (simp only: assms option.case prod.case if_False sum.case)

lemma drain_append:
  "drain b = (b1, Inr es) \<Longrightarrow> drain (b @ c) = apsnd (map_result ((@) es)) (drain (b1 @ c))"
proof (induction b arbitrary: es rule: drain.induct)
  case (1 b)
  show ?case
  proof (cases "boundary b")
    case None
    with "1.prems" have "b1 = b" "es = []" by (auto simp: drain.simps [of b] split: if_splits)
    moreover have "apsnd (\<lambda>x. x) r = r" for r :: "bytes \<times> ustr list result"
      by (cases r) simp
    ultimately show ?thesis by simp
  next
    case (Some x)
    obtain e k where x: "x = (e, k)" by (cases x)
    with Some have ek: "e < k" "k \<le> length b" using boundary_consumes by auto
    have at: "boundary (b @ c) = Some (e, k)" "take e (b @ c) = take e b" "drop k (b @ c) = drop k b @ c"
      using boundary_append [OF Some] x ek by auto
    from "1.prems" Some x have small: "\<not> length (take e b) > SSE_EVENT_BUFFER_LIMIT_BYTES"
      by (auto simp: drain.simps [of b] split: if_splits)
    from "1.prems" Some x small obtain p where p: "payload (take e b) = Inr p"
      by (cases "payload (take e b)") (auto simp: drain.simps [of b])
    note IH = "1.IH" [OF Some x [symmetric] small p]
    have small': "\<not> length (take e (b @ c)) > SSE_EVENT_BUFFER_LIMIT_BYTES"
      and p': "payload (take e (b @ c)) = Inr p"
      unfolding at(2) by (fact small, fact p)
    note steps = drain_step [OF Some [unfolded x] small p] drain_step [OF at(1) small' p', unfolded at(3)]
    show ?thesis
    proof (cases p)
      case None
      with "1.prems" steps have "drain (drop k b) = (b1, Inr es)" by simp
      from IH(1) [OF None this] show ?thesis
        using steps None by simp
    next
      case (Some q)
      with "1.prems" steps obtain fs where fs: "drain (drop k b) = (b1, Inr fs)" and es: "es = q # fs"
        by (cases "drain (drop k b)") (auto simp: map_result_Inr_iff)
      show ?thesis
        using IH(2) [OF Some fs] steps Some es
        by (cases "drain (b1 @ c)"; cases "snd (drain (b1 @ c))") simp_all
    qed
  qed
qed

lemma drain_settled: "drain b = (b1, Inr es) \<Longrightarrow> boundary b1 = None \<and> length b1 \<le> SSE_EVENT_BUFFER_LIMIT_BYTES"
proof (induction b arbitrary: es rule: drain.induct)
  case (1 b)
  show ?case
  proof (cases "boundary b")
    case None
    with "1.prems" show ?thesis by (auto simp: drain.simps [of b] split: if_splits)
  next
    case (Some x)
    obtain e k where x: "x = (e, k)" by (cases x)
    from "1.prems" Some x have small: "\<not> length (take e b) > SSE_EVENT_BUFFER_LIMIT_BYTES"
      by (auto simp: drain.simps [of b] split: if_splits)
    from "1.prems" Some x small obtain p where p: "payload (take e b) = Inr p"
      by (cases "payload (take e b)") (auto simp: drain.simps [of b])
    from "1.prems" Some x small p obtain fs where "drain (drop k b) = (b1, Inr fs)"
      by (cases p; cases "drain (drop k b)") (auto simp: drain.simps [of b] map_result_Inr_iff)
    with "1.IH" [OF Some x [symmetric] small p] show ?thesis by (cases p) auto
  qed
qed

lemma feed_chunks_concat:
  "feed_chunks b cs = (b', Inr es) \<Longrightarrow> boundary b = None \<and> length b \<le> SSE_EVENT_BUFFER_LIMIT_BYTES \<Longrightarrow>
     sse_feed b (concat cs) = (b', Inr es)"
proof (induction cs arbitrary: b es)
  case Nil
  then show ?case by (simp add: sse_feed_def drain.simps)
next
  case (Cons c cs)
  from Cons.prems(1) obtain b1 e1 e2 where one: "sse_feed b c = (b1, Inr e1)"
    and rest: "feed_chunks b1 cs = (b', Inr e2)" and es: "es = e1 @ e2"
    by (auto simp: map_result_Inr_iff split: prod.splits sum.splits)
  from one have settled: "boundary b1 = None \<and> length b1 \<le> SSE_EVENT_BUFFER_LIMIT_BYTES"
    by (auto simp: sse_feed_def dest: drain_settled)
  from Cons.IH [OF rest settled] have "drain (b1 @ concat cs) = (b', Inr e2)" by (simp add: sse_feed_def)
  with drain_append [of "b @ c" b1 e1 "concat cs"] one es show ?case by (simp add: sse_feed_def)
qed

section \<open>One message\<close>

text \<open>The body the relay sends for one judged payload, given its serialized bytes.\<close>

definition sse_message :: "bytes \<Rightarrow> bytes" where
  "sse_message body = blit ''data: '' @ body @ LF2"

lemma find_LF2_first: "10 \<notin> set xs \<Longrightarrow> find_sub LF2 (xs @ LF2) = Some (length xs)"
  by (induction xs) (auto simp: LF2_def starts_with_def)

lemma find_absent: "c \<in> set p \<Longrightarrow> c \<notin> set s \<Longrightarrow> find_sub p s = None"
proof (rule ccontr)
  assume c: "c \<in> set p" "c \<notin> set s" and "find_sub p s \<noteq> None"
  then obtain i where "take (length p) (drop i s) = p" using find_sub_Some by blast
  then have "set p \<subseteq> set s" by (metis set_drop_subset set_take_subset subset_trans)
  with c show False by auto
qed

lemma blit_data: "utf8_encode s = Inr bs \<Longrightarrow> utf8_encode (ulit ''data: '' @ s) = Inr (blit ''data: '' @ bs)"
  by (auto simp: utf8_encode_def ulit_def blit_def is_scalar_def utf8_of_point_def split: if_splits)

lemma sse_message_roundtrip:
  assumes enc: "utf8_encode s = Inr bs" and free: "10 \<notin> set s" "13 \<notin> set s"
    and small: "length bs + 6 \<le> SSE_EVENT_BUFFER_LIMIT_BYTES"
  shows "sse_feed [] (sse_message bs) = ([], Inr [s])"
proof -
  let ?e = "blit ''data: '' @ bs"
  have lf: "10 \<notin> set ?e" and cr: "13 \<notin> set (?e @ LF2)"
    using utf8_encode_ascii_absent [OF enc, of 10] utf8_encode_ascii_absent [OF enc, of 13] free
    by (auto simp: blit_def LF2_def)
  have len: "length ?e = length bs + 6" by (simp add: blit_def)
  have "boundary (?e @ LF2) = Some (length ?e, length ?e + 2)"
    using find_LF2_first [OF lf] find_absent [OF _ cr, of CRLF2] by (simp add: boundary_def CRLF2_def)
  moreover have "payload ?e = Inr (Some s)"
  proof -
    have "split_on 10 (ulit ''data: '' @ s) = [ulit ''data: '' @ s]"
      using free by (intro split_on_absent) (auto simp: ulit_def)
    moreover have "strip_cr (ulit ''data: '' @ s) = ulit ''data: '' @ s"
    proof -
      have "\<not> ends_with (ulit ''data: '' @ s) [13]"
      proof
        assume "ends_with (ulit ''data: '' @ s) [13]"
        then obtain r where "ulit ''data: '' @ s = r @ [13]" using ends_withD by blast
        then have "13 \<in> set (ulit ''data: '' @ s)" by simp
        with free show False by (auto simp: ulit_def)
      qed
      then show ?thesis by (simp add: strip_cr_def)
    qed
    moreover have "data_value (ulit ''data: '' @ s) = Some s"
      by (simp add: data_value_def starts_with_def ulit_def)
    ultimately show ?thesis
      using utf8_decode_encode [OF blit_data [OF enc]] by (simp add: payload_def List.map_filter_simps)
  qed
  moreover have "drain [] = ([], Inr [])"
    by (simp add: drain.simps boundary_def LF2_def CRLF2_def)
  moreover have "take (length ?e) (?e @ LF2) = ?e" "drop (length ?e + 2) (?e @ LF2) = []"
    by simp_all
  ultimately have "drain (?e @ LF2) = ([], Inr [s])"
    using len small by (simp add: drain.simps [of "?e @ LF2"] del: append_assoc)
  then show ?thesis by (simp add: sse_feed_def sse_message_def)
qed

section \<open>Properties\<close>

text \<open>C16: the events a body is reassembled into do not depend on how its bytes were cut into chunks:
  two cuts of the same bytes that are both read without an error give the same events in the same order
  and leave the same bytes pending.\<close>

theorem reassembly_independent_of_chunks:
  assumes "concat cs = concat ds"
    and "feed_chunks [] cs = (b, Inr es)" "feed_chunks [] ds = (b', Inr es')"
  shows "es = es' \<and> b = b'"
proof -
  have "boundary [] = None \<and> length ([] :: bytes) \<le> SSE_EVENT_BUFFER_LIMIT_BYTES"
    by (simp add: boundary_def LF2_def CRLF2_def)
  with assms feed_chunks_concat show ?thesis by (metis Pair_inject sum.inject(2))
qed

theorem reassembly_independent_of_chunks_witness:
  "[ulit ''a'', ulit ''b''] = [ulit ''a'', ulit ''b''] \<and> ([] :: bytes) = []"
  by (rule reassembly_independent_of_chunks
      [where cs = "[blit ''data: a'', LF2 @ blit ''data: b'' @ LF2]"
         and ds = "[blit ''data: a'' @ [10], [10] @ blit ''data: b'' @ LF2, []]"])
    (code_simp)+

text \<open>A call that does not raise leaves no complete event behind and no more bytes than the bound.\<close>

theorem feed_leaves_bounded_tail:
  assumes "sse_feed buffer chunk = (b, Inr es)"
  shows "boundary b = None \<and> length b \<le> SSE_EVENT_BUFFER_LIMIT_BYTES"
  using assms drain_settled by (simp add: sse_feed_def)

theorem feed_leaves_bounded_tail_witness:
  "boundary (blit ''data: b'') = None \<and> length (blit ''data: b'') \<le> SSE_EVENT_BUFFER_LIMIT_BYTES"
  by (rule feed_leaves_bounded_tail [where buffer = "[]" and chunk = "blit ''data: a'' @ LF2 @ blit ''data: b''"
        and es = "[ulit ''a'']"]) code_simp

text \<open>A message the relay sends is read back by a reassembler as exactly the payload it carries:
  any text without a line break whose event keeps to the byte bound.\<close>

theorem sent_message_read_back:
  assumes "utf8_encode s = Inr bs" "10 \<notin> set s" "13 \<notin> set s"
    and "length bs + 6 \<le> SSE_EVENT_BUFFER_LIMIT_BYTES"
  shows "sse_feed [] (sse_message bs) = ([], Inr [s])"
  using assms by (rule sse_message_roundtrip)

theorem sent_message_read_back_witness:
  "sse_feed [] (sse_message [226, 128, 148, 33]) = ([], Inr [[8212, 33]])"
  by (rule sent_message_read_back) code_simp+

end
