(* ===== verification/Api_Progress.thy ===== *)
theory Api_Progress
  imports Py_Regex Py_Effects "HOL-Library.Code_Target_Nat"
begin

text \<open>
  \<open>gideon/api/progress.py\<close>: the three fixed descriptions of the progress line, the classes a reader
  gives them, and the status event that carries them. The service writes these and the turn harness
  reads them back; the properties here are that the reader recognises exactly what the writer writes.
  A \<open>seconds: object\<close> argument is a \<open>json\<close> value, of which only a nonnegative integer counts.
\<close>

definition PERIOD_SECONDS :: nat where
  "PERIOD_SECONDS = 5"

definition OPENING_FORM :: ustr where
  "OPENING_FORM = ulit ''Thinking'' @ [8230]"

definition RUNNING_FORM :: ustr where
  "RUNNING_FORM = ulit ''Thinking'' @ [8230] @ ulit '' {elapsed}''"

definition CLOSING_FORM :: ustr where
  "CLOSING_FORM = ulit ''Thought for {elapsed}''"

definition REASONING_KEYS :: "string list" where
  "REASONING_KEYS = [''reasoning'', ''reasoning_content'', ''thinking'']"

definition OPENING :: string where "OPENING = ''opening''"
definition RUNNING :: string where "RUNNING = ''running''"
definition CLOSING :: string where "CLOSING = ''closing''"

definition STATUS_EVENT_KEY :: string where
  "STATUS_EVENT_KEY = ''event''"

definition ELAPSED_PLACEHOLDER :: ustr where
  "ELAPSED_PLACEHOLDER = ulit ''{elapsed}''"

text \<open>\<open>form.format(elapsed=value)\<close> for a form with at most one placeholder.\<close>

definition format_elapsed :: "ustr \<Rightarrow> ustr \<Rightarrow> ustr" where
  "format_elapsed form value =
     (case find_sub ELAPSED_PLACEHOLDER form of
        None \<Rightarrow> form
      | Some i \<Rightarrow> take i form @ value @ drop (i + length ELAPSED_PLACEHOLDER) form)"

definition ascii_digit :: regex where "ascii_digit = Cls False [CRange 48 57]"
definition one_to_nine :: regex where "one_to_nine = Cls False [CRange 49 57]"
definition sixty :: regex where  \<comment> \<open>\<open>(?:[0-9]|[1-5][0-9])\<close>\<close>
  "sixty = Alt ascii_digit (Seq (Cls False [CRange 49 53]) ascii_digit)"

definition SECOND_PATTERN :: regex where
  "SECOND_PATTERN = Seq sixty (rx_chars [115])"

definition MINUTE_PATTERN :: regex where
  "MINUTE_PATTERN =
     Seq one_to_nine (Seq (Rep True 0 17 ascii_digit) (Seq (rx_chars (ulit ''m '')) (Seq sixty (rx_chars [115]))))"

definition ELAPSED_PATTERN :: regex where
  "ELAPSED_PATTERN = Alt SECOND_PATTERN MINUTE_PATTERN"

definition form_pattern :: "ustr \<Rightarrow> regex" where
  "form_pattern form =
     (case find_sub ELAPSED_PLACEHOLDER form of
        None \<Rightarrow> rx_chars form
      | Some i \<Rightarrow>
          Seq (rx_chars (take i form))
            (Seq ELAPSED_PATTERN (rx_chars (drop (i + length ELAPSED_PLACEHOLDER) form))))"

definition DESCRIPTION_PATTERNS :: "(string \<times> regex) list" where
  "DESCRIPTION_PATTERNS =
     [(OPENING, form_pattern OPENING_FORM), (RUNNING, form_pattern RUNNING_FORM),
      (CLOSING, form_pattern CLOSING_FORM)]"

definition whole_seconds :: "json \<Rightarrow> nat" where
  "whole_seconds seconds = (case seconds of JInt i \<Rightarrow> nat i | _ \<Rightarrow> 0)"

definition elapsed_text :: "json \<Rightarrow> ustr" where
  "elapsed_text seconds =
     (let n = whole_seconds seconds; minutes = n div 60; remainder = n mod 60
      in if minutes \<noteq> 0 then decimal minutes @ ulit ''m '' @ decimal remainder @ ulit ''s''
         else decimal remainder @ ulit ''s'')"

definition opening_description :: ustr where
  "opening_description = OPENING_FORM"

definition running_description :: "json \<Rightarrow> ustr" where
  "running_description seconds = format_elapsed RUNNING_FORM (elapsed_text seconds)"

definition closing_description :: "json \<Rightarrow> ustr" where
  "closing_description seconds = format_elapsed CLOSING_FORM (elapsed_text seconds)"

text \<open>The patterns name their characters and carry no flag, so the Unicode database is immaterial.\<close>

definition classify_description :: "json \<Rightarrow> string option" where
  "classify_description value =
     (case as_str value of
        None \<Rightarrow> None
      | Some v \<Rightarrow>
          map_option fst
            (find (\<lambda>(word, pattern). re_fullmatch ascii_ucd False pattern v \<noteq> None) DESCRIPTION_PATTERNS))"

definition is_progress_description :: "json \<Rightarrow> bool" where
  "is_progress_description value = (classify_description value \<noteq> None)"

definition build_status_event :: "ustr \<Rightarrow> bool \<Rightarrow> json" where
  "build_status_event description done' =
     JObj [(ulit ''type'', JStr (ulit ''status'')),
           (ulit ''data'', JObj [(ulit ''description'', JStr description), (ulit ''done'', JBool done')])]"

definition read_status_event :: "json \<Rightarrow> ustr option" where
  "read_status_event value =
     (case as_obj value of
        None \<Rightarrow> None
      | Some v \<Rightarrow>
          if jget ''type'' v \<noteq> Some (JStr (ulit ''status'')) then None
          else (case Option.bind (jget ''data'' v) as_obj of
                  None \<Rightarrow> None
                | Some data \<Rightarrow> jget_str ''description'' data))"

section \<open>Decimal numerals\<close>

lemma decimal_head: "0 < n \<Longrightarrow> decimal n ! 0 \<noteq> 48"
proof (induction n rule: decimal.induct)
  case (1 n)
  show ?case
  proof (cases "n < 10")
    case False
    with 1 have "decimal (n div 10) ! 0 \<noteq> 48" by simp
    with False decimal_digits [of "n div 10"] show ?thesis by (simp add: decimal_big nth_append)
  qed (use 1 in \<open>simp add: decimal_small\<close>)
qed

lemma decimal_length: "n < 10 ^ Suc k \<Longrightarrow> length (decimal n) \<le> Suc k"
proof (induction k arbitrary: n)
  case 0
  then show ?case by (simp add: decimal_small)
next
  case (Suc k)
  show ?case
  proof (cases "n < 10")
    case False
    from Suc.prems have "n div 10 < 10 ^ Suc k"
      by (metis less_mult_imp_div_less mult.commute power_Suc)
    with Suc.IH have "length (decimal (n div 10)) \<le> Suc k" by blast
    with False show ?thesis by (simp add: decimal_big)
  qed (simp add: decimal_small)
qed

lemma decimal_two: "10 \<le> n \<Longrightarrow> n < 100 \<Longrightarrow> decimal n = [48 + n div 10, 48 + n mod 10]"
  by (simp add: decimal_big decimal_small)

section \<open>The forms are told apart\<close>

lemma class_range [simp]: "class_match U False False [CRange a b] x \<longleftrightarrow> a \<le> x \<and> x \<le> b"
  by (simp add: class_match_def)

lemma reads_rx_chars_at:
  "s = p @ w @ q \<Longrightarrow> reads (rx_chars w) U ic s (length p) (length (p @ w)) c c"
  using reads_rx_chars_exact [of w "length p" s U ic c] by simp

lemma reads_sixty:
  assumes "r < 60" and s: "s = p @ decimal r @ q"
  shows "reads sixty U False s (length p) (length (p @ decimal r)) c c"
proof (cases "r < 10")
  case True
  with s show ?thesis by (simp add: decimal_small sixty_def ascii_digit_def reads_Alt nth_append)
next
  case False
  then have d: "decimal r = [48 + r div 10, 48 + r mod 10]" using assms(1) by (simp add: decimal_two)
  have "r div 10 \<le> 5" "1 \<le> r div 10" "r mod 10 \<le> 9" using assms(1) False by linarith+
  then show ?thesis
    by (simp add: s d sixty_def ascii_digit_def reads_Alt reads_Seq nth_append)
qed

lemma reads_elapsed:
  assumes "whole_seconds v < 60 * 10 ^ 18" and s: "s = p @ elapsed_text v @ q"
  shows "reads ELAPSED_PATTERN U False s (length p) (length (p @ elapsed_text v)) c c"
proof -
  let ?n = "whole_seconds v"
  let ?m = "?n div 60" and ?r = "?n mod 60"
  have r: "?r < 60" by simp
  show ?thesis
  proof (cases "?m = 0")
    case True
    then have t: "elapsed_text v = decimal ?r @ [115]" by (simp add: elapsed_text_def Let_def ulit_def)
    have "reads sixty U False s (length p) (length (p @ decimal ?r)) c c"
      using reads_sixty [OF r, of s p "[115] @ q"] s t by simp
    moreover have "reads (rx_chars [115]) U False s (length (p @ decimal ?r)) (length ((p @ decimal ?r) @ [115])) c c"
      by (rule reads_rx_chars_at [where q = q]) (simp add: s t)
    ultimately have "reads SECOND_PATTERN U False s (length p) (length ((p @ decimal ?r) @ [115])) c c"
      unfolding SECOND_PATTERN_def reads_Seq by blast
    then show ?thesis by (simp add: ELAPSED_PATTERN_def reads_Alt t)
  next
    case False
    let ?d = "decimal ?m"
    let ?ms = "ulit ''m ''"
    from False have t: "elapsed_text v = ?d @ ?ms @ decimal ?r @ [115]"
      by (simp add: elapsed_text_def Let_def ulit_def)
    obtain x xs where d: "?d = x # xs" using decimal_digits [of ?m] by (cases ?d) auto
    have m: "?m < 10 ^ Suc 17" using assms(1) by (simp add: less_mult_imp_div_less mult.commute)
    have x: "49 \<le> x" "x \<le> 57" and xs: "list_all digit_char xs" "length xs \<le> 17"
      using decimal_digits [of ?m] decimal_head [of ?m] decimal_length [OF m] False d
      by (auto simp: digit_char_def)
    have s1: "s = p @ x # xs @ ?ms @ decimal ?r @ [115] @ q" using s t d by simp
    have "reads one_to_nine U False s (length p) (Suc (length p)) c c"
      using s1 x by (simp add: one_to_nine_def nth_append)
    moreover have "reads (Rep True 0 17 ascii_digit) U False s (Suc (length p)) (Suc (length p) + length xs) c c"
      unfolding ascii_digit_def
      by (rule reads_Rep_class)
        (use s1 xs in \<open>auto simp: nth_append list_all_length digit_char_def\<close>)
    moreover have "reads (rx_chars ?ms) U False s (Suc (length p) + length xs) (length ((p @ x # xs) @ ?ms)) c c"
      using reads_rx_chars_at [of s "p @ x # xs" ?ms "decimal ?r @ [115] @ q"] s1 by simp
    moreover have "reads sixty U False s (length ((p @ x # xs) @ ?ms)) (length (((p @ x # xs) @ ?ms) @ decimal ?r)) c c"
      by (rule reads_sixty [OF r, where q = "[115] @ q"]) (simp add: s1)
    moreover have "reads (rx_chars [115]) U False s (length (((p @ x # xs) @ ?ms) @ decimal ?r))
        (length ((((p @ x # xs) @ ?ms) @ decimal ?r) @ [115])) c c"
      by (rule reads_rx_chars_at [where q = q]) (simp add: s1)
    ultimately have "reads MINUTE_PATTERN U False s (length p)
        (length ((((p @ x # xs) @ ?ms) @ decimal ?r) @ [115])) c c"
      unfolding MINUTE_PATTERN_def reads_Seq by blast
    then show ?thesis by (simp add: ELAPSED_PATTERN_def reads_Alt t d)
  qed
qed

definition THINKING :: ustr where "THINKING = ulit ''Thinking'' @ [8230]"
definition THOUGHT :: ustr where "THOUGHT = ulit ''Thought for ''"

lemma form_parts:
  "form_pattern OPENING_FORM = rx_chars THINKING"
  "form_pattern RUNNING_FORM = Seq (rx_chars (THINKING @ [32])) (Seq ELAPSED_PATTERN (rx_chars []))"
  "form_pattern CLOSING_FORM = Seq (rx_chars THOUGHT) (Seq ELAPSED_PATTERN (rx_chars []))"
  by code_simp+

lemma descriptions:
  "running_description v = (THINKING @ [32]) @ elapsed_text v"
  "closing_description v = THOUGHT @ elapsed_text v"
proof -
  have "find_sub ELAPSED_PLACEHOLDER RUNNING_FORM = Some 10" "find_sub ELAPSED_PLACEHOLDER CLOSING_FORM = Some 12"
    "take 10 RUNNING_FORM = THINKING @ [32]" "take 12 CLOSING_FORM = THOUGHT"
    "drop (10 + length ELAPSED_PLACEHOLDER) RUNNING_FORM = []"
    "drop (12 + length ELAPSED_PLACEHOLDER) CLOSING_FORM = []"
    by code_simp+
  then show "running_description v = (THINKING @ [32]) @ elapsed_text v"
    "closing_description v = THOUGHT @ elapsed_text v"
    by (simp_all add: running_description_def closing_description_def format_elapsed_def)
qed

lemma fullmatch_elapsed_form:
  assumes "whole_seconds v < 60 * 10 ^ 18"
  shows "re_fullmatch U False (Seq (rx_chars w) (Seq ELAPSED_PATTERN (rx_chars []))) (w @ elapsed_text v) \<noteq> None"
proof -
  let ?s = "w @ elapsed_text v"
  have "reads (rx_chars w) U False ?s 0 (length w) [] []"
    using reads_rx_chars_at [of ?s "[]" w "elapsed_text v"] by simp
  moreover have "reads ELAPSED_PATTERN U False ?s (length w) (length ?s) [] []"
    using reads_elapsed [OF assms, of ?s w "[]"] by simp
  moreover have "reads (rx_chars []) U False ?s (length ?s) (length ?s) [] []"
    by (simp add: rx_chars_def)
  ultimately show ?thesis unfolding fullmatch_iff_reads reads_Seq by blast
qed

lemma fullmatch_rx_chars: "re_fullmatch U False (rx_chars w) s \<noteq> None \<longleftrightarrow> s = w"
proof
  assume "re_fullmatch U False (rx_chars w) s \<noteq> None"
  then obtain d where "reads (rx_chars w) U False s 0 (length s) [] d"
    unfolding fullmatch_iff_reads by blast
  from reads_rx_chars_only [OF this] have "length s = length w" "take (length w) s = w" by simp_all
  then show "s = w" by (metis take_all order_refl)
next
  assume "s = w"
  with reads_rx_chars_at [of s "[]" w "[]" U False "[]"]
  show "re_fullmatch U False (rx_chars w) s \<noteq> None" unfolding fullmatch_iff_reads by auto
qed

lemma fullmatch_prefix:
  "re_fullmatch U False (Seq (rx_chars w) r) s \<noteq> None \<Longrightarrow> take (length w) s = w"
  unfolding fullmatch_iff_reads reads_Seq by (auto dest!: reads_rx_chars_only)

lemma elapsed_text_Cons: "elapsed_text v \<noteq> []"
  by (auto simp: elapsed_text_def Let_def)

lemma classify_running:
  assumes "whole_seconds v < 60 * 10 ^ 18"
  shows "classify_description (JStr (running_description v)) = Some RUNNING"
proof -
  have "(THINKING @ [32]) @ elapsed_text v \<noteq> THINKING" by simp
  with fullmatch_rx_chars have "re_fullmatch ascii_ucd False (rx_chars THINKING) ((THINKING @ [32]) @ elapsed_text v) = None"
    by blast
  moreover note fullmatch_elapsed_form [OF assms, of ascii_ucd "THINKING @ [32]"]
  ultimately show ?thesis
    by (simp add: classify_description_def DESCRIPTION_PATTERNS_def form_parts descriptions
        del: append_assoc)
qed

lemma classify_closing:
  assumes "whole_seconds v < 60 * 10 ^ 18"
  shows "classify_description (JStr (closing_description v)) = Some CLOSING"
proof -
  have ne: "THOUGHT ! 3 \<noteq> THINKING ! 3" "length THOUGHT = 12" "length THINKING = 9" by code_simp+
  then have "(THOUGHT @ elapsed_text v) ! 3 \<noteq> THINKING ! 3" by (simp add: nth_append)
  then have "THOUGHT @ elapsed_text v \<noteq> THINKING" by auto
  with fullmatch_rx_chars have "re_fullmatch ascii_ucd False (rx_chars THINKING) (THOUGHT @ elapsed_text v) = None"
    by blast
  moreover have "re_fullmatch ascii_ucd False (Seq (rx_chars (THINKING @ [32])) (Seq ELAPSED_PATTERN (rx_chars [])))
      (THOUGHT @ elapsed_text v) = None"
  proof (rule ccontr)
    assume "re_fullmatch ascii_ucd False (Seq (rx_chars (THINKING @ [32])) (Seq ELAPSED_PATTERN (rx_chars [])))
      (THOUGHT @ elapsed_text v) \<noteq> None"
    from fullmatch_prefix [OF this]
    have "take (length (THINKING @ [32])) (THOUGHT @ elapsed_text v) ! 3 = (THINKING @ [32]) ! 3" by simp
    with ne show False by (simp add: nth_append)
  qed
  moreover note fullmatch_elapsed_form [OF assms, of ascii_ucd THOUGHT]
  ultimately show ?thesis
    by (simp add: classify_description_def DESCRIPTION_PATTERNS_def form_parts descriptions)
qed

section \<open>Properties\<close>

text \<open>The writer and the reader of the progress line agree: every running and closing description the
  service can build is classified as what it is, below a bound of \<open>60 * 10 ^ 18\<close> seconds.\<close>

theorem description_classified_as_built:
  assumes "whole_seconds v < 60 * 10 ^ 18"
  shows "classify_description (JStr opening_description) = Some OPENING \<and>
    classify_description (JStr (running_description v)) = Some RUNNING \<and>
    classify_description (JStr (closing_description v)) = Some CLOSING"
proof -
  have "re_fullmatch ascii_ucd False (rx_chars THINKING) opening_description \<noteq> None"
    using fullmatch_rx_chars by (simp add: opening_description_def OPENING_FORM_def THINKING_def)
  then have "classify_description (JStr opening_description) = Some OPENING"
    by (simp add: classify_description_def DESCRIPTION_PATTERNS_def form_parts)
  with classify_running [OF assms] classify_closing [OF assms] show ?thesis by blast
qed

theorem description_classified_as_built_witness:
  "classify_description (JStr opening_description) = Some OPENING \<and>
   classify_description (JStr (running_description (JInt 3725))) = Some RUNNING \<and>
   classify_description (JStr (closing_description (JInt 3725))) = Some CLOSING"
  by (rule description_classified_as_built) (simp add: whole_seconds_def)

text \<open>A status event read back gives the description it was built with.\<close>

theorem status_event_roundtrip:
  "read_status_event (build_status_event description d) = Some description"
  by (simp add: read_status_event_def build_status_event_def jget_Cons jget_str_def)

end
