(* ===== verification/Api_Stamp.thy ===== *)
theory Api_Stamp
  imports Py_Regex "HOL-Library.Code_Target_Nat"
begin

text \<open>
  \<open>gideon/api/stamp.py\<close>: the citation shapes General's finished answers are searched for, and the
  fixed warning label appended to one that carries any. The properties are that the label is appended
  at most once and that no shape matches more than the module's bound. The functions cannot raise on a
  string here, so the handler of \<open>tail_for\<close>, which fails toward the label, is not reached.
\<close>

definition CITATION_STAMP :: ustr where
  "CITATION_STAMP = ulit ''General does not verify citations.''"

definition STAMP_SEPARATOR :: ustr where
  "STAMP_SEPARATOR = [10, 10]"

definition STAMP_MAX_MATCH_CHARS :: nat where
  "STAMP_MAX_MATCH_CHARS = 150"

definition REPORTER_FAMILY_ID :: string where "REPORTER_FAMILY_ID = ''citation/reporter@1''"
definition CODE_FAMILY_ID :: string where "CODE_FAMILY_ID = ''citation/code@1''"
definition RULE_FAMILY_ID :: string where "RULE_FAMILY_ID = ''citation/rule@1''"
definition DATABASE_FAMILY_ID :: string where "DATABASE_FAMILY_ID = ''citation/database@1''"

definition REPORTER_ABBREVIATIONS :: "ustr list" where
  "REPORTER_ABBREVIATIONS =
     map ulit [''U.S.'', ''S. Ct.'', ''L. Ed.'', ''L. Ed. 2d'', ''F.'', ''F.2d'', ''F.3d'', ''F.4th'',
       ''F. Supp.'', ''F. Supp. 2d'', ''F. Supp. 3d'', ''F. App'x''] @
     [ulit ''F. App'' @ [8217] @ ulit ''x''] @
     map ulit [''Fed. Appx.'', ''B.R.'', ''Fed. Reg.'', ''So.'', ''So. 2d'', ''So. 3d'', ''P.'', ''P.2d'',
       ''P.3d'', ''N.E.'', ''N.E.2d'', ''N.E.3d'', ''N.W.'', ''N.W.2d'', ''N.W.3d'', ''S.E.'', ''S.E.2d'',
       ''S.W.'', ''S.W.2d'', ''S.W.3d'', ''A.'', ''A.2d'', ''A.3d'']"

definition CODE_ABBREVIATIONS :: "ustr list" where
  "CODE_ABBREVIATIONS =
     map ulit [''U.S.C.'', ''U.S.C.A.'', ''U.S.C.S.'', ''USC'', ''C.F.R.'', ''CFR'', ''U.S.S.G.'', ''USSG'',
       ''Tenn. Code Ann.'']"

definition RULE_ABBREVIATIONS :: "ustr list" where
  "RULE_ABBREVIATIONS =
     map ulit [''Fed. R. Crim. P.'', ''Fed. R. Civ. P.'', ''Fed. R. App. P.'', ''Fed. R. Evid.'',
       ''Fed. R. Bankr. P.'', ''Sup. Ct. R.'']"

definition LEXIS_COURT_TOKENS :: "ustr list" where
  "LEXIS_COURT_TOKENS = map ulit [''U.S. LEXIS'', ''U.S. Dist. LEXIS'', ''U.S. App. LEXIS'']"

definition SPACE :: regex where "SPACE = spaces 1 3"
definition STAMP_GAP :: regex where "STAMP_GAP = spaces 0 3"
definition BOUNDARY_START :: regex where "BOUNDARY_START = not_after [CWord, CChar 46]"
definition BOUNDARY_END :: regex where "BOUNDARY_END = not_before [CWord]"

definition blanks :: regex where "blanks = Rep True 3 12 (chars [95, 45])"
definition VOLUME :: regex where "VOLUME = Alt (digits 1 6) blanks"
definition PAGE :: regex where "PAGE = Alt (digits 1 8) blanks"

definition SECTION :: regex where
  "SECTION = seqs
    [digits 1 6, optional (seqs [Cls False [CRange 65 90, CRange 97 122], digits 0 3]),
     Rep True 0 3 (seqs [chars [46, 45], digits 1 6]),
     Rep True 0 6 (seqs [spaces 0 2, rx_chars [40],
       Rep True 1 4 (Cls False [CRange 65 90, CRange 97 122, CRange 48 57]), rx_chars [41]])]"

record shape =
  sh_id :: string
  sh_regex :: regex

definition alternatives :: "ustr list \<Rightarrow> regex" where
  "alternatives values =
     alts (map (\<lambda>v. seqs (map (\<lambda>c. if c = 32 then STAMP_GAP else rx_chars [c]) v)) values)"

definition stamp_compiled :: "string \<Rightarrow> regex \<Rightarrow> shape" where
  "stamp_compiled pattern_id source = \<lparr>sh_id = pattern_id, sh_regex = source\<rparr>"

definition REPORTER_PATTERN :: shape where
  "REPORTER_PATTERN = stamp_compiled REPORTER_FAMILY_ID
     (seqs [BOUNDARY_START, VOLUME, SPACE, alternatives REPORTER_ABBREVIATIONS, SPACE, PAGE, BOUNDARY_END])"

definition CODE_PATTERN :: shape where
  "CODE_PATTERN = stamp_compiled CODE_FAMILY_ID
     (Alt (seqs [BOUNDARY_START, optional (seqs [digits 1 5, SPACE]), alternatives CODE_ABBREVIATIONS, STAMP_GAP,
             Rep True 0 2 (rx_chars [167]), STAMP_GAP, SECTION, BOUNDARY_END])
          (seqs [BOUNDARY_START, Rep True 1 2 (rx_chars [167]), STAMP_GAP, SECTION, BOUNDARY_END]))"

definition RULE_PATTERN :: shape where
  "RULE_PATTERN = stamp_compiled RULE_FAMILY_ID
     (seqs [BOUNDARY_START, alternatives RULE_ABBREVIATIONS,
        optional (seqs [SPACE, digits 1 3, optional (seqs [rx_chars [46], digits 1 2])]), BOUNDARY_END])"

definition DATABASE_PATTERN :: shape where
  "DATABASE_PATTERN = stamp_compiled DATABASE_FAMILY_ID
     (Alt (seqs [BOUNDARY_START, digits 4 4, SPACE, lit ''WL'', SPACE, digits 1 12, BOUNDARY_END])
          (seqs [BOUNDARY_START, digits 4 4, SPACE, alternatives LEXIS_COURT_TOKENS, SPACE, digits 1 12,
             BOUNDARY_END]))"

definition PATTERNS :: "shape list" where
  "PATTERNS = [REPORTER_PATTERN, CODE_PATTERN, RULE_PATTERN, DATABASE_PATTERN]"

definition detect :: "ucd \<Rightarrow> ustr \<Rightarrow> string option" where
  "detect U text =
     map_option sh_id (find (\<lambda>p. re_search U True (sh_regex p) text \<noteq> None) PATTERNS)"

definition normalised_space :: "ucd \<Rightarrow> ustr \<Rightarrow> ustr" where  \<comment> \<open>\<open>" ".join(text.split())\<close>\<close>
  "normalised_space U text = join_with [32] (split_words (uc_space U) text)"

definition is_stamped :: "ucd \<Rightarrow> ustr \<Rightarrow> bool" where
  "is_stamped U text = ends_with (normalised_space U text) (normalised_space U CITATION_STAMP)"

definition STAMP_TAIL :: ustr where
  "STAMP_TAIL = STAMP_SEPARATOR @ CITATION_STAMP"

definition tail_for :: "ucd \<Rightarrow> ustr \<Rightarrow> ustr" where
  "tail_for U text =
     (if is_stamped U text then []
      else if detect U text \<noteq> None then STAMP_TAIL
      else [])"

text \<open>What the label's idempotence needs of the Unicode database: a line break is white space.\<close>

lemma is_stamped_tail:
  assumes "uc_space U 10" "\<not> uc_space U 71"
  shows "is_stamped U (text @ STAMP_TAIL)"
proof -
  let ?w = "split_words (uc_space U)"
  have "CITATION_STAMP = 71 # tl CITATION_STAMP" by code_simp
  with assms(2) have "\<not> list_all (uc_space U) CITATION_STAMP" by (metis list.pred_inject(2))
  then have ne: "?w CITATION_STAMP \<noteq> []" unfolding split_words_Nil_iff .
  have "?w (text @ STAMP_TAIL) = ?w text @ ?w (10 # CITATION_STAMP)"
    using split_words_sep [of "uc_space U" 10 "text" "10 # CITATION_STAMP"] assms(1)
    by (simp add: STAMP_TAIL_def STAMP_SEPARATOR_def)
  also have "?w (10 # CITATION_STAMP) = ?w CITATION_STAMP"
    using split_words_sep [of "uc_space U" 10 "[]" CITATION_STAMP] assms(1) by simp
  finally show ?thesis
    using ne join_with_append [of "?w CITATION_STAMP" "[32]" "?w text"]
    by (auto simp: is_stamped_def normalised_space_def ends_with_append)
qed

section \<open>Properties\<close>

text \<open>The label is appended at most once: an answer that has been given its tail is owed nothing
  more.\<close>

theorem tail_for_idempotent:
  assumes "uc_space U 10" "\<not> uc_space U 71"
  shows "tail_for U (text @ tail_for U text) = []"
proof (cases "tail_for U text = STAMP_TAIL")
  case True
  with is_stamped_tail [OF assms] show ?thesis by (simp add: tail_for_def)
next
  case False
  then have "tail_for U text = []" by (auto simp: tail_for_def split: if_splits)
  then show ?thesis by simp
qed

theorem tail_for_idempotent_witness:
  "tail_for ascii_ucd (ulit ''See 12 F. 34.'' @ tail_for ascii_ucd (ulit ''See 12 F. 34.'')) = []"
  by (rule tail_for_idempotent) (simp_all add: ascii_ucd_def)

lemma stamp_widths: "map (\<lambda>p. max_width (sh_regex p)) PATTERNS = [Some 45, Some 114, Some 32, Some 42]"
  by code_simp

text \<open>No citation shape matches more than the module's bound.\<close>

theorem stamp_match_bounded:
  assumes "p \<in> set PATTERNS" and "m \<in> set (re_finditer U True (sh_regex p) answer)"
  shows "m_end m - m_start m \<le> STAMP_MAX_MATCH_CHARS"
proof -
  have "max_width (sh_regex p) \<in> {Some 45, Some 114, Some 32, Some 42}"
    using assms(1) arg_cong [OF stamp_widths, of set] by fastforce
  then obtain w where w: "max_width (sh_regex p) = Some w" "w \<le> 114" by auto
  from assms(2) have "is_match U True (sh_regex p) answer m" using finditer_in by (simp add: re_finditer_def)
  from is_match_width [OF this w(1)] w(2) show ?thesis by (simp add: STAMP_MAX_MATCH_CHARS_def)
qed

theorem stamp_match_bounded_witness:
  "m_end \<lparr>m_start = 4, m_end = 12, m_caps = []\<rparr> - m_start \<lparr>m_start = 4, m_end = 12, m_caps = []\<rparr>
     \<le> STAMP_MAX_MATCH_CHARS"
  by (rule stamp_match_bounded [where p = REPORTER_PATTERN and U = ascii_ucd and answer = "ulit ''See 12 F. 34.''"])
    (simp add: PATTERNS_def, code_simp)

end
