(* ===== verification/Api_Judged.thy ===== *)
theory Api_Judged
  imports Complex_Main Guardrail_Window Api_Sse Api_Progress Api_Stamp
begin

text \<open>
  \<open>gideon/api/judged.py\<close>: what the service does to a Chat Completions response, whole or streamed,
  before any of it reaches the caller. \<open>mechanics\<close> is the state of \<open>StreamMechanics\<close>, and each of its
  methods is a \<open>prog\<close>: a raise keeps the assignments made before it, and \<open>process\<close> turns it into the
  fail-closed ending. What the module takes from outside is the record \<open>env\<close>: the Unicode database, the
  families, the JSON codec (a parse may raise) and the clock, whose readings are numbered.
\<close>

section \<open>Constants\<close>

definition RELAYED_CHOICE_KEYS :: "string list" where
  "RELAYED_CHOICE_KEYS = [''index'', ''finish_reason'']"

definition STATUS_ENVELOPE_KEYS :: "string list" where
  "STATUS_ENVELOPE_KEYS = [''id'', ''object'', ''created'', ''model'']"

definition RELAYED_DELTA_KEYS :: "string list" where
  "RELAYED_DELTA_KEYS = [''role'', ''content'', ''tool_calls'']"

definition RELAYED_MESSAGE_KEYS :: "string list" where
  "RELAYED_MESSAGE_KEYS = [''role'', ''content'', ''tool_calls'']"

definition TEXT_KEYS :: "string list" where
  "TEXT_KEYS = REASONING_KEYS @ [''content'']"

definition CHUNK_OBJECT :: json where
  "CHUNK_OBJECT = JStr (ulit ''chat.completion.chunk'')"

definition UNJUDGED_ERROR_CODE :: ustr where
  "UNJUDGED_ERROR_CODE = ulit ''completion_unjudged''"

definition error_body :: "ustr \<Rightarrow> ustr \<Rightarrow> ustr \<Rightarrow> ustr option \<Rightarrow> jobject" where
  "error_body message error_type code param =
     [(ulit ''error'', JObj
        [(ulit ''message'', JStr message), (ulit ''type'', JStr error_type),
         (ulit ''param'', case param of Some p \<Rightarrow> JStr p | None \<Rightarrow> JNull), (ulit ''code'', JStr code)])]"

definition UNJUDGED_ERROR :: jobject where
  "UNJUDGED_ERROR =
     error_body (ulit ''The completion could not be judged.'') (ulit ''server_error'') UNJUDGED_ERROR_CODE None"

record env =
  e_ucd :: ucd
  e_fams :: "family list"
  e_loads :: "ustr \<Rightarrow> json result"
  e_loads_body :: "bytes \<Rightarrow> json result"
  e_dumps :: "json \<Rightarrow> bytes"
  e_clock :: "nat \<Rightarrow> real"

definition e_judge :: "env \<Rightarrow> judge_fun" where
  "e_judge E = judge_rendered (e_ucd E) (e_fams E)"

section \<open>The request's context\<close>

definition source_for_header :: "ucd \<Rightarrow> ustr list \<Rightarrow> ustr \<Rightarrow> string" where
  "source_for_header U values eval_identity =
     (case values of
        [v] \<Rightarrow>
          (let value = strip_by (uc_space U) v; identity = strip_by (uc_space U) eval_identity
           in if value = [] \<or> identity = [] then USER_SOURCE
              else if py_casefold U value = py_casefold U identity then EVAL_SOURCE else USER_SOURCE)
      | _ \<Rightarrow> USER_SOURCE)"

definition id_for_header :: "ucd \<Rightarrow> ustr list \<Rightarrow> ustr option" where
  "id_for_header U values =
     (case values of
        [v] \<Rightarrow> (let value = strip_by (uc_space U) v in if value = [] then None else Some value)
      | _ \<Rightarrow> None)"

definition stream_state_from_body :: "env \<Rightarrow> bytes \<Rightarrow> string \<Rightarrow> ustr option \<Rightarrow> stream_state" where
  "stream_state_from_body E body source chat_id =
     (case e_loads_body E body of
        Inl e \<Rightarrow> new_stream NO_SUPPLIED {} None source chat_id
      | Inr parsed \<Rightarrow>
          (case as_obj parsed of
             None \<Rightarrow> new_stream NO_SUPPLIED {} None source chat_id
           | Some p \<Rightarrow>
               (let branch = jget_str ''model'' p
                in case Option.bind (jget ''messages'' p) as_arr of
                     None \<Rightarrow> new_stream NO_SUPPLIED {} branch source chat_id
                   | Some messages \<Rightarrow>
                       (case message_context (e_ucd E) (e_fams E) messages (length messages) of
                          Inl e \<Rightarrow> new_stream NO_SUPPLIED {} branch source chat_id
                        | Inr (supplied, contexts) \<Rightarrow>
                            new_stream supplied contexts branch source chat_id))))"

section \<open>A whole completion\<close>

definition DEADLINE_ERROR_TRIP :: trip where
  "DEADLINE_ERROR_TRIP = \<lparr>t_family = ''deadline'', t_pattern_id = ERROR_PATTERN_ID\<rparr>"

definition record_error_trip :: "stream_state \<Rightarrow> stream_state" where
  "record_error_trip state = record_stream_trip state DEADLINE_ERROR_TRIP"

definition judged_content :: "env \<Rightarrow> ustr \<Rightarrow> (stream_state, ustr) prog" where
  "judged_content E content =
     bindp (fetch (\<lambda>s. e_judge E [content] content (s_supplied s) (s_confirmation s) False 0)) (\<lambda>r.
     bindp (lift_result r) (\<lambda>v.
       case v of
         Tripped trip \<Rightarrow>
           bindp (assign (\<lambda>s. record_stream_trip s trip)) (\<lambda>_. ret (refusal_for (Some (t_family trip))))
       | _ \<Rightarrow> ret (content @ tail_for (e_ucd E) content)))"

definition rebuild_choice :: "env \<Rightarrow> json \<Rightarrow> (stream_state, json) prog" where
  "rebuild_choice E choice_value =
     (case as_obj choice_value of
        None \<Rightarrow> raise ''TypeError''
      | Some choice \<Rightarrow>
          (case Option.bind (jget ''message'' choice) as_obj of
             None \<Rightarrow> raise ''TypeError''
           | Some message \<Rightarrow>
               (let rebuilt = jpick RELAYED_MESSAGE_KEYS message;
                    finished = (\<lambda>m. JObj (jset ''message'' (JObj m) (jpick RELAYED_CHOICE_KEYS choice)))
                in case jget ''content'' message of
                     Some JNull \<Rightarrow> ret (finished rebuilt)
                   | Some (JStr content) \<Rightarrow>
                       bindp (judged_content E content)
                         (\<lambda>text. ret (finished (jset ''content'' (JStr text) rebuilt)))
                   | _ \<Rightarrow> raise ''TypeError'')))"

primrec rebuild_choices :: "env \<Rightarrow> json list \<Rightarrow> (stream_state, json list) prog" where
  "rebuild_choices E [] = ret []"
| "rebuild_choices E (c # cs) =
     bindp (rebuild_choice E c) (\<lambda>x. bindp (rebuild_choices E cs) (\<lambda>xs. ret (x # xs)))"

definition judge_completion ::
    "env \<Rightarrow> bytes \<Rightarrow> (stream_state, bytes option \<times> exn option) prog" where
  "judge_completion E body =
     catch
       (bindp (lift_result (e_loads_body E body)) (\<lambda>parsed.
          case as_obj parsed of
            None \<Rightarrow> raise ''TypeError''
          | Some p \<Rightarrow>
              (case Option.bind (jget ''choices'' p) as_arr of
                 None \<Rightarrow> raise ''TypeError''
               | Some choices \<Rightarrow>
                   bindp (rebuild_choices E choices) (\<lambda>rebuilt.
                     ret (Some (e_dumps E (JObj (jset ''choices'' (JArr rebuilt) p))), None)))))
       (\<lambda>e. bindp (assign record_error_trip) (\<lambda>_. ret (None, Some e)))"

section \<open>The stream's state and payloads\<close>

datatype payload = PObj jobject | PStr ustr

record mechanics =
  mx_state :: stream_state
  mx_failure :: "exn option"
  mx_last_envelope :: "jobject option"
  mx_error_seen :: bool
  mx_ended :: bool
  mx_start :: "real option"
  mx_next_due :: nat
  mx_closed :: bool
  mx_reads :: nat  \<comment> \<open>how often the clock was read\<close>

definition new_mechanics :: "stream_state \<Rightarrow> mechanics" where
  "new_mechanics state =
     \<lparr>mx_state = state, mx_failure = None, mx_last_envelope = None, mx_error_seen = False,
      mx_ended = False, mx_start = None, mx_next_due = PERIOD_SECONDS, mx_closed = False, mx_reads = 0\<rparr>"

definition tripped :: "mechanics \<Rightarrow> bool" where
  "tripped m = (s_trip (mx_state m) \<noteq> None)"

definition on_state :: "(stream_state, 'a) prog \<Rightarrow> (mechanics, 'a) prog" where
  "on_state = on_part mx_state (\<lambda>s m. m\<lparr>mx_state := s\<rparr>)"

definition envelope :: "jobject \<Rightarrow> jobject" where
  "envelope event = filter (\<lambda>p. fst p \<noteq> ulit ''choices'' \<and> fst p \<noteq> ulit STATUS_EVENT_KEY) event"

definition base :: "jobject option \<Rightarrow> jobject" where
  "base env = (case env of None \<Rightarrow> [(ulit ''object'', CHUNK_OBJECT)] | Some e \<Rightarrow> e)"

definition delta_choice :: "jobject \<Rightarrow> json \<Rightarrow> json" where
  "delta_choice delta finish_reason =
     JObj [(ulit ''index'', JInt 0), (ulit ''delta'', JObj delta), (ulit ''finish_reason'', finish_reason)]"

definition content_chunk :: "jobject option \<Rightarrow> ustr \<Rightarrow> payload" where
  "content_chunk env content =
     PObj (jset ''choices'' (JArr [delta_choice [(ulit ''content'', JStr content)] JNull]) (base env))"

definition finish_chunk :: "jobject option \<Rightarrow> payload" where
  "finish_chunk env =
     PObj (jset ''choices'' (JArr [delta_choice [] (JStr (ulit ''stop''))]) (base env))"

definition refusal_text :: "stream_state \<Rightarrow> ustr" where
  "refusal_text state =
     (let refusal = refusal_for (map_option t_family (s_trip state))
      in if x_released (s_content state) > 0 then REFUSAL_SEPARATOR @ refusal else refusal)"

definition trip_payloads :: "jobject option \<Rightarrow> mechanics \<Rightarrow> payload list" where
  "trip_payloads env m =
     [content_chunk env (refusal_text (mx_state m)), finish_chunk env, PStr DONE_EVENT]"

section \<open>The progress line\<close>

definition status_chunk :: "ustr \<Rightarrow> bool \<Rightarrow> mechanics \<Rightarrow> payload" where
  "status_chunk description finished m =
     PObj (jset STATUS_EVENT_KEY (build_status_event description finished)
       (jset ''choices'' (JArr [])
         (case mx_last_envelope m of
            None \<Rightarrow> [(ulit ''object'', CHUNK_OBJECT)]
          | Some e \<Rightarrow> jpick STATUS_ENVELOPE_KEYS e)))"

definition read_clock :: "env \<Rightarrow> (mechanics, real) prog" where
  "read_clock E m = Some (m\<lparr>mx_reads := Suc (mx_reads m)\<rparr>, Inr (e_clock E (mx_reads m)))"

definition elapsed_seconds :: "env \<Rightarrow> (mechanics, nat) prog" where
  "elapsed_seconds E =
     bindp (fetch mx_start) (\<lambda>start.
       case start of
         None \<Rightarrow> ret 0
       | Some t \<Rightarrow> bindp (read_clock E) (\<lambda>now. ret (nat \<lfloor>now - t\<rfloor>)))"

definition status :: "ustr \<Rightarrow> bool \<Rightarrow> (mechanics, payload list) prog" where
  "status description finished = fetch (\<lambda>m. [status_chunk description finished m])"

text \<open>A method that returns a chunk or \<open>None\<close> gives the list of the chunks it returns.\<close>

definition open_progress :: "env \<Rightarrow> (mechanics, payload list) prog" where
  "open_progress E =
     bindp (fetch (\<lambda>m. mx_closed m \<or> mx_start m \<noteq> None)) (\<lambda>stop.
       if stop then ret []
       else bindp (read_clock E) (\<lambda>now.
            bindp (assign (\<lambda>m. m\<lparr>mx_start := Some now\<rparr>)) (\<lambda>_.
              status opening_description False)))"

definition tick_progress :: "env \<Rightarrow> (mechanics, payload list) prog" where
  "tick_progress E =
     bindp (fetch (\<lambda>m. mx_closed m \<or> mx_start m = None)) (\<lambda>stop.
       if stop then ret []
       else bindp (elapsed_seconds E) (\<lambda>elapsed.
            bindp (fetch mx_next_due) (\<lambda>due.
              if elapsed < due then ret []
              else bindp (assign (\<lambda>m. m\<lparr>mx_next_due := (elapsed div PERIOD_SECONDS + 1) * PERIOD_SECONDS\<rparr>))
                     (\<lambda>_. status (running_description (JInt (int elapsed))) False))))"

definition close_progress :: "env \<Rightarrow> (mechanics, payload list) prog" where
  "close_progress E =
     bindp (fetch mx_closed) (\<lambda>closed.
       if closed then ret []
       else bindp (assign (\<lambda>m. m\<lparr>mx_closed := True\<rparr>)) (\<lambda>_.
            bindp (fetch mx_start) (\<lambda>start.
              if start = None then ret []
              else bindp (elapsed_seconds E) (\<lambda>elapsed.
                   status (closing_description (JInt (int elapsed))) True))))"

section \<open>One chunk\<close>

text \<open>What \<open>_process_chunk\<close> checks of the one choice before it acts: the choice and its delta.\<close>

definition delta_of :: "jobject \<Rightarrow> jobject result" where
  "delta_of choice =
     (case jget ''delta'' choice of
        None \<Rightarrow> Inr []
      | Some JNull \<Rightarrow> Inr []
      | Some (JObj d) \<Rightarrow> Inr d
      | _ \<Rightarrow> Inl ''TypeError'')"

definition reasoning_keys :: "jobject \<Rightarrow> string list" where
  "reasoning_keys delta = filter (\<lambda>k. has_key k delta) REASONING_KEYS"

definition read_choice :: "json list \<Rightarrow> (jobject \<times> jobject) result" where
  "read_choice choices =
     (case choices of
        [JObj choice] \<Rightarrow>
          if jget ''index'' choice \<noteq> None \<and> jget ''index'' choice \<noteq> Some (JInt 0) then Inl ''TypeError''
          else bind_result (delta_of choice) (\<lambda>delta.
            if list_ex (\<lambda>k. has_key k delta \<and> jget_str k delta = None) TEXT_KEYS then Inl ''TypeError''
            else if length (reasoning_keys delta) > 1 then Inl ''TypeError''
            else Inr (choice, delta))
      | _ \<Rightarrow> Inl ''TypeError'')"

definition is_finished :: "jobject \<Rightarrow> bool" where
  "is_finished choice = (jget ''finish_reason'' choice \<noteq> None \<and> jget ''finish_reason'' choice \<noteq> Some JNull)"

definition judge_delta :: "env \<Rightarrow> jobject \<Rightarrow> jobject \<Rightarrow> (mechanics, ustr) prog" where
  "judge_delta E choice delta =
     bindp (case jget_str ''content'' delta of
              Some c \<Rightarrow> on_state (check_append (e_judge E) c)
            | None \<Rightarrow> ret []) (\<lambda>released.
     if is_finished choice
     then bindp (on_state (check_finish (e_judge E))) (\<lambda>tail.
          bindp (assign (\<lambda>m. m\<lparr>mx_state := (mx_state m)\<lparr>s_finished := True\<rparr>\<rparr>)) (\<lambda>_.
          ret (released @ tail)))
     else ret released)"

definition advance_progress :: "env \<Rightarrow> jobject \<Rightarrow> jobject \<Rightarrow> (mechanics, payload list) prog" where
  "advance_progress E choice delta =
     bindp (fetch (\<lambda>m. tripped m \<or> (\<exists>c. jget_str ''content'' delta = Some c \<and> c \<noteq> []) \<or> is_finished choice))
       (\<lambda>close.
         if close then close_progress E
         else if reasoning_keys delta \<noteq> [] then
           bindp (fetch mx_start) (\<lambda>start. if start = None then open_progress E else tick_progress E)
         else ret [])"

definition relayed_delta :: "jobject \<Rightarrow> ustr \<Rightarrow> jobject" where
  "relayed_delta delta released =
     (let d = jdel ''content'' (jpick RELAYED_DELTA_KEYS delta)
      in if released \<noteq> [] then jset ''content'' (JStr released) d else d)"

definition relayed_chunk :: "jobject \<Rightarrow> jobject \<Rightarrow> jobject \<Rightarrow> ustr \<Rightarrow> payload list" where
  "relayed_chunk env choice delta released =
     (let output_delta = relayed_delta delta released
      in if output_delta = [] \<and> \<not> is_finished choice then []
         else [PObj (jset ''choices''
                 (JArr [JObj (jset ''delta'' (JObj output_delta) (jpick RELAYED_CHOICE_KEYS choice))]) env)])"

definition process_chunk :: "env \<Rightarrow> jobject \<Rightarrow> (mechanics, payload list \<times> bool) prog" where
  "process_chunk E event =
     (case Option.bind (jget ''choices'' event) as_arr of
        None \<Rightarrow> raise ''TypeError''
      | Some choices \<Rightarrow>
          (let env = envelope event
           in if choices = []
              then bindp (assign (\<lambda>m. m\<lparr>mx_last_envelope := Some env\<rparr>))
                     (\<lambda>_. ret ([PObj (jdel STATUS_EVENT_KEY event)], False))
              else
                bindp (lift_result (read_choice choices)) (\<lambda>(choice, delta).
                bindp (assign (\<lambda>m. m\<lparr>mx_last_envelope := Some env\<rparr>)) (\<lambda>_.
                bindp (fetch (\<lambda>m. s_finished (mx_state m))) (\<lambda>was_finished.
                bindp (judge_delta E choice delta) (\<lambda>released.
                bindp (advance_progress E choice delta) (\<lambda>leading.
                bindp (fetch tripped) (\<lambda>trip.
                  if trip then
                    bindp (assign (\<lambda>m. m\<lparr>mx_ended := True\<rparr>)) (\<lambda>_.
                    bindp (fetch (trip_payloads (Some env))) (\<lambda>payloads.
                    ret (leading @ payloads, True)))
                  else
                    bindp (fetch (\<lambda>m. if is_finished choice \<and> \<not> was_finished
                                    then tail_for (e_ucd E) (x_text (s_content (mx_state m))) else []))
                      (\<lambda>label. ret (leading @ relayed_chunk env choice delta (released @ label), False))))))))))"

section \<open>Endings\<close>

definition settle_tail :: "env \<Rightarrow> jobject option \<Rightarrow> (mechanics, payload list) prog" where
  "settle_tail E env =
     bindp (fetch (\<lambda>m. s_finished (mx_state m))) (\<lambda>finished.
       if finished then ret []
       else
         bindp (on_state (check_finish (e_judge E))) (\<lambda>tail.
         bindp (assign (\<lambda>m. m\<lparr>mx_state := (mx_state m)\<lparr>s_finished := True\<rparr>\<rparr>)) (\<lambda>_.
         bindp (fetch (\<lambda>m.
           if tripped m then trip_payloads env m
           else (let text = tail @ tail_for (e_ucd E) (x_text (s_content (mx_state m)))
                 in if text = [] then [] else [content_chunk env text]))) (\<lambda>payloads.
         ret payloads))))"

definition settled :: "env \<Rightarrow> (mechanics, payload list) prog" where
  \<comment> \<open>the tail's payloads after the closing line, as every ending sends them\<close>
  "settled E =
     bindp (fetch mx_last_envelope) (\<lambda>env.
     bindp (settle_tail E env) (\<lambda>payloads.
     bindp (close_progress E) (\<lambda>closing. ret (closing @ payloads))))"

definition process_error :: "env \<Rightarrow> jobject \<Rightarrow> (mechanics, payload list \<times> bool) prog" where
  "process_error E event =
     bindp (settled E) (\<lambda>payloads.
     bindp (fetch tripped) (\<lambda>trip.
       if trip then ret (payloads, True)
       else bindp (assign (\<lambda>m. m\<lparr>mx_error_seen := True\<rparr>)) (\<lambda>_.
            ret (payloads @ [PObj (envelope event)], False))))"

definition process_end_marker :: "env \<Rightarrow> (mechanics, payload list \<times> bool) prog" where
  "process_end_marker E =
     bindp (settled E) (\<lambda>payloads.
     bindp (assign (\<lambda>m. m\<lparr>mx_ended := True\<rparr>)) (\<lambda>_.
     bindp (fetch tripped) (\<lambda>trip.
       if trip then ret (payloads, True) else ret (payloads @ [PStr DONE_EVENT], False))))"

definition error_trip :: "env \<Rightarrow> exn option \<Rightarrow> (mechanics, payload list \<times> bool) prog" where
  "error_trip E failure =
     bindp (assign (\<lambda>m. if failure \<noteq> None \<and> mx_failure m = None then m\<lparr>mx_failure := failure\<rparr> else m)) (\<lambda>_.
     bindp (catch (close_progress E) (\<lambda>_. ret [])) (\<lambda>closing.
     bindp (assign (\<lambda>m. if tripped m then m else m\<lparr>mx_state := record_error_trip (mx_state m)\<rparr>)) (\<lambda>_.
     bindp (assign (\<lambda>m. m\<lparr>mx_ended := True\<rparr>)) (\<lambda>_.
     bindp (fetch (\<lambda>m. trip_payloads (mx_last_envelope m) m)) (\<lambda>payloads.
     ret (closing @ payloads, True))))))"

definition parse_payload :: "env \<Rightarrow> payload \<Rightarrow> (mechanics, jobject) prog" where
  "parse_payload E p =
     (case p of
        PObj event \<Rightarrow> ret event
      | PStr text \<Rightarrow>
          bindp (lift_result (e_loads E text)) (\<lambda>parsed.
            case as_obj parsed of None \<Rightarrow> raise ''TypeError'' | Some event \<Rightarrow> ret event))"

section \<open>The entries\<close>

definition process :: "env \<Rightarrow> payload \<Rightarrow> (mechanics, payload list \<times> bool) prog" where
  "process E p m =
     (if mx_ended m then ret ([], tripped m) m
      else if tripped m then ret ([], True) m
      else if mx_error_seen m \<and> p \<noteq> PStr DONE_EVENT then ret ([], False) m
      else catch
        (if p = PStr DONE_EVENT then process_end_marker E
         else bindp (parse_payload E p) (\<lambda>event.
           if has_key ''error'' event \<and> \<not> has_key ''choices'' event then process_error E event
           else process_chunk E event))
        (\<lambda>e. error_trip E (Some e)) m)"

definition finish :: "env \<Rightarrow> (mechanics, payload list \<times> bool) prog" where
  "finish E m =
     (if mx_ended m then ret ([], tripped m) m
      else if tripped m then ret ([], True) m
      else catch
        (bindp (settled E) (\<lambda>payloads.
         bindp (assign (\<lambda>m. m\<lparr>mx_ended := True\<rparr>)) (\<lambda>_.
         bindp (fetch tripped) (\<lambda>trip. ret (payloads, trip)))))
        (\<lambda>e. error_trip E (Some e)) m)"

definition fail_closed :: "env \<Rightarrow> (mechanics, payload list \<times> bool) prog" where
  "fail_closed E m = (if mx_ended m then ret ([], tripped m) m else error_trip E None m)"

section \<open>The progress line changes nothing else\<close>

definition same_stream :: "mechanics \<Rightarrow> mechanics \<Rightarrow> bool" where
  "same_stream m m' \<longleftrightarrow>
     mx_state m' = mx_state m \<and> mx_failure m' = mx_failure m \<and> mx_last_envelope m' = mx_last_envelope m \<and>
     mx_error_seen m' = mx_error_seen m \<and> mx_ended m' = mx_ended m"

lemma same_stream_refl [simp]: "same_stream m m"
  by (simp add: same_stream_def)

lemma same_stream_tripped: "same_stream m m' \<Longrightarrow> tripped m' = tripped m"
  by (simp add: same_stream_def tripped_def)

definition status_only :: "mechanics \<Rightarrow> payload list \<Rightarrow> bool" where
  "status_only m outs \<longleftrightarrow> outs = [] \<or> (\<exists>d f. outs = [status_chunk d f m])"

lemma status_only_simps [simp]: "status_only m []" "status_only m [status_chunk d f m]"
  by (auto simp: status_only_def)

lemma status_chunk_cong: "mx_last_envelope m = mx_last_envelope m' \<Longrightarrow> status_chunk d f m = status_chunk d f m'"
  by (simp add: status_chunk_def)

text \<open>What each operation on the line does, written out.\<close>

lemma close_progress_eq:
  "close_progress E m =
     (if mx_closed m then Some (m, Inr [])
      else case mx_start m of
        None \<Rightarrow> Some (m\<lparr>mx_closed := True\<rparr>, Inr [])
      | Some t \<Rightarrow>
          Some (m\<lparr>mx_closed := True, mx_reads := Suc (mx_reads m)\<rparr>,
            Inr [status_chunk (closing_description (JInt (int (nat \<lfloor>e_clock E (mx_reads m) - t\<rfloor>)))) True m]))"
  by (simp add: close_progress_def elapsed_seconds_def read_clock_def status_def prog_defs status_chunk_def
      split: option.splits)

lemma open_progress_eq:
  "open_progress E m =
     (if mx_closed m \<or> mx_start m \<noteq> None then Some (m, Inr [])
      else Some (m\<lparr>mx_reads := Suc (mx_reads m), mx_start := Some (e_clock E (mx_reads m))\<rparr>,
             Inr [status_chunk opening_description False m]))"
  by (simp add: open_progress_def read_clock_def status_def prog_defs status_chunk_def)

lemma tick_progress_eq:
  "tick_progress E m =
     (case mx_start m of
        None \<Rightarrow> Some (m, Inr [])
      | Some t \<Rightarrow>
          if mx_closed m then Some (m, Inr [])
          else (let elapsed = nat \<lfloor>e_clock E (mx_reads m) - t\<rfloor>; m1 = m\<lparr>mx_reads := Suc (mx_reads m)\<rparr>
                in if elapsed < mx_next_due m then Some (m1, Inr [])
                   else Some (m1\<lparr>mx_next_due := (elapsed div PERIOD_SECONDS + 1) * PERIOD_SECONDS\<rparr>,
                          Inr [status_chunk (running_description (JInt (int elapsed))) False m])))"
  by (simp add: tick_progress_def elapsed_seconds_def read_clock_def status_def prog_defs status_chunk_def Let_def
      split: option.splits)

lemmas progress_eqs = close_progress_eq open_progress_eq tick_progress_eq

lemma close_progress_shape:
  "close_progress E m = Some (m', r) \<Longrightarrow>
     \<exists>outs. r = Inr outs \<and> same_stream m m' \<and> status_only m outs \<and> mx_closed m'"
  by (auto simp: close_progress_eq same_stream_def split: if_splits option.splits)

lemma advance_progress_shape:
  assumes "advance_progress E choice delta m = Some (m', r)"
  shows "\<exists>outs. r = Inr outs \<and> same_stream m m' \<and> status_only m outs"
  using assms
  by (auto simp: advance_progress_def bindp_Some_iff fetch_def ret_def open_progress_eq tick_progress_eq Let_def
      same_stream_def split: if_splits option.splits dest!: close_progress_shape)

section \<open>The judge changes the stream's state alone\<close>

lemma on_state_Some_iff:
  "on_state p m = Some (m', r) \<longleftrightarrow> (\<exists>s'. p (mx_state m) = Some (s', r) \<and> m' = m\<lparr>mx_state := s'\<rparr>)"
  by (auto simp: on_state_def on_part_def split: option.splits)

definition only_state :: "mechanics \<Rightarrow> mechanics \<Rightarrow> bool" where
  "only_state m m' \<longleftrightarrow> (\<exists>s. m' = m\<lparr>mx_state := s\<rparr>)"

lemma only_state_refl [simp]: "only_state m m"
  unfolding only_state_def by (rule exI [of _ "mx_state m"]) simp

lemma only_state_update [simp]: "only_state m (m\<lparr>mx_state := s\<rparr>)"
  unfolding only_state_def by (rule exI) (rule refl)

lemma only_state_trans: "only_state m m1 \<Longrightarrow> only_state m1 m2 \<Longrightarrow> only_state m m2"
  by (auto simp: only_state_def)

definition judge_content :: "env \<Rightarrow> jobject \<Rightarrow> (stream_state, ustr) prog" where
  "judge_content E delta =
     (case jget_str ''content'' delta of
        Some c \<Rightarrow> check_append (e_judge E) c
      | None \<Rightarrow> ret [])"

lemma judge_delta_eq:
  "judge_delta E choice delta m =
     (case judge_content E delta (mx_state m) of
        None \<Rightarrow> None
      | Some (s1, Inl e) \<Rightarrow> Some (m\<lparr>mx_state := s1\<rparr>, Inl e)
      | Some (s1, Inr released) \<Rightarrow>
          if \<not> is_finished choice then Some (m\<lparr>mx_state := s1\<rparr>, Inr released)
          else case check_finish (e_judge E) s1 of
            None \<Rightarrow> None
          | Some (s2, Inl e) \<Rightarrow> Some (m\<lparr>mx_state := s2\<rparr>, Inl e)
          | Some (s2, Inr tail) \<Rightarrow> Some (m\<lparr>mx_state := s2\<lparr>s_finished := True\<rparr>\<rparr>, Inr (released @ tail)))"
  by (simp add: judge_delta_def judge_content_def prog_defs on_state_def
      split: option.splits sum.splits prod.splits)

lemma judge_delta_only_state: "judge_delta E choice delta m = Some (m', r) \<Longrightarrow> only_state m m'"
  by (auto simp: judge_delta_eq split: option.splits sum.splits if_splits)

section \<open>What an entry returns\<close>

text \<open>The state before, the trip payloads after: the ending a trip gives.\<close>

definition trip_ending :: "payload list \<Rightarrow> mechanics \<Rightarrow> bool" where
  "trip_ending outs m' \<longleftrightarrow>
     (\<exists>leading env. outs = leading @ trip_payloads env m' \<and> status_only m' leading)"

lemma close_progress_returns:
  "\<exists>m1 closing. close_progress E m = Some (m1, Inr closing) \<and> same_stream m m1 \<and> status_only m closing \<and>
     mx_closed m1"
proof -
  obtain m1 r where c: "close_progress E m = Some (m1, r)"
    by (cases "mx_closed m"; cases "mx_start m") (auto simp: close_progress_eq)
  with close_progress_shape [OF c] show ?thesis by auto
qed

definition noted :: "exn option \<Rightarrow> mechanics \<Rightarrow> mechanics" where
  "noted failure m = (if failure \<noteq> None \<and> mx_failure m = None then m\<lparr>mx_failure := failure\<rparr> else m)"

definition closed_by_error :: "mechanics \<Rightarrow> mechanics" where
  "closed_by_error m =
     (if tripped m then m else m\<lparr>mx_state := record_error_trip (mx_state m)\<rparr>)\<lparr>mx_ended := True\<rparr>"

lemma error_trip_eq:
  assumes "close_progress E (noted failure m) = Some (m1, Inr closing)"
  shows "error_trip E failure m =
    Some (closed_by_error m1,
      Inr (closing @ trip_payloads (mx_last_envelope (closed_by_error m1)) (closed_by_error m1), True))"
  using assms by (simp add: error_trip_def prog_defs noted_def closed_by_error_def)

lemma closed_by_error_simps [simp]:
  "tripped (closed_by_error m)" "mx_ended (closed_by_error m)"
  "mx_last_envelope (closed_by_error m) = mx_last_envelope m"
  by (auto simp: closed_by_error_def tripped_def record_error_trip_def split: option.splits)

lemma noted_simps [simp]:
  "mx_state (noted failure m) = mx_state m" "mx_last_envelope (noted failure m) = mx_last_envelope m"
  by (simp_all add: noted_def)

lemma error_trip_shape:
  "\<exists>m' outs. error_trip E failure m = Some (m', Inr (outs, True)) \<and> tripped m' \<and> mx_ended m' \<and>
     trip_ending outs m' \<and> mx_last_envelope m' = mx_last_envelope m"
proof -
  obtain m1 closing where c: "close_progress E (noted failure m) = Some (m1, Inr closing)"
    "same_stream (noted failure m) m1" "status_only (noted failure m) closing"
    using close_progress_returns by blast
  have env: "mx_last_envelope (closed_by_error m1) = mx_last_envelope m"
    using c(2) by (simp add: same_stream_def)
  with c(3) status_chunk_cong [of "noted failure m" "closed_by_error m1"]
  have "status_only (closed_by_error m1) closing" by (auto simp: status_only_def)
  with error_trip_eq [OF c(1)] env show ?thesis unfolding trip_ending_def by auto
qed

text \<open>A settled tail: the closing line, then either a trip's payloads, the tail, or nothing.\<close>

definition tail_payloads :: "env \<Rightarrow> jobject option \<Rightarrow> ustr \<Rightarrow> mechanics \<Rightarrow> payload list" where
  "tail_payloads E env tail m =
     (if tripped m then trip_payloads env m
      else (let text = tail @ tail_for (e_ucd E) (x_text (s_content (mx_state m)))
            in if text = [] then [] else [content_chunk env text]))"

lemma settle_tail_eq:
  "settle_tail E env m =
     (if s_finished (mx_state m) then Some (m, Inr [])
      else case check_finish (e_judge E) (mx_state m) of
        None \<Rightarrow> None
      | Some (s1, Inl e) \<Rightarrow> Some (m\<lparr>mx_state := s1\<rparr>, Inl e)
      | Some (s1, Inr tail) \<Rightarrow>
          (let m1 = m\<lparr>mx_state := s1\<lparr>s_finished := True\<rparr>\<rparr> in Some (m1, Inr (tail_payloads E env tail m1))))"
  by (simp add: settle_tail_def prog_defs on_state_def tail_payloads_def Let_def
      split: option.splits sum.splits prod.splits)

lemma settle_tail_cases:
  assumes "settle_tail E env m = Some (m', Inr outs)"
  obtains (already) "s_finished (mx_state m)" "m' = m" "outs = []"
  | (settled) s1 tail where "\<not> s_finished (mx_state m)"
      "check_finish (e_judge E) (mx_state m) = Some (s1, Inr tail)"
      "m' = m\<lparr>mx_state := s1\<lparr>s_finished := True\<rparr>\<rparr>" "outs = tail_payloads E env tail m'"
  using assms by (auto simp: settle_tail_eq Let_def split: option.splits sum.splits if_splits)

lemma settled_cases:
  assumes "settled E m = Some (m', Inr outs)"
  obtains m1 tail closing where "settle_tail E (mx_last_envelope m) m = Some (m1, Inr tail)"
    "same_stream m1 m'" "status_only m1 closing" "outs = closing @ tail" "mx_closed m'"
  using assms
  by (auto simp: settled_def bindp_Some_iff fetch_def ret_def dest!: close_progress_shape)

lemma trip_payloads_cong: "mx_state m = mx_state m' \<Longrightarrow> trip_payloads env m = trip_payloads env m'"
  by (simp add: trip_payloads_def)

lemma status_only_cong: "mx_last_envelope m = mx_last_envelope m' \<Longrightarrow> status_only m outs = status_only m' outs"
  using status_chunk_cong [of m m'] by (auto simp: status_only_def)

lemma status_only_same: "same_stream m m' \<Longrightarrow> status_only m outs \<Longrightarrow> status_only m' outs"
  using status_only_cong [of m m'] by (simp add: same_stream_def)

lemma only_state_envelope: "only_state m m' \<Longrightarrow> mx_last_envelope m' = mx_last_envelope m"
  by (auto simp: only_state_def)

lemma process_chunk_cases:
  assumes "process_chunk E event m = Some (m', Inr (outs, trip))"
  obtains (usage) "jget ''choices'' event = Some (JArr [])"
      "m' = m\<lparr>mx_last_envelope := Some (envelope event)\<rparr>"
      "outs = [PObj (jdel STATUS_EVENT_KEY event)]" "\<not> trip"
  | (stopped) choices choice delta released m1 m2 leading where
      "jget ''choices'' event = Some (JArr choices)" "read_choice choices = Inr (choice, delta)"
      "judge_delta E choice delta (m\<lparr>mx_last_envelope := Some (envelope event)\<rparr>) = Some (m1, Inr released)"
      "advance_progress E choice delta m1 = Some (m2, Inr leading)" "tripped m2"
      "m' = m2\<lparr>mx_ended := True\<rparr>" "outs = leading @ trip_payloads (Some (envelope event)) m'" "trip"
  | (relayed) choices choice delta released m1 leading label where
      "jget ''choices'' event = Some (JArr choices)" "read_choice choices = Inr (choice, delta)"
      "judge_delta E choice delta (m\<lparr>mx_last_envelope := Some (envelope event)\<rparr>) = Some (m1, Inr released)"
      "advance_progress E choice delta m1 = Some (m', Inr leading)" "\<not> tripped m'"
      "label = (if is_finished choice \<and> \<not> s_finished (mx_state m)
         then tail_for (e_ucd E) (x_text (s_content (mx_state m'))) else [])"
      "outs = leading @ relayed_chunk (envelope event) choice delta (released @ label)" "\<not> trip"
proof -
  from assms obtain choices where ch: "jget ''choices'' event = Some (JArr choices)"
    by (auto simp: process_chunk_def raise_def bind_eq_Some_conv split: option.splits)
  show thesis
  proof (cases "choices = []")
    case True
    with assms ch show thesis by (intro usage) (auto simp: process_chunk_def prog_defs)
  next
    case False
    let ?m = "m\<lparr>mx_last_envelope := Some (envelope event)\<rparr>"
    from assms ch False obtain choice delta released m1 m2 leading where
      r: "read_choice choices = Inr (choice, delta)"
      and j: "judge_delta E choice delta ?m = Some (m1, Inr released)"
      and a: "advance_progress E choice delta m1 = Some (m2, Inr leading)"
      and rest: "(if tripped m2 then m' = m2\<lparr>mx_ended := True\<rparr> \<and>
            outs = leading @ trip_payloads (Some (envelope event)) (m2\<lparr>mx_ended := True\<rparr>) \<and> trip
          else m' = m2 \<and> outs = leading @ relayed_chunk (envelope event) choice delta (released @
            (if is_finished choice \<and> \<not> s_finished (mx_state m)
             then tail_for (e_ucd E) (x_text (s_content (mx_state m2))) else [])) \<and> \<not> trip)"
      by (auto simp: process_chunk_def Let_def bindp_Some_iff fetch_def assign_def lift_result_def ret_def
          split: if_splits prod.splits)
    show thesis
    proof (cases "tripped m2")
      case True
      with rest show thesis by (intro stopped [OF ch r j a]) auto
    next
      case False
      with rest show thesis by (intro relayed [OF ch r j, of leading]) (use a in auto)
    qed
  qed
qed

section \<open>Payloads are rebuilt\<close>

definition keys_within :: "string list \<Rightarrow> jobject \<Rightarrow> bool" where
  "keys_within ks d = list_all (\<lambda>p. fst p \<in> ulit ` set ks) d"

definition choice_rebuilt :: "json \<Rightarrow> bool" where
  "choice_rebuilt c =
     (case as_obj c of
        None \<Rightarrow> False
      | Some ch \<Rightarrow>
          keys_within (RELAYED_CHOICE_KEYS @ [''delta'']) ch \<and>
          (case Option.bind (jget ''delta'' ch) as_obj of
             None \<Rightarrow> False
           | Some d \<Rightarrow> keys_within RELAYED_DELTA_KEYS d))"

definition choices_rebuilt :: "payload \<Rightarrow> bool" where
  "choices_rebuilt p =
     (case p of
        PStr s \<Rightarrow> s = DONE_EVENT
      | PObj d \<Rightarrow>
          (case jget ''choices'' d of
             None \<Rightarrow> True
           | Some c \<Rightarrow> (case as_arr c of None \<Rightarrow> False | Some cs \<Rightarrow> list_all choice_rebuilt cs)))"

text \<open>The rest of a payload: a top-level event is the progress line's own, on a payload that carries nothing else, and a
  payload without choices is the engine's error.\<close>

definition top_rebuilt :: "payload \<Rightarrow> bool" where
  "top_rebuilt p =
     (case p of
        PStr s \<Rightarrow> True
      | PObj d \<Rightarrow>
          (case jget STATUS_EVENT_KEY d of
             None \<Rightarrow> has_key ''choices'' d \<or> has_key ''error'' d
           | Some v \<Rightarrow>
               keys_within (STATUS_ENVELOPE_KEYS @ [''choices'', STATUS_EVENT_KEY]) d \<and>
               jget ''choices'' d = Some (JArr []) \<and>
               (\<exists>description finished. v = build_status_event description finished)))"

definition payload_rebuilt :: "payload \<Rightarrow> bool" where
  "payload_rebuilt p \<longleftrightarrow> choices_rebuilt p \<and> top_rebuilt p"

lemma keys_within_iff: "keys_within ks d \<longleftrightarrow> fst ` set d \<subseteq> ulit ` set ks"
  by (auto simp: keys_within_def list_all_iff)

lemma keys_within_jpick: "set ks \<subseteq> set ks' \<Longrightarrow> keys_within ks' (jpick ks d)"
  using jpick_keys [of ks d] unfolding keys_within_iff by (meson image_mono subset_trans)

lemma keys_within_jset: "k \<in> set ks \<Longrightarrow> keys_within ks d \<Longrightarrow> keys_within ks (jset k v d)"
  by (simp add: keys_within_iff jset_def fst_set_jset_key)

lemma keys_within_jdel: "keys_within ks d \<Longrightarrow> keys_within ks (jdel k d)"
  by (auto simp: keys_within_def jdel_def list_all_iff)

lemma delta_choice_rebuilt:
  "keys_within RELAYED_DELTA_KEYS delta \<Longrightarrow> choice_rebuilt (delta_choice delta reason)"
  by (auto simp: choice_rebuilt_def delta_choice_def keys_within_def RELAYED_CHOICE_KEYS_def jget_Cons)

lemma rebuilt_payloads:
  "choices_rebuilt (PStr DONE_EVENT)" "choices_rebuilt (content_chunk env s)"
  "choices_rebuilt (finish_chunk env)" "choices_rebuilt (status_chunk d f m)"
  by (simp_all add: choices_rebuilt_def content_chunk_def finish_chunk_def status_chunk_def jget_jset
      delta_choice_rebuilt keys_within_def RELAYED_DELTA_KEYS_def STATUS_EVENT_KEY_def)

lemma trip_payloads_rebuilt: "list_all choices_rebuilt (trip_payloads env m)"
  by (simp add: trip_payloads_def rebuilt_payloads)

lemma status_only_rebuilt: "status_only m outs \<Longrightarrow> list_all choices_rebuilt outs"
  by (auto simp: status_only_def rebuilt_payloads)

lemma envelope_choices [simp]: "jget ''choices'' (envelope event) = None"
  by (auto simp: jget_def envelope_def map_of_eq_None_iff)

lemma relayed_chunk_rebuilt: "list_all choices_rebuilt (relayed_chunk env choice delta released)"
proof -
  have "keys_within RELAYED_DELTA_KEYS (relayed_delta delta released)"
    by (auto simp: relayed_delta_def Let_def RELAYED_DELTA_KEYS_def
        intro!: keys_within_jset keys_within_jdel keys_within_jpick)
  moreover have "keys_within (RELAYED_CHOICE_KEYS @ [''delta''])
      (jset ''delta'' v (jpick RELAYED_CHOICE_KEYS choice))" for v
    by (intro keys_within_jset keys_within_jpick) auto
  ultimately show ?thesis
    by (auto simp: relayed_chunk_def Let_def choices_rebuilt_def choice_rebuilt_def jget_jset)
qed

lemma tail_payloads_rebuilt: "list_all choices_rebuilt (tail_payloads E env tail m)"
  by (simp add: tail_payloads_def Let_def trip_payloads_rebuilt rebuilt_payloads)

lemma trip_ending_rebuilt: "trip_ending outs m \<Longrightarrow> list_all choices_rebuilt outs"
  by (auto simp: trip_ending_def trip_payloads_rebuilt status_only_rebuilt)

section \<open>The shape of a call\<close>

definition plain :: "payload list \<Rightarrow> bool" where
  "plain outs = list_all (\<lambda>p. \<exists>d. p = PObj d) outs"

definition call_shape :: "payload list \<Rightarrow> bool \<Rightarrow> mechanics \<Rightarrow> bool" where
  "call_shape outs trip m' \<longleftrightarrow>
     trip = tripped m' \<and> list_all choices_rebuilt outs \<and>
     (if tripped m' then trip_ending outs m'
      else plain outs \<or> (\<exists>xs. outs = xs @ [PStr DONE_EVENT] \<and> plain xs \<and> mx_ended m'))"

lemma plain_simps [simp]: "plain []" "plain (xs @ ys) \<longleftrightarrow> plain xs \<and> plain ys"
  "plain [content_chunk env s]" "plain (PObj d # xs) \<longleftrightarrow> plain xs"
  by (simp_all add: plain_def content_chunk_def)

lemma status_only_plain: "status_only m outs \<Longrightarrow> plain outs"
  by (auto simp: status_only_def status_chunk_def)

lemma relayed_chunk_plain: "plain (relayed_chunk env choice delta s)"
  by (simp add: relayed_chunk_def Let_def)

lemma process_chunk_shape:
  assumes "process_chunk E event m = Some (m', Inr (outs, trip))" "\<not> tripped m"
  shows "call_shape outs trip m'"
  using assms(1)
proof (cases rule: process_chunk_cases)
  case usage
  then have "\<not> tripped m'" using assms(2) by (simp add: tripped_def)
  moreover have "choices_rebuilt (PObj (jdel STATUS_EVENT_KEY event))"
    using usage(1) by (simp add: choices_rebuilt_def jget_jdel_other STATUS_EVENT_KEY_def)
  ultimately show ?thesis using usage by (simp add: call_shape_def)
next
  case (stopped choices choice delta released m1 m2 leading)
  obtain outs' where o: "outs' = leading" "same_stream m1 m2" "status_only m1 leading"
    using advance_progress_shape [OF stopped(4)] by auto
  have "status_only m' leading"
    using o(2,3) status_only_cong [of m1 m'] by (simp add: same_stream_def stopped(6))
  moreover have "tripped m'" using stopped(5) by (simp add: stopped(6) tripped_def)
  ultimately show ?thesis
    using stopped(7,8) status_only_rebuilt trip_payloads_rebuilt
    unfolding call_shape_def trip_ending_def by auto
next
  case (relayed choices choice delta released m1 leading label)
  from advance_progress_shape [OF relayed(4)] have "status_only m1 leading" by auto
  with relayed show ?thesis
    by (simp add: call_shape_def status_only_rebuilt relayed_chunk_rebuilt status_only_plain relayed_chunk_plain)
qed

lemma settled_shape:
  assumes "settled E m = Some (m', Inr outs)" "\<not> tripped m"
  shows "list_all choices_rebuilt outs \<and> (if tripped m' then trip_ending outs m' else plain outs) \<and>
    mx_last_envelope m' = mx_last_envelope m"
proof -
  from assms(1) obtain m1 tail closing where s: "settle_tail E (mx_last_envelope m) m = Some (m1, Inr tail)"
    "same_stream m1 m'" "status_only m1 closing" "outs = closing @ tail"
    by (rule settled_cases)
  have env: "mx_last_envelope m1 = mx_last_envelope m"
    using s(1) by (rule settle_tail_cases) auto
  with s(2) have env': "mx_last_envelope m' = mx_last_envelope m" by (simp add: same_stream_def)
  have st: "status_only m' closing" using status_only_same [OF s(2,3)] .
  from s(1) show ?thesis
  proof (cases rule: settle_tail_cases)
    case already
    then have "\<not> tripped m'" using assms(2) s(2) same_stream_tripped by auto
    with already st env' s(4) show ?thesis by (simp add: status_only_rebuilt status_only_plain)
  next
    case (settled s1 t)
    have "tripped m' = tripped m1" using s(2) by (rule same_stream_tripped)
    moreover have "tripped m1 \<Longrightarrow> trip_ending outs m'"
      using settled(4) s(2,4) st trip_payloads_cong [of m1 m']
      by (auto simp: trip_ending_def tail_payloads_def same_stream_def)
    moreover have "\<not> tripped m1 \<Longrightarrow> plain tail"
      using settled(4) by (simp add: tail_payloads_def Let_def)
    moreover have "list_all choices_rebuilt tail" using settled(4) tail_payloads_rebuilt by simp
    ultimately show ?thesis using st env' s(4)
      by (simp add: status_only_rebuilt status_only_plain)
  qed
qed

lemma envelope_rebuilt: "choices_rebuilt (PObj (envelope event))"
  by (simp add: choices_rebuilt_def)

lemma process_error_shape:
  assumes "process_error E event m = Some (m', Inr (outs, trip))" "\<not> tripped m"
  shows "call_shape outs trip m'"
proof -
  from assms(1) obtain m1 ps where s: "settled E m = Some (m1, Inr ps)"
    and rest: "if tripped m1 then m' = m1 \<and> outs = ps \<and> trip
      else m' = m1\<lparr>mx_error_seen := True\<rparr> \<and> outs = ps @ [PObj (envelope event)] \<and> \<not> trip"
    by (auto simp: process_error_def bindp_Some_iff fetch_def assign_def ret_def split: if_splits)
  from settled_shape [OF s assms(2)] rest show ?thesis
    by (auto simp: call_shape_def envelope_rebuilt tripped_def split: if_splits)
qed

lemma process_end_shape:
  assumes "process_end_marker E m = Some (m', Inr (outs, trip))" "\<not> tripped m"
  shows "call_shape outs trip m' \<and> mx_ended m'"
proof -
  from assms(1) obtain m1 ps where s: "settled E m = Some (m1, Inr ps)"
    and m': "m' = m1\<lparr>mx_ended := True\<rparr>"
    and rest: "if tripped m1 then outs = ps \<and> trip else outs = ps @ [PStr DONE_EVENT] \<and> \<not> trip"
    by (auto simp: process_end_marker_def bindp_Some_iff fetch_def assign_def ret_def tripped_def split: if_splits)
  have "trip_ending ps m1 \<Longrightarrow> trip_ending ps m'"
    using trip_payloads_cong [of m1 m'] status_only_cong [of m1 m'] m' by (auto simp: trip_ending_def)
  with settled_shape [OF s assms(2)] rest m' rebuilt_payloads(1) show ?thesis
    by (auto simp: call_shape_def tripped_def split: if_splits)
qed

lemma call_shape_error:
  assumes "error_trip E failure m = Some (m', r)"
  shows "\<exists>outs. r = Inr (outs, True) \<and> call_shape outs True m' \<and> tripped m' \<and> mx_ended m'"
  using error_trip_shape [of E failure m] assms trip_ending_rebuilt by (auto simp: call_shape_def)

definition handled :: "env \<Rightarrow> payload \<Rightarrow> (mechanics, payload list \<times> bool) prog" where
  "handled E p =
     (if p = PStr DONE_EVENT then process_end_marker E
      else bindp (parse_payload E p) (\<lambda>event.
        if has_key ''error'' event \<and> \<not> has_key ''choices'' event then process_error E event
        else process_chunk E event))"

lemma process_eq:
  "process E p m =
     (if mx_ended m then Some (m, Inr ([], tripped m))
      else if tripped m then Some (m, Inr ([], True))
      else if mx_error_seen m \<and> p \<noteq> PStr DONE_EVENT then Some (m, Inr ([], False))
      else catch (handled E p) (\<lambda>e. error_trip E (Some e)) m)"
  by (simp add: process_def handled_def ret_def)

lemma parse_payload_same: "parse_payload E p m = Some (m', r) \<Longrightarrow> m' = m"
  by (auto simp: parse_payload_def prog_defs split: payload.splits sum.splits option.splits)

lemma handled_shape:
  assumes "handled E p m = Some (m', Inr (outs, trip))" "\<not> tripped m"
  shows "call_shape outs trip m'"
  using assms
  by (auto simp: handled_def bindp_Some_iff dest!: parse_payload_same process_end_shape
      intro: process_error_shape process_chunk_shape split: if_splits)

lemma process_shape:
  assumes "process E p m = Some (m', r)"
  obtains (idle) "m' = m" "r = Inr ([], tripped m)" "mx_ended m \<or> tripped m \<or> mx_error_seen m"
  | (called) outs trip where "\<not> mx_ended m" "\<not> tripped m" "r = Inr (outs, trip)" "call_shape outs trip m'"
proof (cases "mx_ended m \<or> tripped m \<or> mx_error_seen m \<and> p \<noteq> PStr DONE_EVENT")
  case True
  with assms show thesis by (intro idle) (auto simp: process_eq split: if_splits)
next
  case False
  with assms have "catch (handled E p) (\<lambda>e. error_trip E (Some e)) m = Some (m', r)"
    unfolding process_eq by (auto split: if_splits)
  then have "\<exists>outs trip. r = Inr (outs, trip) \<and> call_shape outs trip m'"
    unfolding catch_Some_iff
  proof (elim disjE exE conjE)
    fix x assume "handled E p m = Some (m', Inr x)" "r = Inr x"
    with handled_shape [of E p m m' "fst x" "snd x"] False show ?thesis by (cases x) auto
  next
    fix s1 e assume "error_trip E (Some e) s1 = Some (m', r)"
    from call_shape_error [OF this] show ?thesis by blast
  qed
  with False show thesis by (auto intro: called)
qed

lemma finish_shape:
  assumes "finish E m = Some (m', r)"
  obtains (idle) "m' = m" "r = Inr ([], tripped m)" "mx_ended m \<or> tripped m"
  | (called) outs trip where "\<not> mx_ended m" "\<not> tripped m" "r = Inr (outs, trip)" "call_shape outs trip m'"
      "mx_ended m'"
proof (cases "mx_ended m \<or> tripped m")
  case True
  with assms show thesis by (intro idle) (auto simp: finish_def ret_def split: if_splits)
next
  case False
  let ?body = "bindp (settled E) (\<lambda>payloads.
         bindp (assign (\<lambda>m. m\<lparr>mx_ended := True\<rparr>)) (\<lambda>_.
         bindp (fetch tripped) (\<lambda>trip. ret (payloads, trip))))"
  from False assms have "catch ?body (\<lambda>e. error_trip E (Some e)) m = Some (m', r)"
    by (simp add: finish_def)
  then consider (raised) m1 e where "error_trip E (Some e) m1 = Some (m', r)"
    | (ok) m1 ps where "settled E m = Some (m1, Inr ps)" "m' = m1\<lparr>mx_ended := True\<rparr>"
        "r = Inr (ps, tripped m1)"
    by (auto simp: catch_Some_iff bindp_Some_iff fetch_def assign_def ret_def tripped_def)
  then show thesis
  proof cases
    case raised
    with call_shape_error False show thesis by (metis called)
  next
    case ok
    have "trip_ending ps m1 \<Longrightarrow> trip_ending ps m'"
      using trip_payloads_cong [of m1 m'] status_only_cong [of m1 m'] ok(2) by (auto simp: trip_ending_def)
    with settled_shape [OF ok(1)] False ok have "call_shape ps (tripped m1) m'"
      by (auto simp: call_shape_def tripped_def split: if_splits)
    with False ok show thesis by (intro called) auto
  qed
qed

section \<open>Whole streams\<close>

definition fresh :: "stream_state \<Rightarrow> bool" where
  "fresh s \<longleftrightarrow> s_content s = new_text \<and> s_trip s = None \<and> \<not> s_finished s \<and> s_rows s = []"

lemma fresh_new [simp]: "fresh (new_stream supplied ctx branch src chat)"
  by (simp add: fresh_def new_stream_def)

text \<open>
  \<open>reached E s0 again m sent\<close>: some sequence of calls from a fresh stream \<open>s0\<close> leads to \<open>m\<close>, having sent the
  payloads \<open>sent\<close>. No call is left out; \<open>again\<close> notes that \<open>fail_closed\<close> was called on a stream that had tripped without
  ending, which only an error payload's trip does.
\<close>

inductive reached :: "env \<Rightarrow> stream_state \<Rightarrow> bool \<Rightarrow> mechanics \<Rightarrow> payload list \<Rightarrow> bool" for E s0 where
  start: "fresh s0 \<Longrightarrow> reached E s0 False (new_mechanics s0) []"
| chunk: "reached E s0 again m sent \<Longrightarrow> process E p m = Some (m', Inr (outs, trip)) \<Longrightarrow>
    reached E s0 again m' (sent @ outs)"
| body_end: "reached E s0 again m sent \<Longrightarrow> finish E m = Some (m', Inr (outs, trip)) \<Longrightarrow>
    reached E s0 again m' (sent @ outs)"
| unreadable: "reached E s0 again m sent \<Longrightarrow> fail_closed E m = Some (m', Inr (outs, trip)) \<Longrightarrow>
    reached E s0 (again \<or> tripped m \<and> \<not> mx_ended m) m' (sent @ outs)"

lemma fail_closed_shape:
  assumes "fail_closed E m = Some (m', r)" "mx_ended m \<or> \<not> tripped m"
  obtains (idle) "m' = m" "r = Inr ([], tripped m)" "mx_ended m"
  | (called) outs trip where "\<not> mx_ended m" "\<not> tripped m" "r = Inr (outs, trip)" "call_shape outs trip m'"
      "tripped m'"
proof (cases "mx_ended m")
  case True
  with assms show thesis by (intro idle) (auto simp: fail_closed_def ret_def)
next
  case False
  with assms(1) have "error_trip E None m = Some (m', r)" by (simp add: fail_closed_def)
  from call_shape_error [OF this] False assms(2) show thesis by (auto intro: called)
qed

text \<open>Each call either changes nothing and sends nothing, or has the shape of a call.\<close>

definition sends :: "mechanics \<Rightarrow> mechanics \<Rightarrow> payload list \<Rightarrow> bool" where
  "sends m m' outs \<longleftrightarrow>
     m' = m \<and> outs = [] \<or> \<not> mx_ended m \<and> \<not> tripped m \<and> call_shape outs (tripped m') m'"

lemma call_shape_trip: "call_shape outs trip m' \<Longrightarrow> call_shape outs (tripped m') m'"
  by (simp add: call_shape_def)

lemma process_sends: "process E p m = Some (m', Inr (outs, trip)) \<Longrightarrow> sends m m' outs"
  by (erule process_shape) (auto simp: sends_def dest: call_shape_trip)

lemma finish_sends: "finish E m = Some (m', Inr (outs, trip)) \<Longrightarrow> sends m m' outs"
  by (erule finish_shape) (auto simp: sends_def dest: call_shape_trip)

lemma fail_closed_sends:
  "fail_closed E m = Some (m', Inr (outs, trip)) \<Longrightarrow> mx_ended m \<or> \<not> tripped m \<Longrightarrow> sends m m' outs"
  by (erule fail_closed_shape) (auto simp: sends_def dest: call_shape_trip)

definition refused :: "payload list \<Rightarrow> mechanics \<Rightarrow> bool" where
  "refused sent m \<longleftrightarrow>
     (\<exists>xs env. plain xs \<and>
        sent = xs @ [content_chunk env (refusal_text (mx_state m)), finish_chunk env, PStr DONE_EVENT])"

section \<open>The text of a stream\<close>

definition chunk_text :: "payload \<Rightarrow> ustr" where
  "chunk_text p =
     (case p of
        PStr s \<Rightarrow> []
      | PObj d \<Rightarrow>
          (case jget ''choices'' d of
             Some (JArr [JObj ch]) \<Rightarrow>
               (case jget ''delta'' ch of
                  Some (JObj delta) \<Rightarrow> (case jget_str ''content'' delta of Some t \<Rightarrow> t | None \<Rightarrow> [])
                | _ \<Rightarrow> [])
           | _ \<Rightarrow> []))"

definition sent_text :: "payload list \<Rightarrow> ustr" where
  "sent_text sent = concat (map chunk_text sent)"

lemma sent_text_append [simp]: "sent_text (xs @ ys) = sent_text xs @ sent_text ys"
  by (simp add: sent_text_def)

lemma sent_text_Nil [simp]: "sent_text [] = []"
  by (simp add: sent_text_def)

lemma sent_text_chunks [simp]:
  "sent_text [content_chunk env s] = s" "sent_text [PStr x] = []"
  "sent_text [PObj (envelope event)] = []"
  by (simp_all add: sent_text_def chunk_text_def content_chunk_def delta_choice_def jget_jset jget_Cons jget_str_def)

lemma sent_text_status: "status_only m outs \<Longrightarrow> sent_text outs = []"
  by (auto simp: status_only_def sent_text_def chunk_text_def status_chunk_def jget_jset STATUS_EVENT_KEY_def)

lemma relayed_delta_content:
  "jget_str ''content'' (relayed_delta delta released) = (if released \<noteq> [] then Some released else None)"
  by (simp add: relayed_delta_def Let_def jget_str_def jget_jset)

lemma sent_text_relayed [simp]: "sent_text (relayed_chunk env choice delta released) = released"
proof (cases "relayed_delta delta released = [] \<and> \<not> is_finished choice")
  case True
  then have "jget_str ''content'' (relayed_delta delta released) = None" by (simp add: jget_str_def)
  then have "released = []" by (simp add: relayed_delta_content split: if_splits)
  with True show ?thesis by (simp add: relayed_chunk_def)
next
  case False
  then show ?thesis
    by (auto simp: relayed_chunk_def Let_def sent_text_def chunk_text_def jget_jset relayed_delta_content)
qed

definition event_of :: "env \<Rightarrow> payload \<Rightarrow> jobject option" where
  "event_of E p =
     (case p of
        PObj event \<Rightarrow> Some event
      | PStr t \<Rightarrow> (case e_loads E t of Inl e \<Rightarrow> None | Inr j \<Rightarrow> as_obj j))"

text \<open>The text one upstream payload carries.\<close>

definition text_in :: "env \<Rightarrow> payload \<Rightarrow> ustr" where
  "text_in E p =
     (if p = PStr DONE_EVENT then []
      else case event_of E p of None \<Rightarrow> [] | Some event \<Rightarrow> chunk_text (PObj event))"

lemma parse_payload_event: "parse_payload E p m = Some (m', Inr event) \<Longrightarrow> event_of E p = Some event"
  by (auto simp: parse_payload_def event_of_def prog_defs split: payload.splits sum.splits option.splits)

lemma read_choice_text:
  assumes "read_choice choices = Inr (choice, delta)" "jget ''choices'' event = Some (JArr choices)"
  shows "chunk_text (PObj event) = (case jget_str ''content'' delta of Some t \<Rightarrow> t | None \<Rightarrow> [])"
proof -
  from assms(1) have c: "choices = [JObj choice]" and d: "delta_of choice = Inr delta"
    by (auto simp: read_choice_def bind_result_Inr_iff split: list.splits json.splits if_splits)
  from d have "jget ''delta'' choice = Some (JObj delta) \<or>
      delta = [] \<and> (jget ''delta'' choice = None \<or> jget ''delta'' choice = Some JNull)"
    by (auto simp: delta_of_def split: option.splits json.splits)
  with c assms(2) show ?thesis
    by (auto simp: chunk_text_def jget_str_def split: list.splits json.splits)
qed

lemma check_append_fields:
  assumes "check_append j d s = Some (s', Inr out)"
  shows "s_finished s' = s_finished s \<and> x_finished (s_content s') = x_finished (s_content s) \<and>
    (s_trip s' = None \<longrightarrow> s_trip s = None \<and> x_text (s_content s') = x_text (s_content s) @ d)"
proof (cases "s_trip s")
  case None
  with assms have "check_judge j (grown s d) = Some (s', Inr out)" by (simp add: check_append_grown)
  moreover from None have "s_trip (grown s d) = None" by simp
  ultimately show ?thesis by (cases rule: check_judge_cases) (use None in simp_all)
next
  case (Some t)
  with assms show ?thesis by (simp add: check_append_grown)
qed

lemma check_append_settled:
  assumes "check_append j [] s = Some (s', Inr out)" "s_trip s' = None"
    and "x_released (s_content s) = length (x_text (s_content s))"
  shows "out = [] \<and> x_released (s_content s') = x_released (s_content s)"
proof -
  have none: "s_trip s = None" using check_append_fields [OF assms(1)] assms(2) by simp
  with assms(1) have "check_judge j (grown s []) = Some (s', Inr out)" by (simp add: check_append_grown)
  moreover from none have "s_trip (grown s []) = None" by simp
  ultimately show ?thesis
    by (cases rule: check_judge_cases) (use none assms(2,3) in \<open>auto simp: substr_def\<close>)
qed

lemma check_finish_fields:
  assumes "check_finish j s = Some (s', Inr tail)" "s_trip s' = None"
  shows "s_trip s = None \<and> s_finished s' = s_finished s \<and> x_text (s_content s') = x_text (s_content s) \<and>
    x_finished (s_content s') \<and>
    (x_finished (s_content s) \<longrightarrow> s' = s \<and> tail = []) \<and>
    (\<not> x_finished (s_content s) \<longrightarrow> x_released (s_content s') = length (x_text (s_content s)))"
proof -
  have none: "s_trip s = None" using assms by (auto simp: check_finish_def split: if_splits)
  show ?thesis
  proof (cases "x_finished (s_content s)")
    case True
    with assms none show ?thesis by (simp add: check_finish_def Let_def)
  next
    case False
    from assms(1) none False show ?thesis
    proof (cases rule: check_finish_cases)
      case (released v)
      with none False show ?thesis by simp
    qed (use none assms(2) in simp_all)
  qed
qed

text \<open>The text a stream has sent, given the text it received: while it runs, a part of it that lags
  behind; once finished, all of it and the label it is owed.\<close>

definition text_kept :: "env \<Rightarrow> stream_state \<Rightarrow> ustr \<Rightarrow> ustr \<Rightarrow> bool" where
  "text_kept E s rcvd out \<longleftrightarrow>
     (s_trip s = None \<longrightarrow>
       (if s_finished s
        then x_finished (s_content s) \<and> x_text (s_content s) = rcvd \<and>
          x_released (s_content s) = length rcvd \<and> out = rcvd @ tail_for (e_ucd E) rcvd
        else \<not> x_finished (s_content s) \<and> relays s rcvd out))"

definition delta_text :: "jobject \<Rightarrow> ustr" where
  "delta_text delta = (case jget_str ''content'' delta of Some t \<Rightarrow> t | None \<Rightarrow> [])"

lemma judge_content_open:
  assumes "judge_content E delta s = Some (s1, Inr released)" "s_trip s1 = None"
    and "s_trip s = None" "\<not> s_finished s" "text_kept E s rcvd out"
  shows "\<not> s_finished s1 \<and> \<not> x_finished (s_content s1) \<and>
    relays s1 (rcvd @ delta_text delta) (out @ released) \<and> x_text (s_content s1) = rcvd @ delta_text delta"
proof -
  from assms(3-5) have inv: "\<not> x_finished (s_content s)" "relays s rcvd out" "x_text (s_content s) = rcvd"
    by (auto simp: text_kept_def relays_def Let_def)
  show ?thesis
  proof (cases "jget_str ''content'' delta")
    case None
    with assms inv show ?thesis by (simp add: judge_content_def delta_text_def ret_def)
  next
    case (Some c)
    with assms(1) have call: "check_append (e_judge E) c s = Some (s1, Inr released)"
      by (simp add: judge_content_def)
    from check_append_fields [OF call] check_append_relays [OF inv(2) call] assms(2,4) inv Some
    show ?thesis by (simp add: delta_text_def)
  qed
qed

lemma judge_content_closed:
  assumes "judge_content E delta s = Some (s1, Inr released)" "s_trip s1 = None"
    and "s_trip s = None" "s_finished s" "text_kept E s rcvd out" "delta_text delta = []"
  shows "s_finished s1 \<and> released = [] \<and> text_kept E s1 rcvd out"
proof (cases "jget_str ''content'' delta")
  case None
  with assms show ?thesis by (simp add: judge_content_def ret_def)
next
  case (Some c)
  with assms(6) have "c = []" by (simp add: delta_text_def)
  with Some assms(1) have call: "check_append (e_judge E) [] s = Some (s1, Inr released)"
    by (simp add: judge_content_def)
  from assms(3-5) have inv: "x_finished (s_content s)" "x_text (s_content s) = rcvd"
    "x_released (s_content s) = length rcvd" "out = rcvd @ tail_for (e_ucd E) rcvd"
    by (auto simp: text_kept_def)
  from check_append_fields [OF call] check_append_settled [OF call assms(2)] assms(2,4) inv
  show ?thesis by (simp add: text_kept_def)
qed

lemma judge_delta_text:
  assumes "judge_delta E choice delta m = Some (m1, Inr released)" "\<not> tripped m1" "\<not> tripped m"
    and kept: "text_kept E (mx_state m) rcvd out"
    and order: "s_finished (mx_state m) \<Longrightarrow> delta_text delta = []"
  shows "text_kept E (mx_state m1) (rcvd @ delta_text delta)
      (out @ released @ (if is_finished choice \<and> \<not> s_finished (mx_state m)
        then tail_for (e_ucd E) (x_text (s_content (mx_state m1))) else [])) \<and>
    (s_finished (mx_state m1) \<longleftrightarrow> s_finished (mx_state m) \<or> is_finished choice)"
proof -
  from assms(1) obtain s1 rel where c: "judge_content E delta (mx_state m) = Some (s1, Inr rel)"
    and rest: "if is_finished choice
      then \<exists>s2 tail. check_finish (e_judge E) s1 = Some (s2, Inr tail) \<and>
        m1 = m\<lparr>mx_state := s2\<lparr>s_finished := True\<rparr>\<rparr> \<and> released = rel @ tail
      else m1 = m\<lparr>mx_state := s1\<rparr> \<and> released = rel"
    by (auto simp: judge_delta_eq split: option.splits sum.splits prod.splits if_splits)
  from assms(3) have none: "s_trip (mx_state m) = None" by (simp add: tripped_def)
  have none1: "s_trip s1 = None"
  proof (cases "is_finished choice")
    case True
    with rest obtain s2 tail where f: "check_finish (e_judge E) s1 = Some (s2, Inr tail)"
      and m1: "m1 = m\<lparr>mx_state := s2\<lparr>s_finished := True\<rparr>\<rparr>" by auto
    from m1 assms(2) have "s_trip s2 = None" by (simp add: tripped_def)
    with check_finish_fields [OF f] show ?thesis by simp
  next
    case False
    with rest assms(2) show ?thesis by (simp add: tripped_def)
  qed
  show ?thesis
  proof (cases "s_finished (mx_state m)")
    case True
    from judge_content_closed [OF c none1 none True kept order [OF True]]
    have s1: "s_finished s1" "rel = []" "text_kept E s1 rcvd out" by auto
    with none1 have x: "x_finished (s_content s1)" by (simp add: text_kept_def)
    have "released = [] \<and> mx_state m1 = s1"
    proof (cases "is_finished choice")
      case fin: True
      with rest obtain s2 tail where f: "check_finish (e_judge E) s1 = Some (s2, Inr tail)"
        and m1: "m1 = m\<lparr>mx_state := s2\<lparr>s_finished := True\<rparr>\<rparr>" "released = rel @ tail" by auto
      from f x none1 have "s2 = s1" "tail = []" by (simp_all add: check_finish_def Let_def)
      with m1 s1 show ?thesis by simp
    next
      case False
      with rest s1 show ?thesis by simp
    qed
    with True s1 order show ?thesis by simp
  next
    case False
    from judge_content_open [OF c none1 none False kept]
    have s1: "\<not> s_finished s1" "\<not> x_finished (s_content s1)" "relays s1 (rcvd @ delta_text delta) (out @ rel)"
      "x_text (s_content s1) = rcvd @ delta_text delta" by auto
    show ?thesis
    proof (cases "is_finished choice")
      case fin: True
      with rest obtain s2 tail where f: "check_finish (e_judge E) s1 = Some (s2, Inr tail)"
        and m1: "m1 = m\<lparr>mx_state := s2\<lparr>s_finished := True\<rparr>\<rparr>" "released = rel @ tail" by auto
      from m1 assms(2) have none2: "s_trip s2 = None" by (simp add: tripped_def)
      from check_finish_fields [OF f none2] check_finish_relays [OF s1(3,2) f none2] s1 m1 fin False
      show ?thesis by (simp add: text_kept_def)
    next
      case nfin: False
      with rest s1 False none1 show ?thesis by (simp add: text_kept_def)
    qed
  qed
qed

lemma settle_tail_text:
  assumes "settle_tail E env m = Some (m1, Inr outs)" "\<not> tripped m1"
    and "text_kept E (mx_state m) rcvd (sent_text sent)"
  shows "s_finished (mx_state m1) \<and> text_kept E (mx_state m1) rcvd (sent_text (sent @ outs)) \<and> \<not> tripped m"
  using assms(1)
proof (cases rule: settle_tail_cases)
  case already
  with assms(2,3) show ?thesis by simp
next
  case (settled s1 tail)
  from settled(3) assms(2) have none1: "s_trip s1 = None" by (simp add: tripped_def)
  note f = check_finish_fields [OF settled(2) none1]
  with assms(3) settled(1) have inv: "\<not> x_finished (s_content (mx_state m))"
    "relays (mx_state m) rcvd (sent_text sent)" "x_text (s_content (mx_state m)) = rcvd"
    by (auto simp: text_kept_def relays_def Let_def)
  have "sent_text sent @ tail = rcvd"
    using check_finish_relays [OF inv(2,1) settled(2) none1] .
  moreover have "sent_text outs = tail @ tail_for (e_ucd E) rcvd"
    using settled(3,4) f inv(3) assms(2) by (simp add: tail_payloads_def Let_def)
  ultimately show ?thesis
    using settled(3) f inv none1 by (simp add: text_kept_def tripped_def)
qed

text \<open>The text one call reads of its payload: none once the stream has ended or the engine has sent an error.\<close>

definition heard :: "env \<Rightarrow> mechanics \<Rightarrow> payload \<Rightarrow> ustr" where
  "heard E m p = (if mx_ended m \<or> mx_error_seen m then [] else text_in E p)"

text \<open>
  \<open>orderly E s0 m rcvd sent\<close>: a sequence of calls in which the payloads read carried the text \<open>rcvd\<close>, and none of
  them carried text after the payload that gave the stream its finish reason. What comes after an error or the end may carry
  text: it is not read.
\<close>

inductive orderly :: "env \<Rightarrow> stream_state \<Rightarrow> mechanics \<Rightarrow> ustr \<Rightarrow> payload list \<Rightarrow> bool" for E s0 where
  start: "fresh s0 \<Longrightarrow> orderly E s0 (new_mechanics s0) [] []"
| chunk: "orderly E s0 m rcvd sent \<Longrightarrow> process E p m = Some (m', Inr (outs, trip)) \<Longrightarrow>
    (s_finished (mx_state m) \<longrightarrow> heard E m p = []) \<Longrightarrow>
    orderly E s0 m' (rcvd @ heard E m p) (sent @ outs)"
| body_end: "orderly E s0 m rcvd sent \<Longrightarrow> finish E m = Some (m', Inr (outs, trip)) \<Longrightarrow>
    orderly E s0 m' rcvd (sent @ outs)"

definition keeps_text :: "env \<Rightarrow> mechanics \<Rightarrow> ustr \<Rightarrow> payload list \<Rightarrow> bool" where
  "keeps_text E m rcvd sent \<longleftrightarrow>
     text_kept E (mx_state m) rcvd (sent_text sent) \<and>
     ((mx_ended m \<or> mx_error_seen m) \<and> \<not> tripped m \<longrightarrow> s_finished (mx_state m))"

lemma keeps_text_tripped: "tripped m \<Longrightarrow> keeps_text E m rcvd sent"
  by (auto simp: keeps_text_def tripped_def text_kept_def)

lemma settled_text:
  assumes "settled E m = Some (m', Inr outs)" "\<not> tripped m'"
    and "text_kept E (mx_state m) rcvd (sent_text sent)"
  shows "s_finished (mx_state m') \<and> text_kept E (mx_state m') rcvd (sent_text (sent @ outs))"
proof -
  from assms(1) obtain m1 tail closing where s: "settle_tail E (mx_last_envelope m) m = Some (m1, Inr tail)"
    "same_stream m1 m'" "status_only m1 closing" "outs = closing @ tail"
    by (rule settled_cases)
  have "\<not> tripped m1" using s(2) assms(2) same_stream_tripped by blast
  from settle_tail_text [OF s(1) this assms(3)] s(2,4) sent_text_status [OF s(3)]
  show ?thesis by (simp add: same_stream_def)
qed

lemma process_chunk_text:
  assumes "process_chunk E event m = Some (m', Inr (outs, trip))" "\<not> tripped m'" "\<not> tripped m"
    and "\<not> mx_ended m" "\<not> mx_error_seen m"
    and "text_kept E (mx_state m) rcvd (sent_text sent)"
    and "s_finished (mx_state m) \<Longrightarrow> chunk_text (PObj event) = []"
  shows "keeps_text E m' (rcvd @ chunk_text (PObj event)) (sent @ outs)"
  using assms(1)
proof (cases rule: process_chunk_cases)
  case usage
  then have "chunk_text (PObj event) = []" by (simp add: chunk_text_def)
  moreover have "sent_text outs = []"
    using usage by (simp add: sent_text_def chunk_text_def jget_jdel_other STATUS_EVENT_KEY_def)
  ultimately show ?thesis using usage(2) assms(4-6) by (simp add: keeps_text_def)
next
  case (stopped choices choice delta released m1 m2 leading)
  with assms(2) show ?thesis by (simp add: tripped_def)
next
  case (relayed choices choice delta released m1 leading label)
  let ?m = "m\<lparr>mx_last_envelope := Some (envelope event)\<rparr>"
  from advance_progress_shape [OF relayed(4)] have same: "same_stream m1 m'" and st: "status_only m1 leading" by auto
  have ct: "chunk_text (PObj event) = delta_text delta"
    using read_choice_text [OF relayed(2,1)] by (simp add: delta_text_def)
  have none: "\<not> tripped m1" using same_stream_tripped [OF same] assms(2) by simp
  from judge_delta_only_state [OF relayed(3)] have flags: "mx_ended m1 = mx_ended m" "mx_error_seen m1 = mx_error_seen m"
    by (auto simp: only_state_def)
  have state: "mx_state m' = mx_state m1" using same by (simp add: same_stream_def)
  have "text_kept E (mx_state m1) (rcvd @ delta_text delta)
      (sent_text sent @ released @ (if is_finished choice \<and> \<not> s_finished (mx_state ?m)
        then tail_for (e_ucd E) (x_text (s_content (mx_state m1))) else [])) \<and>
    (s_finished (mx_state m1) \<longleftrightarrow> s_finished (mx_state ?m) \<or> is_finished choice)"
    by (rule judge_delta_text [OF relayed(3) none])
      (use assms(3,6,7) ct in \<open>simp_all add: tripped_def\<close>)
  then have "text_kept E (mx_state m1) (rcvd @ delta_text delta) (sent_text sent @ released @ label)"
    using relayed(6) state by (auto split: if_splits)
  then show ?thesis
    using relayed(7) same flags assms(4,5) state ct sent_text_status [OF st]
    by (simp add: keeps_text_def same_stream_def)
qed

lemma process_text:
  assumes "process E p m = Some (m', Inr (outs, trip))" "keeps_text E m rcvd sent"
    and order: "s_finished (mx_state m) \<Longrightarrow> heard E m p = []"
  shows "keeps_text E m' (rcvd @ heard E m p) (sent @ outs)"
proof (cases "tripped m'")
  case True
  then show ?thesis by (rule keeps_text_tripped)
next
  case live: False
  show ?thesis
  proof (cases "mx_ended m \<or> tripped m \<or> mx_error_seen m \<and> p \<noteq> PStr DONE_EVENT")
    case True
    with assms(1) have "m' = m" "outs = []" by (auto simp: process_eq split: if_splits)
    moreover from this live True have "heard E m p = []" by (auto simp: heard_def)
    ultimately show ?thesis using assms(2) by simp
  next
    case False
    then have heard: "heard E m p = text_in E p" by (auto simp: heard_def text_in_def)
    note order = order [unfolded heard]
    from False assms(1) have "catch (handled E p) (\<lambda>e. error_trip E (Some e)) m = Some (m', Inr (outs, trip))"
      unfolding process_eq by (auto split: if_splits)
    then have h: "handled E p m = Some (m', Inr (outs, trip))"
      using call_shape_error live unfolding catch_Some_iff by blast
    have kept: "text_kept E (mx_state m) rcvd (sent_text sent)" using assms(2) by (simp add: keeps_text_def)
    show ?thesis
    proof (cases "p = PStr DONE_EVENT")
      case True
      with h have "process_end_marker E m = Some (m', Inr (outs, trip))" by (simp add: handled_def)
      then obtain m1 ps where s: "settled E m = Some (m1, Inr ps)" "m' = m1\<lparr>mx_ended := True\<rparr>"
        "if tripped m1 then outs = ps else outs = ps @ [PStr DONE_EVENT]"
        by (auto simp: process_end_marker_def bindp_Some_iff fetch_def assign_def ret_def tripped_def split: if_splits)
      have "\<not> tripped m1" using s(2) live by (simp add: tripped_def)
      from settled_text [OF s(1) this kept] s(2,3) this True show ?thesis
        unfolding heard by (simp add: keeps_text_def text_in_def)
    next
      case nd: False
      with h obtain m0 event where pp: "parse_payload E p m = Some (m0, Inr event)"
        and c0: "(if has_key ''error'' event \<and> \<not> has_key ''choices'' event
          then process_error E event else process_chunk E event) m0 = Some (m', Inr (outs, trip))"
        by (auto simp: handled_def bindp_Some_iff)
      have ev: "event_of E p = Some event" and "m0 = m"
        using parse_payload_event [OF pp] parse_payload_same [OF pp] by auto
      with c0 have c: "if has_key ''error'' event \<and> \<not> has_key ''choices'' event
          then process_error E event m = Some (m', Inr (outs, trip))
          else process_chunk E event m = Some (m', Inr (outs, trip))"
        by (auto split: if_splits)
      from nd ev have ti: "text_in E p = chunk_text (PObj event)" by (simp add: text_in_def)
      show ?thesis
      proof (cases "has_key ''error'' event \<and> \<not> has_key ''choices'' event")
        case True
        with c have "process_error E event m = Some (m', Inr (outs, trip))" by simp
        then obtain m1 ps where s: "settled E m = Some (m1, Inr ps)"
          and rest: "if tripped m1 then m' = m1 else m' = m1\<lparr>mx_error_seen := True\<rparr> \<and> outs = ps @ [PObj (envelope event)]"
          by (auto simp: process_error_def bindp_Some_iff fetch_def assign_def ret_def split: if_splits)
        have "\<not> tripped m1" using rest live by (auto simp: tripped_def split: if_splits)
        moreover have "chunk_text (PObj event) = []" using True by (simp add: has_key_def chunk_text_def)
        ultimately show ?thesis
          unfolding heard using settled_text [OF s _ kept] rest ti by (simp add: keeps_text_def)
      next
        case False
        with c have "process_chunk E event m = Some (m', Inr (outs, trip))" by argo
        from process_chunk_text [OF this live] kept order ti
          \<open>\<not> (mx_ended m \<or> tripped m \<or> mx_error_seen m \<and> p \<noteq> PStr DONE_EVENT)\<close> nd
        show ?thesis unfolding heard by simp
      qed
    qed
  qed
qed

lemma finish_text:
  assumes "finish E m = Some (m', Inr (outs, trip))" "keeps_text E m rcvd sent"
  shows "keeps_text E m' rcvd (sent @ outs)"
proof (cases "tripped m'")
  case True
  then show ?thesis by (rule keeps_text_tripped)
next
  case live: False
  show ?thesis
  proof (cases "mx_ended m \<or> tripped m")
    case True
    with assms show ?thesis by (auto simp: finish_def ret_def split: if_splits)
  next
    case False
    let ?body = "bindp (settled E) (\<lambda>payloads.
         bindp (assign (\<lambda>m. m\<lparr>mx_ended := True\<rparr>)) (\<lambda>_.
         bindp (fetch tripped) (\<lambda>trip. ret (payloads, trip))))"
    from False assms(1) have "catch ?body (\<lambda>e. error_trip E (Some e)) m = Some (m', Inr (outs, trip))"
      by (simp add: finish_def)
    then have "?body m = Some (m', Inr (outs, trip))"
      using call_shape_error live unfolding catch_Some_iff by blast
    then obtain m1 where s: "settled E m = Some (m1, Inr outs)" "m' = m1\<lparr>mx_ended := True\<rparr>"
      by (auto simp: bindp_Some_iff fetch_def assign_def ret_def)
    have "\<not> tripped m1" using s(2) live by (simp add: tripped_def)
    from settled_text [OF s(1) this, of rcvd sent] s(2) assms(2) show ?thesis by (simp add: keeps_text_def)
  qed
qed

lemma orderly_keeps: "orderly E s0 m rcvd sent \<Longrightarrow> keeps_text E m rcvd sent"
proof (induction rule: orderly.induct)
  case start
  then show ?case
    by (simp add: keeps_text_def new_mechanics_def text_kept_def fresh_def relays_def new_text_def)
next
  case (chunk m rcvd sent p m' outs trip)
  then show ?case by (blast intro: process_text)
next
  case (body_end m rcvd sent m' outs trip)
  then show ?case by (blast intro: finish_text)
qed

section \<open>The progress line's protocol\<close>

datatype phase = Idle | Open | Shut

definition phase_of :: "mechanics \<Rightarrow> phase" where
  "phase_of m = (if mx_closed m then Shut else if mx_start m \<noteq> None then Open else Idle)"

lemma phase_of_updates [simp]:
  "phase_of (m\<lparr>mx_state := s\<rparr>) = phase_of m" "phase_of (m\<lparr>mx_last_envelope := e\<rparr>) = phase_of m"
  "phase_of (m\<lparr>mx_ended := b\<rparr>) = phase_of m" "phase_of (m\<lparr>mx_error_seen := b\<rparr>) = phase_of m"
  "phase_of (m\<lparr>mx_failure := x\<rparr>) = phase_of m"
  by (simp_all add: phase_of_def)

definition status_line :: "payload \<Rightarrow> ustr option" where
  "status_line p =
     (case p of
        PStr s \<Rightarrow> None
      | PObj d \<Rightarrow> Option.bind (jget STATUS_EVENT_KEY d) read_status_event)"

definition status_lines :: "payload list \<Rightarrow> ustr list" where
  "status_lines outs = List.map_filter status_line outs"

text \<open>What one call may do to the line, and the lines it sends doing it.\<close>

inductive line_step :: "phase \<Rightarrow> ustr list \<Rightarrow> phase \<Rightarrow> bool" where
  quiet: "line_step p [] p"
| silent: "line_step Idle [] Shut"
| opens: "line_step Idle [opening_description] Open"
| ticks: "line_step Open [running_description v] Open"
| closes: "line_step Open [closing_description v] Shut"

inductive_cases line_step_IdleE: "line_step Idle ls p"
inductive_cases line_step_OpenE: "line_step Open ls p"
inductive_cases line_step_ShutE: "line_step Shut ls p"

text \<open>The lines of a whole stream, by the phase it is in.\<close>

definition line_so_far :: "phase \<Rightarrow> ustr list \<Rightarrow> bool" where
  "line_so_far p ls \<longleftrightarrow>
     (case p of
        Idle \<Rightarrow> ls = []
      | Open \<Rightarrow> \<exists>vs. ls = opening_description # map running_description vs
      | Shut \<Rightarrow> ls = [] \<or>
          (\<exists>vs v. ls = opening_description # map running_description vs @ [closing_description v]))"

lemma line_so_far_step:
  assumes "line_so_far p ls" "line_step p new q"
  shows "line_so_far q (ls @ new)"
proof (cases p)
  case Idle
  with assms have "line_step Idle new q" "ls = []" by (auto simp: line_so_far_def)
  then show ?thesis by (elim line_step_IdleE) (auto simp: line_so_far_def)
next
  case Open
  with assms obtain vs where ls: "ls = opening_description # map running_description vs"
    and st: "line_step Open new q" by (auto simp: line_so_far_def)
  have "\<exists>ws. map running_description vs @ [running_description v] = map running_description ws" for v
    by (rule exI [of _ "vs @ [v]"]) simp
  with st ls show ?thesis by (elim line_step_OpenE) (auto simp: line_so_far_def)
next
  case Shut
  with assms have "line_step Shut new q" by simp
  with assms(1) Shut show ?thesis by (elim line_step_ShutE) (auto simp: line_so_far_def)
qed

lemma status_lines_append [simp]: "status_lines (xs @ ys) = status_lines xs @ status_lines ys"
  by (simp add: status_lines_def List.map_filter_def)

lemma status_lines_Nil [simp]: "status_lines [] = []"
  by (simp add: status_lines_def List.map_filter_def)

lemma status_lines_status [simp]: "status_lines [status_chunk d f m] = [d]"
  by (simp add: status_lines_def List.map_filter_def status_line_def status_chunk_def jget_jset
      status_event_roundtrip)

lemma status_lines_string [simp]: "status_lines [PStr s] = []"
  by (simp add: status_lines_def List.map_filter_def status_line_def)

definition no_event :: "jobject option \<Rightarrow> bool" where
  "no_event env \<longleftrightarrow> jget STATUS_EVENT_KEY (base env) = None"

lemma no_event_envelope [simp]: "no_event (Some (envelope event))" "no_event None"
  by (auto simp: no_event_def base_def jget_def envelope_def map_of_eq_None_iff STATUS_EVENT_KEY_def)

lemma status_lines_content [simp]: "no_event env \<Longrightarrow> status_lines [content_chunk env s] = []"
  by (simp add: status_lines_def List.map_filter_def status_line_def content_chunk_def jget_jset no_event_def
      STATUS_EVENT_KEY_def)

lemma status_lines_trip [simp]:
  assumes "no_event env"
  shows "status_lines (trip_payloads env m) = []"
  using assms by (simp add: trip_payloads_def status_lines_def List.map_filter_def status_line_def
      content_chunk_def finish_chunk_def jget_jset no_event_def STATUS_EVENT_KEY_def)

lemma status_lines_envelope [simp]:
  "status_lines [PObj (envelope event)] = []" "status_lines [PObj (jdel STATUS_EVENT_KEY event)] = []"
  using no_event_envelope(1) [of event]
  by (simp_all add: status_lines_def List.map_filter_def status_line_def no_event_def base_def)

lemma status_lines_relayed [simp]: "status_lines (relayed_chunk (envelope event) choice delta s) = []"
  using no_event_envelope(1) [of event]
  by (simp add: relayed_chunk_def Let_def status_lines_def List.map_filter_def status_line_def jget_jset
      no_event_def base_def STATUS_EVENT_KEY_def)

lemma status_lines_tail [simp]: "no_event env \<Longrightarrow> status_lines (tail_payloads E env tail m) = []"
  by (simp add: tail_payloads_def Let_def)

lemma close_progress_line:
  "close_progress E m = Some (m', Inr outs) \<Longrightarrow>
     line_step (phase_of m) (status_lines outs) (phase_of m') \<and> phase_of m' = Shut"
  by (auto simp: close_progress_eq phase_of_def simp del: int_nat_eq split: if_splits option.splits
      intro: line_step.intros)

lemma advance_progress_line:
  "advance_progress E choice delta m = Some (m', Inr outs) \<Longrightarrow>
     line_step (phase_of m) (status_lines outs) (phase_of m') \<and>
     (tripped m \<or> delta_text delta \<noteq> [] \<or> is_finished choice \<longrightarrow> phase_of m' = Shut)"
  by (auto simp: advance_progress_def bindp_Some_iff fetch_def ret_def open_progress_eq tick_progress_eq Let_def
      phase_of_def delta_text_def simp del: int_nat_eq split: if_splits option.splits
      dest!: close_progress_line intro: line_step.intros)

lemma only_state_phase: "only_state m m' \<Longrightarrow> phase_of m' = phase_of m"
  by (auto simp: only_state_def phase_of_def)

section \<open>Nothing of the engine's at the top\<close>

lemma top_chunks [simp]:
  "top_rebuilt (PStr s)" "top_rebuilt (status_chunk d f m)"
  "no_event env \<Longrightarrow> top_rebuilt (content_chunk env s)" "no_event env \<Longrightarrow> top_rebuilt (finish_chunk env)"
proof -
  have "keys_within (STATUS_ENVELOPE_KEYS @ [''choices'', STATUS_EVENT_KEY])
      (case mx_last_envelope m of None \<Rightarrow> [(ulit ''object'', CHUNK_OBJECT)] | Some e \<Rightarrow> jpick STATUS_ENVELOPE_KEYS e)"
    using keys_within_jpick [of STATUS_ENVELOPE_KEYS "STATUS_ENVELOPE_KEYS @ [''choices'', STATUS_EVENT_KEY]", OF subsetI]
    by (cases "mx_last_envelope m") (simp_all, simp add: keys_within_def STATUS_ENVELOPE_KEYS_def)
  then show "top_rebuilt (status_chunk d f m)"
    by (auto simp: top_rebuilt_def status_chunk_def jget_jset STATUS_EVENT_KEY_def intro!: keys_within_jset)
qed (simp_all add: top_rebuilt_def content_chunk_def finish_chunk_def jget_jset no_event_def has_key_def STATUS_EVENT_KEY_def)

lemma top_status: "status_only m outs \<Longrightarrow> list_all top_rebuilt outs"
  by (auto simp: status_only_def)

lemma top_trip [simp]: "no_event env \<Longrightarrow> list_all top_rebuilt (trip_payloads env m)"
  by (simp add: trip_payloads_def)

lemma top_tail [simp]: "no_event env \<Longrightarrow> list_all top_rebuilt (tail_payloads E env tail m)"
  by (simp add: tail_payloads_def Let_def)

lemma top_relayed [simp]: "list_all top_rebuilt (relayed_chunk (envelope event) choice delta s)"
  using no_event_envelope(1) [of event]
  by (simp add: relayed_chunk_def Let_def top_rebuilt_def jget_jset no_event_def base_def has_key_def STATUS_EVENT_KEY_def)

lemma jget_envelope_event [simp]: "jget STATUS_EVENT_KEY (envelope event) = None"
  using no_event_envelope(1) [of event] by (simp add: no_event_def base_def)

lemma jget_jdel_same [simp]: "jget k (jdel k event) = None"
  by (auto simp: jget_def jdel_def map_of_eq_None_iff)

lemma jget_envelope_error: "jget ''error'' (envelope event) = jget ''error'' event"
  unfolding jget_def envelope_def
  by (induction event) (auto simp: STATUS_EVENT_KEY_def)

lemma top_engine:
  "jget ''choices'' event = Some c \<Longrightarrow> top_rebuilt (PObj (jdel STATUS_EVENT_KEY event))"
  "has_key ''error'' event \<Longrightarrow> top_rebuilt (PObj (envelope event))"
proof -
  assume "jget ''choices'' event = Some c"
  moreover have "''choices'' \<noteq> STATUS_EVENT_KEY" by (simp add: STATUS_EVENT_KEY_def)
  ultimately show "top_rebuilt (PObj (jdel STATUS_EVENT_KEY event))"
    by (simp add: top_rebuilt_def has_key_def jget_jdel_other)
qed (simp add: top_rebuilt_def has_key_def jget_envelope_error)

definition line_ok :: "mechanics \<Rightarrow> mechanics \<Rightarrow> payload list \<Rightarrow> bool" where
  "line_ok m m' outs \<longleftrightarrow>
     (no_event (mx_last_envelope m) \<longrightarrow>
       no_event (mx_last_envelope m') \<and>
       line_step (phase_of m) (status_lines outs) (phase_of m') \<and>
       (mx_ended m' \<or> tripped m' \<longrightarrow> phase_of m' = Shut) \<and>
       list_all top_rebuilt outs)"

lemma process_chunk_line:
  assumes "process_chunk E event m = Some (m', Inr (outs, trip))" "\<not> mx_ended m" "\<not> tripped m"
  shows "line_ok m m' outs"
  using assms(1)
proof (cases rule: process_chunk_cases)
  case usage
  with assms(2,3) show ?thesis
    by (auto simp: line_ok_def tripped_def top_engine(1) intro: line_step.intros)
next
  case (stopped choices choice delta released m1 m2 leading)
  note j = judge_delta_only_state [OF stopped(3)]
  from advance_progress_shape [OF stopped(4)] have same: "same_stream m1 m2" by auto
  from same stopped(5) have "tripped m1" using same_stream_tripped by blast
  with advance_progress_line [OF stopped(4)] only_state_phase [OF j] stopped(6,7)
  have "line_step (phase_of m) (status_lines outs) (phase_of m') \<and> phase_of m' = Shut"
    by auto
  moreover have "no_event (mx_last_envelope m')"
    using same only_state_envelope [OF j] stopped(6) by (simp add: same_stream_def)
  moreover have "list_all top_rebuilt leading" using advance_progress_shape [OF stopped(4)] top_status by auto
  ultimately show ?thesis using stopped(7) by (auto simp: line_ok_def)
next
  case (relayed choices choice delta released m1 leading label)
  note j = judge_delta_only_state [OF relayed(3)]
  from advance_progress_shape [OF relayed(4)] have same: "same_stream m1 m'" by auto
  from j have "mx_ended m1 = mx_ended m" by (auto simp: only_state_def)
  with advance_progress_line [OF relayed(4)] only_state_phase [OF j] relayed(5,7) same assms(2)
    only_state_envelope [OF j] advance_progress_shape [OF relayed(4)] top_status
  show ?thesis by (auto simp: line_ok_def same_stream_def)
qed

lemma settled_line:
  assumes "settled E m = Some (m', Inr outs)" "no_event (mx_last_envelope m)"
  shows "line_step (phase_of m) (status_lines outs) (phase_of m') \<and> phase_of m' = Shut \<and>
    mx_last_envelope m' = mx_last_envelope m \<and> list_all top_rebuilt outs"
proof -
  from assms(1) obtain m1 tail closing where s: "settle_tail E (mx_last_envelope m) m = Some (m1, Inr tail)"
    "close_progress E m1 = Some (m', Inr closing)" "outs = closing @ tail"
    by (auto simp: settled_def bindp_Some_iff fetch_def ret_def)
  have m1: "only_state m m1" "status_lines tail = []" "list_all top_rebuilt tail"
    using s(1) assms(2) by (cases rule: settle_tail_cases; simp)+
  from close_progress_line [OF s(2)] close_progress_shape [OF s(2)] only_state_phase [OF m1(1)]
    only_state_envelope [OF m1(1)] m1(2,3) s(3) top_status
  show ?thesis by (auto simp: same_stream_def)
qed

lemma error_trip_line:
  assumes "error_trip E failure m = Some (m', Inr (outs, trip))"
  shows "line_ok m m' outs"
proof -
  obtain m1 closing where c: "close_progress E (noted failure m) = Some (m1, Inr closing)"
    "same_stream (noted failure m) m1" "list_all top_rebuilt closing"
    using close_progress_returns top_status by blast
  have "phase_of (closed_by_error m1) = phase_of m1" "phase_of (noted failure m) = phase_of m"
    by (simp_all add: closed_by_error_def noted_def)
  with close_progress_line [OF c(1)] error_trip_eq [OF c(1)] assms c(2,3)
  show ?thesis by (auto simp: line_ok_def same_stream_def)
qed

lemma line_ok_idle: "\<not> mx_ended m \<and> \<not> tripped m \<or> phase_of m = Shut \<Longrightarrow> line_ok m m []"
  by (auto simp: line_ok_def intro: line_step.intros)

lemma handled_line:
  assumes "handled E p m = Some (m', Inr (outs, trip))" "\<not> mx_ended m" "\<not> tripped m"
  shows "line_ok m m' outs"
proof (cases "p = PStr DONE_EVENT")
  case True
  with assms(1) have "process_end_marker E m = Some (m', Inr (outs, trip))" by (simp add: handled_def)
  then obtain m1 ps where s: "settled E m = Some (m1, Inr ps)" "m' = m1\<lparr>mx_ended := True\<rparr>"
    "outs = ps \<or> outs = ps @ [PStr DONE_EVENT]"
    by (auto simp: process_end_marker_def bindp_Some_iff fetch_def assign_def ret_def split: if_splits)
  then show ?thesis using settled_line [OF s(1)] by (auto simp: line_ok_def)
next
  case False
  with assms(1) obtain m0 event where pp: "parse_payload E p m = Some (m0, Inr event)"
    and c: "(if has_key ''error'' event \<and> \<not> has_key ''choices'' event
      then process_error E event else process_chunk E event) m0 = Some (m', Inr (outs, trip))"
    by (auto simp: handled_def bindp_Some_iff)
  from parse_payload_same [OF pp] have m0: "m0 = m" .
  show ?thesis
  proof (cases "has_key ''error'' event \<and> \<not> has_key ''choices'' event")
    case True
    with c m0 have "process_error E event m = Some (m', Inr (outs, trip))" by simp
    then obtain m1 ps where s: "settled E m = Some (m1, Inr ps)"
      "m' = m1 \<and> outs = ps \<or> m' = m1\<lparr>mx_error_seen := True\<rparr> \<and> outs = ps @ [PObj (envelope event)]"
      by (auto simp: process_error_def bindp_Some_iff fetch_def assign_def ret_def split: if_splits)
    then show ?thesis using settled_line [OF s(1)] top_engine(2) True by (auto simp: line_ok_def)
  next
    case False
    with c m0 have "process_chunk E event m = Some (m', Inr (outs, trip))" by (simp split: if_splits)
    then show ?thesis using assms(2,3) by (rule process_chunk_line)
  qed
qed

definition same_line :: "mechanics \<Rightarrow> mechanics \<Rightarrow> bool" where
  "same_line m m' \<longleftrightarrow> phase_of m' = phase_of m \<and> (no_event (mx_last_envelope m) \<longrightarrow> no_event (mx_last_envelope m'))"

lemma same_line_only_state: "only_state m m' \<Longrightarrow> same_line m m'"
  by (simp add: same_line_def only_state_phase only_state_envelope)

lemma same_line_state [simp]: "same_line m (m\<lparr>mx_state := s\<rparr>)"
  by (rule same_line_only_state) (simp add: only_state_update)

lemma same_line_refl [simp]: "same_line m m"
  by (simp add: same_line_def)

lemma process_chunk_raise: "process_chunk E event m = Some (m', Inl e) \<Longrightarrow> same_line m m'"
  by (auto simp: process_chunk_def Let_def bindp_Some_iff fetch_def assign_def lift_result_def ret_def raise_def
      same_line_def split: option.splits if_splits prod.splits
      dest!: judge_delta_only_state advance_progress_shape dest: only_state_phase only_state_envelope)

lemma settled_raise: "settled E m = Some (m', Inl e) \<Longrightarrow> same_line m m'"
  by (auto simp: settled_def bindp_Some_iff fetch_def ret_def settle_tail_eq Let_def
      split: option.splits sum.splits if_splits dest!: close_progress_shape intro: same_line_only_state)

lemma handled_raise: "handled E p m = Some (m', Inl e) \<Longrightarrow> same_line m m'"
  by (auto simp: handled_def bindp_Some_iff process_end_marker_def process_error_def assign_def fetch_def ret_def
      dest!: settled_raise dest: process_chunk_raise parse_payload_same split: if_splits)

lemma process_line:
  assumes "process E p m = Some (m', Inr (outs, trip))"
    and "mx_ended m \<or> tripped m \<Longrightarrow> phase_of m = Shut"
  shows "line_ok m m' outs"
proof (cases "mx_ended m \<or> tripped m \<or> mx_error_seen m \<and> p \<noteq> PStr DONE_EVENT")
  case True
  with assms(1) have "m' = m" "outs = []" by (auto simp: process_eq split: if_splits)
  with assms(2) show ?thesis by (auto intro!: line_ok_idle)
next
  case False
  with assms(1) have "catch (handled E p) (\<lambda>e. error_trip E (Some e)) m = Some (m', Inr (outs, trip))"
    unfolding process_eq by (auto split: if_splits)
  then consider (ok) "handled E p m = Some (m', Inr (outs, trip))"
    | (raised) m1 e where "handled E p m = Some (m1, Inl e)" "error_trip E (Some e) m1 = Some (m', Inr (outs, trip))"
    unfolding catch_Some_iff by auto
  then show ?thesis
  proof cases
    case ok
    with False handled_line show ?thesis by blast
  next
    case raised
    from handled_raise [OF raised(1)] error_trip_line [OF raised(2)] show ?thesis
      by (auto simp: line_ok_def same_line_def)
  qed
qed

lemma finish_line:
  assumes "finish E m = Some (m', Inr (outs, trip))"
    and "mx_ended m \<or> tripped m \<Longrightarrow> phase_of m = Shut"
  shows "line_ok m m' outs"
proof (cases "mx_ended m \<or> tripped m")
  case True
  with assms show ?thesis by (auto simp: finish_def ret_def intro!: line_ok_idle split: if_splits)
next
  case False
  let ?body = "bindp (settled E) (\<lambda>payloads.
         bindp (assign (\<lambda>m. m\<lparr>mx_ended := True\<rparr>)) (\<lambda>_.
         bindp (fetch tripped) (\<lambda>trip. ret (payloads, trip))))"
  from False assms(1) have "catch ?body (\<lambda>e. error_trip E (Some e)) m = Some (m', Inr (outs, trip))"
    by (simp add: finish_def)
  then consider (ok) m1 where "settled E m = Some (m1, Inr outs)" "m' = m1\<lparr>mx_ended := True\<rparr>"
    | (raised) m1 e where "settled E m = Some (m1, Inl e)" "error_trip E (Some e) m1 = Some (m', Inr (outs, trip))"
    unfolding catch_Some_iff by (auto simp: bindp_Some_iff fetch_def assign_def ret_def)
  then show ?thesis
  proof cases
    case ok
    then show ?thesis using settled_line [OF ok(1)] by (auto simp: line_ok_def)
  next
    case raised
    from settled_raise [OF raised(1)] error_trip_line [OF raised(2)] show ?thesis
      by (auto simp: line_ok_def same_line_def)
  qed
qed

definition line_inv :: "mechanics \<Rightarrow> payload list \<Rightarrow> bool" where
  "line_inv m sent \<longleftrightarrow>
     no_event (mx_last_envelope m) \<and> line_so_far (phase_of m) (status_lines sent) \<and>
     (mx_ended m \<or> tripped m \<longrightarrow> phase_of m = Shut) \<and> list_all top_rebuilt sent"

lemma line_inv_step: "line_ok m m' outs \<Longrightarrow> line_inv m sent \<Longrightarrow> line_inv m' (sent @ outs)"
  by (auto simp: line_inv_def line_ok_def intro: line_so_far_step)

definition sent_once :: "payload list \<Rightarrow> mechanics \<Rightarrow> bool" where
  "sent_once sent m \<longleftrightarrow>
     list_all choices_rebuilt sent \<and>
     (if tripped m then refused sent m
      else plain sent \<or> (\<exists>xs. sent = xs @ [PStr DONE_EVENT] \<and> plain xs \<and> mx_ended m))"

lemma sends_once:
  assumes "sends m m' outs" "sent_once sent m"
  shows "sent_once (sent @ outs) m'"
proof (cases "m' = m \<and> outs = []")
  case True
  with assms(2) show ?thesis by simp
next
  case False
  with assms(1) have c: "\<not> mx_ended m" "\<not> tripped m" "call_shape outs (tripped m') m'"
    by (auto simp: sends_def)
  with assms(2) have p: "plain sent" "list_all choices_rebuilt sent" by (auto simp: sent_once_def)
  show ?thesis
  proof (cases "tripped m'")
    case True
    with c(3) obtain leading env where o: "outs = leading @ trip_payloads env m'" "status_only m' leading"
      and r: "list_all choices_rebuilt outs"
      by (auto simp: call_shape_def trip_ending_def)
    have "refused (sent @ outs) m'"
      unfolding refused_def
      by (rule exI [of _ "sent @ leading"], rule exI [of _ env])
        (use o p(1) status_only_plain in \<open>auto simp: trip_payloads_def\<close>)
    with True r p show ?thesis by (simp add: sent_once_def)
  next
    case False
    with c(3) p show ?thesis by (auto simp: sent_once_def call_shape_def)
  qed
qed

text \<open>What a stream has sent: one ending, or two of them where \<open>fail_closed\<close> came after a trip that had not ended it.\<close>

definition sent_ok :: "bool \<Rightarrow> payload list \<Rightarrow> mechanics \<Rightarrow> bool" where
  "sent_ok again sent m \<longleftrightarrow>
     (if again then tripped m \<and> mx_ended m \<and>
        (\<exists>first env. sent_once first m \<and> sent = first @ trip_payloads env m)
      else sent_once sent m)"

lemma sent_again_idle: "sends m m' outs \<Longrightarrow> sent_ok True sent m \<Longrightarrow> sent_ok True (sent @ outs) m'"
  by (auto simp: sends_def sent_ok_def)

lemma sends_ok: "sends m m' outs \<Longrightarrow> sent_ok again sent m \<Longrightarrow> sent_ok again (sent @ outs) m'"
  using sent_again_idle [of m m' outs sent] sends_once [of m m' outs sent] by (cases again) (simp_all add: sent_ok_def)

text \<open>\<open>fail_closed\<close> on a tripped stream that has not ended sends the ending and nothing else.\<close>

lemma fail_closed_after_trip:
  assumes "tripped m" "\<not> mx_ended m" "mx_closed m"
  shows "fail_closed E m = Some (m\<lparr>mx_ended := True\<rparr>, Inr (trip_payloads (mx_last_envelope m) m, True))"
proof -
  have "close_progress E (noted None m) = Some (m, Inr [])" using assms(3) by (simp add: noted_def close_progress_eq)
  from error_trip_eq [OF this] assms show ?thesis
    by (simp add: fail_closed_def closed_by_error_def trip_payloads_def)
qed

lemma reached_ok: "reached E s0 again m sent \<Longrightarrow> line_inv m sent \<and> sent_ok again sent m"
proof (induction rule: reached.induct)
  case start
  then show ?case
    by (simp add: sent_ok_def sent_once_def new_mechanics_def tripped_def fresh_def line_inv_def phase_of_def line_so_far_def)
next
  case (chunk again m sent p m' outs trip)
  then show ?case
    by (intro conjI line_inv_step [OF process_line] sends_ok [OF process_sends]) (auto simp: line_inv_def)
next
  case (body_end again m sent m' outs trip)
  then show ?case
    by (intro conjI line_inv_step [OF finish_line] sends_ok [OF finish_sends]) (auto simp: line_inv_def)
next
  case (unreadable again m sent m' outs trip)
  from unreadable have "line_ok m m' outs"
    by (auto simp: fail_closed_def ret_def line_inv_def intro: error_trip_line intro!: line_ok_idle split: if_splits)
  then have line: "line_inv m' (sent @ outs)" using unreadable.IH line_inv_step by blast
  show ?case
  proof (cases "tripped m \<and> \<not> mx_ended m")
    case False
    then have "sends m m' outs" using unreadable.hyps by (intro fail_closed_sends) auto
    with False unreadable.IH line sends_ok show ?thesis by auto
  next
    case True
    with unreadable.IH have closed: "mx_closed m" by (simp add: line_inv_def phase_of_def split: if_splits)
    have "\<not> again" using True unreadable.IH by (auto simp: sent_ok_def)
    with unreadable.IH have once: "sent_once sent m" by (simp add: sent_ok_def)
    from fail_closed_after_trip [OF _ _ closed] True unreadable.hyps
    have m': "m' = m\<lparr>mx_ended := True\<rparr>" and outs: "outs = trip_payloads (mx_last_envelope m) m'"
      by (auto simp: trip_payloads_def)
    have "sent_once sent m'" using once True m' by (simp add: sent_once_def refused_def tripped_def)
    with True line m' outs show ?thesis by (auto simp: sent_ok_def tripped_def)
  qed
qed

lemma reached_tops: "reached E s0 again m sent \<Longrightarrow> list_all top_rebuilt sent"
  using reached_ok by (auto simp: line_inv_def)

text \<open>A trip while an error payload settles the tail leaves the stream open to that second ending.\<close>

lemma error_payload_trip:
  assumes "process_error E event m = Some (m', Inr (outs, trip))" "\<not> mx_ended m" "tripped m'"
  shows "\<not> mx_ended m' \<and> mx_closed m'"
proof -
  from assms(1,3) obtain ps where s: "settled E m = Some (m', Inr ps)"
    by (auto simp: process_error_def bindp_Some_iff fetch_def assign_def ret_def tripped_def split: if_splits)
  then obtain m1 tail closing where c: "settle_tail E (mx_last_envelope m) m = Some (m1, Inr tail)"
    "same_stream m1 m'" "mx_closed m'" by (rule settled_cases)
  have "mx_ended m1 = mx_ended m" using c(1) by (rule settle_tail_cases) auto
  with c(2,3) assms(2) show ?thesis by (simp add: same_stream_def)
qed

end
