(* ===== verification/Api_Stream.thy ===== *)
theory Api_Stream
  imports Complex_Main Api_Judged
begin

text \<open>
  What the fail-closed relay of \<open>gideon/api/judged.py\<close> guarantees of a whole response: the properties
  of \<open>StreamMechanics\<close> over every sequence of calls, of its single calls, and of \<open>judge_completion\<close>.
\<close>

section \<open>A concrete environment\<close>

definition sample_env :: env where
  "sample_env =
     \<lparr>e_ucd = ascii_ucd, e_fams = [], e_loads = (\<lambda>_. Inl ''ValueError''),
      e_loads_body = (\<lambda>b. if b = [] then Inl ''ValueError''
         else Inr (JObj [(ulit ''choices'', JArr [JObj [(ulit ''message'',
           JObj [(ulit ''content'', JStr (ulit ''See 12 F. 34.'')), (ulit ''reasoning'', JStr [120])])]])])),
      e_dumps = (\<lambda>_. []), e_clock = real\<rparr>"

definition sample_stream :: stream_state where
  "sample_stream = new_stream NO_SUPPLIED {} None USER_SOURCE None"

definition sample_event :: jobject where
  "sample_event =
     [(ulit ''choices'', JArr [JObj [(ulit ''delta'', JObj [(ulit ''content'', JStr (ulit ''See 12 F. 34.''))]),
        (ulit ''finish_reason'', JStr (ulit ''stop''))]])]"

lemma sample_judge: "texts = [text] \<Longrightarrow> e_judge sample_env texts ans given {} b since = Inr Clear"
  by (simp add: e_judge_def sample_env_def judge_rendered_def judge_text_def judgement_def map_result_def
      Let_def split: option.splits)

section \<open>Every call returns\<close>

lemma bindp_None_iff:
  "bindp p f s = None \<longleftrightarrow> p s = None \<or> (\<exists>s1 x. p s = Some (s1, Inr x) \<and> f x s1 = None)"
  by (auto simp: bindp_def split: option.splits sum.splits)

lemma catch_None_iff:
  "catch p h s = None \<longleftrightarrow> p s = None \<or> (\<exists>s1 e. p s = Some (s1, Inl e) \<and> h e s1 = None)"
  by (auto simp: catch_def split: option.splits sum.splits)

lemma simple_not_None [simp]:
  "fetch f s \<noteq> None" "assign g s \<noteq> None" "ret x s \<noteq> None" "raise e s \<noteq> None" "lift_result q s \<noteq> None"
  by (simp_all add: prog_defs)

lemma check_finish_not_None [simp]: "check_finish j s \<noteq> None"
  by (auto simp: check_finish_def Let_def split: sum.splits verdict.splits)

lemma progress_not_None [simp]:
  "close_progress E m \<noteq> None" "open_progress E m \<noteq> None" "tick_progress E m \<noteq> None"
  by (auto simp: progress_eqs Let_def split: option.splits)

lemma advance_not_None [simp]: "advance_progress E choice delta m \<noteq> None"
  by (auto simp: advance_progress_def bindp_None_iff simp del: not_None_eq split: if_splits)

lemma settled_not_None [simp]: "settled E m \<noteq> None"
  by (auto simp: settled_def bindp_None_iff settle_tail_eq Let_def split: if_splits option.splits sum.splits)

lemma endings_not_None [simp]:
  "process_error E event m \<noteq> None" "process_end_marker E m \<noteq> None" "parse_payload E p m \<noteq> None"
  "error_trip E failure m \<noteq> None"
  by (auto simp: process_error_def process_end_marker_def parse_payload_def error_trip_def bindp_None_iff
      catch_None_iff simp del: not_None_eq split: payload.splits option.splits if_splits)

lemma judge_delta_None:
  "judge_delta E choice delta m = None \<Longrightarrow> \<exists>d. check_append (e_judge E) d (mx_state m) = None"
  by (auto simp: judge_delta_eq judge_content_def split: option.splits sum.splits if_splits)

lemma process_chunk_None:
  "process_chunk E event m = None \<Longrightarrow> \<exists>d. check_append (e_judge E) d (mx_state m) = None"
  by (auto simp: process_chunk_def Let_def bindp_None_iff assign_def fetch_def lift_result_def simp del: not_None_eq dest!: judge_delta_None
      split: option.splits prod.splits if_splits)

lemma process_None:
  "process E p m = None \<Longrightarrow> \<exists>d. check_append (e_judge E) d (mx_state m) = None"
  by (auto simp: process_eq catch_None_iff handled_def bindp_None_iff simp del: not_None_eq
      dest!: process_chunk_None dest: parse_payload_same split: if_splits)

section \<open>A concrete run\<close>

definition sample_text :: ustr where
  "sample_text = ulit ''See 12 F. 34.''"

definition sample_done :: stream_state where
  "sample_done = sample_stream\<lparr>s_content := \<lparr>x_text = sample_text, x_released = 13, x_decided = 13,
     x_constraints = [], x_finished = True\<rparr>, s_finished := True\<rparr>"

lemma sample_text_length [simp]: "length sample_text = 13"
  by code_simp

lemma sample_event_eq:
  "sample_event = [(ulit ''choices'', JArr [JObj [(ulit ''delta'', JObj [(ulit ''content'', JStr sample_text)]),
     (ulit ''finish_reason'', JStr (ulit ''stop''))]])]"
  by (simp add: sample_event_def sample_text_def)

lemma sample_judged:
  "judge_delta sample_env [(ulit ''delta'', JObj [(ulit ''content'', JStr sample_text)]),
       (ulit ''finish_reason'', JStr (ulit ''stop''))] [(ulit ''content'', JStr sample_text)]
     (new_mechanics sample_stream\<lparr>mx_last_envelope := Some []\<rparr>) =
   Some (new_mechanics sample_done\<lparr>mx_last_envelope := Some []\<rparr>, Inr sample_text)"
  by (simp add: judge_delta_eq judge_content_def jget_str_def jget_Cons is_finished_def new_mechanics_def
      sample_stream_def sample_done_def stream_eval sample_judge)

lemma sample_tail: "tail_for ascii_ucd sample_text = STAMP_TAIL"
  by code_simp

lemma sample_chunk:
  obtains m outs where
    "process sample_env (PObj sample_event) (new_mechanics sample_stream) = Some (m, Inr (outs, False))"
    "mx_state m = sample_done" "\<not> mx_ended m" "\<not> mx_error_seen m" "mx_closed m" "outs \<noteq> []"
proof -
  let ?choice = "[(ulit ''delta'', JObj [(ulit ''content'', JStr sample_text)]),
       (ulit ''finish_reason'', JStr (ulit ''stop''))]"
  let ?delta = "[(ulit ''content'', JStr sample_text)]"
  let ?m = "new_mechanics sample_done\<lparr>mx_last_envelope := Some [], mx_closed := True\<rparr>"
  have choice: "read_choice [JObj ?choice] = Inr (?choice, ?delta)"
    by (simp add: read_choice_def jget_Cons delta_of_def TEXT_KEYS_def REASONING_KEYS_def has_key_def
        jget_str_def reasoning_keys_def)
  have env: "envelope sample_event = []"
    by (simp add: envelope_def sample_event_eq)
  have untripped: "\<not> tripped ?m" by (simp add: tripped_def new_mechanics_def sample_done_def sample_stream_def new_stream_def)
  have adv: "advance_progress sample_env ?choice ?delta (new_mechanics sample_done\<lparr>mx_last_envelope := Some []\<rparr>) =
      Some (?m, Inr [])"
    by (simp add: advance_progress_def prog_defs close_progress_eq is_finished_def jget_Cons new_mechanics_def)
  have "sample_event = [(ulit ''choices'', JArr [JObj ?choice])]" by (simp add: sample_event_eq)
  with env have env': "envelope [(ulit ''choices'', JArr [JObj ?choice])] = []" by simp
  have label: "tail_for (e_ucd sample_env) (x_text (s_content (mx_state ?m))) = STAMP_TAIL"
    "is_finished ?choice" "\<not> s_finished (mx_state (new_mechanics sample_stream))"
    by (simp_all add: sample_env_def sample_tail new_mechanics_def sample_done_def sample_stream_def new_stream_def
        is_finished_def jget_Cons)
  have chunk: "process_chunk sample_env sample_event (new_mechanics sample_stream) =
      Some (?m, Inr (relayed_chunk [] ?choice ?delta (sample_text @ STAMP_TAIL), False))"
    using untripped label
    by (simp add: process_chunk_def Let_def env' sample_event_eq jget_Cons prog_defs choice sample_judged adv)
  have sent: "relayed_chunk [] ?choice ?delta (sample_text @ STAMP_TAIL) \<noteq> []"
    using label(2) by (simp add: relayed_chunk_def)
  have "handled sample_env (PObj sample_event) (new_mechanics sample_stream) =
      Some (?m, Inr (relayed_chunk [] ?choice ?delta (sample_text @ STAMP_TAIL), False))"
    using chunk by (simp add: handled_def parse_payload_def has_key_def sample_event_eq jget_Cons)
  then have "process sample_env (PObj sample_event) (new_mechanics sample_stream) =
      Some (?m, Inr (relayed_chunk [] ?choice ?delta (sample_text @ STAMP_TAIL), False))"
    by (simp add: process_eq catch_def new_mechanics_def tripped_def sample_stream_def new_stream_def)
  with sent show thesis by (intro that) (auto simp: new_mechanics_def)
qed

lemma sample_text_in: "text_in sample_env (PObj sample_event) = sample_text"
  by (simp add: text_in_def event_of_def chunk_text_def sample_event_eq jget_Cons jget_str_def)

lemma text_in_done [simp]: "text_in E (PStr DONE_EVENT) = []"
  by (simp add: text_in_def)

lemma sample_fresh [simp]: "fresh sample_stream"
  by (simp add: sample_stream_def)

lemma sample_run:
  obtains m sent where "orderly sample_env sample_stream m sample_text sent"
    "reached sample_env sample_stream False m (sent :: payload list)" "s_finished (mx_state m)" "\<not> tripped m"
    "last sent = PStr DONE_EVENT" "sent \<noteq> []"
proof -
  obtain m outs where c: "process sample_env (PObj sample_event) (new_mechanics sample_stream) = Some (m, Inr (outs, False))"
    "mx_state m = sample_done" "\<not> mx_ended m" "\<not> mx_error_seen m" "mx_closed m"
    using sample_chunk by blast
  have ended: "s_finished (mx_state m)" "\<not> tripped m"
    by (simp_all add: c(2) tripped_def sample_done_def sample_stream_def new_stream_def)
  have e: "process sample_env (PStr DONE_EVENT) m = Some (m\<lparr>mx_ended := True\<rparr>, Inr ([PStr DONE_EVENT], False))"
    using c(3-5) ended
    by (simp add: process_def process_end_marker_def settled_def settle_tail_eq close_progress_eq prog_defs)
      (simp add: tripped_def)
  have start: "\<not> s_finished (mx_state (new_mechanics sample_stream))"
    by (simp add: new_mechanics_def sample_stream_def new_stream_def)
  have o: "orderly sample_env sample_stream (m\<lparr>mx_ended := True\<rparr>) (([] @ sample_text) @ [])
      (([] @ outs) @ [PStr DONE_EVENT])"
    using orderly.chunk [OF orderly.chunk [OF orderly.start [OF sample_fresh] c(1)] e] start c(3,4)
    by (simp add: sample_text_in text_in_done heard_def new_mechanics_def)
  have r: "reached sample_env sample_stream False (m\<lparr>mx_ended := True\<rparr>) (([] @ outs) @ [PStr DONE_EVENT])"
    by (rule reached.chunk [OF reached.chunk [OF reached.start [OF sample_fresh] c(1)] e])
  show thesis by (rule that [OF o [simplified] r [simplified]]) (use ended in \<open>simp_all add: tripped_def\<close>)
qed

lemma sample_failure:
  "handled sample_env (PStr [123]) (new_mechanics sample_stream) = Some (new_mechanics sample_stream, Inl ''ValueError'')"
  by (simp add: handled_def DONE_EVENT_def ulit_def parse_payload_def prog_defs sample_env_def)

lemma sample_failed:
  obtains m outs where "process sample_env (PStr [123]) (new_mechanics sample_stream) = Some (m, Inr (outs, True))"
    "tripped m" "reached sample_env sample_stream False m (outs :: payload list)"
proof -
  obtain m outs where e: "error_trip sample_env (Some ''ValueError'') (new_mechanics sample_stream) = Some (m, Inr (outs, True))"
    "tripped m" using error_trip_shape by blast
  with sample_failure have p: "process sample_env (PStr [123]) (new_mechanics sample_stream) = Some (m, Inr (outs, True))"
    by (simp add: process_eq catch_def new_mechanics_def tripped_def sample_stream_def new_stream_def)
  with reached.chunk [OF reached.start [OF sample_fresh] p] e(2) show thesis by (intro that) auto
qed

section \<open>Whole streams\<close>






text \<open>C6: no payload leaves a stream but those rebuilt: every choice sent has the relayed choice keys and a delta of
  the relayed delta keys, so reasoning and any unknown field stay behind; a top-level event is only ever the progress line's
  own, on a payload of its few envelope keys and no choice; a payload without choices is the engine's error, and the only
  bare string sent is the end marker. The other top-level keys of the engine are relayed.\<close>

theorem stream_payloads_rebuilt:
  assumes "reached E s0 again m sent" and "p \<in> set sent"
  shows "payload_rebuilt p"
proof -
  have "list_all choices_rebuilt sent" using reached_ok [OF assms(1)]
    by (auto simp: sent_ok_def sent_once_def trip_payloads_rebuilt split: if_splits)
  moreover have "list_all top_rebuilt sent" using reached_tops [OF assms(1)] .
  ultimately show ?thesis using assms(2) by (simp add: payload_rebuilt_def list_all_iff)
qed

theorem stream_payloads_rebuilt_witness:
  "\<exists>m sent. reached sample_env sample_stream False m sent \<and> sent \<noteq> [] \<and> payload_rebuilt (last sent)"
proof -
  obtain m sent where r: "reached sample_env sample_stream False m sent" "sent \<noteq> []" by (rule sample_run)
  with stream_payloads_rebuilt [OF r(1) last_in_set] show ?thesis by blast
qed



text \<open>The trip of an error payload has sent its ending and leaves the stream open to be ended again.\<close>

lemma error_payload_ends_twice:
  assumes "process_error E event m = Some (m', Inr (outs, trip))" "\<not> mx_ended m" "\<not> tripped m" "tripped m'"
  shows "last outs = PStr DONE_EVENT \<and>
    fail_closed E m' = Some (m'\<lparr>mx_ended := True\<rparr>, Inr (trip_payloads (mx_last_envelope m') m', True))"
proof
  from process_error_shape [OF assms(1,3)] assms(4) show "last outs = PStr DONE_EVENT"
    by (auto simp: call_shape_def trip_ending_def trip_payloads_def)
  from error_payload_trip [OF assms(1,2,4)] fail_closed_after_trip [OF assms(4)]
  show "fail_closed E m' = Some (m'\<lparr>mx_ended := True\<rparr>, Inr (trip_payloads (mx_last_envelope m') m', True))" by blast
qed



text \<open>C7: a stream that ends without a trip has relayed exactly the text of the payloads it read, once and in order,
  followed by the warning label if the text is owed one; before that it has relayed a prefix that lags. The payloads read
  are those up to the end or an error of the engine: later ones are dropped. It is assumed that the engine sends no text
  between its finish reason and that end.\<close>

theorem stream_text_conserved:
  assumes "orderly E s0 m rcvd sent" and "\<not> tripped m"
  shows "if s_finished (mx_state m) then sent_text sent = rcvd @ tail_for (e_ucd E) rcvd
    else \<exists>n. sent_text sent = take n rcvd \<and> (n = 0 \<or> n + LAG_CHARS \<le> length rcvd)"
  using orderly_keeps [OF assms(1)] assms(2)
  by (auto simp: keeps_text_def text_kept_def tripped_def relays_def Let_def)

theorem stream_text_conserved_witness:
  "\<exists>m sent. orderly sample_env sample_stream m sample_text sent \<and> s_finished (mx_state m) \<and>
     sent_text sent = sample_text @ STAMP_TAIL"
proof -
  obtain m sent where r: "orderly sample_env sample_stream m sample_text sent" "\<not> tripped m" "s_finished (mx_state m)"
    by (rule sample_run)
  with stream_text_conserved [OF r(1,2)] have "sent_text sent = sample_text @ STAMP_TAIL"
    by (simp add: sample_env_def sample_tail)
  with r show ?thesis by blast
qed

text \<open>C11: the progress line keeps its protocol over any sequence of calls: at most one opening line, then
  running lines, then one closing line and nothing after it; and a stream that ended or tripped has shut it.\<close>

theorem status_lines_protocol:
  assumes "reached E s0 again m sent"
  shows "line_so_far (phase_of m) (status_lines sent) \<and> (mx_ended m \<or> tripped m \<longrightarrow> phase_of m = Shut)"
  using reached_ok [OF assms] by (simp add: line_inv_def)

theorem status_lines_protocol_witness:
  "\<exists>m sent. reached sample_env sample_stream False m sent \<and> phase_of m = Shut \<and> line_so_far Shut (status_lines sent)"
proof -
  obtain m outs where r: "tripped m" "reached sample_env sample_stream False m outs" by (rule sample_failed)
  with status_lines_protocol [OF r(2)] have "phase_of m = Shut" "line_so_far Shut (status_lines outs)" by auto
  with r show ?thesis by blast
qed

section \<open>Single calls\<close>

text \<open>C10: whatever goes wrong while a payload is handled - it does not parse, has an unexpected shape, or
  the judge raises - the call does not raise: it trips and ends the stream with the refusal.\<close>

theorem process_fails_closed:
  assumes "\<not> mx_ended m" "\<not> tripped m" "\<not> mx_error_seen m" and "handled E p m = Some (m1, Inl e)"
  shows "\<exists>m' outs. process E p m = Some (m', Inr (outs, True)) \<and> tripped m' \<and> mx_ended m' \<and> trip_ending outs m'"
  using assms error_trip_shape [of E "Some e" m1] by (auto simp: process_eq catch_def)

theorem process_fails_closed_witness:
  "\<exists>m' outs. process sample_env (PStr [123]) (new_mechanics sample_stream) = Some (m', Inr (outs, True)) \<and>
     tripped m' \<and> mx_ended m' \<and> trip_ending outs m'"
  by (rule process_fails_closed [OF _ _ _ sample_failure])
    (simp_all add: new_mechanics_def tripped_def sample_stream_def new_stream_def)

text \<open>What the three entries return says whether the stream has tripped, they never raise, and the two
  that end a stream always return.\<close>

theorem entries_report_trip:
  "(\<forall>m' r. process E p m = Some (m', r) \<longrightarrow> (\<exists>outs. r = Inr (outs, tripped m'))) \<and>
   (\<exists>m' outs. finish E m = Some (m', Inr (outs, tripped m')) \<and> (mx_ended m' \<or> tripped m')) \<and>
   (\<exists>m' outs. fail_closed E m = Some (m', Inr (outs, tripped m')) \<and> mx_ended m')"
proof (intro conjI allI impI)
  fix m' r assume "process E p m = Some (m', r)"
  then show "\<exists>outs. r = Inr (outs, tripped m')"
    by (cases rule: process_shape) (auto simp: call_shape_def)
next
  have "finish E m \<noteq> None"
    by (auto simp: finish_def catch_None_iff bindp_None_iff simp del: not_None_eq)
  then obtain m' r where f: "finish E m = Some (m', r)" by auto
  from f f show "\<exists>m' outs. finish E m = Some (m', Inr (outs, tripped m')) \<and> (mx_ended m' \<or> tripped m')"
    by (cases rule: finish_shape) (auto simp: call_shape_def)
next
  show "\<exists>m' outs. fail_closed E m = Some (m', Inr (outs, tripped m')) \<and> mx_ended m'"
    using error_trip_shape [of E None m] by (auto simp: fail_closed_def ret_def)
qed

theorem entries_report_trip_witness:
  "\<exists>m' outs. process sample_env (PStr [123]) (new_mechanics sample_stream) = Some (m', Inr (outs, tripped m'))"
proof -
  obtain m outs where "process sample_env (PStr [123]) (new_mechanics sample_stream) = Some (m, Inr (outs, True))"
    by (rule sample_failed)
  moreover from this have "\<exists>outs'. Inr (outs, True) = (Inr (outs', tripped m) :: (exn + payload list \<times> bool))"
    using entries_report_trip by blast
  ultimately show ?thesis by auto
qed

text \<open>A payload call can fail to return only where the loop that settles the release point does, and
  then only on new text.\<close>

theorem process_returns_unless_settling:
  assumes "\<And>d. check_append (e_judge E) d (mx_state m) \<noteq> None"
  shows "\<exists>m' outs. process E p m = Some (m', Inr (outs, tripped m'))"
proof -
  from process_None [of E p m] assms obtain m' r where c: "process E p m = Some (m', r)"
    by (cases "process E p m") auto
  from c c show ?thesis by (cases rule: process_shape) (auto simp: call_shape_def)
qed

lemma sample_append: "check_append (e_judge sample_env) d (mx_state (new_mechanics sample_stream)) \<noteq> None"
  by (auto simp: new_mechanics_def sample_stream_def stream_eval sample_judge)

theorem process_returns_unless_settling_witness:
  "\<exists>m' outs. process sample_env (PObj sample_event) (new_mechanics sample_stream) = Some (m', Inr (outs, tripped m'))"
  by (rule process_returns_unless_settling) (rule sample_append)

section \<open>Whole completions\<close>

text \<open>What a message's text may become, and what one choice may become.\<close>

definition judged_as :: "env \<Rightarrow> stream_state \<Rightarrow> ustr \<Rightarrow> ustr \<Rightarrow> bool" where
  "judged_as E s content answer \<longleftrightarrow>
     (case e_judge E [content] content (s_supplied s) (s_confirmation s) False 0 of
        Inl e \<Rightarrow> False
      | Inr (Tripped t) \<Rightarrow> answer = refusal_for (Some (t_family t))
      | Inr _ \<Rightarrow> answer = content @ tail_for (e_ucd E) content)"

definition message_judged :: "env \<Rightarrow> stream_state \<Rightarrow> jobject \<Rightarrow> jobject \<Rightarrow> bool" where
  "message_judged E s message rebuilt \<longleftrightarrow>
     keys_within RELAYED_MESSAGE_KEYS rebuilt \<and>
     (jget ''content'' message = Some JNull \<and> jget ''content'' rebuilt = Some JNull \<or>
      (\<exists>content answer. jget ''content'' message = Some (JStr content) \<and>
         jget ''content'' rebuilt = Some (JStr answer) \<and> judged_as E s content answer))"

definition choice_judged :: "env \<Rightarrow> stream_state \<Rightarrow> json \<Rightarrow> json \<Rightarrow> bool" where
  "choice_judged E s choice_value rebuilt_value \<longleftrightarrow>
     (\<exists>choice message ch' m'. choice_value = JObj choice \<and> jget ''message'' choice = Some (JObj message) \<and>
        rebuilt_value = JObj ch' \<and> keys_within (RELAYED_CHOICE_KEYS @ [''message'']) ch' \<and>
        jget ''message'' ch' = Some (JObj m') \<and> message_judged E s message m')"

definition same_request :: "stream_state \<Rightarrow> stream_state \<Rightarrow> bool" where
  "same_request s s' \<longleftrightarrow> s_supplied s' = s_supplied s \<and> s_confirmation s' = s_confirmation s \<and>
     (trip_recorded s \<longrightarrow> trip_recorded s')"

lemma same_request_refl [simp]: "same_request s s"
  by (simp add: same_request_def)

lemma same_request_trans: "same_request s s1 \<Longrightarrow> same_request s1 s2 \<Longrightarrow> same_request s s2"
  by (auto simp: same_request_def)

lemma same_request_record [simp]: "same_request s (record_stream_trip s t)"
  by (simp add: same_request_def trip_recorded_record) (simp add: record_stream_trip_def)

lemma judged_as_cong: "same_request s s1 \<Longrightarrow> choice_judged E s1 c r = choice_judged E s c r"
  by (simp add: same_request_def choice_judged_def message_judged_def judged_as_def)

lemma judged_content_eq:
  "judged_content E content s =
     (case e_judge E [content] content (s_supplied s) (s_confirmation s) False 0 of
        Inl e \<Rightarrow> Some (s, Inl e)
      | Inr (Tripped t) \<Rightarrow> Some (record_stream_trip s t, Inr (refusal_for (Some (t_family t))))
      | Inr _ \<Rightarrow> Some (s, Inr (content @ tail_for (e_ucd E) content)))"
  by (simp add: judged_content_def prog_defs split: sum.splits verdict.splits)

lemma judged_content_judged:
  "judged_content E content s = Some (s', Inr answer) \<Longrightarrow> judged_as E s content answer"
  by (auto simp: judged_content_eq judged_as_def split: sum.splits verdict.splits)

lemma judged_content_request: "judged_content E content s = Some (s', r) \<Longrightarrow> same_request s s'"
  by (auto simp: judged_content_eq split: sum.splits verdict.splits)

lemma judged_content_not_None [simp]: "judged_content E content s \<noteq> None"
  by (simp add: judged_content_eq split: sum.splits verdict.splits)

lemma rebuild_choice_not_None [simp]: "rebuild_choice E c s \<noteq> None"
  by (auto simp: rebuild_choice_def Let_def bindp_None_iff simp del: not_None_eq split: option.splits json.splits)

lemma rebuild_choice_request: "rebuild_choice E c s = Some (s', r) \<Longrightarrow> same_request s s'"
  by (auto simp: rebuild_choice_def Let_def bindp_Some_iff raise_def ret_def dest: judged_content_request
      split: option.splits json.splits)

lemma rebuild_choice_judged:
  assumes "rebuild_choice E c s = Some (s', Inr r)"
  shows "choice_judged E s c r"
proof -
  from assms obtain choice message where c: "c = JObj choice" "jget ''message'' choice = Some (JObj message)"
    by (auto simp: rebuild_choice_def raise_def bind_eq_Some_conv split: option.splits)
  let ?m = "jpick RELAYED_MESSAGE_KEYS message"
  let ?done = "\<lambda>m. JObj (jset ''message'' (JObj m) (jpick RELAYED_CHOICE_KEYS choice))"
  from assms c obtain content answer where
    "jget ''content'' message = Some JNull \<and> r = ?done ?m \<or>
     jget ''content'' message = Some (JStr content) \<and> judged_as E s content answer \<and>
       r = ?done (jset ''content'' (JStr answer) ?m)"
    by (auto simp: rebuild_choice_def Let_def raise_def bindp_Some_iff ret_def dest: judged_content_judged
        split: option.splits json.splits)
  then have "\<exists>m'. r = ?done m' \<and> message_judged E s message m'"
  proof (elim disjE conjE)
    assume "jget ''content'' message = Some JNull" "r = ?done ?m"
    moreover have "keys_within RELAYED_MESSAGE_KEYS ?m" by (rule keys_within_jpick) simp
    ultimately show ?thesis
      by (intro exI [of _ ?m]) (simp add: message_judged_def jget_jpick RELAYED_MESSAGE_KEYS_def)
  next
    let ?a = "jset ''content'' (JStr answer) ?m"
    assume "jget ''content'' message = Some (JStr content)" "judged_as E s content answer" "r = ?done ?a"
    moreover have "keys_within RELAYED_MESSAGE_KEYS ?a"
      by (intro keys_within_jset keys_within_jpick) (simp_all add: RELAYED_MESSAGE_KEYS_def)
    ultimately show ?thesis by (intro exI [of _ ?a]) (simp add: message_judged_def jget_jset)
  qed
  then obtain m' where r: "r = ?done m'" and m: "message_judged E s message m'" by blast
  have "keys_within (RELAYED_CHOICE_KEYS @ [''message'']) (jset ''message'' (JObj m') (jpick RELAYED_CHOICE_KEYS choice))"
    by (intro keys_within_jset keys_within_jpick) auto
  with c r m show ?thesis by (auto simp: choice_judged_def jget_jset)
qed

lemma rebuild_choices_not_None [simp]: "rebuild_choices E cs s \<noteq> None"
  by (induction cs arbitrary: s) (auto simp: bindp_None_iff simp del: not_None_eq)

lemma rebuild_choices_request: "rebuild_choices E cs s = Some (s', r) \<Longrightarrow> same_request s s'"
  by (induction cs arbitrary: s s' r)
    (auto simp: bindp_Some_iff ret_def dest!: rebuild_choice_request intro: same_request_trans)

lemma rebuild_choices_judged:
  "rebuild_choices E cs s = Some (s', Inr rs) \<Longrightarrow> list_all2 (choice_judged E s) cs rs"
proof (induction cs arbitrary: s rs)
  case (Cons c cs)
  then obtain s1 x xs where x: "rebuild_choice E c s = Some (s1, Inr x)"
    and xs: "rebuild_choices E cs s1 = Some (s', Inr xs)" "rs = x # xs"
    by (auto simp: bindp_Some_iff ret_def)
  from judged_as_cong [OF rebuild_choice_request [OF x]] Cons.IH [OF xs(1)]
  have "list_all2 (choice_judged E s) cs xs" by (simp add: list_all2_mono [of _ cs xs])
  with rebuild_choice_judged [OF x] xs(2) show ?case by simp
qed (simp add: ret_def)

text \<open>C12: a whole completion is either answered, with every choice rebuilt from the relayed keys and its
  text labelled or replaced by its family's refusal as the judge found it, or not answered at all with the
  failure reported and a trip recorded. It never raises.\<close>

theorem completion_judged:
  "\<exists>s' out failure. judge_completion E body s = Some (s', Inr (out, failure)) \<and> same_request s s' \<and>
     (case failure of
        Some e \<Rightarrow> out = None \<and> s_trip s' \<noteq> None
      | None \<Rightarrow>
          \<exists>p choices rebuilt. e_loads_body E body = Inr (JObj p) \<and> jget ''choices'' p = Some (JArr choices) \<and>
            out = Some (e_dumps E (JObj (jset ''choices'' (JArr rebuilt) p))) \<and>
            list_all2 (choice_judged E s) choices rebuilt)"
proof -
  let ?body = "bindp (lift_result (e_loads_body E body)) (\<lambda>parsed.
          case as_obj parsed of
            None \<Rightarrow> raise ''TypeError''
          | Some p \<Rightarrow>
              (case Option.bind (jget ''choices'' p) as_arr of
                 None \<Rightarrow> raise ''TypeError''
               | Some choices \<Rightarrow>
                   bindp (rebuild_choices E choices) (\<lambda>rebuilt.
                     ret (Some (e_dumps E (JObj (jset ''choices'' (JArr rebuilt) p))), None :: exn option))))"
  have "?body s \<noteq> None"
    by (auto simp: bindp_None_iff simp del: not_None_eq split: option.splits)
  then obtain s1 r where b: "?body s = Some (s1, r)" by auto
  have req: "same_request s s1"
    using b
    by (cases "e_loads_body E body"; cases "Option.bind (as_obj (projr (e_loads_body E body))) (jget ''choices'')")
      (auto simp: bindp_def lift_result_def raise_def ret_def dest: rebuild_choices_request
        split: option.splits sum.splits)
  show ?thesis
  proof (cases r)
    case (Inl e)
    with b have "judge_completion E body s = Some (record_error_trip s1, Inr (None, Some e))"
      unfolding judge_completion_def catch_def by (simp add: bindp_def [of "assign _"] assign_def ret_def)
    moreover have "s_trip (record_error_trip s1) \<noteq> None"
      by (simp add: record_error_trip_def record_stream_trip_def)
    moreover have "same_request s (record_error_trip s1)"
      using same_request_trans [OF req] by (simp add: record_error_trip_def)
    ultimately show ?thesis by auto
  next
    case (Inr x)
    with b obtain p choices rebuilt where
      p: "e_loads_body E body = Inr (JObj p)" "jget ''choices'' p = Some (JArr choices)"
      "rebuild_choices E choices s = Some (s1, Inr rebuilt)"
      "x = (Some (e_dumps E (JObj (jset ''choices'' (JArr rebuilt) p))), None)"
      by (cases "e_loads_body E body"; cases "as_obj (projr (e_loads_body E body))";
          cases "Option.bind (jget ''choices'' (the (as_obj (projr (e_loads_body E body))))) as_arr")
        (auto simp: bindp_def lift_result_def raise_def ret_def bind_eq_Some_conv split: option.splits sum.splits)
    have "judge_completion E body s = Some (s1, Inr x)"
      using b Inr by (simp add: judge_completion_def catch_def)
    with p req rebuild_choices_judged [OF p(3)] show ?thesis by auto
  qed
qed

end
