(* ===== verification/Worker_Sections.thy ===== *)
theory Worker_Sections
  imports Py_Regex "HOL-Library.Product_Lexorder"
begin

text \<open>
  \<open>gideon/worker/sections.py\<close> and the records of \<open>opiniontext.py\<close> it reads: canonical opinion text is
  divided into typed sections. Markup spans and page furniture open some sections, a walk over the
  paragraphs opens the others at headings and bylines, and \<open>finalize\<close> cuts the text at the openings.
  The kinds of the source are strings, as they are there. A Python \<open>set\<close> of indices is iterated in an
  order the language does not fix, so the order is an argument (\<open>order\<close>).
\<close>

section \<open>Data\<close>

record marker =
  mk_kind :: string
  mk_label :: ustr
  mk_offset :: nat
  mk_attrs :: "(ustr \<times> ustr) list"

record block =
  bk_kind :: string
  bk_label :: ustr
  bk_start :: nat
  bk_end :: nat

record parsed =
  pd_text :: ustr
  pd_markers :: "marker list"
  pd_blocks :: "block list"

definition SECTION_TYPES :: "string list" where
  "SECTION_TYPES =
     [''syllabus'', ''headmatter'', ''majority'', ''plurality'', ''per_curiam'', ''concurrence'', ''dissent'',
      ''concurrence_dissent'', ''footnote'', ''appendix'', ''order'', ''unknown'']"

definition TYPED_BY :: "string list" where
  "TYPED_BY = [''row'', ''flag'', ''element'', ''line'', ''markup'', ''none'']"

definition ROW_TYPES :: "(ustr \<times> string) list" where
  "ROW_TYPES =
     [(ulit ''015unamimous'', ''majority''), (ulit ''020lead'', ''majority''), (ulit ''025plurality'', ''plurality''),
      (ulit ''030concurrence'', ''concurrence''), (ulit ''035concurrenceinpart'', ''concurrence_dissent''),
      (ulit ''040dissent'', ''dissent'')]"

definition ELEMENT_TYPES :: "(ustr \<times> string) list" where
  "ELEMENT_TYPES =
     [(ulit ''majority'', ''majority''), (ulit ''unanimous'', ''majority''), (ulit ''plurality'', ''plurality''),
      (ulit ''concurrence'', ''concurrence''),
      (ulit ''concurring-in-part-and-dissenting-in-part'', ''concurrence_dissent''),
      (ulit ''dissent'', ''dissent'')]"

definition LINE_MAX_CHARS :: nat where "LINE_MAX_CHARS = 300"

definition HEADING_CUES :: "(ustr \<times> string) list" where
  "HEADING_CUES =
     [(ulit ''opinion'', ''majority''), (ulit ''opinion of the court'', ''majority''),
      (ulit ''majority opinion'', ''majority''), (ulit ''dissent'', ''dissent''),
      (ulit ''dissenting opinion'', ''dissent''), (ulit ''concurrence'', ''concurrence''),
      (ulit ''concurring opinion'', ''concurrence''),
      (ulit ''concurring in part and dissenting in part'', ''concurrence_dissent''),
      (ulit ''dissenting in part and concurring in part'', ''concurrence_dissent''),
      (ulit ''per curiam'', ''per_curiam''), (ulit ''syllabus'', ''syllabus''), (ulit ''appendix'', ''appendix''),
      (ulit ''appendix to opinion of the court'', ''appendix''), (ulit ''order'', ''order''),
      (ulit ''notes'', ''notes'')]"

definition SEPARATE :: "string list" where
  "SEPARATE = [''concurrence'', ''dissent'', ''concurrence_dissent'']"

definition COURT :: "string list" where
  "COURT = [''majority'', ''plurality'', ''per_curiam'']"

section \<open>Patterns\<close>

text \<open>Short forms of the classes the patterns repeat: \<open>\s*\<close>, \<open>\s+\<close>, an alternation of literals.\<close>

definition rx_s0 :: regex where "rx_s0 = Many 0 (Cls False [CSpace])"
definition rx_s1 :: regex where "rx_s1 = Many 1 (Cls False [CSpace])"
definition words :: "string list \<Rightarrow> regex" where "words ws = alts (map lit ws)"
definition spaced :: "string list \<Rightarrow> regex" where  \<comment> \<open>words with \<open>\s+\<close> between them\<close>
  "spaced ws = (case ws of [] \<Rightarrow> Eps | w # r \<Rightarrow> seqs (lit w # concat (map (\<lambda>v. [rx_s1, lit v]) r)))"
definition period :: regex where "period = lit ''.''"
definition not_period :: regex where "not_period = Cls True [CChar 46]"
definition notes_mark :: regex where "notes_mark = chars [42, 8224, 8225]"

definition APPENDIX_HEADING :: regex where
  "APPENDIX_HEADING = seqs [lit ''appendix '', Alt (Cls False [CRange 97 122]) (Cls False [CRange 48 57]), TextEnd]"

definition QUALIFIED_OPINION :: regex where
  "QUALIFIED_OPINION = Seq (words [''amended'', ''supplemental'', ''corrected'']) (lit '' opinion'')"

definition HEADING_PUNCT :: regex where
  "HEADING_PUNCT = Alt (Cls True [CWord, CSpace]) (lit ''_'')"

definition SPACES :: regex where "SPACES = rx_s1"

definition PREAMBLE_MAX_CHARS :: nat where "PREAMBLE_MAX_CHARS = 60"

definition JOINDER_VERBS :: regex where
  "JOINDER_VERBS =
     seqs [WordB, words [''join'', ''joins'', ''joined'', ''concur'', ''concurs'', ''concurred''], WordB]"

definition NAME_WORD :: regex where
  "NAME_WORD = Seq (Cls False [CRange 65 90])
     (Many 0 (Cls False [CRange 65 90, CRange 97 122, CChar 39, CChar 8217, CChar 46, CChar 45]))"

definition NAME :: regex where
  "NAME = Seq NAME_WORD (Rep True 0 3 (Seq rx_s1 NAME_WORD))"

definition ROLE :: regex where
  "ROLE = alts [seqs [lit ''C.'', rx_s0, lit ''J.''], lit ''JJ.'', lit ''J.'', lit ''Chief Judge'',
     lit ''Circuit Judge'', lit ''District Judge'',
     seqs [lit ''Senior '', optional (Alt (lit ''Circuit '') (lit ''District '')), lit ''Judge''],
     lit ''Judge'', lit ''Chief Justice'', lit ''Justice'']"

definition BEFORE_LINE :: regex where
  "BEFORE_LINE = seqs [words [''Before'', ''BEFORE''], WordB, optional (lit '':''),
     Lazy 0 (Cls False [CSpace, CNotSpace]), WordB, CaseI ROLE]"

definition DISPOSITION_WORDS :: regex where
  "DISPOSITION_WORDS =
     Seq (words [''in'', ''part'', ''and'', ''the'', ''judgment'', ''result'', ''concurring'', ''dissenting'', ''from'',
       ''denial'', ''of'', ''certiorari'', ''per'', ''curiam'', ''specially'']) WordB"

definition BYLINE_END :: regex where
  "BYLINE_END = alts [Seq (Many 0 (Cls False [CSpace, CChar 46, CChar 44, CChar 58, CChar 59])) LineEnd,
     seqs [period, optional notes_mark, Look True (Cls False [CSpace])],
     Seq (Behind True 1 period) (Look True (Cls False [CSpace]))]"

text \<open>The two groups of a judge are numbered; a byline's second judge has the next two.\<close>

definition JUDGE :: "string \<Rightarrow> string \<Rightarrow> regex" where
  "JUDGE first second = Alt
     (seqs [Group first NAME,
        optional (seqs [lit '','', rx_s0, CaseI (words [''Jr'', ''Sr'', ''II'', ''III'', ''IV'']), optional period]),
        lit '','', rx_s0, CaseI ROLE])
     (seqs [CaseI (seqs [optional (Seq (lit ''Mr.'') rx_s1), optional (Seq (lit ''Chief'') rx_s1), lit ''Justice'']),
        rx_s1, Group second NAME])"

definition BYLINE_START :: regex where
  "BYLINE_START = Seq (JUDGE ''1'' ''2'')
     (optional (seqs [optional (lit '',''), rx_s1, CaseI (lit ''and''), rx_s1, JUDGE ''3'' ''4'']))"

definition BYLINE_JOINERS :: regex where
  "BYLINE_JOINERS = optional (seqs
     [optional (Seq (lit ''with'') rx_s1), lit ''whom'', WordB,
      Rep False 0 200 (Cls False [CSpace, CNotSpace]), JOINDER_VERBS,
      Rep False 0 80 (alts [lit ''Mr.'', ROLE, not_period]),
      Many 0 (Cls False [CSpace, CChar 44, CChar 58, CChar 59])])"

definition BYLINE_TAIL :: regex where
  "BYLINE_TAIL = Alt
     (seqs [alts [lit ''delivered'', lit ''announced'', spaced [''for'', ''the'', ''court'']], WordB,
        Lazy 0 (Alt ROLE not_period), BYLINE_END])
     (seqs [optional (lit ''(''),
        words [''concurring'', ''dissenting'', ''concurred'', ''concurs'', ''dissented'', ''dissents''], WordB,
        Many 0 (Seq (Many 1 (Cls False [CSpace, CChar 44])) DISPOSITION_WORDS), optional (lit '')''), BYLINE_END])"

definition BYLINE_PREAMBLE :: regex where
  "BYLINE_PREAMBLE = seqs
     [Look False (seqs [rx_s0,
        alts [Seq (optional (Seq (lit ''with'') rx_s1)) (lit ''whom''), lit ''concurring'', lit ''dissenting'',
          lit ''delivered'', lit ''announced'', spaced [''for'', ''the'', ''court''], spaced [''per'', ''curiam'']],
        WordB]),
      Look False (seqs [Many 0 (Cls True [CChar 46, CChar 44]), WordB, ROLE, Look False (Cls False [CWord])]),
      Rep True 1 PREAMBLE_MAX_CHARS (Cls True [CChar 46, CChar 44]), lit '','', rx_s0]"

definition BYLINE_SUFFIX :: regex where
  "BYLINE_SUFFIX = Seq (Many 0 (Cls False [CSpace, CChar 44, CChar 58, CChar 59]))
     (alts [Seq BYLINE_JOINERS (Group ''tail'' BYLINE_TAIL), Seq BYLINE_JOINERS BYLINE_END,
        seqs [BYLINE_PREAMBLE, BYLINE_JOINERS, Group ''tail_after_preamble'' BYLINE_TAIL]])"

definition AUTHOR :: regex where "AUTHOR = Seq BYLINE_START (CaseI BYLINE_SUFFIX)"

text \<open>The patterns compiled with \<open>re.IGNORECASE\<close> are used with the flag set.\<close>

definition PER_CURIAM :: regex where "PER_CURIAM = Seq (spaced [''per'', ''curiam'']) WordB"
definition CONCUR :: regex where
  "CONCUR = seqs [WordB, lit ''concurr'', optional (words [''ing'', ''ence'', ''ed'', ''s'']), WordB]"
definition DISSENT :: regex where
  "DISSENT = seqs [WordB, lit ''dissent'', optional (words [''ing'', ''ed'', ''s'']), WordB]"
definition DISSENT_IN_PART :: regex where
  "DISSENT_IN_PART = seqs [WordB, spaced [''dissenting'', ''in'', ''part''], WordB]"
definition PLURALITY :: regex where
  "PLURALITY = seqs [WordB, spaced [''announced'', ''the'', ''judgment'', ''of'', ''the'', ''court''], WordB]"
definition MAJORITY :: regex where
  "MAJORITY = seqs [WordB,
     alts [spaced [''delivered'', ''the'', ''opinion'', ''of'', ''the'', ''court''], spaced [''for'', ''the'', ''court''],
       spaced [''opinion'', ''of'', ''the'', ''court'']], WordB]"
definition JOINDER :: regex where "JOINDER = JOINDER_VERBS"
definition ROLE_COUNT :: regex where "ROLE_COUNT = CaseI ROLE"
definition PARTICIPANT :: regex where
  "PARTICIPANT = seqs [TextStart, BYLINE_START,
     CaseI (seqs [Lazy 0 (Alt ROLE not_period), WordB,
       alts [lit ''delivered'', lit ''filed'', lit ''joined'', spaced [''took'', ''no'', ''part''], CONCUR, DISSENT],
       WordB])]"
definition CLOSING :: regex where
  "CLOSING = seqs [Alt (spaced [''It'', ''is'', ''so'', ''ordered'']) (spaced [''So'', ''ordered'']), period, rx_s1]"
definition LINE_BREAK_HYPHEN :: regex where
  "LINE_BREAK_HYPHEN = seqs [Behind True 1 (Cls False [CRange 97 122]), lit ''-'', Many 0 (chars [32, 9]),
     rx_chars [10], rx_s0, Look True (Cls False [CRange 97 122])]"
definition PER_CURIAM_PREFIX :: regex where
  "PER_CURIAM_PREFIX = Seq (spaced [''per'', ''curiam'']) (Alt (chars [46, 58, 59]) LineEnd)"
definition BRACKETED :: regex where
  "BRACKETED = seqs [lit ''['', Many 1 (Cls True [CChar 91, CChar 93, CSpace]), lit '']'']"
definition LEADING_LABEL :: regex where
  "LEADING_LABEL = seqs [TextStart, rx_s0,
     Group ''1'' (alts [BRACKETED, Seq (Many 1 (Cls False [CDigit])) period, Many 1 (chars [42])]),
     Look True (Alt (Cls False [CSpace]) LineEnd)]"
definition LAWBOX_LABEL :: regex where
  "LAWBOX_LABEL = seqs [TextStart, rx_s0, Group ''1'' BRACKETED, Look True (Alt (Cls False [CSpace]) LineEnd)]"

definition nums :: "nat \<Rightarrow> nat \<Rightarrow> regex" where "nums a b = Rep True a b (Cls False [CRange 48 57])"
definition nums1 :: regex where "nums1 = Many 1 (Cls False [CRange 48 57])"
definition not_lower :: regex where "not_lower = Many 0 (Cls True [CRange 97 122])"

definition SLIP_HEAD :: regex where "SLIP_HEAD = Seq TextStart (words [''(Slip Opinion)'', ''Cite as:''])"
definition SLIP_EVEN_HEAD :: regex where
  "SLIP_EVEN_HEAD = seqs [nums 1 3, rx_s1, Cls False [CRange 65 90], not_lower, WordB, lit ''v.'',
     optional (Seq (Cls False [CSpace]) not_lower),
     Many 0 (seqs [WordB, words [''ex rel'', ''et al''], period, not_lower])]"
definition SLIP_OPINION_HEAD :: regex where
  "SLIP_OPINION_HEAD = seqs [CaseI (words [''Opinion'', ''Statement'']), rx_s1, CaseI (lit ''of''), rx_s1, NAME,
     lit '','', rx_s0, CaseI ROLE, optional (chars [46, 44, 58, 59])]"
definition SLIP_NOTICE :: regex where "SLIP_NOTICE = Seq TextStart (words [''NOTE:'', ''NOTICE:''])"
definition SLIP_COURT :: regex where "SLIP_COURT = lit ''SUPREME COURT OF THE UNITED STATES''"
definition CALENDAR_DATE :: regex where
  "CALENDAR_DATE = seqs [words [''January'', ''February'', ''March'', ''April'', ''May'', ''June'', ''July'',
     ''August'', ''September'', ''October'', ''November'', ''December''], rx_s1, nums 1 2, lit '','', rx_s1, nums 4 4]"
definition SLIP_DATE :: regex where
  "SLIP_DATE = Alt (seqs [lit ''['', CALENDAR_DATE, lit '']''])
     (seqs [WordB, lit ''Decided'', rx_s1, CALENDAR_DATE, rx_s0, optional notes_mark])"
definition SLIP_HELD :: regex where "SLIP_HELD = Seq TextStart (lit ''Held:'')"
definition SLIP_DIVIDER :: regex where
  "SLIP_DIVIDER = seqs [LineStart, Many 0 (chars [32, 9]), Many 2 (chars [8212]), Many 0 (chars [32, 9])]"
definition SLIP_FOOTNOTE :: regex where
  "SLIP_FOOTNOTE = seqs [TextStart, Group ''1'' (Alt (nums 1 3) notes_mark), rx_s1, Cls False [CNotSpace]]"
definition DOCKET :: regex where "DOCKET = seqs [nums 2 2, lit ''-'', nums 4 4]"
definition CIRCUIT_HEAD :: regex where
  "CIRCUIT_HEAD = seqs [lit ''No'', optional (lit ''s''), period, rx_s1, DOCKET,
     Many 0 (seqs [rx_s0, chars [47, 44], rx_s0, DOCKET]),
     optional (Seq rx_s1 (Many 0 (Cls True [CChar 10]))), rx_s1, lit ''Page'', rx_s1, nums1]"
definition CIRCUIT_FOOTNOTE :: regex where
  "CIRCUIT_FOOTNOTE = seqs [LineStart, Many 0 (chars [32, 9]), Group ''1'' (nums 1 3), Many 0 (chars [32, 9]), LineStop]"

section \<open>Paragraphs\<close>

record text_paragraph =
  par_start :: nat
  par_end :: nat
  par_line :: ustr

function paragraphs_from :: "ucd \<Rightarrow> ustr \<Rightarrow> nat \<Rightarrow> nat \<Rightarrow> text_paragraph list" where
  "paragraphs_from U t position stop =
     (if position < stop then
        (let paragraph_end = (case find_sub [10, 10] (substr t position stop) of
               None \<Rightarrow> stop | Some k \<Rightarrow> position + k);
             part = substr t position paragraph_end;
             line = strip_by (uc_space U) part;
             first = position + length (takeWhile (uc_space U) part);
             rest = paragraphs_from U t (paragraph_end + 2) stop
         in if line = [] then rest
            else \<lparr>par_start = first, par_end = paragraph_end, par_line = line\<rparr> # rest)
      else [])"
  by pat_completeness auto
termination
  by (relation "measure (\<lambda>(U, t, position, stop). stop - position)") (auto split: option.splits)

declare paragraphs_from.simps [simp del]

definition paragraphs :: "ucd \<Rightarrow> ustr \<Rightarrow> nat \<Rightarrow> nat \<Rightarrow> text_paragraph list" where
  "paragraphs U t start stop = paragraphs_from U t start stop"

section \<open>Reading a line\<close>

definition line_break :: "codepoint \<Rightarrow> bool" where
  "line_break c = (c \<in> {10, 11, 12, 13, 28, 29, 30, 133, 8232, 8233})"

fun splitlines :: "ustr \<Rightarrow> ustr list" where  \<comment> \<open>\<open>s.splitlines()\<close>\<close>
  "splitlines [] = []"
| "splitlines [c] = (if line_break c then [[]] else [[c]])"
| "splitlines (c # d # s) =
     (if c = 13 \<and> d = 10 then [] # splitlines s
      else if line_break c then [] # splitlines (d # s)
      else case splitlines (d # s) of [] \<Rightarrow> [[c]] | l # ls \<Rightarrow> (c # l) # ls)"

definition rstrip :: "ucd \<Rightarrow> ustr \<Rightarrow> ustr" where
  "rstrip U s = rev (dropWhile (uc_space U) (rev s))"

definition lstrip :: "ucd \<Rightarrow> ustr \<Rightarrow> ustr" where
  "lstrip U s = dropWhile (uc_space U) s"

definition strip :: "ucd \<Rightarrow> ustr \<Rightarrow> ustr" where
  "strip U s = strip_by (uc_space U) s"

definition or_group :: "ustr \<Rightarrow> match \<Rightarrow> string \<Rightarrow> string \<Rightarrow> ustr" where
  \<comment> \<open>\<open>m.group(a) or m.group(b)\<close>, an unset group read as empty\<close>
  "or_group s m a b = (if group_text s m a \<noteq> [] then group_text s m a else group_text s m b)"

definition heading :: "ucd \<Rightarrow> ustr \<Rightarrow> string option" where
  "heading U line =
     (let normalized = strip U (re_sub U False SPACES [32] (re_sub U False HEADING_PUNCT [32] (py_casefold U line)))
      in if re_fullmatch U False APPENDIX_HEADING normalized \<noteq> None then Some ''appendix''
         else if re_fullmatch U False QUALIFIED_OPINION normalized \<noteq> None then Some ''majority''
         else map_of HEADING_CUES normalized)"

definition unbroken :: "ucd \<Rightarrow> ustr \<Rightarrow> ustr" where
  "unbroken U line = re_sub U False LINE_BREAK_HYPHEN [] line"

definition is_before :: "ucd \<Rightarrow> ustr \<Rightarrow> bool" where
  "is_before U line = (re_match U False BEFORE_LINE (take LINE_MAX_CHARS (unbroken U line)) \<noteq> None)"

definition after_closing :: "ucd \<Rightarrow> ustr \<Rightarrow> nat" where
  "after_closing U line = (case re_match U True CLOSING line of Some m \<Rightarrow> m_end m | None \<Rightarrow> 0)"

definition eligible :: "ustr \<Rightarrow> bool" where
  "eligible line = (line \<noteq> [] \<and> length line \<le> LINE_MAX_CHARS)"

definition byline :: "ucd \<Rightarrow> ustr \<Rightarrow> ustr option" where
  "byline U line =
     (let bounded = take (LINE_MAX_CHARS + 1) (unbroken U line);
          position = after_closing U bounded;
          found = (case re_match_at U True PER_CURIAM_PREFIX bounded position of
                     Some m \<Rightarrow> Some m | None \<Rightarrow> re_match_at U False AUTHOR bounded position)
      in case found of
           Some m \<Rightarrow> if eligible (take (m_end m) bounded) then Some (take (m_end m) bounded) else None
         | None \<Rightarrow> None)"

definition judge_of :: "ucd \<Rightarrow> ustr \<Rightarrow> ustr option" where
  "judge_of U prefix =
     (case re_match_at U False AUTHOR prefix (after_closing U prefix) of
        None \<Rightarrow> None
      | Some m \<Rightarrow> Some (strip U (re_sub U False SPACES [32] (py_casefold U (or_group prefix m ''1'' ''2'')))))"

definition disposition_words :: "ucd \<Rightarrow> ustr \<Rightarrow> string option" where
  "disposition_words U line =
     (if re_search U True PER_CURIAM line \<noteq> None then Some ''per_curiam''
      else let concur = re_search U True CONCUR line \<noteq> None; dissent = re_search U True DISSENT line \<noteq> None
        in if concur \<and> dissent \<or> re_search U True DISSENT_IN_PART line \<noteq> None then Some ''concurrence_dissent''
           else if dissent then Some ''dissent''
           else if concur then Some ''concurrence''
           else if re_search U True MAJORITY line \<noteq> None then Some ''majority''
           else if re_search U True PLURALITY line \<noteq> None then Some ''plurality''
           else None)"

definition disposition :: "ucd \<Rightarrow> ustr \<Rightarrow> string option" where
  "disposition U line =
     (case re_match_at U False AUTHOR line (after_closing U line) of
        None \<Rightarrow> disposition_words U line
      | Some m \<Rightarrow>
          if or_group line m ''tail'' ''tail_after_preamble'' = [] then None
          else disposition_words U (or_group line m ''tail'' ''tail_after_preamble''))"

definition participation :: "ucd \<Rightarrow> ustr \<Rightarrow> bool" where
  "participation U line =
     (case byline U line of
        None \<Rightarrow> False
      | Some prefix \<Rightarrow>
          (re_search U True JOINDER prefix \<noteq> None \<and> 2 \<le> length (re_finditer U False ROLE_COUNT prefix) \<and>
            (case disposition U prefix of None \<Rightarrow> True | Some d \<Rightarrow> d \<in> set COURT)) \<or>
          re_match U False PARTICIPANT (lstrip U (drop (length prefix) (unbroken U line))) \<noteq> None)"

definition running_head :: "ucd \<Rightarrow> ustr \<Rightarrow> string option" where
  "running_head U line =
     (if \<not> eligible line then None
      else let h = heading U line
        in if h = Some ''syllabus'' then Some ''syllabus''
           else if h = Some ''majority'' \<or> h = Some ''per_curiam'' then Some ''opinion''
           else if re_fullmatch U False SLIP_OPINION_HEAD line \<noteq> None \<or> byline U line = Some (unbroken U line)
           then Some ''separate''
           else None)"

definition even_head :: "ucd \<Rightarrow> ustr \<Rightarrow> ustr option" where
  "even_head U line =
     (if re_fullmatch U False SLIP_EVEN_HEAD line \<noteq> None then Some []
      else map_option (\<lambda>space. drop (m_end space) line)
        (find (\<lambda>space. re_fullmatch U False SLIP_EVEN_HEAD (take (m_start space) line) \<noteq> None \<and>
            running_head U (drop (m_end space) line) \<noteq> None)
          (re_finditer U False SPACES line)))"

section \<open>Pages of a plain-text opinion\<close>

type_synonym typing = "string \<times> string"  \<comment> \<open>section type and what typed it\<close>

record page_state =
  pg_armed :: "string option"
  pg_page_head_start :: "nat option"
  pg_expect_running_head :: bool
  pg_running_head_kind :: "string option"
  pg_first_page :: bool
  pg_alone :: bool
  pg_alone_type :: "string option"
  pg_after_running_head :: bool
  pg_in_caption :: bool
  pg_caption_dated :: bool
  pg_in_footnotes :: bool
  pg_footnote_owed :: bool
  pg_resume :: bool
  pg_switch :: "string option"

definition new_page_state :: page_state where
  "new_page_state = \<lparr>pg_armed = None, pg_page_head_start = None, pg_expect_running_head = False,
     pg_running_head_kind = None, pg_first_page = False, pg_alone = False, pg_alone_type = None,
     pg_after_running_head = False, pg_in_caption = False, pg_caption_dated = False, pg_in_footnotes = False,
     pg_footnote_owed = False, pg_resume = False, pg_switch = None\<rparr>"

record text_span =
  tx_start :: nat
  tx_end :: nat
  tx_section_type :: string
  tx_typed_by :: string
  tx_label :: "ustr option"

definition text_span_of :: "nat \<Rightarrow> nat \<Rightarrow> typing \<Rightarrow> ustr option \<Rightarrow> text_span" where
  "text_span_of s e kind label =
     \<lparr>tx_start = s, tx_end = e, tx_section_type = fst kind, tx_typed_by = snd kind, tx_label = label\<rparr>"

type_synonym paged = "page_state \<times> bool \<times> text_span option"  \<comment> \<open>the new state, whether to skip, an opening\<close>

definition read_running_head :: "ucd \<Rightarrow> page_state \<Rightarrow> ustr \<Rightarrow> typing \<Rightarrow> page_state \<times> bool" where
  "read_running_head U st line running =
     (let kind = running_head U line;
          st1 = st\<lparr>pg_running_head_kind := kind\<rparr>;
          st2 =
            (if kind = Some ''separate'' then
               (let disp = (case byline U line of None \<Rightarrow> None | Some prefix \<Rightarrow> disposition U prefix)
                in if pg_first_page st1 then st1\<lparr>pg_alone := True, pg_alone_type := disp\<rparr>
                   else (case disp of
                           None \<Rightarrow> st1
                         | Some d \<Rightarrow>
                             if d \<in> set SEPARATE \<and> d \<noteq> fst running then st1\<lparr>pg_switch := Some d\<rparr> else st1))
             else st1)
      in (st2\<lparr>pg_first_page := False\<rparr>, kind \<noteq> None))"

definition page_body :: "ucd \<Rightarrow> page_state \<Rightarrow> text_paragraph \<Rightarrow> typing \<Rightarrow> paged" where
  "page_body U st par running =
     (let line = par_line par
      in if eligible line \<and> participation U line then
           (if pg_armed st \<noteq> None \<and> fst running = ''syllabus'' then (st, True, None)
            else (st\<lparr>pg_resume := True\<rparr>, True,
                  Some (text_span_of (par_start par) (par_end par) (''headmatter'', ''line'') None)))
         else if pg_resume st \<or> pg_switch st \<noteq> None then
           (let kind = (case pg_switch st of None \<Rightarrow> running | Some s \<Rightarrow> (s, ''line''))
            in (st\<lparr>pg_resume := False, pg_switch := None\<rparr>, False,
                Some (text_span_of (par_start par) (par_end par) kind None)))
         else (st, False, None))"

definition footnote_label :: "ucd \<Rightarrow> page_state \<Rightarrow> ustr \<Rightarrow> ustr option" where
  "footnote_label U st text =
     map_option (\<lambda>m. group_text text m ''1'')
       (re_match U False (if pg_armed st = Some ''slip'' then SLIP_FOOTNOTE else CIRCUIT_FOOTNOTE) text)"

definition page_footnotes :: "ucd \<Rightarrow> page_state \<Rightarrow> text_paragraph \<Rightarrow> typing \<Rightarrow> paged" where
  "page_footnotes U st par running =
     (let line = par_line par;
          found0 = (if pg_armed st = Some ''slip'' then re_search U False SLIP_DIVIDER line
                    else if pg_armed st \<noteq> None then re_search U False CIRCUIT_FOOTNOTE line else None);
          inside = (case found0 of Some m \<Rightarrow> 0 < m_start m | None \<Rightarrow> False);
          note = (\<lambda>label. Some (text_span_of (par_start par) (par_end par) (''footnote'', ''line'') label))
      in if inside \<and> \<not> pg_in_footnotes st then
           (let m = the found0; st1 = st\<lparr>pg_in_footnotes := True\<rparr>;
                rest = (if pg_armed st = Some ''circuit'' then drop (m_start m) line
                        else lstrip U (drop (m_end m) line))
            in if length rest \<le> m_start m then page_body U (st1\<lparr>pg_footnote_owed := True\<rparr>) par running
               else (st1, True, note (footnote_label U st1 rest)))
         else
           (let found = (if inside then None else found0)
            in if found \<noteq> None \<or> pg_in_footnotes st then
                 (let st1 = st\<lparr>pg_in_footnotes := True\<rparr>;
                      rest = (case found of
                                Some m \<Rightarrow> if pg_armed st = Some ''slip'' then lstrip U (drop (m_end m) line) else line
                              | None \<Rightarrow> line)
                  in if rest = [] then (st1\<lparr>pg_footnote_owed := True\<rparr>, True, None)
                     else
                       (let label = footnote_label U st1 rest
                        in if found \<noteq> None \<or> label \<noteq> None \<or> pg_footnote_owed st1
                           then (st1\<lparr>pg_footnote_owed := False\<rparr>, True, note label)
                           else (st1, True, None)))
               else page_body U st par running))"

text \<open>The head of a page; \<open>lines\<close> are the paragraph's lines, never none.\<close>

definition page_head ::
    "ucd \<Rightarrow> page_state \<Rightarrow> text_paragraph \<Rightarrow> typing \<Rightarrow> ustr list \<Rightarrow> bool \<Rightarrow> ustr option \<Rightarrow> paged" where
  "page_head U st par running lines slip_head even_line =
     (let st1 = st\<lparr>pg_first_page := (pg_armed st = None),
                  pg_armed := Some (if slip_head then ''slip'' else ''circuit'')\<rparr>;
          st2 =
            (if slip_head then
               (let later = map (strip U) (tl lines);
                    fallback = (case find (\<lambda>part. running_head U part \<noteq> None) later of
                                  Some part \<Rightarrow> part
                                | None \<Rightarrow> (case later of [] \<Rightarrow> [] | l # _ \<Rightarrow> l));
                    head_line = (case even_line of Some e \<Rightarrow> if e \<noteq> [] then e else fallback | None \<Rightarrow> fallback);
                    s = st1\<lparr>pg_page_head_start := Some (par_start par), pg_expect_running_head := (head_line = []),
                            pg_running_head_kind := None\<rparr>
                in if head_line = [] then s\<lparr>pg_after_running_head := False\<rparr>
                   else let (s', known) = read_running_head U s head_line running
                        in s'\<lparr>pg_after_running_head := known\<rparr>)
             else st1);
          st3 = (if pg_in_footnotes st2 \<or> pg_in_caption st2
                 then st2\<lparr>pg_in_footnotes := False, pg_in_caption := False, pg_resume := True\<rparr> else st2)
      in (st3\<lparr>pg_footnote_owed := False\<rparr>, True, None))"

text \<open>The caption of a slip: \<open>Inl\<close> of a final answer, or \<open>Inr\<close> of the state the paragraph goes on with.\<close>

definition slip_caption ::
    "ucd \<Rightarrow> page_state \<Rightarrow> text_paragraph \<Rightarrow> ustr list \<Rightarrow> paged + page_state" where
  "slip_caption U st0 par lines =
     (let line = par_line par; head = pg_page_head_start st0; st = st0\<lparr>pg_page_head_start := None\<rparr>
      in if \<not> pg_in_caption st \<and> re_fullmatch U False SLIP_COURT (rstrip U (hd lines)) \<noteq> None then
           (let start = (case head of Some h \<Rightarrow> h | None \<Rightarrow> par_start par)
            in if pg_alone st then
                 (case pg_alone_type st of
                    None \<Rightarrow> Inl (st\<lparr>pg_alone := False\<rparr>, True, None)
                  | Some kind \<Rightarrow>
                      Inl (st\<lparr>pg_alone := False\<rparr>, False, Some (text_span_of start (par_end par) (kind, ''line'') None)))
               else Inl (st\<lparr>pg_in_caption := True, pg_caption_dated := False\<rparr>, True,
                         Some (text_span_of start (par_end par) (''headmatter'', ''line'') None)))
         else if pg_in_caption st then
           (let date = re_search U False SLIP_DATE line;
                merged = (case date of Some m \<Rightarrow> m_end m < length line - m_end m | None \<Rightarrow> False)
            in if date \<noteq> None \<and> \<not> merged then Inl (st\<lparr>pg_caption_dated := True\<rparr>, True, None)
               else if byline U line \<noteq> None then Inr (st\<lparr>pg_in_caption := False\<rparr>)
               else if pg_running_head_kind st = Some ''syllabus'' \<and>
                 (merged \<or> pg_caption_dated st \<or> re_match U False SLIP_HELD line \<noteq> None)
               then Inl (st\<lparr>pg_in_caption := False, pg_resume := False\<rparr>, False,
                         Some (text_span_of (par_start par) (par_end par) (''syllabus'', ''line'') None))
               else if merged \<or> pg_caption_dated st then Inr (st\<lparr>pg_in_caption := False, pg_resume := True\<rparr>)
               else Inl (st, True, None))
         else Inr st)"

definition slip_line ::
    "ucd \<Rightarrow> page_state \<Rightarrow> text_paragraph \<Rightarrow> typing \<Rightarrow> ustr list \<Rightarrow> paged + page_state" where
  "slip_line U st par running lines =
     (let line = par_line par;
          (st1, known) = (if pg_expect_running_head st
                          then read_running_head U (st\<lparr>pg_expect_running_head := False\<rparr>) line running
                          else (st, False))
      in if known then Inl (st1\<lparr>pg_after_running_head := True\<rparr>, True, None)
         else
           (let after = pg_after_running_head st1; st2 = st1\<lparr>pg_after_running_head := False\<rparr>
            in if after \<and> re_match U False SLIP_NOTICE line \<noteq> None then Inl (st2, True, None)
               else slip_caption U st2 par lines))"

definition page :: "ucd \<Rightarrow> page_state \<Rightarrow> text_paragraph \<Rightarrow> typing \<Rightarrow> paged" where
  "page U st par running =
     (let line = par_line par; lines = splitlines line;
          even_line = (if pg_armed st = Some ''slip'' then even_head U (rstrip U (hd lines)) else None);
          slip_head = ((pg_armed st = None \<or> pg_armed st = Some ''slip'') \<and>
                         re_match U False SLIP_HEAD (hd lines) \<noteq> None \<or> even_line \<noteq> None);
          circuit_head = ((pg_armed st = None \<or> pg_armed st = Some ''circuit'') \<and> length lines = 1 \<and>
                            re_fullmatch U False CIRCUIT_HEAD line \<noteq> None)
      in if slip_head \<or> circuit_head then page_head U st par running lines slip_head even_line
         else if pg_armed st = Some ''slip'' then
           (case slip_line U st par running lines of
              Inl answer \<Rightarrow> answer
            | Inr st1 \<Rightarrow> page_footnotes U st1 par running)
         else page_footnotes U st par running)"

section \<open>What types the text\<close>

definition base_typing :: "ustr option \<Rightarrow> bool \<Rightarrow> ustr option \<Rightarrow> typing" where
  "base_typing opinion_type per_curiam element =
     (let row = map_of ROW_TYPES (case opinion_type of Some s \<Rightarrow> s | None \<Rightarrow> []);
          mapped = map_of ELEMENT_TYPES (case element of Some s \<Rightarrow> s | None \<Rightarrow> [])
      in case row of
           Some r \<Rightarrow>
             if mapped \<noteq> None \<and> mapped \<noteq> Some r then (''unknown'', ''none'') else (r, ''row'')
         | None \<Rightarrow>
             if per_curiam then (''per_curiam'', ''flag'')
             else (case mapped of Some m \<Rightarrow> (m, ''element'') | None \<Rightarrow> (''unknown'', ''none'')))"

definition cued :: "string option \<Rightarrow> typing \<Rightarrow> typing \<Rightarrow> typing" where
  "cued cue running base =
     (case cue of
        None \<Rightarrow> running
      | Some c \<Rightarrow>
          if c \<in> set SEPARATE \<or> c \<in> {''syllabus'', ''appendix'', ''order''} then (c, ''line'')
          else if fst base \<in> set SEPARATE \<or> fst running \<in> set SEPARATE then (''unknown'', ''none'')
          else if fst running \<in> set COURT then running
          else if fst base \<in> set COURT then base
          else (c, ''line''))"

type_synonym opening_state = "typing \<times> bool \<times> bool \<times> ustr option"
  \<comment> \<open>the running typing, the panel's line read, a bare line opened, the judge who opened\<close>

definition bare :: "typing \<Rightarrow> typing \<Rightarrow> bool \<Rightarrow> bool \<Rightarrow> ustr option \<Rightarrow> ustr option \<Rightarrow> opening_state" where
  "bare running base armed bare_opened judge opener =
     (if base = running \<and> running = (''unknown'', ''none'') \<and> armed then ((''majority'', ''line''), False, True, None)
      else if bare_opened then ((''unknown'', ''none''), armed, False, None)
      else if fst running \<in> set COURT \<and> snd running = ''line'' \<and> opener \<noteq> None \<and> judge \<noteq> opener
      then ((''unknown'', ''none''), False, False, None)
      else (running, armed, bare_opened, opener))"

definition read_byline ::
    "ucd \<Rightarrow> ustr \<Rightarrow> typing \<Rightarrow> typing \<Rightarrow> bool \<Rightarrow> bool \<Rightarrow> ustr option \<Rightarrow> opening_state" where
  "read_byline U prefix running base armed bare_opened opener =
     (let disp = disposition U prefix; judge = judge_of U prefix
      in if disp = None then bare running base armed bare_opened judge opener
         else
           (let resolved = cued disp running base
            in (resolved, armed, False,
                if fst resolved \<in> set COURT \<and> snd resolved = ''line'' then judge else None)))"

section \<open>Markup\<close>

definition RETURN_ARROW :: ustr where "RETURN_ARROW = [8617]"

definition section_label :: "ucd \<Rightarrow> ustr \<Rightarrow> nat \<Rightarrow> nat \<Rightarrow> ustr option \<Rightarrow> parsed \<Rightarrow> ustr option" where
  "section_label U t start stop block_label P =
     (if block_label \<noteq> None \<and> block_label \<noteq> Some [] then block_label
      else (case find (\<lambda>m. mk_kind m = ''footnote-mark'' \<and> mk_offset m = start \<and> strip U (mk_label m) \<noteq> RETURN_ARROW)
                   (pd_markers P) of
              Some m \<Rightarrow> Some (strip U (mk_label m))
            | None \<Rightarrow>
                map_option (\<lambda>m. group_text (substr t start stop) m ''1'')
                  (re_match U False LEADING_LABEL (substr t start stop))))"

definition label_key :: "ucd \<Rightarrow> ustr option \<Rightarrow> ustr" where
  "label_key U label =
     (let s = strip U (case label of Some l \<Rightarrow> l | None \<Rightarrow> [])
      in strip U (rev (dropWhile (\<lambda>c. c = 46) (rev (strip_by (\<lambda>c. c = 91 \<or> c = 93) s)))))"

primrec merge_spans :: "(nat \<times> nat) list \<Rightarrow> (nat \<times> nat) list \<Rightarrow> (nat \<times> nat) list" where
  "merge_spans merged [] = merged"
| "merge_spans merged (x # xs) =
     merge_spans
       (if merged \<noteq> [] \<and> fst x \<le> snd (last merged)
        then butlast merged @ [(fst (last merged), max (snd (last merged)) (snd x))] else merged @ [x]) xs"

definition merged_exclusions :: "(nat \<times> nat) list \<Rightarrow> nat list \<times> nat list" where
  "merged_exclusions spans = (let merged = merge_spans [] (sort spans) in (map fst merged, map snd merged))"

text \<open>The bisections of sorted lists.\<close>

definition bisect_left :: "nat list \<Rightarrow> nat \<Rightarrow> nat" where
  "bisect_left xs v = length (takeWhile (\<lambda>x. x < v) xs)"

definition bisect_right :: "nat list \<Rightarrow> nat \<Rightarrow> nat" where
  "bisect_right xs v = length (takeWhile (\<lambda>x. x \<le> v) xs)"

definition overlaps :: "nat \<Rightarrow> nat \<Rightarrow> nat list \<times> nat list \<Rightarrow> bool" where
  "overlaps start stop excl =
     (let index = bisect_right (snd excl) start in index < length (fst excl) \<and> fst excl ! index < stop)"

definition tx_bounds :: "text_span \<Rightarrow> nat \<times> nat" where
  "tx_bounds sp = (tx_start sp, tx_end sp)"

definition block_spans :: "parsed \<Rightarrow> text_span list" where
  "block_spans P =
     map (\<lambda>b. text_span_of (bk_start b) (bk_end b)
         (if bk_kind b = ''headmatter'' then ''headmatter'' else ''footnote'', ''markup'')
         (if bk_label b = [] then None else Some (bk_label b)))
       (filter (\<lambda>b. (bk_kind b = ''headmatter'' \<or> bk_kind b = ''footnote'') \<and> bk_start b < bk_end b \<and>
           bk_end b \<le> length (pd_text P)) (pd_blocks P))"

text \<open>The notes of a lawbox page, with the first unclosed note and its label.\<close>

primrec lawbox_notes ::
    "ucd \<Rightarrow> nat \<Rightarrow> bool \<Rightarrow> (nat \<times> ustr option) option \<Rightarrow> text_paragraph list \<Rightarrow> text_span list" where
  "lawbox_notes U stop in_notes open_note [] =
     (case open_note of
        None \<Rightarrow> []
      | Some (first, label) \<Rightarrow> [text_span_of first stop (''footnote'', ''markup'') label])"
| "lawbox_notes U stop in_notes open_note (p # ps) =
     (if heading U (par_line p) = Some ''notes'' then lawbox_notes U stop True open_note ps
      else if \<not> in_notes then lawbox_notes U stop in_notes open_note ps
      else (case re_match U False LAWBOX_LABEL (par_line p) of
              None \<Rightarrow> lawbox_notes U stop in_notes open_note ps
            | Some m \<Rightarrow>
                (case open_note of
                   None \<Rightarrow> []
                 | Some (first, label) \<Rightarrow> [text_span_of first (par_start p) (''footnote'', ''markup'') label]) @
                lawbox_notes U stop in_notes (Some (par_start p, Some (group_text (par_line p) m ''1''))) ps))"

primrec merge_headmatter :: "ucd \<Rightarrow> ustr \<Rightarrow> text_span list \<Rightarrow> text_span list \<Rightarrow> text_span list" where
  "merge_headmatter U t merged [] = merged"
| "merge_headmatter U t merged (sp # sps) =
     merge_headmatter U t
       (if merged \<noteq> [] \<and> tx_section_type sp = ''headmatter'' \<and> tx_typed_by sp = ''markup'' \<and>
           tx_section_type (last merged) = ''headmatter'' \<and> tx_typed_by (last merged) = ''markup'' \<and>
           tx_end (last merged) \<le> tx_start sp \<and> strip U (substr t (tx_end (last merged)) (tx_start sp)) = []
        then butlast merged @
          [text_span_of (tx_start (last merged)) (tx_end sp) (''headmatter'', ''markup'') None]
        else merged @ [sp]) sps"

definition structural :: "ucd \<Rightarrow> parsed \<Rightarrow> ustr \<Rightarrow> text_paragraph list \<Rightarrow> text_span list" where
  "structural U P column rows =
     (let t = pd_text P;
          spans0 = block_spans P @
            (if column = ulit ''html_lawbox'' then lawbox_notes U (length t) False None rows else []);
          blocks = merged_exclusions (map tx_bounds spans0);
          body = find (\<lambda>p. \<not> overlaps (par_start p) (par_end p) blocks) rows;
          spans1 =
            (case body of
               None \<Rightarrow> spans0
             | Some b \<Rightarrow>
                 map (\<lambda>sp. if tx_section_type sp = ''headmatter'' \<and> tx_start sp > par_start b
                   then sp\<lparr>tx_section_type := ''unknown'', tx_typed_by := ''none''\<rparr> else sp) spans0);
          excl = merged_exclusions (map tx_bounds spans1 @
            map (\<lambda>b. (bk_start b, bk_end b)) (filter (\<lambda>b. bk_kind b = ''quote'') (pd_blocks P)));
          participants = map (\<lambda>p. text_span_of (par_start p) (par_end p) (''headmatter'', ''line'') None)
            (filter (\<lambda>p. column \<noteq> ulit ''plain_text'' \<and> eligible (par_line p) \<and>
                \<not> overlaps (par_start p) (par_end p) excl \<and> participation U (par_line p)) rows)
      in merge_headmatter U t [] (sort_key tx_bounds (spans1 @ participants)))"

section \<open>Runs\<close>

record text_run =
  rn_start :: nat
  rn_end :: nat
  rn_span :: "nat option"
  rn_opinion :: "nat option"

text \<open>The points of \<open>add\<close> with what begins or ends there; the flag tells a span from an opinion.\<close>

type_synonym event = "nat \<times> nat \<times> bool \<times> nat"  \<comment> \<open>clipped start and end, kind, index\<close>

definition run_event :: "ustr \<Rightarrow> bool \<Rightarrow> nat \<Rightarrow> nat \<times> nat \<Rightarrow> event list" where
  "run_event t kind index bounds =
     (let start = min (length t) (fst bounds); stop = min (length t) (snd bounds)
      in if start \<ge> stop then [] else [(start, stop, kind, index)])"

definition run_events :: "ustr \<Rightarrow> text_span list \<Rightarrow> block list \<Rightarrow> event list" where
  "run_events t spans opinions =
     concat (map (\<lambda>(i, sp). run_event t True i (tx_bounds sp)) (enumerate 0 spans)) @
     concat (map (\<lambda>(i, b). run_event t False i (bk_start b, bk_end b)) (enumerate 0 opinions))"

definition run_points :: "ustr \<Rightarrow> event list \<Rightarrow> nat list" where
  "run_points t events =
     sorted_list_of_set (set ([0, length t] @ concat (map (\<lambda>(s, e, _). [s, e]) events)))"

definition least_by :: "('a \<Rightarrow> 'b::linorder) \<Rightarrow> 'a list \<Rightarrow> 'a option" where
  "least_by key xs = (if xs = [] then None else Some (arg_min_list key xs))"

definition add_run :: "text_run list \<Rightarrow> text_run \<Rightarrow> text_run list" where
  "add_run runs r =
     (if runs \<noteq> [] \<and> rn_end (last runs) = rn_start r \<and> rn_span (last runs) = rn_span r \<and>
         rn_opinion (last runs) = rn_opinion r
      then butlast runs @ [(last runs)\<lparr>rn_end := rn_end r\<rparr>] else runs @ [r])"

definition kind_indices :: "bool \<Rightarrow> event list \<Rightarrow> nat set" where
  "kind_indices kind events = set (map (snd \<circ> snd \<circ> snd) (filter (\<lambda>e. fst (snd (snd e)) = kind) events))"

definition active_at :: "event list \<Rightarrow> bool \<Rightarrow> nat \<Rightarrow> nat set \<Rightarrow> nat set" where
  "active_at events kind start active =
     (active - kind_indices kind (filter (\<lambda>e. fst (snd e) = start) events)) \<union>
       kind_indices kind (filter (\<lambda>e. fst e = start) events)"

definition span_at :: "(nat set \<Rightarrow> nat list) \<Rightarrow> text_span list \<Rightarrow> nat set \<Rightarrow> nat option" where
  "span_at order spans active =
     least_by (\<lambda>i. (tx_section_type (spans ! i) \<noteq> ''footnote'', tx_end (spans ! i) - tx_start (spans ! i)))
       (order active)"

definition opinion_at :: "(nat set \<Rightarrow> nat list) \<Rightarrow> block list \<Rightarrow> nat set \<Rightarrow> nat option" where
  "opinion_at order opinions active =
     least_by (\<lambda>i. bk_end (opinions ! i) - bk_start (opinions ! i)) (order active)"

primrec sweep ::
    "(nat set \<Rightarrow> nat list) \<Rightarrow> text_span list \<Rightarrow> block list \<Rightarrow> event list \<Rightarrow> nat set \<Rightarrow> nat set \<Rightarrow> text_run list \<Rightarrow>
       (nat \<times> nat) list \<Rightarrow> text_run list" where
  "sweep order spans opinions events active_spans active_opinions runs [] = runs"
| "sweep order spans opinions events active_spans active_opinions runs (x # xs) =
     (let spans_now = active_at events True (fst x) active_spans;
          opinions_now = active_at events False (fst x) active_opinions
      in sweep order spans opinions events spans_now opinions_now
           (add_run runs
             \<lparr>rn_start = fst x, rn_end = snd x, rn_span = span_at order spans spans_now,
              rn_opinion = opinion_at order opinions opinions_now\<rparr>) xs)"

definition text_runs :: "(nat set \<Rightarrow> nat list) \<Rightarrow> ustr \<Rightarrow> text_span list \<Rightarrow> block list \<Rightarrow> text_run list" where
  "text_runs order t spans opinions =
     (let events = run_events t spans opinions; points = run_points t events
      in sweep order spans opinions events {} {} [] (zip points (tl points)))"

section \<open>Sections\<close>

record text_section =
  sc_section_type :: string
  sc_typed_by :: string
  sc_char_start :: nat
  sc_char_end :: nat
  sc_label :: "ustr option"
  sc_ref_offset :: "nat option"
  sc_parent :: "nat option"

type_synonym cut = "nat \<times> string \<times> string \<times> ustr option"

definition distinct_openings :: "cut list \<Rightarrow> cut list" where
  "distinct_openings openings =
     foldl (\<lambda>kept o'. if kept \<noteq> [] \<and> fst o' = fst (last kept) then butlast kept @ [o'] else kept @ [o']) []
       (sort_key fst openings)"

definition contiguous :: "text_section list \<Rightarrow> bool" where
  "contiguous secs = list_all (\<lambda>(l, r). sc_char_end l = sc_char_start r) (zip secs (tl secs))"

primrec cut_sections :: "nat \<Rightarrow> cut list \<Rightarrow> text_section list" where
  "cut_sections stop [] = []"
| "cut_sections stop (x # xs) =
     (let upto = (case xs of [] \<Rightarrow> stop | y # _ \<Rightarrow> fst y); rest = cut_sections stop xs
      in case x of (start, kind, typed_by, label) \<Rightarrow>
           if start < upto then
             \<lparr>sc_section_type = kind, sc_typed_by = typed_by, sc_char_start = start, sc_char_end = upto,
              sc_label = label, sc_ref_offset = None, sc_parent = None\<rparr> # rest
           else rest)"

definition finalize :: "ustr \<Rightarrow> cut list \<Rightarrow> text_section list result" where
  "finalize t openings =
     (if t = [] then Inr []
      else
        (let kept = distinct_openings (if openings = [] then [(0, ''unknown'', ''none'', None)] else openings);
             secs = cut_sections (length t) ((0, snd (hd kept)) # tl kept)
         in if secs = [] then Inl ''IndexError''
            else if sc_char_start (hd secs) = 0 \<and> sc_char_end (last secs) = length t \<and> contiguous secs \<and>
              list_all (\<lambda>s. sc_char_start s < sc_char_end s) secs
            then Inr secs else Inl ''AssertionError''))"

section \<open>The walk\<close>

record walk =
  wk_openings :: "cut list"
  wk_base :: typing
  wk_running :: "typing option"
  wk_armed :: bool
  wk_bare_opened :: bool
  wk_opener :: "ustr option"
  wk_pending :: "ustr option"
  wk_opinion :: "nat option"
  wk_page :: "page_state option"

definition new_walk :: "ustr \<Rightarrow> walk" where
  "new_walk column =
     \<lparr>wk_openings = [], wk_base = (''unknown'', ''none''), wk_running = None, wk_armed = False,
      wk_bare_opened = False, wk_opener = None, wk_pending = None, wk_opinion = None,
      wk_page = (if column = ulit ''plain_text'' then Some new_page_state else None)\<rparr>"

definition open_at :: "nat \<Rightarrow> typing \<Rightarrow> ustr option \<Rightarrow> walk \<Rightarrow> walk" where
  "open_at start kind label w = w\<lparr>wk_openings := wk_openings w @ [(start, fst kind, snd kind, label)]\<rparr>"

definition apply_byline :: "ucd \<Rightarrow> ustr \<Rightarrow> walk \<Rightarrow> walk" where
  "apply_byline U prefix w =
     (case read_byline U prefix (the (wk_running w)) (wk_base w) (wk_armed w) (wk_bare_opened w) (wk_opener w) of
        (running, armed, bare_opened, opener) \<Rightarrow>
          w\<lparr>wk_running := Some running, wk_armed := armed, wk_bare_opened := bare_opened, wk_opener := opener\<rparr>)"

definition walk_span :: "ucd \<Rightarrow> parsed \<Rightarrow> text_span list \<Rightarrow> text_run \<Rightarrow> nat \<Rightarrow> walk \<Rightarrow> walk" where
  "walk_span U P spans r i w =
     (let t = pd_text P; sp = spans ! i; part = substr t (rn_start r) (rn_end r);
          start = rn_start r + length (takeWhile (uc_space U) part);
          w1 = (if start < rn_end r then
                  open_at start (tx_section_type sp, tx_typed_by sp)
                    (if tx_section_type sp = ''footnote''
                     then section_label U t (rn_start r) (rn_end r) (tx_label sp) P else None) w
                else w)
      in if tx_section_type sp = ''headmatter'' \<and> tx_typed_by sp = ''markup'' then
           (let rows = paragraphs U t (rn_start r) (rn_end r);
                closing = (if rows = [] then [] else par_line (last rows))
            in w1\<lparr>wk_armed := wk_armed w1 \<or> list_ex (\<lambda>p. is_before U (par_line p)) rows,
                  wk_pending := (if closing = [] \<or> participation U closing then None else byline U closing)\<rparr>)
         else w1)"

text \<open>A paragraph's own words: a heading, the panel's line or a byline.\<close>

definition walk_line :: "ucd \<Rightarrow> text_paragraph \<Rightarrow> walk \<Rightarrow> walk" where
  "walk_line U p w =
     (case (if eligible (par_line p) then heading U (par_line p) else None) of
        Some h \<Rightarrow>
          if h = ''notes'' then w
          else
            (let running = cued (Some h) (the (wk_running w)) (wk_base w)
             in open_at (par_start p) running None
                  (w\<lparr>wk_bare_opened := False, wk_opener := None, wk_running := Some running\<rparr>))
      | None \<Rightarrow>
          if is_before U (par_line p) then w\<lparr>wk_armed := True\<rparr>
          else (case byline U (par_line p) of
                  None \<Rightarrow> w
                | Some prefix \<Rightarrow>
                    (let w1 = apply_byline U prefix w in open_at (par_start p) (the (wk_running w1)) None w1)))"

definition walk_paragraph ::
    "ucd \<Rightarrow> nat list \<times> nat list \<Rightarrow> text_run \<Rightarrow> text_paragraph \<Rightarrow> walk \<Rightarrow> walk" where
  "walk_paragraph U quotes r p w =
     (if par_start p < rn_start r \<or> par_end p > rn_end r \<or> overlaps (par_start p) (par_end p) quotes then w
      else (case wk_page w of
              None \<Rightarrow> walk_line U p w
            | Some st \<Rightarrow>
                (case page U st p (the (wk_running w)) of
                   (st1, skip, None) \<Rightarrow>
                     (let w1 = w\<lparr>wk_page := Some st1\<rparr> in if skip then w1 else walk_line U p w1)
                 | (st1, skip, Some sp) \<Rightarrow>
                     (let kind = (tx_section_type sp, tx_typed_by sp);
                          w1 = open_at (tx_start sp) kind (tx_label sp) (w\<lparr>wk_page := Some st1\<rparr>)
                      in if skip then w1
                         else
                           (let w2 = (if fst kind \<noteq> fst (the (wk_running w1))
                                      then w1\<lparr>wk_bare_opened := False, wk_opener := None\<rparr> else w1)
                            in walk_line U p (w2\<lparr>wk_running := Some kind\<rparr>))))))"

definition walk_content ::
    "ucd \<Rightarrow> parsed \<Rightarrow> ustr option \<Rightarrow> bool \<Rightarrow> block list \<Rightarrow> text_paragraph list \<Rightarrow> nat list \<times> nat list \<Rightarrow>
       text_run \<Rightarrow> walk \<Rightarrow> walk" where
  "walk_content U P opinion_type per_curiam opinions rows quotes r w =
     (let t = pd_text P; content = substr t (rn_start r) (rn_end r)
      in if strip U content = [] then w
         else
           (let w1 =
              (if rn_opinion r \<noteq> wk_opinion w \<or> wk_running w = None then
                 (let base = base_typing opinion_type per_curiam
                        (map_option (\<lambda>i. bk_label (opinions ! i)) (rn_opinion r))
                  in w\<lparr>wk_base := base, wk_running := Some base, wk_bare_opened := False, wk_opener := None,
                       wk_opinion := rn_opinion r\<rparr>)
               else w);
             w2 = (case wk_pending w1 of
                     None \<Rightarrow> w1
                   | Some prefix \<Rightarrow> (apply_byline U prefix w1)\<lparr>wk_pending := None\<rparr>);
             w3 = open_at (rn_start r + length (takeWhile (uc_space U) content)) (the (wk_running w2)) None w2
            in fold (walk_paragraph U quotes r)
                 (takeWhile (\<lambda>p. par_start p < rn_end r)
                   (drop (bisect_left (map par_start rows) (rn_start r)) rows)) w3))"

definition walk_run ::
    "ucd \<Rightarrow> parsed \<Rightarrow> ustr option \<Rightarrow> bool \<Rightarrow> text_span list \<Rightarrow> block list \<Rightarrow> text_paragraph list \<Rightarrow>
       nat list \<times> nat list \<Rightarrow> text_run \<Rightarrow> walk \<Rightarrow> walk" where
  "walk_run U P opinion_type per_curiam spans opinions rows quotes r w =
     (case rn_span r of
        Some i \<Rightarrow> walk_span U P spans r i w
      | None \<Rightarrow> walk_content U P opinion_type per_curiam opinions rows quotes r w)"

definition segment_openings ::
    "(nat set \<Rightarrow> nat list) \<Rightarrow> ucd \<Rightarrow> parsed \<Rightarrow> ustr option \<Rightarrow> bool \<Rightarrow> ustr \<Rightarrow> cut list" where
  "segment_openings order U P opinion_type per_curiam column =
     (let t = pd_text P; rows = paragraphs U t 0 (length t); spans = structural U P column rows;
          opinions = filter (\<lambda>b. bk_kind b = ''opinion'') (pd_blocks P);
          quotes = merged_exclusions (map (\<lambda>b. (bk_start b, bk_end b))
            (filter (\<lambda>b. bk_kind b = ''quote'') (pd_blocks P)))
      in wk_openings
           (fold (walk_run U P opinion_type per_curiam spans opinions rows quotes)
             (text_runs order t spans opinions) (new_walk column)))"

section \<open>Footnote references\<close>

definition section_ranges :: "text_section list \<Rightarrow> (nat \<times> nat) list" where
  "section_ranges secs =
     map (\<lambda>s. (sc_char_start s, sc_char_end s)) (filter (\<lambda>s. sc_section_type s = ''footnote'') secs)"

definition footnote_marks :: "ucd \<Rightarrow> parsed \<Rightarrow> text_section list \<Rightarrow> (ustr \<times> nat) list" where
  "footnote_marks U P secs =
     map (\<lambda>m. (label_key U (Some (mk_label m)), mk_offset m))
       (filter (\<lambda>m. mk_kind m = ''footnote-mark'' \<and> strip U (mk_label m) \<noteq> RETURN_ARROW \<and>
           \<not> list_ex (\<lambda>(s, e). s \<le> mk_offset m \<and> mk_offset m < e) (section_ranges secs))
         (pd_markers P))"

definition parent_of :: "text_section list \<Rightarrow> nat \<Rightarrow> nat option" where
  "parent_of secs offset =
     find (\<lambda>i. sc_section_type (secs ! i) \<noteq> ''footnote'' \<and> sc_char_start (secs ! i) \<le> offset \<and>
         offset < sc_char_end (secs ! i)) [0..<length secs]"

text \<open>The marks are one queue per key; they are held here as one list, whose first entry of a key is the
  head of that key's queue.\<close>

primrec resolve_from ::
    "ucd \<Rightarrow> text_section list \<Rightarrow> (ustr \<times> nat) list \<Rightarrow> text_section list \<Rightarrow> text_section list" where
  "resolve_from U secs marks [] = []"
| "resolve_from U secs marks (s # ss) =
     (let key = label_key U (sc_label s)
      in if sc_section_type s \<noteq> ''footnote'' \<or> sc_label s = None \<or> sc_label s = Some [] then
           s # resolve_from U secs marks ss
         else (case map_of marks key of
                 None \<Rightarrow> s # resolve_from U secs marks ss
               | Some offset \<Rightarrow>
                   s\<lparr>sc_ref_offset := Some offset, sc_parent := parent_of secs offset\<rparr> #
                   resolve_from U secs (remove1 (key, offset) marks) ss))"

definition segment ::
    "(nat set \<Rightarrow> nat list) \<Rightarrow> ucd \<Rightarrow> parsed \<Rightarrow> ustr option \<Rightarrow> bool \<Rightarrow> ustr \<Rightarrow> text_section list result" where
  "segment order U P opinion_type per_curiam column =
     (let t = pd_text P
      in if t = [] then Inr []
         else bind_result (finalize t (segment_openings order U P opinion_type per_curiam column)) (\<lambda>secs.
           let result = resolve_from U secs (footnote_marks U P secs) secs
           in if sc_char_start (hd result) = 0 \<and> sc_char_end (last result) = length t \<and> contiguous result
              then Inr result else Inl ''AssertionError''))"

definition sc_bounds :: "text_section \<Rightarrow> span" where
  "sc_bounds s = (sc_char_start s, sc_char_end s)"

lemma sc_bounds_select [simp]: "fst (sc_bounds s) = sc_char_start s" "snd (sc_bounds s) = sc_char_end s"
  by (simp_all add: sc_bounds_def)

lemma tiles_contiguous: "tiles (map sc_bounds ss) a b \<Longrightarrow> contiguous ss"
proof (induction ss arbitrary: a)
  case (Cons s ss)
  then show ?case by (cases ss) (auto simp: contiguous_def sc_bounds_def)
qed (simp add: contiguous_def)

lemma tiles_ends:
  assumes "tiles (map sc_bounds ss) a b" "a < b"
  shows "ss \<noteq> [] \<and> sc_char_start (hd ss) = a \<and> sc_char_end (last ss) = b"
proof (cases ss rule: rev_cases)
  case (snoc ys l)
  with assms(1) have "sc_char_end l = b" by (simp add: tiles_append sc_bounds_def)
  moreover have "sc_char_start (hd ss) = a" using assms snoc by (cases ys) (simp_all add: sc_bounds_def)
  ultimately show ?thesis using snoc by simp
qed (use assms in simp)

section \<open>Paragraphs lie in order\<close>

lemma strip_by_Nil_iff: "strip_by p s = [] \<longleftrightarrow> list_all p s"
proof -
  have "strip_by p s = [] \<longleftrightarrow> (\<forall>x \<in> set (dropWhile p s). p x)"
    by (auto simp: strip_by_def dropWhile_eq_Nil_conv)
  also have "\<dots> \<longleftrightarrow> dropWhile p s = []"
    using hd_dropWhile [of p s] list.set_sel(1) [of "dropWhile p s"] by (metis empty_iff list.set(1))
  also have "\<dots> \<longleftrightarrow> list_all p s" by (simp only: dropWhile_eq_Nil_conv list_all_iff)
  finally show ?thesis .
qed

lemma takeWhile_shorter: "\<not> list_all p s \<Longrightarrow> length (takeWhile p s) < length s"
  by (induction s) (auto split: if_splits)

lemma paragraphs_from_ordered:
  "(\<forall>p \<in> set (paragraphs_from U t position stop). position \<le> par_start p \<and> par_start p < stop) \<and>
   sorted_wrt (\<lambda>p q. par_start p < par_start q) (paragraphs_from U t position stop)"
proof (induction U t position stop rule: paragraphs_from.induct)
  case (1 U t position stop)
  show ?case
  proof (cases "position < stop")
    case True
    define pe where "pe = (case find_sub [10, 10] (substr t position stop) of None \<Rightarrow> stop | Some k \<Rightarrow> position + k)"
    define part where "part = substr t position pe"
    let ?rest = "paragraphs_from U t (pe + 2) stop"
    let ?p = "\<lparr>par_start = position + length (takeWhile (uc_space U) part), par_end = pe,
        par_line = strip_by (uc_space U) part\<rparr>"
    have eq: "paragraphs_from U t position stop = (if strip_by (uc_space U) part = [] then ?rest else ?p # ?rest)"
      using True by (simp add: paragraphs_from.simps [of U t position stop] Let_def pe_def part_def)
    have pe: "position \<le> pe" "pe \<le> stop"
    proof -
      show "position \<le> pe" using True by (auto simp: pe_def split: option.splits)
      have "k \<le> stop - position" if "find_sub [10, 10] (substr t position stop) = Some k" for k
        using find_sub_Some [OF that] by (simp only: length_substr) linarith
      then show "pe \<le> stop" using True by (fastforce simp: pe_def split: option.splits)
    qed
    from "1.IH" [OF True pe_def part_def refl refl] have rest: "\<forall>q \<in> set ?rest. pe + 2 \<le> par_start q \<and> par_start q < stop"
      "sorted_wrt (\<lambda>p q. par_start p < par_start q) ?rest" by auto
    have "par_start ?p < pe" if "strip_by (uc_space U) part \<noteq> []"
      using takeWhile_shorter [of "uc_space U" part] that pe(1) by (auto simp: strip_by_Nil_iff part_def)
    with rest pe show ?thesis unfolding eq by (cases "strip_by (uc_space U) part = []") fastforce+
  qed (simp add: paragraphs_from.simps)
qed

end
