(* ===== verification/Worker_Segment.thy ===== *)
theory Worker_Segment
  imports Worker_Sections "HOL-Library.Code_Target_Nat"
begin

text \<open>
  What \<open>segment\<close> of \<open>Worker_Sections\<close> promises: it never fails one of its assertions, its sections tile the
  text, their types come from the declared vocabularies, and a footnote's reference is a mark outside every
  footnote with its own key. The invariants below are carried along the runs and the paragraphs.
\<close>

section \<open>Runs lie in the text\<close>

definition run_in :: "nat \<Rightarrow> nat \<Rightarrow> text_run \<Rightarrow> bool" where
  "run_in n k r \<longleftrightarrow> rn_start r < rn_end r \<and> rn_end r \<le> n \<and> (case rn_span r of None \<Rightarrow> True | Some i \<Rightarrow> i < k)"

definition iterates :: "(nat set \<Rightarrow> nat list) \<Rightarrow> bool" where
  \<comment> \<open>iterating a set yields its elements, in some order\<close>
  "iterates order \<longleftrightarrow> (\<forall>A. finite A \<longrightarrow> set (order A) = A)"

lemma least_by_in: "least_by key xs = Some i \<Longrightarrow> i \<in> set xs"
  using arg_min_list_in [of xs key] by (auto simp: least_by_def split: if_splits)

lemma add_run_in:
  assumes "\<forall>r \<in> set runs. run_in n k r" and "run_in n k r"
  shows "\<forall>r \<in> set (add_run runs r). run_in n k r"
proof (cases runs rule: rev_cases)
  case (snoc ys l)
  with assms show ?thesis by (auto simp: add_run_def run_in_def)
qed (use assms in \<open>simp add: add_run_def\<close>)

lemma sweep_in:
  assumes "iterates order" and "\<forall>e \<in> set events. fst (snd (snd e)) \<longrightarrow> snd (snd (snd e)) < k"
  shows "\<forall>x \<in> set xs. fst x < snd x \<and> snd x \<le> n \<Longrightarrow> active \<subseteq> {..<k} \<Longrightarrow>
    \<forall>r \<in> set runs. run_in n k r \<Longrightarrow>
    \<forall>r \<in> set (sweep order spans opinions events active opinions_on runs xs). run_in n k r"
proof (induction xs arbitrary: active opinions_on runs)
  case (Cons x xs)
  let ?now = "active_at events True (fst x) active"
  have sub: "?now \<subseteq> {..<k}"
    using Cons.prems(2) assms(2) by (fastforce simp: active_at_def kind_indices_def)
  then have "finite ?now" by (rule finite_subset) simp
  with assms(1) have "set (order ?now) = ?now" by (simp add: iterates_def)
  with sub have "i < k" if "span_at order spans ?now = Some i" for i
    using least_by_in [OF that [unfolded span_at_def]] by blast
  then have "run_in n k \<lparr>rn_start = fst x, rn_end = snd x, rn_span = span_at order spans ?now, rn_opinion = q\<rparr>" for q
    using Cons.prems(1) by (auto simp: run_in_def split: option.split)
  note step = add_run_in [OF Cons.prems(3) this]
  from Cons.prems(1) have "\<forall>x \<in> set xs. fst x < snd x \<and> snd x \<le> n" by simp
  from Cons.IH [OF this sub step] show ?case by (simp add: Let_def)
qed simp

lemma zip_tl_sorted:
  "sorted_wrt (<) ps \<Longrightarrow> \<forall>p \<in> set ps. p \<le> n \<Longrightarrow> \<forall>x \<in> set (zip ps (tl ps)). fst x < snd x \<and> snd x \<le> (n :: nat)"
proof (induction ps)
  case (Cons p ps)
  then show ?case by (cases ps) auto
qed simp

lemma text_runs_in:
  assumes "iterates order"
  shows "\<forall>r \<in> set (text_runs order t spans opinions). run_in (length t) (length spans) r"
proof -
  let ?ev = "run_events t spans opinions"
  have ev: "\<forall>e \<in> set ?ev. fst (snd (snd e)) \<longrightarrow> snd (snd (snd e)) < length spans"
    by (auto simp: run_events_def run_event_def Let_def in_set_enumerate_eq split: if_splits)
  have "\<forall>(s, e, z) \<in> set ?ev. s \<le> length t \<and> e \<le> length t"
    by (auto simp: run_events_def run_event_def Let_def split: if_splits)
  then have "\<forall>p \<in> set (run_points t ?ev). p \<le> length t"
    unfolding run_points_def set_sorted_list_of_set [OF finite_set] by auto
  moreover have "sorted_wrt (<) (run_points t ?ev)" unfolding run_points_def by (rule strict_sorted_list_of_set)
  ultimately have "\<forall>x \<in> set (zip (run_points t ?ev) (tl (run_points t ?ev))). fst x < snd x \<and> snd x \<le> length t"
    by (rule zip_tl_sorted [rotated])
  from sweep_in [OF assms ev this, where active = "{}" and opinions_on = "{}" and runs = "[]"] show ?thesis by (simp add: text_runs_def Let_def)
qed

section \<open>Types come from the vocabularies\<close>

definition typed :: "typing \<Rightarrow> bool" where
  "typed k \<longleftrightarrow> fst k \<in> set SECTION_TYPES \<and> snd k \<in> set TYPED_BY"

named_theorems typing_simps \<open>the vocabularies unfolded\<close>

lemmas [typing_simps] = typed_def SECTION_TYPES_def TYPED_BY_def SEPARATE_def COURT_def

lemma if_Some: "(if b then Some x else y) = Some z \<Longrightarrow> z = x \<or> y = Some z"
  by (simp split: if_splits)

lemma disposition_words_typed: "disposition_words U line = Some d \<Longrightarrow> d \<in> set SECTION_TYPES"
  unfolding disposition_words_def Let_def
  by (elim if_Some [THEN disjE]) (simp_all add: SECTION_TYPES_def)

lemma disposition_typed: "disposition U line = Some d \<Longrightarrow> d \<in> set SECTION_TYPES"
  unfolding disposition_def
  by (cases "re_match_at U False AUTHOR line (after_closing U line)") (simp_all add: disposition_words_typed split: if_splits)

lemma map_of_value: "map_of xs k = Some v \<Longrightarrow> list_all (\<lambda>(k, v). v \<in> S) xs \<Longrightarrow> v \<in> S"
  by (auto simp: list_all_iff dest!: map_of_SomeD)

lemma table_typed:
  "map_of ROW_TYPES k = Some v \<Longrightarrow> v \<in> set SECTION_TYPES"
  "map_of ELEMENT_TYPES k = Some v \<Longrightarrow> v \<in> set SECTION_TYPES"
  "map_of HEADING_CUES k = Some v \<Longrightarrow> v \<in> insert ''notes'' (set SECTION_TYPES)"
  by (erule map_of_value; simp add: ROW_TYPES_def ELEMENT_TYPES_def HEADING_CUES_def SECTION_TYPES_def)+

lemma heading_typed: "heading U line = Some h \<Longrightarrow> h = ''notes'' \<or> h \<in> set SECTION_TYPES"
  unfolding heading_def Let_def
  by (elim if_Some [THEN disjE]) (drule table_typed(3) | simp add: SECTION_TYPES_def)+

lemma base_typing_typed: "typed (base_typing a b c)"
proof -
  have "typed (k, v)" if "k \<in> set SECTION_TYPES" "v \<in> set TYPED_BY" for k v using that by (simp add: typed_def)
  moreover have "''row'' \<in> set TYPED_BY" "''flag'' \<in> set TYPED_BY" "''element'' \<in> set TYPED_BY" "''none'' \<in> set TYPED_BY"
    "''unknown'' \<in> set SECTION_TYPES" "''per_curiam'' \<in> set SECTION_TYPES"
    by (simp_all add: TYPED_BY_def SECTION_TYPES_def)
  ultimately show ?thesis
    unfolding base_typing_def Let_def by (auto split: option.split dest: table_typed)
qed

lemma line_typed [simp]: "typed (k, ''line'') \<longleftrightarrow> k \<in> set SECTION_TYPES"
  by (simp add: typed_def TYPED_BY_def)

lemma markup_typed [simp]: "typed (k, ''markup'') \<longleftrightarrow> k \<in> set SECTION_TYPES"
  by (simp add: typed_def TYPED_BY_def)

lemma unknown_typed [simp]: "typed (''unknown'', ''none'')"
  by (simp add: typed_def TYPED_BY_def SECTION_TYPES_def)

lemma cued_typed:
  "typed running \<Longrightarrow> typed base \<Longrightarrow> (case cue of None \<Rightarrow> True | Some c \<Rightarrow> c \<in> set SECTION_TYPES) \<Longrightarrow>
     typed (cued cue running base)"
  unfolding cued_def by (cases cue) simp_all

lemma bare_typed: "typed running \<Longrightarrow> typed (fst (bare running base armed bare_opened judge opener))"
  unfolding bare_def by (simp add: SECTION_TYPES_def)

lemma read_byline_typed:
  assumes "typed running" "typed base"
  shows "typed (fst (read_byline U prefix running base armed bare_opened opener))"
proof (cases "disposition U prefix")
  case (Some d)
  with cued_typed [OF assms, of "Some d"] disposition_typed [OF Some] show ?thesis
    by (simp add: read_byline_def Let_def)
qed (simp add: read_byline_def bare_typed [OF assms(1)])

section \<open>Pages keep their place and their types\<close>

definition page_ok :: "nat \<Rightarrow> page_state \<Rightarrow> bool" where
  "page_ok n st \<longleftrightarrow>
     (case pg_page_head_start st of None \<Rightarrow> True | Some h \<Rightarrow> h < n) \<and>
     (case pg_alone_type st of None \<Rightarrow> True | Some k \<Rightarrow> k \<in> set SECTION_TYPES) \<and>
     (case pg_switch st of None \<Rightarrow> True | Some k \<Rightarrow> k \<in> set SECTION_TYPES)"

definition opens_ok :: "nat \<Rightarrow> text_span option \<Rightarrow> bool" where
  "opens_ok n o' \<longleftrightarrow>
     (case o' of None \<Rightarrow> True | Some sp \<Rightarrow> tx_start sp < n \<and> typed (tx_section_type sp, tx_typed_by sp))"

definition paged_ok :: "nat \<Rightarrow> paged \<Rightarrow> bool" where
  "paged_ok n r \<longleftrightarrow> page_ok n (fst r) \<and> opens_ok n (snd (snd r))"

lemma page_ok_update [simp]:
  "page_ok n (st\<lparr>pg_armed := a\<rparr>) = page_ok n st"
  "page_ok n (st\<lparr>pg_expect_running_head := b\<rparr>) = page_ok n st"
  "page_ok n (st\<lparr>pg_running_head_kind := a\<rparr>) = page_ok n st"
  "page_ok n (st\<lparr>pg_first_page := b\<rparr>) = page_ok n st"
  "page_ok n (st\<lparr>pg_alone := b\<rparr>) = page_ok n st"
  "page_ok n (st\<lparr>pg_after_running_head := b\<rparr>) = page_ok n st"
  "page_ok n (st\<lparr>pg_in_caption := b\<rparr>) = page_ok n st"
  "page_ok n (st\<lparr>pg_caption_dated := b\<rparr>) = page_ok n st"
  "page_ok n (st\<lparr>pg_in_footnotes := b\<rparr>) = page_ok n st"
  "page_ok n (st\<lparr>pg_footnote_owed := b\<rparr>) = page_ok n st"
  "page_ok n (st\<lparr>pg_resume := b\<rparr>) = page_ok n st"
  by (simp_all add: page_ok_def)

lemma page_ok_set [simp]:
  "page_ok n st \<Longrightarrow> h < n \<Longrightarrow> page_ok n (st\<lparr>pg_page_head_start := Some h\<rparr>)"
  "page_ok n st \<Longrightarrow> page_ok n (st\<lparr>pg_page_head_start := None\<rparr>)"
  "page_ok n st \<Longrightarrow> page_ok n (st\<lparr>pg_switch := None\<rparr>)"
  "page_ok n st \<Longrightarrow> k \<in> set SECTION_TYPES \<Longrightarrow> page_ok n (st\<lparr>pg_switch := Some k\<rparr>)"
  "page_ok n st \<Longrightarrow> a = None \<or> the a \<in> set SECTION_TYPES \<Longrightarrow> page_ok n (st\<lparr>pg_alone_type := a\<rparr>)"
  by (auto simp: page_ok_def split: option.splits)

lemma opens_ok_None [simp]: "opens_ok n None"
  by (simp add: opens_ok_def)

lemma opens_ok_Some [simp]: "opens_ok n (Some (text_span_of a b k l)) \<longleftrightarrow> a < n \<and> typed k"
  by (simp add: opens_ok_def text_span_of_def)

lemma paged_ok_iff [simp]: "paged_ok n (st, skip, o') \<longleftrightarrow> page_ok n st \<and> opens_ok n o'"
  by (simp add: paged_ok_def)

lemma kinds_listed [simp]:
  "''headmatter'' \<in> set SECTION_TYPES" "''footnote'' \<in> set SECTION_TYPES" "''syllabus'' \<in> set SECTION_TYPES"
  by (simp_all add: SECTION_TYPES_def)

lemma read_running_head_ok:
  assumes "page_ok n st"
  shows "page_ok n (fst (read_running_head U st line running))"
proof -
  have "d \<in> set SECTION_TYPES"
    if "(case byline U line of None \<Rightarrow> None | Some prefix \<Rightarrow> disposition U prefix) = Some d" for d
    using that by (auto dest: disposition_typed split: option.splits)
  with assms show ?thesis
    unfolding read_running_head_def Let_def
    by (cases "case byline U line of None \<Rightarrow> None | Some prefix \<Rightarrow> disposition U prefix") auto
qed

lemma page_body_ok:
  "page_ok n st \<Longrightarrow> par_start p < n \<Longrightarrow> typed running \<Longrightarrow> paged_ok n (page_body U st p running)"
  by (cases "pg_switch st") (auto simp: page_body_def Let_def page_ok_def)

lemma page_footnotes_ok:
  assumes "page_ok n st" "par_start p < n" "typed running"
  shows "paged_ok n (page_footnotes U st p running)"
proof -
  note body = page_body_ok [OF _ assms(2,3)]
  show ?thesis
    unfolding page_footnotes_def Let_def using assms(1,2) body by (simp split: option.split)
qed

lemma page_head_ok:
  "page_ok n st \<Longrightarrow> par_start p < n \<Longrightarrow> paged_ok n (page_head U st p running lines slip_head even_line)"
  unfolding page_head_def Let_def by (simp add: read_running_head_ok split_beta)

lemma slip_caption_ok:
  assumes "page_ok n st" "par_start p < n"
  shows "case slip_caption U st p lines of Inl answer \<Rightarrow> paged_ok n answer | Inr st1 \<Rightarrow> page_ok n st1"
proof -
  have "case pg_page_head_start st of Some h \<Rightarrow> h < n | None \<Rightarrow> par_start p < n"
    using assms by (auto simp: page_ok_def split: option.splits)
  moreover have "k \<in> set SECTION_TYPES" if "pg_alone_type st = Some k" for k
    using assms(1) that by (simp add: page_ok_def)
  ultimately show ?thesis
    unfolding slip_caption_def Let_def using assms
    by (cases "pg_page_head_start st"; cases "pg_alone_type st") simp_all
qed

lemma slip_line_ok:
  assumes "page_ok n st" "par_start p < n"
  shows "case slip_line U st p running lines of Inl answer \<Rightarrow> paged_ok n answer | Inr st1 \<Rightarrow> page_ok n st1"
proof -
  define r where "r = (if pg_expect_running_head st
    then read_running_head U (st\<lparr>pg_expect_running_head := False\<rparr>) (par_line p) running else (st, False))"
  have "page_ok n (fst r)" using assms(1) by (simp add: r_def read_running_head_ok)
  with slip_caption_ok [OF _ assms(2)] show ?thesis
    unfolding slip_line_def Let_def r_def [symmetric] by (simp add: split_beta)
qed

lemma page_ok_step:
  assumes "page_ok n st" "par_start p < n" "typed running"
  shows "paged_ok n (page U st p running)"
proof -
  have "paged_ok n (case slip_line U st p running lines of Inl answer \<Rightarrow> answer | Inr st1 \<Rightarrow> page_footnotes U st1 p running)"
    for lines
    using slip_line_ok [OF assms(1,2), of U running lines] page_footnotes_ok [OF _ assms(2,3)]
    by (cases "slip_line U st p running lines") simp_all
  then show ?thesis
    unfolding page_def Let_def using page_head_ok [OF assms(1,2)] page_footnotes_ok [OF assms]
    by (simp only: split: if_split) blast
qed

section \<open>The walk opens sections inside the text\<close>

definition cut_ok :: "nat \<Rightarrow> cut \<Rightarrow> bool" where
  "cut_ok n c \<longleftrightarrow> fst c < n \<and> typed (fst (snd c), fst (snd (snd c)))"

definition walk_ok :: "nat \<Rightarrow> walk \<Rightarrow> bool" where
  "walk_ok n w \<longleftrightarrow> list_all (cut_ok n) (wk_openings w) \<and> typed (wk_base w) \<and>
     (case wk_running w of None \<Rightarrow> True | Some k \<Rightarrow> typed k) \<and> (case wk_page w of None \<Rightarrow> True | Some st \<Rightarrow> page_ok n st)"

definition walking :: "nat \<Rightarrow> walk \<Rightarrow> bool" where  \<comment> \<open>inside a run of body text\<close>
  "walking n w \<longleftrightarrow> walk_ok n w \<and> wk_running w \<noteq> None"

lemma walk_ok_update [simp]:
  "walk_ok n (w\<lparr>wk_armed := b\<rparr>) = walk_ok n w" "walk_ok n (w\<lparr>wk_bare_opened := b\<rparr>) = walk_ok n w"
  "walk_ok n (w\<lparr>wk_opener := a\<rparr>) = walk_ok n w" "walk_ok n (w\<lparr>wk_pending := a\<rparr>) = walk_ok n w"
  "walk_ok n (w\<lparr>wk_opinion := i\<rparr>) = walk_ok n w"
  by (simp_all add: walk_ok_def)

lemma walk_ok_set [simp]:
  "walk_ok n w \<Longrightarrow> typed k \<Longrightarrow> walk_ok n (w\<lparr>wk_running := Some k\<rparr>)"
  "walk_ok n w \<Longrightarrow> typed k \<Longrightarrow> walk_ok n (w\<lparr>wk_base := k\<rparr>)"
  "walk_ok n w \<Longrightarrow> page_ok n st \<Longrightarrow> walk_ok n (w\<lparr>wk_page := Some st\<rparr>)"
  "walk_ok n w \<Longrightarrow> s < n \<Longrightarrow> typed k \<Longrightarrow> walk_ok n (open_at s k label w)"
  by (simp_all add: walk_ok_def open_at_def cut_ok_def)

lemma open_at_select [simp]:
  "wk_running (open_at s k label w) = wk_running w" "wk_base (open_at s k label w) = wk_base w"
  "wk_armed (open_at s k label w) = wk_armed w" "wk_page (open_at s k label w) = wk_page w"
  by (simp_all add: open_at_def)

lemma walk_ok_typed: "walk_ok n w \<Longrightarrow> wk_running w = Some k \<Longrightarrow> typed k" "walk_ok n w \<Longrightarrow> typed (wk_base w)"
  by (auto simp: walk_ok_def)

lemma walkingD: "walking n w \<Longrightarrow> typed (the (wk_running w)) \<and> typed (wk_base w) \<and> walk_ok n w \<and> wk_running w \<noteq> None"
  using walk_ok_typed [of n w] by (cases "wk_running w") (simp_all add: walking_def)

lemma walking_open: "walking n w \<Longrightarrow> s < n \<Longrightarrow> walking n (open_at s (the (wk_running w)) label w)"
  unfolding walking_def open_at_select by (meson walkingD walking_def walk_ok_set(4))

lemma apply_byline_walking:
  assumes "walking n w"
  shows "walking n (apply_byline U prefix w)"
proof -
  from walkingD [OF assms] have k: "typed (the (wk_running w))" "typed (wk_base w)" "walk_ok n w" by auto
  obtain a b c d where r: "read_byline U prefix (the (wk_running w)) (wk_base w) (wk_armed w) (wk_bare_opened w)
      (wk_opener w) = (a, b, c, d)" by (metis prod.collapse)
  with read_byline_typed [OF k(1,2), of U prefix "wk_armed w" "wk_bare_opened w" "wk_opener w"] have "typed a" by simp
  with k(3) show ?thesis by (simp add: apply_byline_def r walking_def)
qed

lemma walk_line_walking:
  assumes "walking n w" "par_start p < n"
  shows "walking n (walk_line U p w)"
proof -
  from walkingD [OF assms(1)] have
    k: "typed (the (wk_running w))" "typed (wk_base w)" "walk_ok n w" "wk_running w \<noteq> None" by auto
  have h: "typed (cued (Some h) (the (wk_running w)) (wk_base w))"
    if "heading U (par_line p) = Some h" "h \<noteq> ''notes''" for h
    using cued_typed [OF k(1,2), of "Some h"] heading_typed [OF that(1)] that(2) by simp
  note b = walking_open [OF apply_byline_walking [OF assms(1)] assms(2)]
  show ?thesis
    unfolding walk_line_def Let_def using k(3,4) assms(2) h b assms(1)
    by (auto simp: walking_def split: option.split)
qed

lemma walk_paragraph_walking:
  assumes "walking n w" "par_start p < n"
  shows "walking n (walk_paragraph U quotes r p w)"
proof (cases "wk_page w")
  case None
  with walk_line_walking [OF assms] assms(1) show ?thesis by (simp add: walk_paragraph_def)
next
  case (Some st)
  from walkingD [OF assms(1)] Some have
    k: "typed (the (wk_running w))" "walk_ok n w" "wk_running w \<noteq> None" "page_ok n st"
    by (auto simp: walk_ok_def)
  obtain st1 skip o' where pg: "page U st p (the (wk_running w)) = (st1, skip, o')" by (metis prod.collapse)
  with page_ok_step [OF k(4) assms(2) k(1), of U] have st1: "page_ok n st1" "opens_ok n o'" by simp_all
  have w1: "walking n (w\<lparr>wk_page := Some st1\<rparr>)" using k st1 by (simp add: walking_def)
  show ?thesis
  proof (cases o')
    case None
    with pg Some assms(1) w1 walk_line_walking [OF w1 assms(2), of U] show ?thesis
      by (simp add: walk_paragraph_def Let_def)
  next
    case (Some sp)
    with st1(2) have sp: "tx_start sp < n" "typed (tx_section_type sp, tx_typed_by sp)" by (simp_all add: opens_ok_def)
    let ?k = "(tx_section_type sp, tx_typed_by sp)"
    let ?w1 = "open_at (tx_start sp) ?k (tx_label sp) (w\<lparr>wk_page := Some st1\<rparr>)"
    have "walking n ?w1" using k st1 sp by (simp add: walking_def)
    moreover have "walking n ((if b then ?w1\<lparr>wk_bare_opened := False, wk_opener := None\<rparr> else ?w1)\<lparr>wk_running := Some ?k\<rparr>)"
      for b using k st1 sp by (simp add: walking_def)
    from walk_line_walking [OF this assms(2), of U] calculation pg \<open>wk_page w = Some st\<close> Some assms(1)
    show ?thesis by (simp add: walk_paragraph_def Let_def)
  qed
qed

lemma fold_keeps: "(\<And>x w. x \<in> set xs \<Longrightarrow> I w \<Longrightarrow> I (f x w)) \<Longrightarrow> I w \<Longrightarrow> I (fold f xs w)"
  by (induction xs arbitrary: w) auto

lemma takeWhile_in_run:
  assumes "strip U (substr t a b) \<noteq> []" "b \<le> length t"
  shows "a + length (takeWhile (uc_space U) (substr t a b)) < b"
proof -
  from assms(1) have "\<not> list_all (uc_space U) (substr t a b)" by (simp add: strip_def strip_by_Nil_iff)
  from takeWhile_shorter [OF this] assms(2) show ?thesis by simp
qed

lemma walk_content_ok:
  assumes "walk_ok n w" "n = length (pd_text P)" "rn_end r \<le> n" "\<forall>p \<in> set rows. par_start p < n"
  shows "walk_ok n (walk_content U P opinion_type per_curiam opinions rows quotes r w)"
proof (cases "strip U (substr (pd_text P) (rn_start r) (rn_end r)) = []")
  case False
  let ?content = "substr (pd_text P) (rn_start r) (rn_end r)"
  let ?base = "base_typing opinion_type per_curiam (map_option (\<lambda>i. bk_label (opinions ! i)) (rn_opinion r))"
  define w1 where "w1 = (if rn_opinion r \<noteq> wk_opinion w \<or> wk_running w = None
    then w\<lparr>wk_base := ?base, wk_running := Some ?base, wk_bare_opened := False, wk_opener := None,
           wk_opinion := rn_opinion r\<rparr> else w)"
  define w2 where "w2 = (case wk_pending w1 of None \<Rightarrow> w1 | Some prefix \<Rightarrow> (apply_byline U prefix w1)\<lparr>wk_pending := None\<rparr>)"
  define w3 where "w3 = open_at (rn_start r + length (takeWhile (uc_space U) ?content)) (the (wk_running w2)) None w2"
  have w1: "walking n w1" using assms(1) base_typing_typed by (auto simp: w1_def walking_def)
  then have w2: "walking n w2"
    using apply_byline_walking [OF w1] by (auto simp: w2_def walking_def split: option.split)
  have "rn_start r + length (takeWhile (uc_space U) ?content) < n"
    using takeWhile_in_run [OF False] assms(2,3) by simp
  with w2 have w3: "walking n w3" unfolding w3_def by (rule walking_open)
  have "walking n (fold (walk_paragraph U quotes r) (takeWhile (\<lambda>p. par_start p < rn_end r)
      (drop (bisect_left (map par_start rows) (rn_start r)) rows)) w3)"
    using w3 assms(4)
    by (intro fold_keeps [where I = "walking n"] walk_paragraph_walking) (auto dest!: set_takeWhileD in_set_dropD)
  then show ?thesis
    using False unfolding walk_content_def Let_def w3_def w2_def w1_def by (simp add: walking_def)
qed (use assms(1) in \<open>simp add: walk_content_def\<close>)

lemma walk_span_ok:
  assumes "walk_ok n w" "n = length (pd_text P)" "rn_end r \<le> n" "i < length spans"
    and "\<forall>sp \<in> set spans. typed (tx_section_type sp, tx_typed_by sp)"
  shows "walk_ok n (walk_span U P spans r i w)"
proof -
  from assms(4,5) have "typed (tx_section_type (spans ! i), tx_typed_by (spans ! i))" by simp
  with assms(1,3) show ?thesis unfolding walk_span_def Let_def by auto
qed

definition span_typed :: "text_span \<Rightarrow> bool" where
  "span_typed sp \<longleftrightarrow> typed (tx_section_type sp, tx_typed_by sp)"

lemma span_typed_of [simp]: "span_typed (text_span_of a b k l) = typed k"
  by (simp add: span_typed_def text_span_of_def)

lemma lawbox_notes_typed: "list_all span_typed (lawbox_notes U stop in_notes open_note ps)"
  by (induction ps arbitrary: in_notes open_note) (auto split: option.split)

lemma merge_headmatter_typed:
  "list_all span_typed merged \<Longrightarrow> list_all span_typed sps \<Longrightarrow> list_all span_typed (merge_headmatter U t merged sps)"
proof (induction sps arbitrary: merged)
  case (Cons sp sps)
  have "list_all span_typed (if b then butlast merged @ [text_span_of s e (''headmatter'', ''markup'') None] else merged @ [sp])"
    for b s e using Cons.prems by (auto simp: list_all_iff dest: in_set_butlastD)
  from Cons.IH [OF this] Cons.prems(2) show ?case unfolding merge_headmatter.simps by simp
qed simp

lemma structural_typed: "list_all span_typed (structural U P column rows)"
proof -
  define s0 where "s0 = block_spans P @
    (if column = ulit ''html_lawbox'' then lawbox_notes U (length (pd_text P)) False None rows else [])"
  have "list_all span_typed (block_spans P)" by (auto simp: block_spans_def list_all_iff)
  then have s0: "list_all span_typed s0" by (simp add: s0_def lawbox_notes_typed)
  have retyped: "list_all span_typed (case b of None \<Rightarrow> s0 | Some x \<Rightarrow>
      map (\<lambda>sp. if q x sp then sp\<lparr>tx_section_type := ''unknown'', tx_typed_by := ''none''\<rparr> else sp) s0)"
    for q :: "text_paragraph \<Rightarrow> text_span \<Rightarrow> bool" and b
    using s0 by (auto simp: list_all_iff span_typed_def split: option.split)
  have sorted: "list_all span_typed (sort_key tx_bounds (xs @ map (\<lambda>p. text_span_of (par_start p) (par_end p)
      (''headmatter'', ''line'') None) ps))" if "list_all span_typed xs" for xs ps
    using that by (auto simp: list_all_iff)
  show ?thesis
    unfolding structural_def Let_def s0_def [symmetric]
    by (rule merge_headmatter_typed [OF _ sorted [OF retyped]]) simp
qed

lemma segment_openings_ok:
  assumes "iterates order"
  shows "list_all (cut_ok (length (pd_text P))) (segment_openings order U P opinion_type per_curiam column)"
proof -
  let ?n = "length (pd_text P)"
  let ?rows = "paragraphs U (pd_text P) 0 ?n"
  let ?spans = "structural U P column ?rows"
  let ?opinions = "filter (\<lambda>b. bk_kind b = ''opinion'') (pd_blocks P)"
  have rows: "\<forall>p \<in> set ?rows. par_start p < ?n"
    using paragraphs_from_ordered by (fastforce simp: paragraphs_def)
  have spans: "\<forall>sp \<in> set ?spans. typed (tx_section_type sp, tx_typed_by sp)"
    using structural_typed by (simp add: list_all_iff span_typed_def)
  have "walk_ok ?n (fold (walk_run U P opinion_type per_curiam ?spans ?opinions ?rows quotes)
      (text_runs order (pd_text P) ?spans ?opinions) (new_walk column))" for quotes
  proof (rule fold_keeps)
    fix r w assume "r \<in> set (text_runs order (pd_text P) ?spans ?opinions)" "walk_ok ?n w"
    with text_runs_in [OF assms] have "run_in ?n (length ?spans) r" by blast
    with walk_content_ok [OF \<open>walk_ok ?n w\<close> refl _ rows] walk_span_ok [OF \<open>walk_ok ?n w\<close> refl _ _ spans]
    show "walk_ok ?n (walk_run U P opinion_type per_curiam ?spans ?opinions ?rows quotes r w)"
      by (simp add: walk_run_def run_in_def split: option.splits)
  qed (simp add: walk_ok_def new_walk_def page_ok_def new_page_state_def)
  then show ?thesis by (simp add: segment_openings_def Let_def walk_ok_def)
qed

section \<open>Sections tile the text\<close>

definition sc_typed :: "text_section \<Rightarrow> bool" where
  "sc_typed s \<longleftrightarrow> typed (sc_section_type s, sc_typed_by s)"

definition keep_opening :: "cut list \<Rightarrow> cut \<Rightarrow> cut list" where
  "keep_opening kept c = (if kept \<noteq> [] \<and> fst c = fst (last kept) then butlast kept @ [c] else kept @ [c])"

lemma keep_openings:
  "sorted (map fst cs) \<Longrightarrow> sorted_wrt (<) (map fst kept) \<Longrightarrow> kept \<noteq> [] \<Longrightarrow> \<forall>c \<in> set cs. fst (last kept) \<le> fst c \<Longrightarrow>
     sorted_wrt (<) (map fst (foldl keep_opening kept cs)) \<and> foldl keep_opening kept cs \<noteq> [] \<and>
     set (foldl keep_opening kept cs) \<subseteq> set kept \<union> set cs"
proof (induction cs arbitrary: kept)
  case (Cons c cs)
  let ?k = "keep_opening kept c"
  obtain ys l where kept: "kept = ys @ [l]" using Cons.prems(3) by (cases kept rule: rev_cases) auto
  have k: "?k \<noteq> []" "fst (last ?k) = fst c" "set ?k \<subseteq> set kept \<union> {c}"
    by (auto simp: keep_opening_def kept)
  have "sorted_wrt (<) (map fst ?k)"
    using Cons.prems(2,4) by (auto simp: keep_opening_def kept sorted_wrt_append)
  with Cons.IH [of ?k] Cons.prems(1) k show ?case by auto
qed simp

lemma distinct_openings_ok:
  assumes "cs \<noteq> []"
  shows "sorted_wrt (<) (map fst (distinct_openings cs)) \<and> distinct_openings cs \<noteq> [] \<and> set (distinct_openings cs) \<subseteq> set cs"
proof -
  from assms have "sort_key fst cs \<noteq> []" by (metis set_empty set_sort)
  then obtain d ds where ds: "sort_key fst cs = d # ds" by (cases "sort_key fst cs") auto
  have "sorted (map fst (d # ds))" unfolding ds [symmetric] by (rule sorted_sort_key)
  then have "sorted (map fst ds)" "\<forall>c \<in> set ds. fst (last [d]) \<le> fst c" by auto
  from keep_openings [OF this(1) _ _ this(2)] have
    "sorted_wrt (<) (map fst (foldl keep_opening [d] ds)) \<and> foldl keep_opening [d] ds \<noteq> [] \<and>
     set (foldl keep_opening [d] ds) \<subseteq> set cs"
    using arg_cong [OF ds, of set] by auto
  moreover have "distinct_openings cs = foldl keep_opening [d] ds"
    unfolding distinct_openings_def ds keep_opening_def [abs_def] by (simp add: keep_opening_def)
  ultimately show ?thesis by simp
qed

lemma cut_sections_tile:
  "sorted_wrt (<) (map fst cs) \<Longrightarrow> cs \<noteq> [] \<Longrightarrow> \<forall>c \<in> set cs. fst c < n \<Longrightarrow>
     tiles (map sc_bounds (cut_sections n cs)) (fst (hd cs)) n"
proof (induction cs)
  case (Cons c cs)
  obtain s k b l where c: "c = (s, k, b, l)" by (metis prod.collapse)
  show ?case
  proof (cases cs)
    case Nil
    with Cons.prems c show ?thesis by (simp add: sc_bounds_def)
  next
    case (Cons d ds)
    with Cons.prems Cons.IH c show ?thesis by (simp add: sc_bounds_def)
  qed
qed simp

lemma cut_sections_typed:
  "\<forall>c \<in> set cs. typed (fst (snd c), fst (snd (snd c))) \<Longrightarrow>
     list_all (\<lambda>s. sc_typed s \<and> sc_ref_offset s = None \<and> sc_parent s = None) (cut_sections n cs)"
  by (induction cs) (auto simp: Let_def sc_typed_def split: prod.split)

lemma tiles_nonempty: "tiles (map sc_bounds ss) a b \<Longrightarrow> list_all (\<lambda>s. sc_char_start s < sc_char_end s) ss"
  by (induction ss arbitrary: a) (auto simp: sc_bounds_def)

lemma finalize_ok:
  assumes "t \<noteq> []" "list_all (cut_ok (length t)) cs"
  shows "\<exists>secs. finalize t cs = Inr secs \<and> tiles (map sc_bounds secs) 0 (length t) \<and>
    list_all (\<lambda>s. sc_typed s \<and> sc_ref_offset s = None \<and> sc_parent s = None) secs"
proof -
  let ?n = "length t"
  let ?cs = "if cs = [] then [(0, ''unknown'', ''none'', None)] else cs"
  let ?kept = "distinct_openings ?cs"
  have all: "\<forall>c \<in> set ?cs. cut_ok ?n c" using assms by (auto simp: cut_ok_def list_all_iff)
  have d: "sorted_wrt (<) (map fst ?kept)" "?kept \<noteq> []" "set ?kept \<subseteq> set ?cs"
    using distinct_openings_ok [of ?cs] by auto
  then obtain c kept where kept: "?kept = c # kept" by (cases ?kept) auto
  let ?cuts = "(0, snd c) # kept"
  have cuts: "sorted_wrt (<) (map fst ?cuts)" "\<forall>c \<in> set ?cuts. fst c < ?n"
    "\<forall>c \<in> set ?cuts. typed (fst (snd c), fst (snd (snd c)))"
  proof -
    have sub: "set (c # kept) \<subseteq> set ?cs" using d(3) unfolding kept .
    have sorted: "sorted_wrt (<) (map fst (c # kept))" using d(1) unfolding kept .
    then show "sorted_wrt (<) (map fst ?cuts)" by auto
    have "cut_ok ?n x" if "x \<in> set (c # kept)" for x using sub all that by blast
    then show "\<forall>c \<in> set ?cuts. fst c < ?n" "\<forall>c \<in> set ?cuts. typed (fst (snd c), fst (snd (snd c)))"
      using assms(1) by (auto simp: cut_ok_def)
  qed
  let ?secs = "cut_sections ?n ?cuts"
  from cut_sections_tile [OF cuts(1) _ cuts(2)] have tile: "tiles (map sc_bounds ?secs) 0 ?n" by simp
  have "0 < ?n" using assms(1) by simp
  with tiles_ends [OF tile] tiles_contiguous [OF tile] tiles_nonempty [OF tile] have "finalize t cs = Inr ?secs"
    using assms(1) by (simp only: finalize_def Let_def kept list.sel if_False simp_thms if_True)
  with tile cut_sections_typed [OF cuts(3)] show ?thesis by blast
qed

section \<open>Footnote references\<close>

lemma resolve_from_bounds:
  "map (\<lambda>s. (sc_bounds s, sc_section_type s, sc_typed_by s, sc_label s)) (resolve_from U secs marks ss) =
   map (\<lambda>s. (sc_bounds s, sc_section_type s, sc_typed_by s, sc_label s)) ss"
  by (induction ss arbitrary: marks) (auto simp: Let_def sc_bounds_def split: option.split)

lemma resolve_from_ref:
  "s \<in> set (resolve_from U secs marks ss) \<Longrightarrow> sc_ref_offset s = Some k \<Longrightarrow> list_all (\<lambda>s. sc_ref_offset s = None) ss \<Longrightarrow>
     sc_section_type s = ''footnote'' \<and> (label_key U (sc_label s), k) \<in> set marks \<and> sc_parent s = parent_of secs k"
proof (induction ss arbitrary: marks)
  case (Cons x ss)
  show ?case
  proof (cases "s \<in> set (resolve_from U secs marks ss)")
    case True
    from Cons.IH [OF this] Cons.prems show ?thesis by simp
  next
    case False
    show ?thesis
    proof (cases "sc_section_type x \<noteq> ''footnote'' \<or> sc_label x = None \<or> sc_label x = Some []")
      case True
      with Cons.prems False show ?thesis by auto
    next
      case foot: False
      show ?thesis
      proof (cases "map_of marks (label_key U (sc_label x))")
        case None
        with foot Cons.prems False show ?thesis by auto
      next
        case (Some off)
        let ?m = "remove1 (label_key U (sc_label x), off) marks"
        have "resolve_from U secs marks (x # ss) =
            x\<lparr>sc_ref_offset := Some off, sc_parent := parent_of secs off\<rparr> # resolve_from U secs ?m ss"
          unfolding resolve_from.simps Let_def using foot Some by (simp only: if_False option.case)
        with Cons.prems(1) have "s = x\<lparr>sc_ref_offset := Some off, sc_parent := parent_of secs off\<rparr> \<or>
            s \<in> set (resolve_from U secs ?m ss)" by simp
        then show ?thesis
        proof
          assume "s = x\<lparr>sc_ref_offset := Some off, sc_parent := parent_of secs off\<rparr>"
          with foot Some Cons.prems(2) show ?thesis by (auto dest: map_of_SomeD)
        next
          assume "s \<in> set (resolve_from U secs ?m ss)"
          from Cons.IH [OF this Cons.prems(2)] Cons.prems(3) show ?thesis
            using set_remove1_subset [of "(label_key U (sc_label x), off)" marks] by auto
        qed
      qed
    qed
  qed
qed simp

lemma segment_ok:
  assumes "iterates order"
  obtains secs where
    "segment order U P opinion_type per_curiam column = Inr (resolve_from U secs (footnote_marks U P secs) secs)"
    "tiles (map sc_bounds secs) 0 (length (pd_text P))"
    "list_all (\<lambda>s. sc_typed s \<and> sc_ref_offset s = None \<and> sc_parent s = None) secs"
proof (cases "pd_text P = []")
  case True
  with that [of "[]"] show thesis by (simp add: segment_def)
next
  case False
  from finalize_ok [OF False segment_openings_ok [OF assms]] obtain secs where
    secs: "finalize (pd_text P) (segment_openings order U P opinion_type per_curiam column) = Inr secs"
    "tiles (map sc_bounds secs) 0 (length (pd_text P))"
    "list_all (\<lambda>s. sc_typed s \<and> sc_ref_offset s = None \<and> sc_parent s = None) secs" by blast
  let ?r = "resolve_from U secs (footnote_marks U P secs) secs"
  have "map sc_bounds ?r = map fst (map (\<lambda>s. (sc_bounds s, sc_section_type s, sc_typed_by s, sc_label s)) ?r)" by simp
  also have "\<dots> = map sc_bounds secs" unfolding resolve_from_bounds by simp
  finally have tile: "tiles (map sc_bounds ?r) 0 (length (pd_text P))" using secs(2) by simp
  have "0 < length (pd_text P)" using False by simp
  with tiles_ends [OF tile] tiles_contiguous [OF tile] have
    "segment order U P opinion_type per_curiam column = Inr ?r"
    using False secs(1) by (simp only: segment_def Let_def if_False bind_result.simps simp_thms if_True)
  with that secs show thesis by blast
qed

lemma segment_tiles:
  assumes "iterates order"
  shows "\<exists>secs. segment order U P opinion_type per_curiam column = Inr secs \<and>
    tiles (map sc_bounds secs) 0 (length (pd_text P))"
proof -
  from segment_ok [OF assms] obtain cut where
    cut: "segment order U P opinion_type per_curiam column = Inr (resolve_from U cut (footnote_marks U P cut) cut)"
    "tiles (map sc_bounds cut) 0 (length (pd_text P))" by blast
  have "map sc_bounds (resolve_from U cut (footnote_marks U P cut) cut) = map sc_bounds cut"
    using arg_cong [OF resolve_from_bounds, of "map fst"] by (simp add: o_def)
  with cut show ?thesis by simp
qed

lemma parent_of_some:
  assumes "tiles (map sc_bounds secs) 0 n" "k < n"
    and "\<not> list_ex (\<lambda>(s, e). s \<le> k \<and> k < e) (section_ranges secs)"
  shows "\<exists>i. parent_of secs k = Some i \<and> i < length secs \<and> sc_section_type (secs ! i) \<noteq> ''footnote'' \<and>
    sc_char_start (secs ! i) \<le> k \<and> k < sc_char_end (secs ! i)"
proof -
  from tiles_cover [OF assms(1) _ assms(2)] obtain i where i: "i < length secs" "sc_char_start (secs ! i) \<le> k" "k < sc_char_end (secs ! i)"
    by (auto simp: sc_bounds_def in_set_conv_nth)
  with assms(3) have "sc_section_type (secs ! i) \<noteq> ''footnote''"
    by (force simp: section_ranges_def list_ex_iff)
  with i have "parent_of secs k \<noteq> None" unfolding parent_of_def find_None_iff by auto
  then obtain j where j: "parent_of secs k = Some j" by auto
  then show ?thesis by (auto simp: parent_of_def find_Some_iff)
qed

section \<open>Properties\<close>

text \<open>C17: segmenting never fails an assertion: the sections it returns tile the whole text, in order and
  none of them empty, and each carries a declared type and a declared origin.\<close>

theorem segment_sections_tile:
  assumes "iterates order"
  shows "\<exists>secs. segment order U P opinion_type per_curiam column = Inr secs \<and>
    tiles (map sc_bounds secs) 0 (length (pd_text P)) \<and>
    list_all (\<lambda>s. sc_section_type s \<in> set SECTION_TYPES \<and> sc_typed_by s \<in> set TYPED_BY) secs"
proof -
  from segment_ok [OF assms] obtain secs where
    secs: "segment order U P opinion_type per_curiam column = Inr (resolve_from U secs (footnote_marks U P secs) secs)"
    "tiles (map sc_bounds secs) 0 (length (pd_text P))" "list_all sc_typed secs"
    by (metis (no_types, lifting) list.pred_mono_strong)
  let ?r = "resolve_from U secs (footnote_marks U P secs) secs"
  have same: "map sc_bounds ?r = map sc_bounds secs" "map (\<lambda>s. (sc_section_type s, sc_typed_by s)) ?r =
      map (\<lambda>s. (sc_section_type s, sc_typed_by s)) secs"
    using arg_cong [OF resolve_from_bounds, of "map fst"]
      arg_cong [OF resolve_from_bounds, of "map (\<lambda>(a, b, c, d). (b, c))"] by (simp_all add: o_def)
  have "list_all typed (map (\<lambda>s. (sc_section_type s, sc_typed_by s)) ?r)"
    unfolding same(2) using secs(3) by (auto simp: list_all_iff sc_typed_def)
  with secs(1,2) same(1) show ?thesis by (auto simp: list_all_iff typed_def)
qed

text \<open>C18: a footnote's reference is the place of a mark that carries its label and lies outside every
  footnote; where the mark lies in the text, the parent is the section, not a footnote, that holds it.\<close>

theorem segment_references:
  assumes "iterates order"
    and "segment order U P opinion_type per_curiam column = Inr secs"
    and "s \<in> set secs" and "sc_ref_offset s = Some k"
  shows "sc_section_type s = ''footnote'' \<and>
    (\<exists>m \<in> set (pd_markers P). mk_kind m = ''footnote-mark'' \<and> mk_offset m = k \<and>
       label_key U (Some (mk_label m)) = label_key U (sc_label s)) \<and>
    list_all (\<lambda>f. sc_section_type f = ''footnote'' \<longrightarrow> \<not> (sc_char_start f \<le> k \<and> k < sc_char_end f)) secs \<and>
    (k < length (pd_text P) \<longrightarrow>
       (\<exists>i < length secs. sc_parent s = Some i \<and> sc_section_type (secs ! i) \<noteq> ''footnote'' \<and>
          sc_char_start (secs ! i) \<le> k \<and> k < sc_char_end (secs ! i)))"
proof -
  from segment_ok [OF assms(1)] obtain cut where
    cut: "segment order U P opinion_type per_curiam column = Inr (resolve_from U cut (footnote_marks U P cut) cut)"
    "tiles (map sc_bounds cut) 0 (length (pd_text P))" "list_all (\<lambda>s. sc_ref_offset s = None) cut"
    by (metis (no_types, lifting) list.pred_mono_strong)
  with assms(2) have secs: "secs = resolve_from U cut (footnote_marks U P cut) cut" by simp
  from resolve_from_ref [OF assms(3) [unfolded secs] assms(4) cut(3)] have
    s: "sc_section_type s = ''footnote''" "(label_key U (sc_label s), k) \<in> set (footnote_marks U P cut)"
    "sc_parent s = parent_of cut k" by auto
  then obtain m where m: "m \<in> set (pd_markers P)" "mk_kind m = ''footnote-mark''" "mk_offset m = k"
    "label_key U (Some (mk_label m)) = label_key U (sc_label s)"
    "\<not> list_ex (\<lambda>(s, e). s \<le> k \<and> k < e) (section_ranges cut)"
    by (auto simp: footnote_marks_def)
  let ?view = "\<lambda>s. (sc_bounds s, sc_section_type s, sc_typed_by s, sc_label s)"
  have view: "map ?view secs = map ?view cut" unfolding secs by (rule resolve_from_bounds)
  then have len: "length secs = length cut" using map_eq_imp_length_eq by blast
  have nth: "sc_bounds (secs ! i) = sc_bounds (cut ! i) \<and> sc_section_type (secs ! i) = sc_section_type (cut ! i)"
    if "i < length secs" for i
    using arg_cong [OF view, of "\<lambda>xs. xs ! i"] that len by simp
  have outside: "\<not> (sc_char_start f \<le> k \<and> k < sc_char_end f)" if "f \<in> set secs" "sc_section_type f = ''footnote''" for f
  proof -
    from that(1) obtain i where i: "i < length secs" "f = secs ! i" by (auto simp: in_set_conv_nth)
    with nth [OF i(1)] len that(2) have "cut ! i \<in> set cut" "sc_section_type (cut ! i) = ''footnote''"
      "sc_bounds f = sc_bounds (cut ! i)" by auto
    with m(5) show ?thesis by (force simp: section_ranges_def list_ex_iff sc_bounds_def)
  qed
  have "\<exists>i < length secs. sc_parent s = Some i \<and> sc_section_type (secs ! i) \<noteq> ''footnote'' \<and>
      sc_char_start (secs ! i) \<le> k \<and> k < sc_char_end (secs ! i)" if "k < length (pd_text P)"
    using parent_of_some [OF cut(2) that m(5)] s(3) nth len by (fastforce simp: sc_bounds_def)
  with s(1) m(1-4) outside show ?thesis by (auto simp: list_all_iff)
qed

text \<open>A body with a note: the note's mark stands after the body's word.\<close>

definition noted :: parsed where
  "noted = \<lparr>pd_text = ulit ''Body.'' @ [10, 10] @ ulit ''1. Note'',
     pd_markers = [\<lparr>mk_kind = ''footnote-mark'', mk_label = ulit ''1'', mk_offset = 4, mk_attrs = []\<rparr>],
     pd_blocks = [\<lparr>bk_kind = ''footnote'', bk_label = [], bk_start = 7, bk_end = 14\<rparr>]\<rparr>"

definition noted_sections :: "text_section list" where
  "noted_sections =
     [\<lparr>sc_section_type = ''majority'', sc_typed_by = ''row'', sc_char_start = 0, sc_char_end = 7, sc_label = None,
       sc_ref_offset = None, sc_parent = None\<rparr>,
      \<lparr>sc_section_type = ''footnote'', sc_typed_by = ''markup'', sc_char_start = 7, sc_char_end = 14,
       sc_label = Some (ulit ''1.''), sc_ref_offset = Some 4, sc_parent = Some 0\<rparr>]"

lemma noted_segmented:
  "segment sorted_list_of_set ascii_ucd noted (Some (ulit ''020lead'')) False (ulit ''html'') = Inr noted_sections"
  by code_simp

lemma iterates_ascending: "iterates sorted_list_of_set"
  by (simp add: iterates_def)

theorem segment_sections_tile_witness:
  "\<exists>secs. segment sorted_list_of_set ascii_ucd noted None True (ulit ''html'') = Inr secs \<and>
     tiles (map sc_bounds secs) 0 (length (pd_text noted))"
  using segment_sections_tile [OF iterates_ascending, of ascii_ucd noted None True "ulit ''html''"] by blast

theorem segment_references_witness:
  "(\<exists>m \<in> set (pd_markers noted). mk_kind m = ''footnote-mark'' \<and> mk_offset m = 4) \<and>
   (\<exists>i < length noted_sections. sc_parent (noted_sections ! 1) = Some i \<and>
      sc_section_type (noted_sections ! i) = ''majority'')"
  using segment_references [OF iterates_ascending noted_segmented, of "noted_sections ! 1" 4]
  by (simp add: noted_sections_def noted_def)

end
