(* ===== verification/Worker_Anchors.thy ===== *)
theory Worker_Anchors
  imports Worker_Sections "HOL-Library.List_Lexorder" "HOL-Library.Multiset" "HOL-Library.Code_Target_Nat"
begin

text \<open>
  \<open>gideon/worker/anchors.py\<close>: the page turns a source prints become labelled spans of the text, one row from
  each turn to the next in its pagination scheme. The body's pages run on across its footnotes, and each
  footnote is anchored alone. The assertions of the code are errors here.
\<close>

section \<open>Data\<close>

definition ANCHOR_KINDS :: "string list" where
  "ANCHOR_KINDS = [''reporter_page'', ''pdf_page'', ''bates'', ''tr_page'', ''tr_line'', ''uslm_id'', ''guideline_id'']"

record text_anchor =
  an_kind :: string
  an_label :: ustr
  an_char_start :: nat
  an_char_end :: nat
  an_attrs :: "(ustr \<times> ustr) list"

record anchoring =
  ag_anchors :: "text_anchor list"
  ag_pgmap_checked :: nat
  ag_pgmap_disagreeing :: nat

section \<open>Schemes\<close>

definition dict_get :: "(ustr \<times> ustr) list \<Rightarrow> string \<Rightarrow> ustr option" where  \<comment> \<open>\<open>dict(attrs).get(name)\<close>\<close>
  "dict_get attrs name = map_of (rev attrs) (ulit name)"

definition scheme_of :: "marker \<Rightarrow> ustr" where
  "scheme_of m =
     (case find (\<lambda>name. dict_get (mk_attrs m) name \<noteq> None) [''pagescheme'', ''citation_index'', ''stars''] of
        Some name \<Rightarrow> the (dict_get (mk_attrs m) name)
      | None \<Rightarrow> ulit ''1'')"

definition inside_block :: "block \<Rightarrow> marker \<Rightarrow> bool" where
  "inside_block b m = (bk_start b < mk_offset m \<and> mk_offset m < bk_end b)"

definition anchor_attrs :: "marker \<Rightarrow> parsed \<Rightarrow> (ustr \<times> ustr) list" where
  "anchor_attrs m P =
     (let attrs = mk_attrs m @ [(ulit ''scheme'', scheme_of m)];
          containing = filter (\<lambda>b. bk_kind b = ''pagemap'' \<and> inside_block b m) (pd_blocks P)
      in case least_by (\<lambda>b. bk_end b - bk_start b) containing of
           Some nearest \<Rightarrow> attrs @ [(ulit ''pgmap'', bk_label nearest)]
         | None \<Rightarrow> attrs)"

section \<open>Regions\<close>

definition join_body :: "span list \<Rightarrow> span \<Rightarrow> span list" where
  "join_body body sp =
     (if body \<noteq> [] \<and> snd (last body) = fst sp then butlast body @ [(fst (last body), snd sp)] else body @ [sp])"

primrec body_spans :: "span list \<Rightarrow> text_section list \<Rightarrow> span list" where
  "body_spans body [] = body"
| "body_spans body (s # ss) =
     (if sc_section_type s = ''footnote'' then body_spans body ss
      else body_spans (join_body body (sc_char_start s, sc_char_end s)) ss)"

definition regions :: "text_section list \<Rightarrow> span list list" where
  "regions secs = body_spans [] secs #
     map (\<lambda>s. [(sc_char_start s, sc_char_end s)]) (filter (\<lambda>s. sc_section_type s = ''footnote'') secs)"

section \<open>Rows\<close>

definition page_row :: "parsed \<Rightarrow> marker \<Rightarrow> nat \<Rightarrow> nat \<Rightarrow> text_anchor" where
  "page_row P m a b = \<lparr>an_kind = ''reporter_page'', an_label = mk_label m, an_char_start = a, an_char_end = b,
     an_attrs = anchor_attrs m P\<rparr>"

text \<open>The turns of one scheme in one span: the rows, the last turn's place and the last turn.\<close>

primrec turn_rows ::
    "parsed \<Rightarrow> nat \<Rightarrow> marker option \<Rightarrow> marker list \<Rightarrow> text_anchor list \<times> nat \<times> marker option" where
  "turn_rows P cursor current [] = ([], cursor, current)"
| "turn_rows P cursor current (m # ms) =
     (case turn_rows P (mk_offset m) (Some m) ms of
        (rows, last_cursor, last_turn) \<Rightarrow>
          ((case current of
              Some c \<Rightarrow> if cursor < mk_offset m then [page_row P c cursor (mk_offset m)] else []
            | None \<Rightarrow> []) @ rows, last_cursor, last_turn))"

definition rows_adjoin :: "text_anchor list \<Rightarrow> bool" where
  "rows_adjoin rows = list_all (\<lambda>(l, r). an_char_end l = an_char_start r) (zip rows (tl rows))"

definition scheme_rows ::
    "parsed \<Rightarrow> span \<Rightarrow> marker list \<Rightarrow> marker option \<Rightarrow> (text_anchor list \<times> marker) result" where
  "scheme_rows P sp turns running =
     (if running = None \<and> turns = [] then Inl ''IndexError''
      else
        (let cursor = (if running \<noteq> None then fst sp else mk_offset (hd turns))
         in case turn_rows P cursor running turns of
              (rows, last_cursor, last_turn) \<Rightarrow>
                (case last_turn of
                   None \<Rightarrow> Inl ''AssertionError''
                 | Some m \<Rightarrow>
                     (let tiled = rows @ (if last_cursor < snd sp then [page_row P m last_cursor (snd sp)] else [])
                      in if tiled \<noteq> [] \<and> an_char_start (hd tiled) = cursor \<and> an_char_end (last tiled) = snd sp \<and>
                           rows_adjoin tiled
                         then Inr (tiled, m) else Inl ''AssertionError''))))"

type_synonym running = "(ustr \<times> marker) list"

definition scheme_turns :: "marker list \<Rightarrow> span \<Rightarrow> ustr \<Rightarrow> marker list" where
  "scheme_turns markers sp scheme =
     filter (\<lambda>m. fst sp \<le> mk_offset m \<and> mk_offset m < snd sp \<and> scheme_of m = scheme) markers"

definition put_running :: "ustr \<Rightarrow> marker \<Rightarrow> running \<Rightarrow> running" where
  "put_running scheme m running = (scheme, m) # filter (\<lambda>x. fst x \<noteq> scheme) running"

primrec span_rows ::
    "parsed \<Rightarrow> marker list \<Rightarrow> span \<Rightarrow> ustr list \<Rightarrow> running \<Rightarrow> (text_anchor list \<times> running) result" where
  "span_rows P markers sp [] running = Inr ([], running)"
| "span_rows P markers sp (s # ss) running =
     bind_result (scheme_rows P sp (scheme_turns markers sp s) (map_of running s)) (\<lambda>(tiled, m).
       map_result (\<lambda>(rows, r). (tiled @ rows, r)) (span_rows P markers sp ss (put_running s m running)))"

definition span_schemes :: "marker list \<Rightarrow> span \<Rightarrow> running \<Rightarrow> ustr list" where
  "span_schemes markers sp running =
     sort (remdups (map fst running @
       map scheme_of (filter (\<lambda>m. fst sp \<le> mk_offset m \<and> mk_offset m < snd sp) markers)))"

primrec page_rows ::
    "parsed \<Rightarrow> marker list \<Rightarrow> running \<Rightarrow> span list \<Rightarrow> text_anchor list result" where
  "page_rows P markers running [] = Inr []"
| "page_rows P markers running (sp # sps) =
     bind_result (span_rows P markers sp (span_schemes markers sp running) running) (\<lambda>(rows, r).
       map_result ((@) rows) (page_rows P markers r sps))"

definition row_scheme :: "text_anchor \<Rightarrow> ustr" where
  "row_scheme r = the (dict_get (an_attrs r) ''scheme'')"

definition row_bounds :: "text_anchor \<Rightarrow> span" where
  "row_bounds r = (an_char_start r, an_char_end r)"

definition rows_ordered :: "text_anchor list \<Rightarrow> bool" where
  "rows_ordered rows = list_all (\<lambda>(l, r). an_char_start l \<le> an_char_start r) (zip rows (tl rows))"

definition rows_apart :: "text_anchor list \<Rightarrow> bool" where
  "rows_apart rows = list_all (\<lambda>(l, r). an_char_end l \<le> an_char_start r) (zip rows (tl rows))"

definition pgmap_disagrees :: "marker list \<Rightarrow> block \<Rightarrow> ucd \<Rightarrow> bool" where
  "pgmap_disagrees markers b U =
     (int (length (split_words (uc_space U) (bk_label b))) - 1 \<noteq>
        int (length (filter (\<lambda>m. inside_block b m \<and> scheme_of m = ulit ''1'') markers)))"

definition anchor :: "ucd \<Rightarrow> parsed \<Rightarrow> text_section list \<Rightarrow> anchoring result" where
  "anchor U P secs =
     (let n = length (pd_text P); markers = filter (\<lambda>m. mk_kind m = ''page'') (pd_markers P);
          tiled = (if secs = [] then n = 0
                   else sc_char_start (hd secs) = 0 \<and> sc_char_end (last secs) = n \<and> contiguous secs)
      in if \<not> tiled then Inl ''AssertionError''
         else bind_result (collect_results (map (page_rows P markers []) (regions secs))) (\<lambda>found.
           let rows = sort_key (\<lambda>r. (an_char_start r, row_scheme r)) (concat found);
               pagemaps = filter (\<lambda>b. bk_kind b = ''pagemap'') (pd_blocks P)
           in if list_all (\<lambda>r. an_char_start r < an_char_end r \<and> an_char_end r \<le> n) rows \<and> rows_ordered rows \<and>
                list_all (\<lambda>s. rows_apart (filter (\<lambda>r. row_scheme r = s) rows)) (remdups (map row_scheme rows))
              then Inr \<lparr>ag_anchors = rows, ag_pgmap_checked = length pagemaps,
                        ag_pgmap_disagreeing = length (filter (\<lambda>b. pgmap_disagrees markers b U) pagemaps)\<rparr>
              else Inl ''AssertionError''))"

definition intersecting :: "text_anchor list \<Rightarrow> nat \<Rightarrow> nat \<Rightarrow> text_anchor list" where
  "intersecting anchors start stop = filter (\<lambda>r. an_char_start r < stop \<and> start < an_char_end r) anchors"

section \<open>The rows of one scheme in one span\<close>

text \<open>A row of a list of turns: it carries the last of them before its end.\<close>

definition row_of_turns :: "parsed \<Rightarrow> marker list \<Rightarrow> text_anchor \<Rightarrow> bool" where
  "row_of_turns P turns r \<longleftrightarrow> an_char_start r < an_char_end r \<and>
     (\<exists>pre m post. turns = pre @ m # post \<and> r = page_row P m (an_char_start r) (an_char_end r) \<and>
        mk_offset m \<le> an_char_start r \<and> (\<forall>x \<in> set post. an_char_end r \<le> mk_offset x))"

lemma row_of_turns_Cons: "row_of_turns P turns r \<Longrightarrow> row_of_turns P (xs @ turns) r"
  unfolding row_of_turns_def by (metis append.assoc)

lemma row_of_turns_later:
  assumes "row_of_turns P turns r" "\<forall>x \<in> set later. an_char_end r \<le> mk_offset x"
  shows "row_of_turns P (turns @ later) r"
proof -
  from assms(1) obtain pre m post where m: "turns = pre @ m # post" "r = page_row P m (an_char_start r) (an_char_end r)"
    "mk_offset m \<le> an_char_start r" "\<forall>x \<in> set post. an_char_end r \<le> mk_offset x" "an_char_start r < an_char_end r"
    unfolding row_of_turns_def by blast
  then have "turns @ later = pre @ m # (post @ later)" "\<forall>x \<in> set (post @ later). an_char_end r \<le> mk_offset x"
    using assms(2) by auto
  with m show ?thesis unfolding row_of_turns_def by blast
qed

lemma page_row_select [simp]:
  "an_char_start (page_row P m a b) = a" "an_char_end (page_row P m a b) = b" "row_bounds (page_row P m a b) = (a, b)"
  by (simp_all add: page_row_def row_bounds_def)

lemma row_scheme_page_row [simp]: "row_scheme (page_row P m a b) = scheme_of m"
proof -
  have "dict_get (mk_attrs m @ [(ulit ''scheme'', scheme_of m)]) ''scheme'' = Some (scheme_of m)"
    "dict_get ((mk_attrs m @ [(ulit ''scheme'', scheme_of m)]) @ [(ulit ''pgmap'', x)]) ''scheme'' = Some (scheme_of m)"
    for x by (simp_all add: dict_get_def)
  then show ?thesis
    by (simp add: row_scheme_def page_row_def anchor_attrs_def Let_def split: option.split)
qed

lemma turn_rows_ok:
  "sorted (cursor # map mk_offset turns) \<Longrightarrow> mk_offset c \<le> cursor \<Longrightarrow>
     \<exists>rows stop. turn_rows P cursor (Some c) turns = (rows, stop, Some (last (c # turns))) \<and>
       tiles (map row_bounds rows) cursor stop \<and> stop = last (cursor # map mk_offset turns) \<and>
       (\<forall>r \<in> set rows. row_of_turns P (c # turns) r)"
proof (induction turns arbitrary: cursor c)
  case (Cons m ms)
  then have m: "cursor \<le> mk_offset m" "sorted (mk_offset m # map mk_offset ms)" by auto
  from Cons.IH [OF m(2), of m] obtain rows stop where
    IH: "turn_rows P (mk_offset m) (Some m) ms = (rows, stop, Some (last (m # ms)))"
    "tiles (map row_bounds rows) (mk_offset m) stop" "stop = last (mk_offset m # map mk_offset ms)"
    "\<forall>r \<in> set rows. row_of_turns P (m # ms) r" by auto
  have rest: "\<forall>r \<in> set rows. row_of_turns P (c # m # ms) r"
    using IH(4) row_of_turns_Cons [of P "m # ms" _ "[c]"] by simp
  show ?case
  proof (cases "cursor < mk_offset m")
    case True
    have "\<forall>x \<in> set (m # ms). mk_offset m \<le> mk_offset x" using m(2) by auto
    with True Cons.prems(2) have "row_of_turns P (c # m # ms) (page_row P c cursor (mk_offset m))"
      unfolding row_of_turns_def by (metis append_Nil page_row_select(1,2))
    with True IH rest show ?thesis by simp
  next
    case False
    with m(1) IH rest show ?thesis by simp
  qed
qed simp

lemma tiles_adjoin: "tiles (map row_bounds rows) a b \<Longrightarrow> rows_adjoin rows"
proof (induction rows arbitrary: a)
  case (Cons r rows)
  then show ?case by (cases rows) (auto simp: rows_adjoin_def row_bounds_def)
qed (simp add: rows_adjoin_def)

lemma tiles_row_ends:
  assumes "tiles (map row_bounds rows) a b" "a < b"
  shows "rows \<noteq> [] \<and> an_char_start (hd rows) = a \<and> an_char_end (last rows) = b"
proof (cases rows rule: rev_cases)
  case (snoc ys l)
  with assms(1) have "an_char_end l = b" by (simp add: tiles_append row_bounds_def)
  moreover have "an_char_start (hd rows) = a" using assms snoc by (cases ys) (simp_all add: row_bounds_def)
  ultimately show ?thesis using snoc by simp
qed (use assms in simp)

definition opt_list :: "'a option \<Rightarrow> 'a list" where
  "opt_list x = (case x of None \<Rightarrow> [] | Some y \<Rightarrow> [y])"

lemma scheme_rows_ok:
  assumes "sorted (map mk_offset turns)" "\<forall>m \<in> set turns. fst sp \<le> mk_offset m \<and> mk_offset m < snd sp"
    and "fst sp < snd sp" "opt_list current @ turns \<noteq> []" "\<forall>c. current = Some c \<longrightarrow> mk_offset c \<le> fst sp"
  shows "\<exists>tiled origin. scheme_rows P sp turns current = Inr (tiled, last (opt_list current @ turns)) \<and>
    tiles (map row_bounds tiled) origin (snd sp) \<and> fst sp \<le> origin \<and>
    (\<forall>m \<in> set (opt_list current @ turns). origin \<le> max (fst sp) (mk_offset m)) \<and>
    (\<forall>r \<in> set tiled. row_of_turns P (opt_list current @ turns) r)"
proof -
  define origin where "origin = (if current \<noteq> None then fst sp else mk_offset (hd turns))"
  obtain c ms where cms: "opt_list current @ turns = c # ms" using assms(4) by (cases "opt_list current @ turns") auto
  have start: "turn_rows P origin current turns = turn_rows P origin (Some c) ms"
    "sorted (origin # map mk_offset ms)" "mk_offset c \<le> origin" "fst sp \<le> origin" "origin < snd sp"
    "set ms \<subseteq> set turns"
  proof -
    have "turn_rows P origin current turns = turn_rows P origin (Some c) ms \<and> sorted (origin # map mk_offset ms) \<and>
      mk_offset c \<le> origin \<and> fst sp \<le> origin \<and> origin < snd sp \<and> set ms \<subseteq> set turns"
    proof (cases current)
      case None
      with cms have "turns = c # ms" by (simp add: opt_list_def)
      with None assms show ?thesis by (auto simp: origin_def split: prod.split)
    next
      case (Some d)
      with cms have "d = c" "turns = ms" by (simp_all add: opt_list_def)
      with Some assms show ?thesis by (auto simp: origin_def)
    qed
    then show "turn_rows P origin current turns = turn_rows P origin (Some c) ms"
      "sorted (origin # map mk_offset ms)" "mk_offset c \<le> origin" "fst sp \<le> origin" "origin < snd sp"
      "set ms \<subseteq> set turns" by auto
  qed
  from turn_rows_ok [OF start(2,3)] obtain rows stop where
    rows: "turn_rows P origin (Some c) ms = (rows, stop, Some (last (c # ms)))" "tiles (map row_bounds rows) origin stop"
    "stop = last (origin # map mk_offset ms)" "\<forall>r \<in> set rows. row_of_turns P (c # ms) r" by blast
  have stop: "stop < snd sp" "mk_offset (last (c # ms)) \<le> stop"
    using rows(3) start(3,5,6) assms(2) by (cases ms rule: rev_cases; auto)+
  let ?tiled = "rows @ [page_row P (last (c # ms)) stop (snd sp)]"
  have tile: "tiles (map row_bounds ?tiled) origin (snd sp)" using rows(2) stop by (auto simp: tiles_append)
  have "c # ms = butlast (c # ms) @ last (c # ms) # []" by simp
  then have "row_of_turns P (c # ms) (page_row P (last (c # ms)) stop (snd sp))"
    unfolding row_of_turns_def using stop by (metis empty_iff list.set(1) page_row_select(1,2))
  moreover have "scheme_rows P sp turns current = Inr (?tiled, last (c # ms))"
  proof -
    have "turn_rows P origin current turns = (rows, stop, Some (last (c # ms)))" using start(1) rows(1) by simp
    moreover have "(current = None \<and> turns = []) = False" using assms(4) by (auto simp: opt_list_def)
    ultimately show ?thesis
      using tiles_row_ends [OF tile start(5)] tiles_adjoin [OF tile] stop(1)
      unfolding scheme_rows_def Let_def origin_def [symmetric]
      by (simp only: if_False prod.case option.case if_True simp_thms)
  qed
  moreover have "\<forall>m \<in> set (c # ms). origin \<le> max (fst sp) (mk_offset m)"
    using start(2) cms by (cases current) (auto simp: origin_def opt_list_def)
  ultimately show ?thesis using tile start(4) rows(4) unfolding cms by (intro exI [of _ ?tiled] exI [of _ origin]) auto
qed

section \<open>The rows of a region\<close>

definition apart :: "text_anchor \<Rightarrow> text_anchor \<Rightarrow> bool" where
  "apart r q \<longleftrightarrow> row_scheme r \<noteq> row_scheme q \<or> an_char_end r \<le> an_char_start q \<or> an_char_end q \<le> an_char_start r"

definition within_span :: "span \<Rightarrow> text_anchor \<Rightarrow> bool" where
  "within_span sp r \<longleftrightarrow> fst sp \<le> an_char_start r \<and> an_char_start r < an_char_end r \<and> an_char_end r \<le> snd sp"

text \<open>The turns read so far, per scheme; the running turn of a scheme is the last of them.\<close>

definition read_turns :: "nat \<Rightarrow> (ustr \<Rightarrow> marker list) \<Rightarrow> running \<Rightarrow> ustr \<Rightarrow> bool" where
  "read_turns limit prev running s \<longleftrightarrow>
     map_of running s = (if prev s = [] then None else Some (last (prev s))) \<and>
     (\<forall>m \<in> set (prev s). scheme_of m = s \<and> mk_offset m \<le> limit)"

lemma map_of_put_running: "map_of (put_running s m running) k = (if k = s then Some m else map_of running k)"
proof -
  have "map_of (filter (\<lambda>x. fst x \<noteq> s) running) k = map_of running k" if "k \<noteq> s"
    using that by (induction running) auto
  then show ?thesis by (simp add: put_running_def)
qed

lemma row_of_turns_scheme: "row_of_turns P turns r \<Longrightarrow> \<forall>m \<in> set turns. scheme_of m = s \<Longrightarrow> row_scheme r = s"
  unfolding row_of_turns_def by (metis in_set_conv_decomp row_scheme_page_row)

lemma row_bounds_select [simp]: "fst (row_bounds r) = an_char_start r" "snd (row_bounds r) = an_char_end r"
  by (simp_all add: row_bounds_def)

lemma tiles_apart: "tiles (map row_bounds rows) a b \<Longrightarrow> sorted_wrt apart rows"
proof (induction rows arbitrary: a)
  case (Cons r rows)
  then have "tiles (map row_bounds rows) (an_char_end r) b" by simp
  then have "\<forall>q \<in> set rows. an_char_end r \<le> an_char_start q"
    using tiles_within [of "map row_bounds rows" "an_char_end r" b] by fastforce
  with Cons.IH [OF \<open>tiles (map row_bounds rows) (an_char_end r) b\<close>] show ?case by (simp add: apart_def)
qed simp

lemma tiles_rows_within: "tiles (map row_bounds rows) a b \<Longrightarrow> r \<in> set rows \<Longrightarrow> within_span (a, b) r"
  using tiles_within [of "map row_bounds rows" a b "row_bounds r"] by (simp add: within_span_def row_bounds_def)

definition turn_of_scheme :: "marker list \<Rightarrow> span \<Rightarrow> (ustr \<Rightarrow> marker list) \<Rightarrow> ustr \<Rightarrow> marker list" where
  "turn_of_scheme markers sp prev s = prev s @ scheme_turns markers sp s"

text \<open>The rows of a scheme cover every position from one place to another.\<close>

definition rows_reach :: "text_anchor list \<Rightarrow> ustr \<Rightarrow> nat \<Rightarrow> nat \<Rightarrow> bool" where
  "rows_reach rows s a b \<longleftrightarrow>
     (\<forall>k. a \<le> k \<and> k < b \<longrightarrow> (\<exists>r \<in> set rows. row_scheme r = s \<and> an_char_start r \<le> k \<and> k < an_char_end r))"

lemma rows_reach_mono: "rows_reach rows s a b \<Longrightarrow> set rows \<subseteq> set rows1 \<Longrightarrow> rows_reach rows1 s a b"
  by (fastforce simp: rows_reach_def)

lemma span_rows_ok:
  assumes sorted: "sorted (map mk_offset markers)" and sp: "fst sp < snd sp"
  shows "\<forall>s \<in> set ss. read_turns (fst sp) prev running s \<and> turn_of_scheme markers sp prev s \<noteq> [] \<Longrightarrow> distinct ss \<Longrightarrow>
     \<exists>rows r. span_rows P markers sp ss running = Inr (rows, r) \<and>
       (\<forall>s. map_of r s = (if s \<in> set ss then Some (last (turn_of_scheme markers sp prev s)) else map_of running s)) \<and>
       (\<forall>row \<in> set rows. row_scheme row \<in> set ss \<and> within_span sp row \<and>
          row_of_turns P (turn_of_scheme markers sp prev (row_scheme row)) row) \<and> sorted_wrt apart rows \<and>
       (\<forall>s \<in> set ss. \<forall>m \<in> set (turn_of_scheme markers sp prev s). rows_reach rows s (max (fst sp) (mk_offset m)) (snd sp))"
proof (induction ss arbitrary: running)
  case (Cons s ss)
  let ?turns = "scheme_turns markers sp s"
  have read: "map_of running s = (if prev s = [] then None else Some (last (prev s)))"
    "\<forall>m \<in> set (prev s). scheme_of m = s \<and> mk_offset m \<le> fst sp"
    using Cons.prems(1) by (auto simp: read_turns_def)
  have all: "\<forall>m \<in> set (turn_of_scheme markers sp prev s). scheme_of m = s"
    using read(2) by (auto simp: turn_of_scheme_def scheme_turns_def)
  have opt: "\<exists>front. prev s = front @ opt_list (map_of running s)"
    using read(1) by (cases "prev s" rule: rev_cases) (auto simp: opt_list_def)
  then obtain front where front: "prev s = front @ opt_list (map_of running s)" by blast
  have ne: "opt_list (map_of running s) @ ?turns \<noteq> []"
    using Cons.prems(1) read(1) by (auto simp: turn_of_scheme_def opt_list_def split: if_splits)
  have "sorted (map mk_offset ?turns)" unfolding scheme_turns_def by (intro sorted_filter sorted)
  moreover have "\<forall>m \<in> set ?turns. fst sp \<le> mk_offset m \<and> mk_offset m < snd sp" by (simp add: scheme_turns_def)
  moreover have "\<forall>c. map_of running s = Some c \<longrightarrow> mk_offset c \<le> fst sp"
    using read by (auto split: if_splits)
  ultimately obtain tiled origin where
    tiled: "scheme_rows P sp ?turns (map_of running s) = Inr (tiled, last (opt_list (map_of running s) @ ?turns))"
    "tiles (map row_bounds tiled) origin (snd sp)" "fst sp \<le> origin"
    "\<forall>m \<in> set (opt_list (map_of running s) @ ?turns). origin \<le> max (fst sp) (mk_offset m)"
    "\<forall>r \<in> set tiled. row_of_turns P (opt_list (map_of running s) @ ?turns) r"
    using scheme_rows_ok [OF _ _ sp ne] by blast
  let ?m = "last (opt_list (map_of running s) @ ?turns)"
  have turns: "turn_of_scheme markers sp prev s = front @ opt_list (map_of running s) @ ?turns"
    by (simp add: turn_of_scheme_def front)
  have m: "?m = last (turn_of_scheme markers sp prev s)" using ne unfolding turns by (metis last_appendR)
  have rows: "row_scheme r = s" "within_span sp r" "row_of_turns P (turn_of_scheme markers sp prev s) r"
    if "r \<in> set tiled" for r
  proof -
    show t: "row_of_turns P (turn_of_scheme markers sp prev s) r"
      unfolding turns by (rule row_of_turns_Cons) (use tiled(5) that in blast)
    from row_of_turns_scheme [OF t all] show "row_scheme r = s" .
    from tiles_rows_within [OF tiled(2) that] tiled(3) show "within_span sp r" by (simp add: within_span_def)
  qed
  let ?run = "put_running s ?m running"
  have "\<forall>k \<in> set ss. read_turns (fst sp) prev ?run k \<and> turn_of_scheme markers sp prev k \<noteq> []" "distinct ss"
    using Cons.prems by (auto simp: read_turns_def map_of_put_running)
  from Cons.IH [OF this] obtain rest r where
    rest: "span_rows P markers sp ss ?run = Inr (rest, r)"
    "\<forall>k. map_of r k = (if k \<in> set ss then Some (last (turn_of_scheme markers sp prev k)) else map_of ?run k)"
    "\<forall>row \<in> set rest. row_scheme row \<in> set ss \<and> within_span sp row \<and>
       row_of_turns P (turn_of_scheme markers sp prev (row_scheme row)) row" "sorted_wrt apart rest"
    "\<forall>k \<in> set ss. \<forall>m \<in> set (turn_of_scheme markers sp prev k). rows_reach rest k (max (fst sp) (mk_offset m)) (snd sp)"
    by blast
  have "span_rows P markers sp (s # ss) running = Inr (tiled @ rest, r)" using tiled(1) rest(1) by simp
  moreover have "\<forall>k. map_of r k = (if k \<in> set (s # ss) then Some (last (turn_of_scheme markers sp prev k)) else map_of running k)"
    using rest(2) m by (simp add: map_of_put_running)
  moreover have "\<forall>row \<in> set (tiled @ rest). row_scheme row \<in> set (s # ss) \<and> within_span sp row \<and>
      row_of_turns P (turn_of_scheme markers sp prev (row_scheme row)) row"
    using rows rest(3) by auto
  moreover have "sorted_wrt apart (tiled @ rest)"
    using tiles_apart [OF tiled(2)] rest(3,4) rows(1) Cons.prems(2) by (fastforce simp: sorted_wrt_append apart_def)
  moreover have "rows_reach (tiled @ rest) k (max (fst sp) (mk_offset m)) (snd sp)"
    if "k \<in> set (s # ss)" "m \<in> set (turn_of_scheme markers sp prev k)" for k m
  proof (cases "k = s")
    case True
    have "origin \<le> max (fst sp) (mk_offset m)"
    proof (cases "m \<in> set (opt_list (map_of running s) @ ?turns)")
      case False
      with that(2) True turns have "m \<in> set front" by auto
      with front read(1) have "map_of running s \<noteq> None" by auto
      then obtain c where c: "map_of running s = Some c" by auto
      with read have "mk_offset c \<le> fst sp" by (auto split: if_splits)
      moreover have "origin \<le> max (fst sp) (mk_offset c)" using tiled(4) c by (simp add: opt_list_def)
      ultimately show ?thesis by simp
    qed (use tiled(4) in blast)
    then have "rows_reach tiled k (max (fst sp) (mk_offset m)) (snd sp)"
      unfolding rows_reach_def using tiles_cover [OF tiled(2)] rows(1) True by fastforce
    then show ?thesis by (rule rows_reach_mono) simp
  next
    case False
    with that rest(5) have "rows_reach rest k (max (fst sp) (mk_offset m)) (snd sp)" by auto
    then show ?thesis by (rule rows_reach_mono) simp
  qed
  ultimately show ?case by blast
qed simp

lemma page_rows_ok:
  assumes sorted: "sorted (map mk_offset markers)"
  shows "sorted_wrt (\<lambda>x y. snd x \<le> fst y) sps \<Longrightarrow> \<forall>sp \<in> set sps. fst sp < snd sp \<and> limit \<le> fst sp \<Longrightarrow>
    \<forall>s. read_turns limit prev running s \<Longrightarrow>
    \<exists>rows. page_rows P markers running sps = Inr rows \<and> sorted_wrt apart rows \<and>
      (\<forall>r \<in> set rows. (\<exists>sp \<in> set sps. within_span sp r) \<and>
         row_of_turns P (prev (row_scheme r) @ concat (map (\<lambda>sp. scheme_turns markers sp (row_scheme r)) sps)) r) \<and>
      (\<forall>sp \<in> set sps. \<forall>s. \<forall>m \<in> set (prev s @ concat (map (\<lambda>sp. scheme_turns markers sp s) sps)).
         rows_reach rows s (max (fst sp) (mk_offset m)) (snd sp))"
proof (induction sps arbitrary: limit prev running)
  case (Cons sp sps)
  let ?ss = "span_schemes markers sp running"
  let ?prev = "turn_of_scheme markers sp prev"
  have sp: "fst sp < snd sp" "limit \<le> fst sp" using Cons.prems(2) by auto
  have read: "read_turns (fst sp) prev running s" for s
    using Cons.prems(3) sp(2) by (fastforce simp: read_turns_def)
  have schemes: "s \<in> set ?ss \<longleftrightarrow> ?prev s \<noteq> []" for s
  proof -
    have "s \<in> fst ` set running \<longleftrightarrow> prev s \<noteq> []"
      using read [of s] by (auto simp: read_turns_def dom_map_of_conv_image_fst [symmetric] dom_def)
    moreover have "(\<exists>m \<in> set markers. scheme_of m = s \<and> fst sp \<le> mk_offset m \<and> mk_offset m < snd sp) \<longleftrightarrow>
        scheme_turns markers sp s \<noteq> []"
      by (auto simp: scheme_turns_def filter_empty_conv)
    ultimately show ?thesis by (auto simp: span_schemes_def turn_of_scheme_def)
  qed
  have "distinct ?ss" by (simp add: span_schemes_def)
  with span_rows_ok [OF sorted sp(1), of ?ss prev running P] read schemes obtain rows r where
    rows: "span_rows P markers sp ?ss running = Inr (rows, r)"
    "\<forall>s. map_of r s = (if s \<in> set ?ss then Some (last (?prev s)) else map_of running s)"
    "\<forall>row \<in> set rows. within_span sp row \<and> row_of_turns P (?prev (row_scheme row)) row" "sorted_wrt apart rows"
    "\<forall>s \<in> set ?ss. \<forall>m \<in> set (?prev s). rows_reach rows s (max (fst sp) (mk_offset m)) (snd sp)" by blast
  have next_read: "read_turns (snd sp) ?prev r s" for s
  proof -
    have "map_of r s = (if ?prev s = [] then None else Some (last (?prev s)))"
      using rows(2) schemes [of s] read [of s] by (auto simp: read_turns_def turn_of_scheme_def)
    moreover have "\<forall>m \<in> set (?prev s). scheme_of m = s \<and> mk_offset m \<le> snd sp"
      using read [of s] sp(1) by (fastforce simp: read_turns_def turn_of_scheme_def scheme_turns_def)
    ultimately show ?thesis by (simp add: read_turns_def)
  qed
  from Cons.prems(1,2) have sps: "sorted_wrt (\<lambda>x y. snd x \<le> fst y) sps" "\<forall>x \<in> set sps. fst x < snd x \<and> snd sp \<le> fst x"
    by auto
  from Cons.IH [OF sps] next_read obtain rest where
    rest: "page_rows P markers r sps = Inr rest" "sorted_wrt apart rest"
    "\<forall>r \<in> set rest. (\<exists>sp \<in> set sps. within_span sp r) \<and>
       row_of_turns P (?prev (row_scheme r) @ concat (map (\<lambda>sp. scheme_turns markers sp (row_scheme r)) sps)) r"
    "\<forall>sp \<in> set sps. \<forall>s. \<forall>m \<in> set (?prev s @ concat (map (\<lambda>sp. scheme_turns markers sp s) sps)).
       rows_reach rest s (max (fst sp) (mk_offset m)) (snd sp)" by blast
  have "row_of_turns P (?prev (row_scheme x) @ concat (map (\<lambda>sp. scheme_turns markers sp (row_scheme x)) sps)) x"
    if "x \<in> set rows" for x
  proof (rule row_of_turns_later)
    from that rows(3) show "row_of_turns P (?prev (row_scheme x)) x" by blast
    from that rows(3) sps(2) show "\<forall>m \<in> set (concat (map (\<lambda>sp. scheme_turns markers sp (row_scheme x)) sps)).
        an_char_end x \<le> mk_offset m"
      by (force simp: within_span_def scheme_turns_def)
  qed
  with rest(3) have turns: "row_of_turns P (prev (row_scheme x) @
      concat (map (\<lambda>sp. scheme_turns markers sp (row_scheme x)) (sp # sps))) x" if "x \<in> set (rows @ rest)" for x
    using that by (auto simp: turn_of_scheme_def)
  have "sorted_wrt apart (rows @ rest)"
    using rows(3,4) rest(2,3) sps(2) by (fastforce simp: sorted_wrt_append apart_def within_span_def)
  moreover have "page_rows P markers running (sp # sps) = Inr (rows @ rest)" using rows(1) rest(1) by simp
  moreover have "\<exists>y \<in> set (sp # sps). within_span y x" if "x \<in> set (rows @ rest)" for x
    using that rows(3) rest(3) by auto
  moreover have "rows_reach (rows @ rest) s (max (fst y) (mk_offset m)) (snd y)"
    if y: "y \<in> set (sp # sps)" and m: "m \<in> set (prev s @ concat (map (\<lambda>sp. scheme_turns markers sp s) (sp # sps)))" for y s m
  proof (cases "y = sp")
    case True
    show ?thesis
    proof (cases "m \<in> set (?prev s)")
      case prev: True
      then have "?prev s \<noteq> []" by auto
      then have "s \<in> set ?ss" using schemes by blast
      with rows(5) prev have "rows_reach rows s (max (fst sp) (mk_offset m)) (snd sp)" by blast
      then have "rows_reach rows s (max (fst y) (mk_offset m)) (snd y)" using True by simp
      then show ?thesis by (rule rows_reach_mono) simp
    next
      case False
      with m have "m \<in> set (concat (map (\<lambda>sp. scheme_turns markers sp s) sps))" by (auto simp: turn_of_scheme_def)
      with sps(2) have "snd sp \<le> mk_offset m" by (force simp: scheme_turns_def)
      with True show ?thesis by (auto simp: rows_reach_def)
    qed
  next
    case False
    with y have "y \<in> set sps" by simp
    from m have "m \<in> set (?prev s @ concat (map (\<lambda>sp. scheme_turns markers sp s) sps))"
      by (simp add: turn_of_scheme_def)
    with rest(4) \<open>y \<in> set sps\<close> have "rows_reach rest s (max (fst y) (mk_offset m)) (snd y)" by blast
    then show ?thesis by (rule rows_reach_mono) simp
  qed
  ultimately show ?case using turns by blast
qed simp

section \<open>Regions lie apart\<close>

definition spans_apart :: "span \<Rightarrow> span \<Rightarrow> bool" where
  "spans_apart x y \<longleftrightarrow> snd x \<le> fst y \<or> snd y \<le> fst x"

definition covered :: "span list \<Rightarrow> nat set" where
  "covered sps = (\<Union>sp \<in> set sps. {fst sp..<snd sp})"

lemma spans_apart_disjoint:
  "fst x < snd x \<Longrightarrow> fst y < snd y \<Longrightarrow> spans_apart x y \<longleftrightarrow> {fst x..<snd x} \<inter> {fst y..<snd y} = {}"
proof -
  assume ne: "fst x < snd x" "fst y < snd y"
  show ?thesis
  proof
    assume "{fst x..<snd x} \<inter> {fst y..<snd y} = {}"
    then have "max (fst x) (fst y) \<notin> {fst x..<snd x} \<inter> {fst y..<snd y}" by simp
    with ne show "spans_apart x y" by (auto simp: spans_apart_def max_def split: if_splits)
  qed (auto simp: spans_apart_def)
qed

definition in_order :: "nat \<Rightarrow> span list \<Rightarrow> bool" where
  "in_order k sps \<longleftrightarrow> sorted_wrt (\<lambda>x y. snd x \<le> fst y) sps \<and> (\<forall>sp \<in> set sps. fst sp < snd sp \<and> snd sp \<le> k)"

lemma in_order_mono: "in_order j sps \<Longrightarrow> j \<le> k \<Longrightarrow> in_order k sps"
  by (auto simp: in_order_def)

lemma join_body_ok:
  assumes "in_order (fst sp) body" "fst sp < snd sp"
  shows "in_order (snd sp) (join_body body sp) \<and> covered (join_body body sp) = covered body \<union> {fst sp..<snd sp}"
proof (cases body rule: rev_cases)
  case (snoc ys l)
  with assms show ?thesis
    by (auto simp: in_order_def join_body_def covered_def sorted_wrt_append)
qed (use assms in \<open>simp add: in_order_def join_body_def covered_def\<close>)

definition body_sections :: "text_section list \<Rightarrow> text_section list" where
  "body_sections secs = filter (\<lambda>s. sc_section_type s \<noteq> ''footnote'') secs"

definition note_sections :: "text_section list \<Rightarrow> text_section list" where
  "note_sections secs = filter (\<lambda>s. sc_section_type s = ''footnote'') secs"

lemma body_spans_ok:
  "tiles (map sc_bounds secs) k n \<Longrightarrow> in_order k body \<Longrightarrow>
     in_order n (body_spans body secs) \<and>
     covered (body_spans body secs) = covered body \<union> covered (map sc_bounds (body_sections secs))"
proof (induction secs arbitrary: body k)
  case (Cons s secs)
  then have s: "sc_char_start s = k" "k < sc_char_end s" "tiles (map sc_bounds secs) (sc_char_end s) n"
    by simp_all
  show ?case
  proof (cases "sc_section_type s = ''footnote''")
    case True
    with Cons.IH [OF s(3) in_order_mono [OF Cons.prems(2)]] s(2) show ?thesis by (simp add: body_sections_def)
  next
    case False
    from join_body_ok [of "sc_bounds s" body] Cons.prems(2) s have
      j: "in_order (sc_char_end s) (join_body body (sc_bounds s))"
      "covered (join_body body (sc_bounds s)) = covered body \<union> {k..<sc_char_end s}" by (auto simp: sc_bounds_def)
    from Cons.IH [OF s(3) j(1)] j(2) False s(1) show ?thesis
      by (auto simp: body_sections_def sc_bounds_def covered_def)
  qed
qed (simp add: body_sections_def covered_def)

lemma tiles_sections_apart:
  "tiles (map sc_bounds secs) a b \<Longrightarrow> sorted_wrt (\<lambda>x y. spans_apart (sc_bounds x) (sc_bounds y)) secs \<and>
     (\<forall>s \<in> set secs. sc_char_start s < sc_char_end s \<and> sc_char_end s \<le> b)"
proof (induction secs arbitrary: a)
  case (Cons s secs)
  then have s: "a < sc_char_end s" "sc_char_start s = a" "tiles (map sc_bounds secs) (sc_char_end s) b"
    by simp_all
  from Cons.IH [OF s(3)] tiles_within [OF s(3)] tiles_le [OF s(3)] s(1,2) show ?case
    by (force simp: spans_apart_def sc_bounds_def)
qed simp

lemma sorted_wrt_distinct_pair: "sorted_wrt R xs \<Longrightarrow> x \<in> set xs \<Longrightarrow> y \<in> set xs \<Longrightarrow> x \<noteq> y \<Longrightarrow> R x y \<or> R y x"
  by (induction xs) auto

text \<open>The body's spans and each footnote's are apart from one another.\<close>

lemma regions_apart:
  assumes tiles: "tiles (map sc_bounds secs) 0 n"
  shows "sorted_wrt (\<lambda>ps qs. \<forall>p \<in> set ps. \<forall>q \<in> set qs. spans_apart p q) (regions secs) \<and>
    list_all (in_order n) (regions secs)"
proof -
  from body_spans_ok [OF tiles, of "[]"] have body: "in_order n (body_spans [] secs)"
    "covered (body_spans [] secs) = covered (map sc_bounds (body_sections secs))"
    by (simp_all add: in_order_def covered_def)
  note secs = tiles_sections_apart [OF tiles]
  have note_body: "spans_apart p (sc_bounds f)" if "p \<in> set (body_spans [] secs)" "f \<in> set (note_sections secs)" for p f
  proof -
    have f: "fst (sc_bounds f) < snd (sc_bounds f)" "f \<in> set secs" "sc_section_type f = ''footnote''"
      using that(2) secs by (auto simp: note_sections_def sc_bounds_def)
    have p: "fst p < snd p" using body(1) that(1) by (auto simp: in_order_def)
    have "{fst p..<snd p} \<inter> {fst (sc_bounds f)..<snd (sc_bounds f)} = {}"
    proof (rule ccontr)
      assume "{fst p..<snd p} \<inter> {fst (sc_bounds f)..<snd (sc_bounds f)} \<noteq> {}"
      then obtain k where k: "k \<in> {fst p..<snd p}" "k \<in> {fst (sc_bounds f)..<snd (sc_bounds f)}" by blast
      with that(1) have "k \<in> covered (body_spans [] secs)" by (auto simp: covered_def)
      then obtain s where s: "s \<in> set (body_sections secs)" "k \<in> {fst (sc_bounds s)..<snd (sc_bounds s)}"
        unfolding body(2) by (auto simp: covered_def)
      with f(2,3) have "s \<noteq> f" "s \<in> set secs" by (auto simp: body_sections_def)
      with sorted_wrt_distinct_pair [OF conjunct1 [OF secs]] f(2) have "spans_apart (sc_bounds s) (sc_bounds f)"
        by (auto simp: spans_apart_def)
      with s(2) k(2) show False by (auto simp: spans_apart_def)
    qed
    with spans_apart_disjoint [OF p f(1)] show ?thesis by simp
  qed
  have "regions secs = body_spans [] secs # map (\<lambda>s. [sc_bounds s]) (note_sections secs)"
    by (simp add: regions_def note_sections_def sc_bounds_def)
  moreover have "sorted_wrt (\<lambda>x y. spans_apart (sc_bounds x) (sc_bounds y)) (note_sections secs)"
    unfolding note_sections_def using secs by (intro sorted_wrt_filter) blast
  moreover have "\<forall>f \<in> set (note_sections secs). in_order n [sc_bounds f]"
    using secs by (auto simp: in_order_def note_sections_def sc_bounds_def)
  ultimately show ?thesis
    using body(1) note_body by (simp add: sorted_wrt_map list_all_iff)
qed

section \<open>Sorting keeps rows apart\<close>

lemma apart_sym: "apart r q = apart q r"
  by (auto simp: apart_def)

lemma sorted_wrt_apart_perm: "sorted_wrt apart xs \<Longrightarrow> mset xs = mset ys \<Longrightarrow> sorted_wrt apart ys"
proof (induction xs arbitrary: ys)
  case (Cons x xs)
  then have "x \<in> set ys" by (metis list.set_intros(1) mset_eq_setD)
  then obtain us vs where ys: "ys = us @ x # vs" by (meson split_list)
  with Cons.prems(2) have m: "mset xs = mset (us @ vs)" by simp
  from Cons.IH [OF _ m] Cons.prems(1) have "sorted_wrt apart (us @ vs)" by simp
  moreover have "\<forall>y \<in> set (us @ vs). apart x y" using Cons.prems(1) mset_eq_setD [OF m] by simp
  ultimately show ?case by (auto simp: ys sorted_wrt_append apart_sym)
qed simp

section \<open>Whole texts\<close>

definition page_markers :: "parsed \<Rightarrow> marker list" where
  "page_markers P = filter (\<lambda>m. mk_kind m = ''page'') (pd_markers P)"

definition region_turns :: "parsed \<Rightarrow> span list \<Rightarrow> ustr \<Rightarrow> marker list" where
  "region_turns P region s = concat (map (\<lambda>sp. scheme_turns (page_markers P) sp s) region)"

definition region_rows :: "parsed \<Rightarrow> span list \<Rightarrow> text_anchor list \<Rightarrow> bool" where
  "region_rows P region rows \<longleftrightarrow> sorted_wrt apart rows \<and>
     (\<forall>r \<in> set rows. (\<exists>sp \<in> set region. within_span sp r) \<and> row_of_turns P (region_turns P region (row_scheme r)) r) \<and>
     (\<forall>sp \<in> set region. \<forall>s. \<forall>m \<in> set (region_turns P region s).
        rows_reach rows s (max (fst sp) (mk_offset m)) (snd sp))"

lemma region_found:
  assumes "sorted (map mk_offset (page_markers P))" "in_order n region"
  shows "\<exists>rows. page_rows P (page_markers P) [] region = Inr rows \<and> region_rows P region rows"
  using page_rows_ok [OF assms(1), of region 0 "\<lambda>_. []" "[]" P] assms(2)
  by (auto simp: in_order_def read_turns_def region_rows_def region_turns_def)

lemma regions_found:
  assumes sorted: "sorted (map mk_offset (page_markers P))"
  shows "list_all (in_order n) rgs \<Longrightarrow> sorted_wrt (\<lambda>ps qs. \<forall>p \<in> set ps. \<forall>q \<in> set qs. spans_apart p q) rgs \<Longrightarrow>
    \<exists>found. collect_results (map (page_rows P (page_markers P) []) rgs) = Inr found \<and>
      list_all2 (region_rows P) rgs found \<and> sorted_wrt apart (concat found)"
proof (induction rgs)
  case (Cons region rgs)
  from region_found [OF sorted, of n region] Cons.prems(1) obtain rows where
    rows: "page_rows P (page_markers P) [] region = Inr rows" "region_rows P region rows" by auto
  from Cons obtain found where found: "collect_results (map (page_rows P (page_markers P) []) rgs) = Inr found"
    "list_all2 (region_rows P) rgs found" "sorted_wrt apart (concat found)" by auto
  have "apart r q" if "r \<in> set rows" "q \<in> set (concat found)" for r q
  proof -
    from that(1) rows(2) obtain p where p: "p \<in> set region" "within_span p r" by (auto simp: region_rows_def)
    from that(2) obtain qs where qs: "qs \<in> set found" "q \<in> set qs" by auto
    with list_all2_mem [OF found(2)] obtain rg where "rg \<in> set rgs" "region_rows P rg qs" by blast
    with qs(2) obtain p' where p': "p' \<in> set rg" "within_span p' q" by (auto simp: region_rows_def)
    with Cons.prems(2) p(1) \<open>rg \<in> set rgs\<close> have "spans_apart p p'" by auto
    with p(2) p'(2) show ?thesis by (auto simp: spans_apart_def within_span_def apart_def)
  qed
  then have "sorted_wrt apart (concat (rows # found))"
    using rows(2) found(3) by (simp add: sorted_wrt_append region_rows_def)
  with rows found show ?case by auto
qed simp

lemma rows_apart_filter:
  assumes "sorted_wrt apart rows" "sorted (map an_char_start rows)" "\<forall>r \<in> set rows. an_char_start r < an_char_end r"
  shows "sorted_wrt (\<lambda>l r. row_scheme l = row_scheme r \<longrightarrow> an_char_end l \<le> an_char_start r) rows"
  using assms
proof (induction rows)
  case (Cons r rows)
  have "an_char_end r \<le> an_char_start q" if "q \<in> set rows" "row_scheme r = row_scheme q" for q
    using Cons.prems that by (fastforce simp: apart_def)
  with Cons show ?case by simp
qed simp

lemma sorted_wrt_zip: "sorted_wrt R xs \<Longrightarrow> list_all (\<lambda>(l, r). R l r) (zip xs (tl xs))"
proof (induction xs)
  case (Cons x xs)
  then show ?case by (cases xs) auto
qed simp

lemma anchor_ok:
  assumes "tiles (map sc_bounds secs) 0 (length (pd_text P))" "sorted (map mk_offset (page_markers P))"
  obtains a found where "anchor U P secs = Inr a" "list_all2 (region_rows P) (regions secs) found"
    "mset (ag_anchors a) = mset (concat found)" "sorted (map an_char_start (ag_anchors a))"
    "\<forall>r \<in> set (ag_anchors a). an_char_start r < an_char_end r \<and> an_char_end r \<le> length (pd_text P)"
    "sorted_wrt (\<lambda>l r. row_scheme l = row_scheme r \<longrightarrow> an_char_end l \<le> an_char_start r) (ag_anchors a)"
proof -
  let ?n = "length (pd_text P)"
  note rg = regions_apart [OF assms(1)]
  from regions_found [OF assms(2) conjunct2 [OF rg] conjunct1 [OF rg]] obtain found where
    found: "collect_results (map (page_rows P (page_markers P) []) (regions secs)) = Inr found"
    "list_all2 (region_rows P) (regions secs) found" "sorted_wrt apart (concat found)" by blast
  let ?rows = "sort_key (\<lambda>r. (an_char_start r, row_scheme r)) (concat found)"
  have apart: "sorted_wrt apart ?rows" by (rule sorted_wrt_apart_perm [OF found(3)]) simp
  have bounds: "\<forall>r \<in> set ?rows. an_char_start r < an_char_end r \<and> an_char_end r \<le> ?n"
  proof
    fix r assume "r \<in> set ?rows"
    then obtain rs where "rs \<in> set found" "r \<in> set rs" by auto
    with list_all2_mem [OF found(2)] obtain region where "region \<in> set (regions secs)" "region_rows P region rs" by blast
    with \<open>r \<in> set rs\<close> obtain sp where "sp \<in> set region" "within_span sp r" by (auto simp: region_rows_def)
    with rg \<open>region \<in> set (regions secs)\<close> show "an_char_start r < an_char_end r \<and> an_char_end r \<le> ?n"
      by (fastforce simp: within_span_def in_order_def list_all_iff)
  qed
  have "sorted (map (\<lambda>r. (an_char_start r, row_scheme r)) ?rows)" by (rule sorted_sort_key)
  then have starts: "sorted (map an_char_start ?rows)" by (simp add: sorted_map sorted_wrt_map) (erule sorted_wrt_mono_rel [rotated], auto)
  from rows_apart_filter [OF apart starts] bounds have
    same: "sorted_wrt (\<lambda>l r. row_scheme l = row_scheme r \<longrightarrow> an_char_end l \<le> an_char_start r) ?rows" by blast
  have "rows_apart (filter (\<lambda>r. row_scheme r = s) ?rows)" for s
  proof -
    have "sorted_wrt (\<lambda>l r. an_char_end l \<le> an_char_start r) (filter (\<lambda>r. row_scheme r = s) ?rows)"
      by (rule sorted_wrt_mono_rel [OF _ sorted_wrt_filter [OF same]]) auto
    from sorted_wrt_zip [OF this] show ?thesis by (simp add: rows_apart_def)
  qed
  moreover have "rows_ordered ?rows"
    using sorted_wrt_zip [OF starts [unfolded sorted_map]] by (simp add: rows_ordered_def)
  moreover have "if secs = [] then ?n = 0
      else sc_char_start (hd secs) = 0 \<and> sc_char_end (last secs) = ?n \<and> contiguous secs"
  proof (cases "?n = 0")
    case True
    with assms(1) show ?thesis by (cases secs) (auto dest: tiles_le)
  next
    case False
    with tiles_ends [OF assms(1)] tiles_contiguous [OF assms(1)] show ?thesis by simp
  qed
  ultimately obtain checked disagreeing where "anchor U P secs = Inr \<lparr>ag_anchors = ?rows, ag_pgmap_checked = checked,
      ag_pgmap_disagreeing = disagreeing\<rparr>"
    using found(1) bounds unfolding anchor_def Let_def page_markers_def
    by (simp add: list_all_iff)
  from that [OF this found(2)] starts bounds same show thesis by simp
qed

section \<open>Which page a position stands on\<close>

definition page_at :: "parsed \<Rightarrow> span list \<Rightarrow> ustr \<Rightarrow> nat \<Rightarrow> marker option" where
  "page_at P region s k =
     (let passed = filter (\<lambda>m. mk_offset m \<le> k) (region_turns P region s)
      in if passed = [] then None else Some (last passed))"

definition rows_at :: "text_anchor list \<Rightarrow> ustr \<Rightarrow> nat \<Rightarrow> text_anchor list" where
  "rows_at rows s k = filter (\<lambda>r. row_scheme r = s \<and> an_char_start r \<le> k \<and> k < an_char_end r) rows"

lemma row_of_turns_page_at:
  assumes "row_of_turns P (region_turns P region s) r" "an_char_start r \<le> k" "k < an_char_end r"
  shows "map_option mk_label (page_at P region s k) = Some (an_label r)"
proof -
  from assms(1) obtain pre m post where m: "region_turns P region s = pre @ m # post"
    "r = page_row P m (an_char_start r) (an_char_end r)" "mk_offset m \<le> an_char_start r"
    "\<forall>x \<in> set post. an_char_end r \<le> mk_offset x" unfolding row_of_turns_def by blast
  have "filter (\<lambda>x. mk_offset x \<le> k) post = []" using m(4) assms(3) by (auto simp: filter_empty_conv)
  then have "page_at P region s k = Some m" using m(1,3) assms(2) by (simp add: page_at_def)
  moreover have "an_label r = mk_label m" by (subst m(2)) (simp add: page_row_def)
  ultimately show ?thesis by simp
qed

lemma one_row_at:
  assumes "sorted_wrt (\<lambda>l r. row_scheme l = row_scheme r \<longrightarrow> an_char_end l \<le> an_char_start r) rows"
  shows "length (rows_at rows s k) \<le> 1"
proof (rule ccontr)
  assume "\<not> length (rows_at rows s k) \<le> 1"
  then obtain x y zs where xy: "rows_at rows s k = x # y # zs"
    by (cases "rows_at rows s k"; cases "tl (rows_at rows s k)") auto
  have "sorted_wrt (\<lambda>l r. row_scheme l = row_scheme r \<longrightarrow> an_char_end l \<le> an_char_start r) (rows_at rows s k)"
    unfolding rows_at_def by (rule sorted_wrt_filter [OF assms])
  then have "row_scheme x = row_scheme y \<longrightarrow> an_char_end x \<le> an_char_start y" unfolding xy by simp
  moreover have "x \<in> set (rows_at rows s k)" "y \<in> set (rows_at rows s k)" using xy by simp_all
  ultimately show False by (auto simp: rows_at_def)
qed

text \<open>C19: over sections that tile the text, and page turns in text order, anchoring never fails one of its
  assertions: the rows are in order, not empty, inside the text, and two rows of one scheme never overlap.\<close>

theorem anchor_never_asserts:
  assumes "tiles (map sc_bounds secs) 0 (length (pd_text P))" "sorted (map mk_offset (page_markers P))"
  shows "\<exists>a. anchor U P secs = Inr a \<and> sorted (map an_char_start (ag_anchors a)) \<and>
    (\<forall>r \<in> set (ag_anchors a). an_char_start r < an_char_end r \<and> an_char_end r \<le> length (pd_text P)) \<and>
    (\<forall>s k. length (rows_at (ag_anchors a) s k) \<le> 1)"
proof -
  from anchor_ok [OF assms, of U] obtain a where "anchor U P secs = Inr a" "sorted (map an_char_start (ag_anchors a))"
    "\<forall>r \<in> set (ag_anchors a). an_char_start r < an_char_end r \<and> an_char_end r \<le> length (pd_text P)"
    "sorted_wrt (\<lambda>l r. row_scheme l = row_scheme r \<longrightarrow> an_char_end l \<le> an_char_start r) (ag_anchors a)" by blast
  with one_row_at show ?thesis by blast
qed

text \<open>C20: at every position of a region, and for every scheme, the anchors name exactly the page the last
  turn before it opened, reading the turns of that region alone; before the first turn there is no row.\<close>

theorem anchor_page_at:
  assumes tiled: "tiles (map sc_bounds secs) 0 (length (pd_text P))" "sorted (map mk_offset (page_markers P))"
    and "anchor U P secs = Inr a"
    and region: "region \<in> set (regions secs)" "sp \<in> set region" "fst sp \<le> k" "k < snd sp"
  shows "map an_label (rows_at (ag_anchors a) s k) =
    (case page_at P region s k of None \<Rightarrow> [] | Some m \<Rightarrow> [mk_label m])"
proof -
  from anchor_ok [OF tiled, of U] obtain b found where b: "anchor U P secs = Inr b"
    "list_all2 (region_rows P) (regions secs) found" "mset (ag_anchors b) = mset (concat found)"
    "sorted_wrt (\<lambda>l r. row_scheme l = row_scheme r \<longrightarrow> an_char_end l \<le> an_char_start r) (ag_anchors b)" by blast
  from assms(3) b(1) have "b = a" by simp
  note found = b(2-4) [unfolded this]
  note same = mset_eq_setD [OF found(2)]
  have at: "map_option mk_label (page_at P region s k) = Some (an_label r)" if "r \<in> set (rows_at (ag_anchors a) s k)" for r
  proof -
    from that have r: "r \<in> set (concat found)" "row_scheme r = s" "an_char_start r \<le> k" "k < an_char_end r"
      by (simp_all add: rows_at_def same)
    then obtain rs where rs: "rs \<in> set found" "r \<in> set rs" by auto
    with list_all2_mem [OF found(1)] obtain rg where rg: "rg \<in> set (regions secs)" "region_rows P rg rs" by blast
    with rs(2) obtain p where p: "p \<in> set rg" "within_span p r" by (auto simp: region_rows_def)
    have "rg = region"
    proof (rule ccontr)
      assume "rg \<noteq> region"
      with sorted_wrt_distinct_pair [OF conjunct1 [OF regions_apart [OF tiled(1)]] rg(1) region(1)] p(1) region(2)
      have "spans_apart p sp \<or> spans_apart sp p" by blast
      with p(2) r(3,4) region(3,4) show False by (auto simp: spans_apart_def within_span_def)
    qed
    with rg(2) rs(2) r(2) have "row_of_turns P (region_turns P region s) r" by (auto simp: region_rows_def)
    then show ?thesis by (rule row_of_turns_page_at [OF _ r(3,4)])
  qed
  have one: "length (rows_at (ag_anchors a) s k) \<le> 1" by (rule one_row_at [OF found(3)])
  show ?thesis
  proof (cases "page_at P region s k")
    case None
    with at show ?thesis by (cases "rows_at (ag_anchors a) s k") force+
  next
    case (Some m)
    then have "m \<in> set (filter (\<lambda>m. mk_offset m \<le> k) (region_turns P region s))"
      unfolding page_at_def Let_def by (metis last_in_set option.distinct(1) option.inject)
    then have m: "m \<in> set (region_turns P region s)" "mk_offset m \<le> k" by auto
    from list_all2_mem1 [OF found(1) region(1)] obtain rs where rs: "rs \<in> set found" "region_rows P region rs" by blast
    with m(1) region(2) have "rows_reach rs s (max (fst sp) (mk_offset m)) (snd sp)" by (auto simp: region_rows_def)
    with m(2) region(3,4) obtain r where "r \<in> set rs" "row_scheme r = s" "an_char_start r \<le> k" "k < an_char_end r"
      unfolding rows_reach_def by (metis max.bounded_iff)
    moreover from this rs(1) have "r \<in> set (ag_anchors a)" unfolding same by auto
    ultimately have "r \<in> set (rows_at (ag_anchors a) s k)" by (simp add: rows_at_def)
    with one obtain q where q: "rows_at (ag_anchors a) s k = [q]" by (cases "rows_at (ag_anchors a) s k") auto
    with at [of q] Some show ?thesis by simp
  qed
qed

section \<open>A small text\<close>

text \<open>The witnesses anchor a text whose body's second page turns inside the body and whose footnote
  prints a page of its own.\<close>

definition small_turn :: "nat \<Rightarrow> string \<Rightarrow> marker" where
  "small_turn k label = \<lparr>mk_kind = ''page'', mk_label = ulit label, mk_offset = k, mk_attrs = []\<rparr>"

definition small_parsed :: parsed where
  "small_parsed = \<lparr>pd_text = ulit ''Body one. Note. Body two.'', pd_markers = [small_turn 2 ''5'', small_turn 12 ''6'',
     small_turn 20 ''7''], pd_blocks = []\<rparr>"

definition small_section :: "string \<Rightarrow> nat \<Rightarrow> nat \<Rightarrow> text_section" where
  "small_section kind a b = \<lparr>sc_section_type = kind, sc_typed_by = ''markup'', sc_char_start = a, sc_char_end = b,
     sc_label = None, sc_ref_offset = None, sc_parent = None\<rparr>"

definition small_secs :: "text_section list" where
  "small_secs = [small_section ''majority'' 0 10, small_section ''footnote'' 10 16, small_section ''majority'' 16 25]"

lemma small_tiled: "tiles (map sc_bounds small_secs) 0 (length (pd_text small_parsed))"
  by code_simp

lemma small_ordered: "sorted (map mk_offset (page_markers small_parsed))"
  by code_simp

lemma anchor_small: "\<exists>a. anchor ascii_ucd small_parsed small_secs = Inr a"
  by (rule anchor_ok [OF small_tiled small_ordered, of ascii_ucd]) blast

theorem anchor_never_asserts_witness:
  "\<exists>a. anchor ascii_ucd small_parsed small_secs = Inr a \<and> sorted (map an_char_start (ag_anchors a))"
  using anchor_never_asserts [OF small_tiled small_ordered, of ascii_ucd] by blast

theorem anchor_page_at_witness:
  "case anchor ascii_ucd small_parsed small_secs of Inl e \<Rightarrow> False
   | Inr a \<Rightarrow> map an_label (rows_at (ag_anchors a) (ulit ''1'') 18) = [ulit ''5'']"
proof -
  from anchor_small obtain a where a: "anchor ascii_ucd small_parsed small_secs = Inr a" by blast
  have "[(0, 10), (16, 25)] \<in> set (regions small_secs)" by code_simp
  from anchor_page_at [OF small_tiled small_ordered a this, of "(16, 25)" 18 "ulit ''1''"]
  have "map an_label (rows_at (ag_anchors a) (ulit ''1'') 18) =
    (case page_at small_parsed [(0, 10), (16, 25)] (ulit ''1'') 18 of None \<Rightarrow> [] | Some m \<Rightarrow> [mk_label m])" by simp
  also have "\<dots> = [ulit ''5'']" by code_simp
  finally show ?thesis by (simp add: a)
qed

end
