(* ===== verification/Worker_Opinion.thy ===== *)
theory Worker_Opinion
  imports Worker_Sections Py_Utf8 Complex_Main
begin

text \<open>
  \<open>gideon/worker/opiniontext.py\<close>: a source column chosen, walked into canonical text with the offsets of the
  locators it drops and of its structural blocks, and checked for legibility. The markup parser, the text an
  element iterates over and Unicode normalization are the parameters of \<open>reader\<close>; an element is the tree the
  parser hands over.
\<close>

section \<open>Sources\<close>

definition TEXT_SOURCES :: "string list" where
  "TEXT_SOURCES = [''xml_harvard'', ''html_columbia'', ''html_lawbox'', ''html_anon_2020'', ''html'', ''plain_text'']"

definition LEGIBILITY_WORD_FLOOR :: nat where "LEGIBILITY_WORD_FLOOR = 100"
definition LEGIBILITY_SHARE_FLOOR :: rat where "LEGIBILITY_SHARE_FLOOR = 5 / 100"
definition LEGIBILITY_MARK_FLOOR :: rat where "LEGIBILITY_MARK_FLOOR = 10 / 100"

definition LETTER_RUN :: regex where
  "LETTER_RUN = Many 1 (Cls False [CRange 65 90, CRange 97 122])"

definition DIGIT_RUN :: regex where
  "DIGIT_RUN = Seq (Many 1 (Cls False [CRange 48 57])) (optional (Group ''capital'' (Cls False [CRange 65 90])))"

definition FUNCTION_WORDS :: "string list" where
  "FUNCTION_WORDS =
     [''the'', ''a'', ''an'', ''this'', ''that'', ''these'', ''those'',
      ''of'', ''to'', ''in'', ''for'', ''on'', ''by'', ''with'', ''at'', ''from'', ''as'', ''into'',
      ''under'', ''over'', ''between'', ''after'', ''before'', ''against'', ''upon'', ''within'',
      ''without'', ''and'', ''or'', ''but'', ''nor'', ''because'', ''if'', ''whether'', ''while'',
      ''although'', ''than'', ''so'', ''it'', ''its'', ''he'', ''his'', ''she'', ''her'', ''they'',
      ''their'', ''them'', ''we'', ''our'', ''you'', ''your'', ''who'', ''whom'', ''whose'', ''which'',
      ''what'', ''there'', ''here'', ''is'', ''are'', ''was'', ''were'', ''be'', ''been'', ''being'',
      ''has'', ''have'', ''had'', ''do'', ''does'', ''did'', ''will'', ''would'', ''shall'', ''should'',
      ''may'', ''might'', ''must'', ''can'', ''could'', ''not'', ''no'', ''only'', ''also'', ''thus'',
      ''therefore'', ''however'', ''any'', ''all'', ''such'', ''other'', ''both'', ''each'', ''same'',
      ''then'', ''when'', ''where'', ''whereby'']"

definition XML_BLOCKS :: "string list" where
  "XML_BLOCKS =
     [''author'', ''p'', ''blockquote'', ''footnote'', ''pre'', ''judges'', ''attorneys'',
      ''headnotes'', ''summary'', ''history'', ''decisiondate'', ''otherdate'',
      ''docketnumber'', ''seealso'', ''citation'', ''court'']"

definition HTML_BLOCKS :: "string list" where
  "HTML_BLOCKS =
     [''p'', ''div'', ''blockquote'', ''center'', ''h1'', ''h2'', ''h3'', ''h4'', ''h5'',
      ''h6'', ''h'', ''li'', ''tr'', ''pre'', ''bodytext'', ''excerpt'', ''footnote_body'']"

definition DROP_SUBTREES :: "string list" where
  "DROP_SUBTREES = [''script'', ''style'', ''nav'', ''img'']"

definition WORD :: regex where
  "WORD = Many 1 (Cls False [CNotSpace])"

definition BRACKETED_LABEL :: regex where
  "BRACKETED_LABEL = seqs [lit ''['', Many 1 (Cls True [CChar 91, CChar 93, CSpace]), lit '']'']"

definition choose_source :: "ucd \<Rightarrow> (string \<Rightarrow> ustr option) \<Rightarrow> (string \<times> ustr) option" where
  "choose_source U row =
     (case find (\<lambda>column. case row column of None \<Rightarrow> False | Some v \<Rightarrow> strip U v \<noteq> []) TEXT_SOURCES of
        None \<Rightarrow> None
      | Some column \<Rightarrow> Some (column, the (row column)))"

section \<open>Legibility\<close>

record legibility_verdict =
  lv_share :: "rat option"
  lv_mark :: "rat option"
  lv_reason :: "exn option"

definition legibility :: "ucd \<Rightarrow> ustr \<Rightarrow> rat option" where
  "legibility U t =
     (let ws = map (group0 t) (re_finditer U False LETTER_RUN t)
      in if length ws < LEGIBILITY_WORD_FLOOR then None
         else Some (of_nat (length (filter (\<lambda>w. py_casefold U w \<in> set (map ulit FUNCTION_WORDS)) ws)) /
                    of_nat (length ws)))"

definition legibility_mark :: "ucd \<Rightarrow> ustr \<Rightarrow> rat option" where
  "legibility_mark U t =
     (let digit_runs = re_finditer U False DIGIT_RUN t
      in if digit_runs = [] then None
         else Some (of_nat (length (filter (\<lambda>m. Py_Regex.span m ''capital'' \<noteq> None) digit_runs)) / of_nat (length digit_runs)))"

definition verdict_of :: "ucd \<Rightarrow> ustr \<Rightarrow> legibility_verdict" where
  "verdict_of U t =
     (let share = legibility U t; mark = legibility_mark U t
      in \<lparr>lv_share = share, lv_mark = mark,
          lv_reason = (case (share, mark) of
             (Some s, Some m) \<Rightarrow>
               if s < LEGIBILITY_SHARE_FLOOR \<and> m \<ge> LEGIBILITY_MARK_FLOOR then Some ''illegible'' else None
           | _ \<Rightarrow> None)\<rparr>)"

definition check_legible :: "ucd \<Rightarrow> ustr \<Rightarrow> unit result" where
  "check_legible U t = (case lv_reason (verdict_of U t) of None \<Rightarrow> Inr () | Some reason \<Rightarrow> Inl reason)"

section \<open>One line of text\<close>

type_synonym attrs = "(ustr \<times> ustr) list"
type_synonym raw_marker = "nat \<times> string \<times> ustr \<times> attrs"

text \<open>Each word's normalization with its offset, and the length of the joined line.\<close>

primrec place_words :: "(ustr \<Rightarrow> ustr) \<Rightarrow> ustr \<Rightarrow> bool \<Rightarrow> nat \<Rightarrow> match list \<Rightarrow> (ustr \<times> nat) list \<times> nat" where
  "place_words nfc raw started len [] = ([], len)"
| "place_words nfc raw started len (w # ws) =
     (let offset = (if started then len + 1 else len); part = nfc (group0 raw w)
      in case place_words nfc raw True (offset + length part) ws of
           (rest, joined) \<Rightarrow> ((part, offset) # rest, joined))"

definition locate_collapsed ::
    "(ustr \<Rightarrow> ustr) \<Rightarrow> ustr \<Rightarrow> match list \<Rightarrow> nat list \<Rightarrow> nat \<Rightarrow> nat \<Rightarrow> nat" where
  "locate_collapsed nfc raw ws offsets len pos =
     (case bisect_right (map m_start ws) pos of
        0 \<Rightarrow> 0
      | Suc index \<Rightarrow>
          if pos \<le> m_end (ws ! index)
          then offsets ! index + length (nfc (substr raw (m_start (ws ! index)) pos))
          else if index + 1 < length ws then offsets ! (index + 1) else len)"

definition newline :: "codepoint \<Rightarrow> bool" where
  "newline c = (c = 13 \<or> c = 10)"

definition locate_preserved :: "(ustr \<Rightarrow> ustr) \<Rightarrow> ustr \<Rightarrow> nat \<Rightarrow> nat \<Rightarrow> nat \<Rightarrow> nat" where
  "locate_preserved nfc raw start stop pos = length (nfc (substr raw start (max start (min pos stop))))"

definition normalized_segment ::
    "ucd \<Rightarrow> (ustr \<Rightarrow> ustr) \<Rightarrow> ustr \<Rightarrow> raw_marker list \<Rightarrow> bool \<Rightarrow> nat list \<Rightarrow> ustr \<times> marker list \<times> nat list" where
  "normalized_segment U nfc raw markers preserve positions =
     (if preserve then
        (let start = length (takeWhile newline raw);
             stop = length raw - length (takeWhile newline (rev raw));
             locate = locate_preserved nfc raw start stop
         in (nfc (substr raw start stop),
             map (\<lambda>(pos, kind, label, ats). \<lparr>mk_kind = kind, mk_label = label, mk_offset = locate pos, mk_attrs = ats\<rparr>)
               markers,
             map locate positions))
      else
        (let ws = re_finditer U False WORD raw;
             placed = place_words nfc raw False 0 ws;
             locate = locate_collapsed nfc raw ws (map snd (fst placed)) (snd placed)
         in (join_with [32] (map fst (fst placed)),
             map (\<lambda>(pos, kind, label, ats). \<lparr>mk_kind = kind, mk_label = label, mk_offset = locate pos, mk_attrs = ats\<rparr>)
               markers,
             map locate positions)))"

section \<open>The builder\<close>

record open_block =
  ob_kind :: string
  ob_label :: ustr
  ob_raw_start :: "nat option"
  ob_raw_end :: "nat option"
  ob_start :: "nat option"
  ob_end :: "nat option"

text \<open>An open block is shared by the walk, the blocks and the pending blocks: it is its index in the blocks.\<close>

record builder =
  bd_parts :: "ustr list"
  bd_markers :: "marker list"
  bd_pending_markers :: "(string \<times> ustr \<times> attrs) list"
  bd_raw :: "ustr list"
  bd_raw_length :: nat
  bd_raw_markers :: "raw_marker list"
  bd_length :: nat
  bd_breaks :: nat
  bd_preserve :: bool
  bd_blocks :: "open_block list"
  bd_pending_blocks :: "nat list"

definition new_builder :: builder where
  "new_builder = \<lparr>bd_parts = [], bd_markers = [], bd_pending_markers = [], bd_raw = [], bd_raw_length = 0,
     bd_raw_markers = [], bd_length = 0, bd_breaks = 0, bd_preserve = False, bd_blocks = [], bd_pending_blocks = []\<rparr>"

definition open_block_at :: "string \<Rightarrow> ustr \<Rightarrow> builder \<Rightarrow> nat \<times> builder" where
  "open_block_at kind label b =
     (let index = length (bd_blocks b)
      in (index, b\<lparr>bd_blocks := bd_blocks b @ [\<lparr>ob_kind = kind, ob_label = label, ob_raw_start = Some (bd_raw_length b),
            ob_raw_end = None, ob_start = None, ob_end = None\<rparr>],
          bd_pending_blocks := bd_pending_blocks b @ [index]\<rparr>))"

definition close_block :: "nat \<Rightarrow> builder \<Rightarrow> builder" where
  "close_block index b =
     b\<lparr>bd_blocks := (bd_blocks b)[index := (bd_blocks b ! index)\<lparr>ob_raw_end := Some (bd_raw_length b)\<rparr>]\<rparr>"

definition add_text :: "ustr option \<Rightarrow> builder \<Rightarrow> builder" where
  "add_text v b =
     (case v of
        None \<Rightarrow> b
      | Some t \<Rightarrow> if t = [] then b
                  else b\<lparr>bd_raw := bd_raw b @ [t], bd_raw_length := bd_raw_length b + length t\<rparr>)"

definition add_marker :: "string \<Rightarrow> ustr \<Rightarrow> attrs \<Rightarrow> builder \<Rightarrow> builder" where
  "add_marker kind label ats b =
     b\<lparr>bd_raw_markers := bd_raw_markers b @ [(bd_raw_length b, kind, label, ats)]\<rparr>"

definition raw_end_of :: "ustr \<Rightarrow> open_block \<Rightarrow> nat" where
  "raw_end_of raw k = (case ob_raw_end k of Some e \<Rightarrow> e | None \<Rightarrow> length raw)"

text \<open>A pending block once the line is normalized: \<open>a\<close> and \<open>e\<close> are the normalized places of its raw bounds.\<close>

definition settle_block :: "ucd \<Rightarrow> ustr \<Rightarrow> ustr \<Rightarrow> nat \<Rightarrow> nat \<Rightarrow> nat \<Rightarrow> nat \<Rightarrow> open_block \<Rightarrow> open_block" where
  "settle_block U raw value base len a e k =
     (let has_text = strip U (substr raw (the (ob_raw_start k)) (raw_end_of raw k)) \<noteq> [];
          k1 = (if has_text \<and> value \<noteq> [] \<and> ob_start k = None then k\<lparr>ob_start := Some (base + a)\<rparr> else k)
      in if ob_raw_end k \<noteq> None
         then k1\<lparr>ob_end := Some (if has_text \<and> value \<noteq> [] then base + e else len), ob_raw_start := None\<rparr>
         else k1\<lparr>ob_raw_start := Some 0\<rparr>)"

text \<open>The pending blocks settled in turn, each with its pair of offsets.\<close>

primrec settle_blocks ::
    "ucd \<Rightarrow> ustr \<Rightarrow> ustr \<Rightarrow> nat \<Rightarrow> nat \<Rightarrow> nat list \<Rightarrow> nat list \<Rightarrow> open_block list \<Rightarrow> open_block list" where
  "settle_blocks U raw value base len offsets [] blocks = blocks"
| "settle_blocks U raw value base len offsets (i # pending) blocks =
     settle_blocks U raw value base len (drop 2 offsets) pending
       (blocks[i := settle_block U raw value base len (offsets ! 0) (offsets ! 1) (blocks ! i)])"

text \<open>The line taken into the builder: its value, its markers and the places of the pending blocks' bounds.\<close>

definition take_line :: "ucd \<Rightarrow> ustr \<Rightarrow> builder \<Rightarrow> ustr \<Rightarrow> marker list \<Rightarrow> nat list \<Rightarrow> builder" where
  "take_line U raw b value markers places =
     (let separator = (if bd_parts b \<noteq> [] \<and> value \<noteq> [] then replicate (bd_breaks b) 10 else []);
          base = bd_length b + length separator;
          blocks = settle_blocks U raw value base (bd_length b) places (bd_pending_blocks b) (bd_blocks b);
          b1 = b\<lparr>bd_raw := [], bd_raw_length := 0, bd_raw_markers := [], bd_blocks := blocks,
            bd_pending_blocks := filter (\<lambda>i. ob_raw_start (blocks ! i) \<noteq> None) (bd_pending_blocks b)\<rparr>
      in if value = []
         then b1\<lparr>bd_pending_markers := bd_pending_markers b @ map (\<lambda>m. (mk_kind m, mk_label m, mk_attrs m)) markers\<rparr>
         else b1\<lparr>bd_parts := bd_parts b @ [separator @ value],
                bd_markers := bd_markers b @
                  map (\<lambda>(kind, label, ats). \<lparr>mk_kind = kind, mk_label = label, mk_offset = base, mk_attrs = ats\<rparr>)
                    (bd_pending_markers b) @
                  map (\<lambda>m. m\<lparr>mk_offset := base + mk_offset m\<rparr>) markers,
                bd_pending_markers := [], bd_length := base + length value, bd_breaks := 0\<rparr>)"

definition flush :: "ucd \<Rightarrow> (ustr \<Rightarrow> ustr) \<Rightarrow> builder \<Rightarrow> builder result" where
  "flush U nfc b =
     (let raw = concat (bd_raw b); pending = map (\<lambda>i. bd_blocks b ! i) (bd_pending_blocks b)
      in if list_ex (\<lambda>k. ob_raw_start k = None) pending then Inl ''AssertionError''
         else
           (case normalized_segment U nfc raw (bd_raw_markers b) (bd_preserve b)
                   (concat (map (\<lambda>k. [the (ob_raw_start k), raw_end_of raw k]) pending)) of
              (value, markers, places) \<Rightarrow> Inr (take_line U raw b value markers places)))"

definition block_break :: "ucd \<Rightarrow> (ustr \<Rightarrow> ustr) \<Rightarrow> builder \<Rightarrow> builder result" where
  "block_break U nfc b = map_result (\<lambda>b. b\<lparr>bd_breaks := max (bd_breaks b) 2\<rparr>) (flush U nfc b)"

definition add_line_break :: "ucd \<Rightarrow> (ustr \<Rightarrow> ustr) \<Rightarrow> builder \<Rightarrow> builder result" where
  "add_line_break U nfc b = map_result (\<lambda>b. b\<lparr>bd_breaks := min (bd_breaks b + 1) 2\<rparr>) (flush U nfc b)"

definition closed_block :: "open_block \<Rightarrow> block list" where
  "closed_block k =
     (case (ob_start k, ob_end k) of
        (Some s, Some e) \<Rightarrow> if e > s then [\<lparr>bk_kind = ob_kind k, bk_label = ob_label k, bk_start = s, bk_end = e\<rparr>] else []
      | _ \<Rightarrow> [])"

definition finish_builder :: "ucd \<Rightarrow> (ustr \<Rightarrow> ustr) \<Rightarrow> builder \<Rightarrow> parsed result" where
  "finish_builder U nfc b0 =
     bind_result (flush U nfc b0) (\<lambda>b.
       let markers = bd_markers b @
             map (\<lambda>(kind, label, ats). \<lparr>mk_kind = kind, mk_label = label, mk_offset = bd_length b, mk_attrs = ats\<rparr>)
               (bd_pending_markers b);
           value = concat (bd_parts b)
       in if strip U value = [] then Inl ''empty''
          else Inr \<lparr>pd_text = value, pd_markers = markers, pd_blocks = concat (map closed_block (bd_blocks b))\<rparr>)"

section \<open>Elements\<close>

datatype element =
  Element (el_tag: "ustr option") (el_attrs: attrs) (el_text: "ustr option") (el_children: "(element \<times> ustr option) list")
  \<comment> \<open>a comment or a processing instruction has no tag name; each child comes with its tail\<close>

record reader =
  rd_nfc :: "ustr \<Rightarrow> ustr"
  rd_itertext :: "element \<Rightarrow> ustr"
  rd_parse_xml :: "ustr \<Rightarrow> element option result"
  rd_parse_html :: "ustr \<Rightarrow> element option result"

definition el_get :: "element \<Rightarrow> string \<Rightarrow> ustr option" where
  "el_get e name = map_of (el_attrs e) (ulit name)"

definition or_empty :: "ustr option \<Rightarrow> ustr" where
  "or_empty v = (case v of None \<Rightarrow> [] | Some t \<Rightarrow> t)"

definition classes_of :: "ucd \<Rightarrow> element \<Rightarrow> ustr list" where
  "classes_of U e = split_words (uc_space U) (or_empty (el_get e ''class''))"

definition tag_of :: "ucd \<Rightarrow> element \<Rightarrow> ustr" where
  "tag_of U e = py_lower U (rev (takeWhile (\<lambda>c. c \<noteq> 125) (rev (or_empty (el_tag e)))))"

abbreviation among :: "ustr \<Rightarrow> string list \<Rightarrow> bool" where
  "among t names \<equiv> t \<in> set (map ulit names)"

abbreviation has_class :: "ustr list \<Rightarrow> string list \<Rightarrow> bool" where
  "has_class classes names \<equiv> list_ex (\<lambda>c. c \<in> set (map ulit names)) classes"

definition opt_attr :: "string \<Rightarrow> ustr option \<Rightarrow> attrs" where
  "opt_attr name v = (case v of None \<Rightarrow> [] | Some t \<Rightarrow> [(ulit name, t)])"

definition page_label :: "ucd \<Rightarrow> reader \<Rightarrow> element \<Rightarrow> ustr" where
  "page_label U R e =
     (let unstarred = strip U (dropWhile (\<lambda>c. c = 42) (strip U (rd_itertext R e)));
          printed = (if starts_with (py_lower U unstarred) (ulit ''page '') then strip U (drop 5 unstarred) else unstarred)
      in if printed \<noteq> [] then printed
         else if or_empty (el_get e ''label'') \<noteq> [] then or_empty (el_get e ''label'')
         else or_empty (el_get e ''data-label''))"

definition page_attrs :: "ucd \<Rightarrow> reader \<Rightarrow> string \<Rightarrow> element \<Rightarrow> attrs" where
  "page_attrs U R column e =
     (let raw_label = strip U (rd_itertext R e); stars = length (takeWhile (\<lambda>c. c = 42) raw_label);
          citation_index = (if or_empty (el_get e ''citation-index'') \<noteq> [] then el_get e ''citation-index''
                            else el_get e ''data-citation-index'')
      in opt_attr ''citation_index'' citation_index @
         (if column = ''html_anon_2020''
          then opt_attr ''number'' (el_get e ''number'') @ opt_attr ''pagescheme'' (el_get e ''pagescheme'') else []) @
         (if stars > 1 then [(ulit ''stars'', decimal stars)] else []))"

definition marker_of :: "ucd \<Rightarrow> reader \<Rightarrow> element \<Rightarrow> string \<Rightarrow> (string \<times> ustr \<times> attrs) option" where
  "marker_of U R e column =
     (let tag = tag_of U e; classes = classes_of U e; label = strip U (rd_itertext R e)
      in if tag = ulit ''page-number'' \<or>
            tag = ulit ''span'' \<and> has_class classes [''star-pagination'', ''ldml-pagenumber''] \<or>
            tag = ulit ''a'' \<and> has_class classes [''page-label'']
         then Some (''page'', page_label U R e, page_attrs U R column e)
         else if among tag [''footnotemark'', ''footnotereference''] \<or>
            tag = ulit ''a'' \<and> starts_with (or_empty (el_get e ''href'')) (ulit ''#'') \<or>
            tag = ulit ''sup'' \<and> re_fullmatch U False BRACKETED_LABEL label \<noteq> None \<or>
            tag = ulit ''span'' \<and> has_class classes [''MsoFootnoteReference'']
         then Some (''footnote-mark'', label, [])
         else if tag = ulit ''bracketnum'' \<or> column = ''html'' \<and> tag = ulit ''span'' \<and> has_class classes [''num'']
         then Some (''editorial'', label, [])
         else None)"

definition is_block :: "ucd \<Rightarrow> element \<Rightarrow> string \<Rightarrow> bool" where
  "is_block U e column =
     (let tag = tag_of U e
      in if column \<noteq> ''xml_harvard'' then among tag HTML_BLOCKS
         else among tag XML_BLOCKS \<or> tag = ulit ''div'' \<and> has_class (classes_of U e) [''footnote'', ''footnotes''])"

text \<open>\<open>ups\<close> are the element's ancestors, nearest first; \<open>is_header\<close> tells whether it is the header element.\<close>

definition block_kind :: "ucd \<Rightarrow> element list \<Rightarrow> bool \<Rightarrow> element \<Rightarrow> string \<Rightarrow> (string \<times> ustr) option" where
  "block_kind U ups is_header e column =
     (let tag = tag_of U e; classes = classes_of U e
      in if column = ''xml_harvard'' then
           (if tag = ulit ''opinion'' then Some (''opinion'', py_lower U (or_empty (el_get e ''type'')))
            else if tag = ulit ''author'' then Some (''author'', [])
            else if among tag [''judges'', ''attorneys'', ''headnotes'', ''summary'', ''history'', ''decisiondate'',
                ''otherdate'', ''docketnumber'', ''seealso'', ''citation'', ''court''] then Some (''headmatter'', tag)
            else if tag = ulit ''footnote'' \<or> tag = ulit ''div'' \<and> has_class classes [''footnote'']
            then Some (''footnote'', or_empty (el_get e ''label''))
            else if tag = ulit ''blockquote'' then Some (''quote'', []) else None)
         else if column = ''html_columbia'' then
           (if among tag [''h3'', ''center''] then Some (''heading'', [])
            else if tag = ulit ''blockquote'' then Some (''quote'', [])
            else if tag = ulit ''footnote_body'' \<or> tag = ulit ''div'' \<and> has_class classes [''footnote'']
            then Some (''footnote'', []) else None)
         else if column = ''html_lawbox'' then
           (if is_header then Some (''headmatter'', ulit ''header'')
            else if among tag [''h1'', ''h2'', ''center''] then Some (''heading'', [])
            else if tag = ulit ''blockquote'' then Some (''quote'', []) else None)
         else if column = ''html_anon_2020'' then
           (if tag = ulit ''div'' \<and> has_class classes [''opinion'']
            then Some (''opinion'', or_empty (el_get e ''opiniontype''))
            else if tag = ulit ''div'' \<and> has_class classes [''caseopinionby''] then Some (''author'', [])
            else if tag = ulit ''div'' \<and> has_class classes [''courtcasedochead'', ''judges'', ''counsel'',
                ''representation'', ''panel''] then Some (''headmatter'', [])
            else if tag = ulit ''counselor'' then Some (''headmatter'', [])
            else if tag = ulit ''h'' \<or> among tag [''h1'', ''h2'', ''h3'', ''h4'', ''h5'', ''h6'']
            then Some (''heading'', [])
            else if tag = ulit ''excerpt'' then Some (''quote'', [])
            else if tag = ulit ''li'' \<and>
                list_ex (\<lambda>p. tag_of U p = ulit ''div'' \<and> has_class (classes_of U p) [''footnotes'']) ups
            then Some (''footnote'', []) else None)
         else if column = ''html'' then
           (if tag = ulit ''p'' \<and> has_class classes [''case_cite'', ''date'', ''parties'', ''docket'', ''court'']
            then Some (''headmatter'', [])
            else if tag = ulit ''div'' \<and> has_class classes [''prelims''] then Some (''headmatter'', [])
            else if tag = ulit ''div'' \<and> has_class classes [''footnote''] \<or>
                tag = ulit ''p'' \<and> has_class classes [''MsoFootnoteText''] then Some (''footnote'', [])
            else if among tag [''h1'', ''h2'', ''h3'', ''h4'', ''h5'', ''h6'', ''center''] then Some (''heading'', [])
            else if tag = ulit ''blockquote'' then Some (''quote'', []) else None)
         else None)"

text \<open>An element's place in the tree is the list of child numbers that leads to it, the last first.\<close>

type_synonym place = "nat list"

fun elements :: "place \<Rightarrow> (place \<times> element) list \<Rightarrow> element \<Rightarrow> (place \<times> (place \<times> element) list \<times> element) list"
and elements_of :: "place \<Rightarrow> (place \<times> element) list \<Rightarrow> nat \<Rightarrow> (element \<times> ustr option) list \<Rightarrow>
    (place \<times> (place \<times> element) list \<times> element) list" where
  "elements p ups (Element tag ats t children) =
     (p, ups, Element tag ats t children) # elements_of p ((p, Element tag ats t children) # ups) 0 children"
| "elements_of p ups n [] = []"
| "elements_of p ups n ((e, tail) # es) = elements (n # p) ups e @ elements_of p ups (n + 1) es"

definition lawbox_header :: "ucd \<Rightarrow> element \<Rightarrow> place option" where
  "lawbox_header U tree =
     (case find (\<lambda>(p, ups, e). el_tag e \<noteq> None \<and> tag_of U e = ulit ''h1'') (elements [] [] tree) of
        None \<Rightarrow> None
      | Some (p, ups, e) \<Rightarrow>
          map_option fst (find (\<lambda>(p, e). tag_of U e = ulit ''div'') (takeWhile (\<lambda>(p, e). p \<noteq> []) ups)))"

section \<open>The walk\<close>

text \<open>An element entered: its break, its blocks and its text; the state is the builder, the blocks opened are
  what it returns to be closed.\<close>

definition open_kind :: "(string \<times> ustr) option \<Rightarrow> builder \<Rightarrow> nat option \<times> builder" where
  "open_kind kind b =
     (case kind of None \<Rightarrow> (None, b)
      | Some (k, label) \<Rightarrow> (case open_block_at k label b of (i, b) \<Rightarrow> (Some i, b)))"

definition close_opt :: "nat option \<Rightarrow> builder \<Rightarrow> builder" where
  "close_opt i b = (case i of None \<Rightarrow> b | Some i \<Rightarrow> close_block i b)"

definition break_if :: "bool \<Rightarrow> ucd \<Rightarrow> (ustr \<Rightarrow> ustr) \<Rightarrow> builder \<Rightarrow> builder result" where
  "break_if block U nfc b = (if block then block_break U nfc b else Inr b)"

definition pagemap_of :: "string \<Rightarrow> element \<Rightarrow> (string \<times> ustr) option" where
  "pagemap_of column e =
     (if column = ''xml_harvard'' then map_option (Pair ''pagemap'') (el_get e ''pgmap'') else None)"

definition enter :: "ucd \<Rightarrow> string \<Rightarrow> (string \<times> ustr) option \<Rightarrow> element \<Rightarrow> builder \<Rightarrow>
    (nat option \<times> nat option) \<times> builder" where
  "enter U column kind e b =
     (case open_kind kind b of (opened, b1) \<Rightarrow>
      case open_kind (pagemap_of column e) b1 of (pagemap, b2) \<Rightarrow>
        let b3 = (if tag_of U e = ulit ''pre'' then b2\<lparr>bd_preserve := True\<rparr> else b2)
        in ((opened, pagemap), add_text (el_text e) b3))"

definition leave :: "ucd \<Rightarrow> (ustr \<Rightarrow> ustr) \<Rightarrow> bool \<Rightarrow> nat option \<times> nat option \<Rightarrow> bool \<Rightarrow> builder \<Rightarrow> builder result" where
  "leave U nfc block opened preserve b =
     map_result (\<lambda>b. b\<lparr>bd_preserve := preserve\<rparr>)
       (break_if block U nfc (close_opt (snd opened) (close_opt (fst opened) b)))"

fun walk_element ::
    "ucd \<Rightarrow> reader \<Rightarrow> string \<Rightarrow> place option \<Rightarrow> place \<Rightarrow> element list \<Rightarrow> element \<Rightarrow> builder \<Rightarrow> builder result"
and walk_children ::
    "ucd \<Rightarrow> reader \<Rightarrow> string \<Rightarrow> place option \<Rightarrow> place \<Rightarrow> element list \<Rightarrow> nat \<Rightarrow> (element \<times> ustr option) list \<Rightarrow>
       builder \<Rightarrow> builder result" where
  "walk_element U R column header p ups (Element tag ats t children) b =
     (let e = Element tag ats t children
      in if tag = None then Inr b
         else case marker_of U R e column of
           Some (kind, label, attrs) \<Rightarrow> Inr (add_marker kind label attrs b)
         | None \<Rightarrow>
             if among (tag_of U e) DROP_SUBTREES then Inr b
             else if tag_of U e = ulit ''br'' then add_line_break U (rd_nfc R) b
             else bind_result (break_if (is_block U e column) U (rd_nfc R) b) (\<lambda>b.
               case enter U column (block_kind U ups (header = Some p) e column) e b of
                 (opened, b1) \<Rightarrow>
                   bind_result (walk_children U R column header p (e # ups) 0 children b1)
                     (leave U (rd_nfc R) (is_block U e column) opened (bd_preserve b))))"
| "walk_children U R column header p ups n [] b = Inr b"
| "walk_children U R column header p ups n ((e, tail) # es) b =
     bind_result (walk_element U R column header (n # p) ups e b) (\<lambda>b.
       walk_children U R column header p ups (n + 1) es (add_text tail b))"

definition parsed_root :: "reader \<Rightarrow> string \<Rightarrow> ustr \<Rightarrow> element result" where
  "parsed_root R column raw =
     (if column = ''xml_harvard''
      then (if list_all is_scalar raw then
              (case rd_parse_xml R raw of Inr (Some tree) \<Rightarrow> Inr tree | _ \<Rightarrow> Inl ''unparseable'')
            else Inl ''unparseable'')
      else (case rd_parse_html R raw of Inr (Some tree) \<Rightarrow> Inr tree | _ \<Rightarrow> Inl ''unparseable''))"

fun crlf_to_lf :: "ustr \<Rightarrow> ustr" where  \<comment> \<open>the pair of carriage return and line feed replaced by a line feed\<close>
  "crlf_to_lf [] = []"
| "crlf_to_lf [c] = [c]"
| "crlf_to_lf (c # d # s) = (if c = 13 \<and> d = 10 then 10 # crlf_to_lf s else c # crlf_to_lf (d # s))"

definition unix_newlines :: "ustr \<Rightarrow> ustr" where
  "unix_newlines raw = map (\<lambda>c. if c = 13 \<or> c = 12 then 10 else c) (crlf_to_lf raw)"

definition walk_source :: "ucd \<Rightarrow> reader \<Rightarrow> string \<Rightarrow> ustr \<Rightarrow> parsed result" where
  "walk_source U R column raw =
     (if column \<notin> set TEXT_SOURCES then Inl ''ValueError''
      else if strip U raw = [] then Inl ''empty''
      else if column = ''plain_text'' then
        (let value = rd_nfc R (unix_newlines raw)
         in if strip U value = [] then Inl ''empty'' else Inr \<lparr>pd_text = value, pd_markers = [], pd_blocks = []\<rparr>)
      else bind_result (parsed_root R column raw) (\<lambda>tree.
        let header = (if column = ''html_lawbox'' then lawbox_header U tree else None)
        in bind_result (walk_element U R column header [] [] tree new_builder) (finish_builder U (rd_nfc R))))"

definition canonical_text :: "ucd \<Rightarrow> reader \<Rightarrow> string \<Rightarrow> ustr \<Rightarrow> parsed result" where
  "canonical_text U R column raw =
     bind_result (walk_source U R column raw) (\<lambda>P. map_result (\<lambda>_. P) (check_legible U (pd_text P)))"

section \<open>Places in a line never go back\<close>

text \<open>The characters of \<open>S\<close> are left alone by normalization, as the starters without compositions are.\<close>

definition plain :: "(ustr \<Rightarrow> ustr) \<Rightarrow> codepoint set \<Rightarrow> bool" where
  "plain nfc S \<longleftrightarrow> (\<forall>s. set s \<subseteq> S \<longrightarrow> nfc s = s)"

lemma set_substr: "set (substr s a b) \<subseteq> set s"
  unfolding substr_def by (meson order_trans set_drop_subset set_take_subset)

lemma plain_substr: "plain nfc S \<Longrightarrow> set raw \<subseteq> S \<Longrightarrow> nfc (substr raw a b) = substr raw a b"
  using set_substr [of raw a b] unfolding plain_def by blast

text \<open>Offsets of the words: each follows the last character of the word before and one space.\<close>

definition word_offset :: "bool \<Rightarrow> nat \<Rightarrow> nat" where
  "word_offset started len = (if started then len + 1 else len)"

lemma place_words_step:
  "fst (place_words nfc raw started len (w # ws)) = (nfc (group0 raw w), word_offset started len) #
     fst (place_words nfc raw True (word_offset started len + length (nfc (group0 raw w))) ws)"
  "snd (place_words nfc raw started len (w # ws)) =
     snd (place_words nfc raw True (word_offset started len + length (nfc (group0 raw w))) ws)"
  by (simp_all add: Let_def word_offset_def split: prod.split)

lemma place_words_parts: "map fst (fst (place_words nfc raw started len ws)) = map (nfc \<circ> group0 raw) ws"
  by (induction ws arbitrary: started len) (simp, simp add: place_words_step del: place_words.simps)

lemma place_words_length [simp]: "length (fst (place_words nfc raw started len ws)) = length ws"
  using place_words_parts [of nfc raw started len ws] by (metis length_map)

lemma place_words_offsets:
  "(\<forall>x \<in> set (fst (place_words nfc raw started len ws)). len \<le> snd x \<and>
      snd x + length (fst x) \<le> snd (place_words nfc raw started len ws)) \<and>
   len \<le> snd (place_words nfc raw started len ws) \<and>
   sorted_wrt (\<lambda>x y. snd x + length (fst x) \<le> snd y) (fst (place_words nfc raw started len ws))"
proof (induction ws arbitrary: started len)
  case (Cons w ws)
  have "len \<le> word_offset started len" by (simp add: word_offset_def)
  with Cons [of True "word_offset started len + length (nfc (group0 raw w))"] show ?case
    by (fastforce simp add: place_words_step simp del: place_words.simps)
qed simp

lemma place_words_joined:
  "snd (place_words nfc raw started len ws) =
     len + (if started \<and> ws \<noteq> [] then 1 else 0) + length (join_with [32] (map (nfc \<circ> group0 raw) ws))"
proof (induction ws arbitrary: started len)
  case (Cons w ws)
  from Cons [of True "word_offset started len + length (nfc (group0 raw w))"] show ?case
    by (cases ws) (auto simp add: place_words_step word_offset_def simp del: place_words.simps split: list.split)
qed simp

section \<open>Locators keep their order\<close>

lemma bisect_right_mono: "a \<le> b \<Longrightarrow> bisect_right xs a \<le> bisect_right xs b"
  unfolding bisect_right_def by (induction xs) auto

lemma bisect_right_le: "bisect_right xs a \<le> length xs"
  unfolding bisect_right_def by (rule length_takeWhile_le)

text \<open>The words of a line: in order, inside it, each with its normalized part.\<close>

definition words_in :: "(ustr \<Rightarrow> ustr) \<Rightarrow> codepoint set \<Rightarrow> ustr \<Rightarrow> match list \<Rightarrow> bool" where
  "words_in nfc S raw ws \<longleftrightarrow> plain nfc S \<and> set raw \<subseteq> S \<and>
     (\<forall>w \<in> set ws. m_start w \<le> m_end w \<and> m_end w \<le> length raw)"

definition placed :: "(ustr \<Rightarrow> ustr) \<Rightarrow> ustr \<Rightarrow> match list \<Rightarrow> (ustr \<times> nat) list \<times> nat" where
  "placed nfc raw ws = place_words nfc raw False 0 ws"

definition offsets :: "(ustr \<Rightarrow> ustr) \<Rightarrow> ustr \<Rightarrow> match list \<Rightarrow> nat list" where
  "offsets nfc raw ws = map snd (fst (placed nfc raw ws))"

lemma words_in_substr: "words_in nfc S raw ws \<Longrightarrow> nfc (substr raw a b) = substr raw a b"
  unfolding words_in_def by (blast intro: plain_substr)

lemma length_offsets: "length (offsets nfc raw ws) = length ws"
  by (simp add: offsets_def placed_def)

lemma placed_offsets:
  "i < length ws \<Longrightarrow> offsets nfc raw ws ! i + length (nfc (group0 raw (ws ! i))) \<le> snd (placed nfc raw ws)"
  "i < j \<Longrightarrow> j < length ws \<Longrightarrow>
     offsets nfc raw ws ! i + length (nfc (group0 raw (ws ! i))) \<le> offsets nfc raw ws ! j"
proof -
  let ?ps = "fst (placed nfc raw ws)"
  have part: "fst (?ps ! i) = nfc (group0 raw (ws ! i))" if "i < length ws" for i
  proof -
    have "fst (?ps ! i) = map fst ?ps ! i" using that by (simp add: placed_def)
    then show ?thesis using that by (simp add: placed_def place_words_parts)
  qed
  have ok: "\<forall>x \<in> set ?ps. snd x + length (fst x) \<le> snd (placed nfc raw ws)"
    "sorted_wrt (\<lambda>x y. snd x + length (fst x) \<le> snd y) ?ps"
    using place_words_offsets [of nfc raw False 0 ws] by (auto simp: placed_def)
  { assume "i < length ws"
    with ok(1) show "offsets nfc raw ws ! i + length (nfc (group0 raw (ws ! i))) \<le> snd (placed nfc raw ws)"
      by (simp add: offsets_def placed_def part [unfolded placed_def, symmetric]) }
  { assume "i < j" "j < length ws"
    with sorted_wrt_nth_less [OF ok(2), of i j]
    show "offsets nfc raw ws ! i + length (nfc (group0 raw (ws ! i))) \<le> offsets nfc raw ws ! j"
      by (simp add: offsets_def placed_def part [unfolded placed_def, symmetric]) }
qed

definition next_place :: "(ustr \<Rightarrow> ustr) \<Rightarrow> ustr \<Rightarrow> match list \<Rightarrow> nat \<Rightarrow> nat" where
  "next_place nfc raw ws i = (if i + 1 < length ws then offsets nfc raw ws ! (i + 1) else snd (placed nfc raw ws))"

lemma offset_part:
  "i < length ws \<Longrightarrow> offsets nfc raw ws ! i + length (nfc (group0 raw (ws ! i))) \<le> next_place nfc raw ws i"
  using placed_offsets(1) [of i] placed_offsets(2) [of i "i + 1"] by (simp add: next_place_def)

lemma next_place_le: "i < j \<Longrightarrow> j < length ws \<Longrightarrow> next_place nfc raw ws i \<le> offsets nfc raw ws ! j"
proof (cases "j = i + 1")
  case False
  assume "i < j" "j < length ws"
  with False placed_offsets(2) [of "i + 1" j ws nfc raw] show ?thesis by (simp add: next_place_def)
qed (simp add: next_place_def)

lemma next_place_joined: "i < length ws \<Longrightarrow> next_place nfc raw ws i \<le> snd (placed nfc raw ws)"
  using placed_offsets(1) [of "i + 1" ws nfc raw] by (auto simp: next_place_def)

definition locate :: "(ustr \<Rightarrow> ustr) \<Rightarrow> ustr \<Rightarrow> match list \<Rightarrow> nat \<Rightarrow> nat" where
  "locate nfc raw ws = locate_collapsed nfc raw ws (offsets nfc raw ws) (snd (placed nfc raw ws))"

lemma locate_Suc:
  "bisect_right (map m_start ws) pos = Suc i \<Longrightarrow> locate nfc raw ws pos =
     (if pos \<le> m_end (ws ! i) then offsets nfc raw ws ! i + length (nfc (substr raw (m_start (ws ! i)) pos))
      else next_place nfc raw ws i)"
  by (simp add: locate_def locate_collapsed_def next_place_def)

lemma locate_0: "bisect_right (map m_start ws) pos = 0 \<Longrightarrow> locate nfc raw ws pos = 0"
  by (simp add: locate_def locate_collapsed_def)

lemma locate_index:
  assumes ok: "words_in nfc S raw ws" and i: "bisect_right (map m_start ws) pos = Suc i"
  shows "i < length ws \<and> offsets nfc raw ws ! i \<le> locate nfc raw ws pos \<and>
    locate nfc raw ws pos \<le> next_place nfc raw ws i"
proof -
  have len: "i < length ws" using bisect_right_le [of "map m_start ws" pos] i by simp
  have "length (nfc (substr raw (m_start (ws ! i)) pos)) \<le> length (nfc (group0 raw (ws ! i)))" if "pos \<le> m_end (ws ! i)"
    using that unfolding group0_def by (simp add: words_in_substr [OF ok])
  with len offset_part [OF len, of nfc raw] show ?thesis by (fastforce simp: locate_Suc [OF i])
qed

lemma locate_mono:
  assumes ok: "words_in nfc S raw ws" and ab: "a \<le> b"
  shows "locate nfc raw ws a \<le> locate nfc raw ws b"
proof (cases "bisect_right (map m_start ws) a")
  case i: (Suc i)
  with bisect_right_mono [OF ab, of "map m_start ws"] obtain j where
    j: "bisect_right (map m_start ws) b = Suc j" "i \<le> j" by (metis Suc_le_D Suc_le_mono)
  note at_i = locate_index [OF ok i]
  show ?thesis
  proof (cases "i = j")
    case True
    have "length (nfc (substr raw (m_start (ws ! i)) a)) \<le> length (nfc (substr raw (m_start (ws ! i)) b))"
      using ab by (simp add: words_in_substr [OF ok])
    with ab i j(1) True at_i show ?thesis by (auto simp: locate_Suc)
  next
    case False
    with j(2) locate_index [OF ok j(1)] next_place_le [of i j ws nfc raw] at_i show ?thesis by simp
  qed
qed (simp add: locate_0)

lemma locate_le:
  assumes ok: "words_in nfc S raw ws"
  shows "locate nfc raw ws pos \<le> snd (placed nfc raw ws)"
proof (cases "bisect_right (map m_start ws) pos")
  case (Suc i)
  from locate_index [OF ok Suc] next_place_joined [of i ws nfc raw] show ?thesis by simp
qed (simp add: locate_0)

text \<open>The two kinds of line alike: a place is within the line's text, and places keep their order.\<close>

definition located :: "ucd \<Rightarrow> (ustr \<Rightarrow> ustr) \<Rightarrow> ustr \<Rightarrow> bool \<Rightarrow> nat \<Rightarrow> nat" where
  "located U nfc raw preserve =
     (if preserve then locate_preserved nfc raw (length (takeWhile newline raw))
        (length raw - length (takeWhile newline (rev raw)))
      else locate nfc raw (re_finditer U False WORD raw))"

definition line_text :: "ucd \<Rightarrow> (ustr \<Rightarrow> ustr) \<Rightarrow> ustr \<Rightarrow> bool \<Rightarrow> ustr" where
  "line_text U nfc raw preserve = fst (normalized_segment U nfc raw [] preserve [])"

definition at_place :: "(nat \<Rightarrow> nat) \<Rightarrow> raw_marker \<Rightarrow> marker" where
  "at_place f m = \<lparr>mk_kind = fst (snd m), mk_label = fst (snd (snd m)), mk_offset = f (fst m),
     mk_attrs = snd (snd (snd m))\<rparr>"

lemma normalized_segment_eq:
  "normalized_segment U nfc raw markers preserve positions =
     (line_text U nfc raw preserve, map (at_place (located U nfc raw preserve)) markers,
      map (located U nfc raw preserve) positions)"
  by (simp add: normalized_segment_def line_text_def located_def Let_def locate_def placed_def offsets_def
    at_place_def case_prod_unfold)

lemma words_in_finditer: "plain nfc S \<Longrightarrow> set raw \<subseteq> S \<Longrightarrow> words_in nfc S raw (re_finditer U False r raw)"
  using re_finditer_inD by (fastforce simp: words_in_def is_match_def)

lemma located_mono:
  assumes "plain nfc S" "set raw \<subseteq> S" "a \<le> b"
  shows "located U nfc raw preserve a \<le> located U nfc raw preserve b"
  using locate_mono [OF words_in_finditer [OF assms(1,2)] assms(3)] assms(3)
  by (auto simp: located_def locate_preserved_def plain_substr [OF assms(1,2)]
    intro!: diff_le_mono min.mono max.mono)

lemma located_le:
  assumes "plain nfc S" "set raw \<subseteq> S"
  shows "located U nfc raw preserve a \<le> length (line_text U nfc raw preserve)"
  using locate_le [OF words_in_finditer [OF assms], of U WORD a]
  by (auto simp: located_def locate_preserved_def plain_substr [OF assms] line_text_def normalized_segment_def
    placed_def place_words_joined place_words_parts Let_def)

section \<open>What the builder keeps\<close>

definition pending_ok :: "builder \<Rightarrow> bool" where
  "pending_ok b \<longleftrightarrow> distinct (bd_pending_blocks b) \<and>
     (\<forall>i \<in> set (bd_pending_blocks b). i < length (bd_blocks b) \<and> ob_raw_start (bd_blocks b ! i) \<noteq> None)"

definition block_in :: "nat \<Rightarrow> open_block \<Rightarrow> bool" where
  "block_in n k \<longleftrightarrow> (case ob_start k of None \<Rightarrow> True | Some s \<Rightarrow> s \<le> n) \<and> (case ob_end k of None \<Rightarrow> True | Some e \<Rightarrow> e \<le> n)"

definition markers_ordered :: "codepoint set \<Rightarrow> builder \<Rightarrow> bool" where
  "markers_ordered S b \<longleftrightarrow>
     length (concat (bd_raw b)) = bd_raw_length b \<and> set (concat (bd_raw b)) \<subseteq> S \<and>
     sorted (map fst (bd_raw_markers b)) \<and> (\<forall>m \<in> set (bd_raw_markers b). fst m \<le> bd_raw_length b) \<and>
     length (concat (bd_parts b)) = bd_length b \<and>
     sorted (map mk_offset (bd_markers b)) \<and> (\<forall>m \<in> set (bd_markers b). mk_offset m \<le> bd_length b) \<and>
     (\<forall>k \<in> set (bd_blocks b). block_in (bd_length b) k)"

definition kept :: "(ustr \<Rightarrow> ustr) \<Rightarrow> codepoint set \<Rightarrow> builder \<Rightarrow> bool" where
  "kept nfc S b \<longleftrightarrow> pending_ok b \<and> (plain nfc S \<longrightarrow> markers_ordered S b)"

lemma settle_blocks_length [simp]: "length (settle_blocks U raw v base len offs pending blocks) = length blocks"
  by (induction pending arbitrary: offs blocks) simp_all

lemma settle_block_in:
  assumes "block_in len k" "len \<le> n" "v \<noteq> [] \<longrightarrow> base + a \<le> n \<and> base + e \<le> n"
  shows "block_in n (settle_block U raw v base len a e k)"
  using assms unfolding settle_block_def Let_def block_in_def by (auto split: option.splits)

lemma settle_blocks_in:
  assumes "len \<le> n" "v \<noteq> [] \<longrightarrow> (\<forall>p \<in> set offs. base + p \<le> n)"
    "length offs = 2 * length pending" "\<forall>i \<in> set pending. i < length blocks" "distinct pending"
    "\<forall>i \<in> set pending. block_in len (blocks ! i)" "\<forall>i < length blocks. i \<notin> set pending \<longrightarrow> block_in n (blocks ! i)"
  shows "\<forall>k \<in> set (settle_blocks U raw v base len offs pending blocks). block_in n k"
  using assms
proof (induction pending arbitrary: offs blocks)
  case Nil
  then show ?case by (auto simp: in_set_conv_nth)
next
  case (Cons i pending)
  then obtain a e rest where offs: "offs = a # e # rest" by (auto simp: length_Suc_conv)
  let ?blocks = "blocks[i := settle_block U raw v base len a e (blocks ! i)]"
  have "block_in len (blocks ! i)" using Cons.prems(6) by simp
  from settle_block_in [OF this Cons.prems(1)] Cons.prems(2) offs
  have "block_in n (settle_block U raw v base len a e (blocks ! i))" by simp
  then have "\<forall>j < length ?blocks. j \<notin> set pending \<longrightarrow> block_in n (?blocks ! j)"
    using Cons.prems(4,7) by (auto simp: nth_list_update)
  moreover have "\<forall>j \<in> set pending. block_in len (?blocks ! j)"
    using Cons.prems(5,6) by (metis distinct.simps(2) list.set_intros(2) nth_list_update_neq)
  ultimately show ?case using Cons.IH [of rest ?blocks] Cons.prems offs by simp
qed

lemma block_in_mono: "block_in m k \<Longrightarrow> m \<le> n \<Longrightarrow> block_in n k"
  by (auto simp: block_in_def split: option.splits)

lemma ordered_after:
  assumes "markers_ordered S b" "sorted (map mk_offset ms)" "\<forall>m \<in> set ms. mk_offset m \<le> n" "bd_length b \<le> base"
  defines "after \<equiv> bd_markers b @
    map (\<lambda>(kind, label, ats). \<lparr>mk_kind = kind, mk_label = label, mk_offset = base, mk_attrs = ats\<rparr>) (bd_pending_markers b) @
    map (\<lambda>m. m\<lparr>mk_offset := base + mk_offset m\<rparr>) ms"
  shows "sorted (map mk_offset after) \<and> (\<forall>m \<in> set after. mk_offset m \<le> base + n)"
proof -
  have pending: "map mk_offset (map (\<lambda>(kind, label, ats). \<lparr>mk_kind = kind, mk_label = label, mk_offset = base,
      mk_attrs = ats\<rparr>) xs) = replicate (length xs) base" for xs :: "(string \<times> ustr \<times> attrs) list"
    by (induction xs) auto
  have "sorted (map (\<lambda>m. base + mk_offset m) ms)" using assms(2) by (induction ms) auto
  with assms show ?thesis unfolding after_def markers_ordered_def map_append pending
    by (fastforce simp: sorted_append comp_def split: prod.splits)
qed

lemma take_line_pending: "pending_ok b \<Longrightarrow> pending_ok (take_line U raw b v ms places)"
  by (auto simp: pending_ok_def take_line_def Let_def)

lemma take_line_ordered:
  assumes ord: "markers_ordered S b" and pend: "pending_ok b"
    and ms: "sorted (map mk_offset ms)" "\<forall>m \<in> set ms. mk_offset m \<le> length v"
    and places: "\<forall>p \<in> set places. p \<le> length v" "length places = 2 * length (bd_pending_blocks b)"
  shows "markers_ordered S (take_line U raw b v ms places)"
proof -
  define sep where "sep = (if bd_parts b \<noteq> [] \<and> v \<noteq> [] then replicate (bd_breaks b) (10 :: codepoint) else [])"
  define n where "n = (if v = [] then bd_length b else bd_length b + length sep + length v)"
  define blocks where "blocks = settle_blocks U raw v (bd_length b + length sep) (bd_length b) places
    (bd_pending_blocks b) (bd_blocks b)"
  have "\<forall>k \<in> set blocks. block_in n k" unfolding blocks_def
  proof (rule settle_blocks_in)
    show "v \<noteq> [] \<longrightarrow> (\<forall>p \<in> set places. bd_length b + length sep + p \<le> n)" using places(1) by (auto simp: n_def)
    show "\<forall>i \<in> set (bd_pending_blocks b). i < length (bd_blocks b)" "distinct (bd_pending_blocks b)"
      using pend by (auto simp: pending_ok_def)
    have "block_in (bd_length b) k" if "k \<in> set (bd_blocks b)" for k using ord that unfolding markers_ordered_def by blast
    then show "\<forall>i \<in> set (bd_pending_blocks b). block_in (bd_length b) (bd_blocks b ! i)"
      "\<forall>i < length (bd_blocks b). i \<notin> set (bd_pending_blocks b) \<longrightarrow> block_in n (bd_blocks b ! i)"
      using block_in_mono [of "bd_length b" _ n] pend by (auto simp: n_def pending_ok_def)
  qed (use places(2) in \<open>simp_all add: n_def\<close>)
  moreover note ordered_after [OF ord ms, of "bd_length b + length sep"]
  ultimately show ?thesis
    using ord unfolding markers_ordered_def take_line_def Let_def sep_def [symmetric] blocks_def [symmetric] n_def
    by (cases "v = []") (simp_all add: sep_def del: map_map)
qed

lemma flush_kept:
  assumes kept: "kept nfc S b"
  shows "\<exists>b1. flush U nfc b = Inr b1 \<and> kept nfc S b1"
proof -
  let ?raw = "concat (bd_raw b)"
  let ?pending = "map (\<lambda>i. bd_blocks b ! i) (bd_pending_blocks b)"
  let ?at = "located U nfc ?raw (bd_preserve b)"
  let ?v = "line_text U nfc ?raw (bd_preserve b)"
  let ?ms = "map (at_place ?at) (bd_raw_markers b)"
  let ?places = "map ?at (concat (map (\<lambda>k. [the (ob_raw_start k), raw_end_of ?raw k]) ?pending))"
  have pend: "pending_ok b" using kept by (simp add: kept_def)
  then have "list_ex (\<lambda>k. ob_raw_start k = None) ?pending = False"
    by (auto simp: pending_ok_def list_ex_iff)
  then have flush: "flush U nfc b = Inr (take_line U ?raw b ?v ?ms ?places)"
    unfolding flush_def Let_def normalized_segment_eq by (simp only: if_False prod.case)
  have "markers_ordered S (take_line U ?raw b ?v ?ms ?places)" if plain: "plain nfc S"
  proof (rule take_line_ordered [OF _ pend])
    show ord: "markers_ordered S b" using kept plain by (simp add: kept_def)
    then have raw: "set ?raw \<subseteq> S" by (simp add: markers_ordered_def)
    note le = located_le [OF plain raw, of U "bd_preserve b"]
    show "sorted (map mk_offset ?ms)"
      using ord located_mono [OF plain raw, of _ _ U "bd_preserve b"]
      by (auto simp: markers_ordered_def at_place_def sorted_map comp_def elim!: sorted_wrt_mono_rel [rotated])
    show "\<forall>m \<in> set ?ms. mk_offset m \<le> length ?v" "\<forall>p \<in> set ?places. p \<le> length ?v"
      using le by (auto simp: at_place_def)
    show "length ?places = 2 * length (bd_pending_blocks b)" by (simp add: length_concat comp_def sum_list_triv)
  qed
  with take_line_pending [OF pend] flush show ?thesis unfolding kept_def by blast
qed

section \<open>The walk keeps what the builder keeps\<close>

fun texts_in :: "(ustr \<Rightarrow> bool) \<Rightarrow> element \<Rightarrow> bool" and texts_in_list :: "(ustr \<Rightarrow> bool) \<Rightarrow> (element \<times> ustr option) list \<Rightarrow> bool"
where
  "texts_in ok (Element tag ats t children) \<longleftrightarrow> pred_option ok t \<and> texts_in_list ok children"
| "texts_in_list ok [] \<longleftrightarrow> True"
| "texts_in_list ok ((e, tail) # es) \<longleftrightarrow> texts_in ok e \<and> pred_option ok tail \<and> texts_in_list ok es"

text \<open>What the walk relies on: every operation of the builder keeps \<open>I\<close>, and a line taken never fails.\<close>

locale line_builder =
  fixes U :: ucd and nfc :: "ustr \<Rightarrow> ustr" and I :: "builder \<Rightarrow> bool" and ok :: "ustr \<Rightarrow> bool"
  assumes added: "I b \<Longrightarrow> pred_option ok t \<Longrightarrow> I (add_text t b)"
    and marked: "I b \<Longrightarrow> I (add_marker kind label ats b)"
    and opened: "I b \<Longrightarrow> I (snd (open_block_at kind label b))"
    and closed: "I b \<Longrightarrow> I (close_block i b)"
    and flushed: "I b \<Longrightarrow> \<exists>b1. flush U nfc b = Inr b1 \<and> I b1"
    and breaks: "I b \<Longrightarrow> I (b\<lparr>bd_breaks := n\<rparr>)"
    and preserved: "I b \<Longrightarrow> I (b\<lparr>bd_preserve := p\<rparr>)"
begin

definition returns :: "builder result \<Rightarrow> bool" where
  "returns r \<longleftrightarrow> (\<exists>b. r = Inr b \<and> I b)"

lemma returns_Inr [simp]: "returns (Inr b) \<longleftrightarrow> I b"
  by (simp add: returns_def)

lemma returns_bind: "returns r \<Longrightarrow> (\<And>b. I b \<Longrightarrow> returns (f b)) \<Longrightarrow> returns (bind_result r f)"
  unfolding returns_def by fastforce

lemma returns_map: "returns r \<Longrightarrow> (\<And>b. I b \<Longrightarrow> I (f b)) \<Longrightarrow> returns (map_result f r)"
  unfolding returns_def by fastforce

lemma flush_returns: "I b \<Longrightarrow> returns (flush U nfc b)"
  using flushed by (simp add: returns_def)

lemma break_returns: "I b \<Longrightarrow> returns (break_if block U nfc b)"
  unfolding break_if_def block_break_def by (auto intro!: returns_map flush_returns breaks)

lemma line_break_returns: "I b \<Longrightarrow> returns (add_line_break U nfc b)"
  unfolding add_line_break_def by (auto intro!: returns_map flush_returns breaks)

lemma open_kind_keeps: "I b \<Longrightarrow> I (snd (open_kind kind b))"
  using opened by (auto simp: open_kind_def split: option.split prod.split) (metis snd_conv)

lemma enter_keeps: "I b \<Longrightarrow> pred_option ok (el_text e) \<Longrightarrow> I (snd (enter U column kind e b))"
  using open_kind_keeps unfolding enter_def Let_def
  by (auto simp: case_prod_unfold intro!: added preserved)

lemma leave_returns: "I b \<Longrightarrow> returns (leave U nfc block os p b)"
  unfolding leave_def close_opt_def
  by (auto intro!: returns_map break_returns preserved closed split: option.split)

lemma walk_keeps:
  "W = U \<Longrightarrow> rd_nfc R = nfc \<Longrightarrow> texts_in ok e \<Longrightarrow> I b \<Longrightarrow> returns (walk_element W R column header p ups e b)"
  "W = U \<Longrightarrow> rd_nfc R = nfc \<Longrightarrow> texts_in_list ok es \<Longrightarrow> I b \<Longrightarrow>
     returns (walk_children W R column header p ups n es b)"
proof (induction W R column header p ups e b and W R column header p ups n es b
    rule: walk_element_walk_children.induct)
  case (1 W R column header p ups tag ats t children b)
  let ?e = "Element tag ats t children"
  let ?block = "is_block U ?e column" and ?kind = "block_kind U ups (header = Some p) ?e column"
  show ?case
  proof (cases "marker_of U R ?e column")
    case None
    have "returns (bind_result (break_if ?block U nfc b) (\<lambda>b. case enter U column ?kind ?e b of
        (os, b1) \<Rightarrow> bind_result (walk_children U R column header p (?e # ups) 0 children b1)
          (leave U nfc ?block os (bd_preserve b))))"
      if body: "tag \<noteq> None" "\<not> among (tag_of U ?e) DROP_SUBTREES" "tag_of U ?e \<noteq> ulit ''br''"
    proof (rule returns_bind [OF break_returns [OF "1.prems"(4)]])
      fix b0 assume "I b0"
      obtain os b1 where enter: "enter U column ?kind ?e b0 = (os, b1)" by (rule prod.exhaust)
      with enter_keeps [OF \<open>I b0\<close>, of ?e column ?kind] "1.prems"(3) have "I b1" by simp
      have "returns (walk_children U R column header p (?e # ups) 0 children b1)"
        using "1.IH" [unfolded "1.prems"(1), OF refl body(1) _ _ body(3) enter [symmetric]] body(2) "1.prems" None \<open>I b1\<close> by simp
      then show "returns (case enter U column ?kind ?e b0 of (os, b1) \<Rightarrow>
          bind_result (walk_children U R column header p (?e # ups) 0 children b1)
            (leave U nfc ?block os (bd_preserve b0)))"
        by (simp add: enter returns_bind leave_returns)
    qed
    with "1.prems" None show ?thesis by (auto simp: Let_def line_break_returns)
  next
    case (Some m)
    with "1.prems" show ?thesis by (cases m) (simp add: Let_def marked)
  qed
next
  case (3 W R column header p ups n e tail es b)
  from "3.prems" have "returns (walk_element U R column header (n # p) ups e b)" using "3.IH"(1) by simp
  then show ?case using "3.prems" "3.IH"(2) by (auto intro!: returns_bind added)
qed simp

end

lemma add_text_kept: "kept nfc S b \<Longrightarrow> pred_option (\<lambda>t. set t \<subseteq> S) t \<Longrightarrow> kept nfc S (add_text t b)"
  by (cases t) (auto simp: kept_def add_text_def pending_ok_def markers_ordered_def)

lemma add_marker_kept: "kept nfc S b \<Longrightarrow> kept nfc S (add_marker kind label ats b)"
  by (auto simp: kept_def add_marker_def pending_ok_def markers_ordered_def sorted_append)

lemma open_block_kept: "kept nfc S b \<Longrightarrow> kept nfc S (snd (open_block_at kind label b))"
  by (auto simp: kept_def open_block_at_def pending_ok_def markers_ordered_def Let_def nth_append block_in_def)

lemma close_block_kept: "kept nfc S b \<Longrightarrow> kept nfc S (close_block i b)"
proof -
  assume b: "kept nfc S b"
  let ?k = "(bd_blocks b ! i)\<lparr>ob_raw_end := Some (bd_raw_length b)\<rparr>"
  have "pending_ok (close_block i b)"
    using b by (cases "i < length (bd_blocks b)") (auto simp: kept_def pending_ok_def close_block_def nth_list_update)
  moreover have "markers_ordered S (close_block i b)" if "markers_ordered S b"
  proof (cases "i < length (bd_blocks b)")
    case True
    then have "bd_blocks b ! i \<in> set (bd_blocks b)" by simp
    with that have "block_in (bd_length b) (bd_blocks b ! i)" unfolding markers_ordered_def by blast
    then have "block_in (bd_length b) ?k" by (simp add: block_in_def)
    moreover have "set ((bd_blocks b)[i := ?k]) \<subseteq> insert ?k (set (bd_blocks b))" by (rule set_update_subset_insert)
    ultimately show ?thesis using that by (auto simp: markers_ordered_def close_block_def)
  next
    case False
    then have "close_block i b = b" by (simp add: close_block_def not_less list_update_beyond)
    with that show ?thesis by simp
  qed
  ultimately show ?thesis using b by (simp add: kept_def)
qed

lemma flags_kept: "kept nfc S b \<Longrightarrow> kept nfc S (b\<lparr>bd_breaks := n\<rparr>)" "kept nfc S b \<Longrightarrow> kept nfc S (b\<lparr>bd_preserve := p\<rparr>)"
  by (auto simp: kept_def pending_ok_def markers_ordered_def)

interpretation building: line_builder U nfc "kept nfc S" "\<lambda>t. set t \<subseteq> S" for U nfc S
  by unfold_locales
    (rule add_text_kept add_marker_kept open_block_kept close_block_kept flush_kept flags_kept; assumption)+

lemma new_builder_kept: "kept nfc S new_builder"
  by (simp add: kept_def new_builder_def pending_ok_def markers_ordered_def)

definition parsed_ordered :: "parsed \<Rightarrow> bool" where
  "parsed_ordered P \<longleftrightarrow> sorted (map mk_offset (pd_markers P)) \<and>
     list_all (\<lambda>m. mk_offset m \<le> length (pd_text P)) (pd_markers P) \<and>
     list_all (\<lambda>k. bk_start k < bk_end k \<and> bk_end k \<le> length (pd_text P)) (pd_blocks P)"

lemma closed_block_in: "block_in n k \<Longrightarrow> c \<in> set (closed_block k) \<Longrightarrow> bk_start c < bk_end c \<and> bk_end c \<le> n"
  by (auto simp: closed_block_def block_in_def split: option.splits if_splits)

lemma finish_kept:
  assumes "kept nfc S b"
  shows "case finish_builder U nfc b of
      Inl e \<Rightarrow> e = ''empty''
    | Inr P \<Rightarrow> strip U (pd_text P) \<noteq> [] \<and> (plain nfc S \<longrightarrow> parsed_ordered P)"
proof -
  from flush_kept [OF assms] obtain c where c: "flush U nfc b = Inr c" "kept nfc S c" by blast
  let ?ms = "bd_markers c @ map (\<lambda>(kind, label, ats). \<lparr>mk_kind = kind, mk_label = label, mk_offset = bd_length c,
    mk_attrs = ats\<rparr>) (bd_pending_markers c)"
  have "parsed_ordered \<lparr>pd_text = concat (bd_parts c), pd_markers = ?ms, pd_blocks = concat (map closed_block (bd_blocks c))\<rparr>"
    if plain: "plain nfc S"
  proof -
    from c(2) plain have ord: "markers_ordered S c" by (simp add: kept_def)
    then have "\<forall>k \<in> set (bd_blocks c). block_in (length (concat (bd_parts c))) k" unfolding markers_ordered_def by metis
    with closed_block_in have blocks: "\<forall>x \<in> set (concat (map closed_block (bd_blocks c))).
        bk_start x < bk_end x \<and> bk_end x \<le> length (concat (bd_parts c))" by fastforce
    from ordered_after [OF ord, of "[]" 0 "bd_length c"] ord show ?thesis
      unfolding parsed_ordered_def markers_ordered_def list_all_iff parsed.select_convs by (intro conjI blocks) simp_all
  qed
  with c(1) show ?thesis by (simp add: finish_builder_def Let_def)
qed

section \<open>Properties\<close>

text \<open>Reading a source returns or refuses with one of its declared reasons, whatever the parser and the
  normalization do: the builder's own assertions never fail, and a text that is returned is not blank.\<close>

theorem walk_source_returns:
  "case walk_source U R column raw of
     Inl e \<Rightarrow> e \<in> {''ValueError'', ''empty'', ''unparseable''}
   | Inr P \<Rightarrow> strip U (pd_text P) \<noteq> []"
proof -
  have all: "texts_in (\<lambda>t. set t \<subseteq> UNIV) e" "texts_in_list (\<lambda>t. set t \<subseteq> UNIV) es" for e es
    by (induction "\<lambda>t :: ustr. set t \<subseteq> (UNIV :: nat set)" e and "\<lambda>t :: ustr. set t \<subseteq> (UNIV :: nat set)" es
      rule: texts_in_texts_in_list.induct) (simp_all add: option.pred_True)
  have "case bind_result (walk_element U R column h [] [] tree new_builder) (finish_builder U (rd_nfc R)) of
      Inl e \<Rightarrow> e = ''empty'' | Inr P \<Rightarrow> strip U (pd_text P) \<noteq> []" for h tree
  proof -
    from building.walk_keeps(1) [OF refl refl all(1) new_builder_kept] obtain b where
      "walk_element U R column h [] [] tree new_builder = Inr b" "kept (rd_nfc R) UNIV b"
      unfolding building.returns_def by blast
    with finish_kept [of "rd_nfc R" UNIV b U] show ?thesis by (auto split: sum.splits)
  qed
  note walked = this
  show ?thesis
  proof (cases "parsed_root R column raw")
    case (Inl e)
    then have "e = ''unparseable''" by (auto simp: parsed_root_def split: if_splits sum.splits option.splits)
    with Inl show ?thesis by (simp add: walk_source_def Let_def)
  next
    case (Inr tree)
    define r where "r = bind_result (walk_element U R column
      (if column = ''html_lawbox'' then lawbox_header U tree else None) [] [] tree new_builder) (finish_builder U (rd_nfc R))"
    have "case r of Inl e \<Rightarrow> e = ''empty'' | Inr P \<Rightarrow> strip U (pd_text P) \<noteq> []" unfolding r_def by (rule walked)
    then show ?thesis by (cases r) (simp_all add: walk_source_def Let_def Inr r_def [symmetric])
  qed
qed

text \<open>C24: over text whose characters normalization leaves alone, the locators come in text order and inside the
  text, and every block is a nonempty span of it.\<close>

theorem walk_source_ordered:
  assumes "walk_source U R column raw = Inr P" and "plain (rd_nfc R) S"
    and "case parsed_root R column raw of Inl e \<Rightarrow> True | Inr tree \<Rightarrow> texts_in (\<lambda>t. set t \<subseteq> S) tree"
  shows "sorted (map mk_offset (pd_markers P)) \<and>
    list_all (\<lambda>m. mk_offset m \<le> length (pd_text P)) (pd_markers P) \<and>
    list_all (\<lambda>k. bk_start k < bk_end k \<and> bk_end k \<le> length (pd_text P)) (pd_blocks P)"
proof (cases "column = ''plain_text''")
  case True
  with assms(1) show ?thesis by (auto simp: walk_source_def Let_def split: if_splits)
next
  case False
  with assms(1) obtain tree h b where tree: "parsed_root R column raw = Inr tree"
    "walk_element U R column h [] [] tree new_builder = Inr b" "finish_builder U (rd_nfc R) b = Inr P"
    by (auto simp: walk_source_def Let_def bind_result_Inr_iff split: if_splits)
  with assms(3) have "texts_in (\<lambda>t. set t \<subseteq> S) tree" by simp
  from building.walk_keeps(1) [OF refl refl this new_builder_kept] tree(2) have "kept (rd_nfc R) S b"
    unfolding building.returns_def by (metis sum.inject(2))
  with finish_kept [of "rd_nfc R" S b U] tree(3) assms(2) show ?thesis by (simp add: parsed_ordered_def)
qed

text \<open>The witness reads a page of two words and a page number; normalization composes one sequence, as
  NFC composes l, macron and dot below, and leaves ASCII alone.\<close>

fun text_within :: "element \<Rightarrow> ustr" and text_within_list :: "(element \<times> ustr option) list \<Rightarrow> ustr" where
  "text_within (Element tag ats t children) = or_empty t @ text_within_list children"
| "text_within_list [] = []"
| "text_within_list ((e, tail) # es) = text_within e @ or_empty tail @ text_within_list es"

definition composing :: "ustr \<Rightarrow> ustr" where
  "composing s = (if s = [108, 772, 803] then [7737] else s)"

definition page_turn :: "string \<Rightarrow> element" where
  "page_turn label = Element (Some (ulit ''span'')) [(ulit ''class'', ulit ''star-pagination'')] (Some (ulit label)) []"

definition reader_of :: "element \<Rightarrow> reader" where
  "reader_of tree = \<lparr>rd_nfc = composing, rd_itertext = text_within, rd_parse_xml = (\<lambda>_. Inr (Some tree)),
     rd_parse_html = (\<lambda>_. Inr (Some tree))\<rparr>"

definition small_page :: element where
  "small_page = Element (Some (ulit ''div'')) [] (Some (ulit ''One ''))
     [(page_turn ''*12'', Some (ulit '' two. '')), (page_turn ''*13'', Some (ulit ''three.''))]"

definition small_read :: parsed where
  "small_read = \<lparr>pd_text = ulit ''One two. three.'', pd_markers =
     [\<lparr>mk_kind = ''page'', mk_label = ulit ''12'', mk_offset = 4, mk_attrs = []\<rparr>,
      \<lparr>mk_kind = ''page'', mk_label = ulit ''13'', mk_offset = 9, mk_attrs = []\<rparr>], pd_blocks = []\<rparr>"

lemma small_walked: "walk_source ascii_ucd (reader_of small_page) ''html'' (ulit ''<div>'') = Inr small_read"
  by code_simp

lemma composing_plain: "plain composing {..<128}"
  by (auto simp: plain_def composing_def)

theorem walk_source_ordered_witness: "sorted (map mk_offset (pd_markers small_read))"
proof -
  have "plain (rd_nfc (reader_of small_page)) {..<128}" by (simp add: reader_of_def composing_plain)
  from walk_source_ordered [OF small_walked this] show ?thesis
    by (simp add: parsed_root_def reader_of_def small_page_def page_turn_def ulit_def)
qed

end
