(* ===== verification/Worker_Chunker.thy ===== *)
theory Worker_Chunker
  imports Worker_Sections Py_Utf8 "HOL-Library.Code_Target_Nat"
begin

text \<open>
  \<open>gideon/worker/chunker.py\<close>: a document's sections are packed
  into chunks, each the span of some consecutive units, a unit being a paragraph or a piece of one. The
  token counter and the hash are arguments, as they are third-party code. The loop that holds groups to
  the maximum is partial in the model, since nothing in its text bounds it; that it returns is proved.
\<close>

section \<open>Data\<close>

record tokenizer_pin =
  tp_repository :: ustr
  tp_revision :: ustr
  tp_files :: "(ustr \<times> ustr) list"

record pipeline =
  pl_version :: ustr
  pl_chunk_target :: nat
  pl_chunk_maximum :: nat
  pl_chunk_minimum :: nat
  pl_tokenizer :: tokenizer_pin
  pl_eyecite_version :: ustr

record section_span =
  sec_id :: ustr
  sec_type :: ustr
  sec_start :: nat
  sec_end :: nat

record new_chunk =
  ck_chunk_id :: ustr
  ck_doc_id :: ustr
  ck_pipeline :: ustr
  ck_ordinal :: nat
  ck_section_id :: ustr
  ck_section_type :: ustr
  ck_char_start :: nat
  ck_char_end :: nat
  ck_content_hash :: ustr
  ck_token_count :: nat

definition SENTENCE_TERMINALS :: ustr where "SENTENCE_TERMINALS = ulit ''.?!''"
definition SENTENCE_CLOSERS :: ustr where "SENTENCE_CLOSERS = [34, 39, 8221, 8217, 41, 93, 125]"
definition SENTENCE_OPENERS :: ustr where "SENTENCE_OPENERS = [34, 39, 8220, 8216, 40, 91, 123]"

definition SENTENCE_PATTERN :: regex where
  "SENTENCE_PATTERN = seqs
     [chars SENTENCE_TERMINALS, Many 0 (chars SENTENCE_CLOSERS), Many 1 (Cls False [CSpace]),
      Look True (Cls False ([CRange 65 90, CRange 48 57] @ map CChar SENTENCE_OPENERS))]"

definition WHITESPACE :: regex where "WHITESPACE = Many 1 (Cls False [CSpace])"

section \<open>Splitting\<close>

definition legal :: "span list \<Rightarrow> nat \<Rightarrow> bool" where
  "legal citation_spans boundary = list_all (\<lambda>(s, e). \<not> (s < boundary \<and> boundary < e)) citation_spans"

text \<open>The binary search for the first candidate whose prefix is over the maximum.\<close>

function longest :: "(nat \<Rightarrow> bool) \<Rightarrow> nat list \<Rightarrow> nat \<Rightarrow> nat \<Rightarrow> nat" where
  "longest fits candidates low high =
     (if low < high then
        (let middle = (low + high) div 2
         in if fits (candidates ! middle) then longest fits candidates (middle + 1) high
            else longest fits candidates low middle)
      else low)"
  by pat_completeness auto
termination by (relation "measure (\<lambda>(fits, cs, low, high). high - low)") auto

declare longest.simps [simp del]

definition chosen :: "(nat \<Rightarrow> bool) \<Rightarrow> (nat \<Rightarrow> bool) \<Rightarrow> nat list \<Rightarrow> nat option" where
  \<comment> \<open>one turn of the loop over the two kinds of candidates\<close>
  "chosen inside fits candidates =
     (let cs = filter inside candidates; low = longest fits cs 0 (length cs)
      in if low \<noteq> 0 then Some (cs ! (low - 1)) else None)"

definition boundary_in ::
    "ucd \<Rightarrow> ustr \<Rightarrow> (ustr \<Rightarrow> nat) \<Rightarrow> nat \<Rightarrow> span list \<Rightarrow> nat \<Rightarrow> nat \<Rightarrow> nat option" where
  "boundary_in U t count maximum citation_spans start stop =
     (let inside = (\<lambda>c. start < c \<and> c < stop \<and> legal citation_spans c);
          fits = (\<lambda>c. count (substr t start c) \<le> maximum)
      in case chosen inside fits (map m_end (re_finditer_in U False WHITESPACE t start stop)) of
           Some b \<Rightarrow> Some b
         | None \<Rightarrow> chosen inside fits [start + 1..<stop])"

lemma longest_bounds: "low \<le> high \<Longrightarrow> low \<le> longest fits cs low high \<and> longest fits cs low high \<le> high"
proof (induction fits cs low high rule: longest.induct)
  case (1 fits cs low high)
  show ?case
  proof (cases "low < high")
    case True
    let ?m = "(low + high) div 2"
    from True have m: "low \<le> ?m" "?m < high" by auto
    show ?thesis
    proof (cases "fits (cs ! ?m)")
      case fit: True
      with 1(1) [OF True refl fit] m True show ?thesis by (simp add: longest.simps [of fits cs low high])
    next
      case False
      with 1(2) [OF True refl False] m True show ?thesis by (simp add: longest.simps [of fits cs low high])
    qed
  qed (use 1 in \<open>simp add: longest.simps\<close>)
qed

lemma chosen_in:
  "chosen inside fits candidates = Some b \<Longrightarrow> b \<in> set candidates \<and> inside b"
  using longest_bounds [of 0 "length (filter inside candidates)" fits "filter inside candidates"]
    nth_mem [of "longest fits (filter inside candidates) 0 (length (filter inside candidates)) - 1"
      "filter inside candidates"]
  by (auto simp: chosen_def Let_def split: if_splits)

lemma boundary_in_inside:
  "boundary_in U t count maximum cites start stop = Some b \<Longrightarrow> start < b \<and> b < stop \<and> legal cites b"
  by (auto simp: boundary_in_def Let_def split: option.splits dest!: chosen_in)

function greedy_split ::
    "ucd \<Rightarrow> ustr \<Rightarrow> (ustr \<Rightarrow> nat) \<Rightarrow> nat \<Rightarrow> span list \<Rightarrow> nat \<Rightarrow> nat \<Rightarrow> span list result" where
  "greedy_split U t count maximum citation_spans start stop =
     (if count (substr t start stop) > maximum then
        (case boundary_in U t count maximum citation_spans start stop of
           None \<Rightarrow> Inl ''ValueError''
         | Some b \<Rightarrow> map_result ((#) (start, b)) (greedy_split U t count maximum citation_spans b stop))
      else Inr [(start, stop)])"
  by pat_completeness auto
termination
  by (relation "measure (\<lambda>(U, t, count, maximum, cites, start, stop). stop - start)")
    (auto dest: boundary_in_inside)

declare greedy_split.simps [simp del]

definition sentence_boundaries :: "ucd \<Rightarrow> ustr \<Rightarrow> span list \<Rightarrow> nat \<Rightarrow> nat \<Rightarrow> nat list" where
  "sentence_boundaries U t citation_spans start stop =
     filter (\<lambda>b. start < b \<and> b < stop \<and> legal citation_spans b)
       (map m_end (re_finditer_in U False SENTENCE_PATTERN t start stop))"

definition split_overlong ::
    "ucd \<Rightarrow> ustr \<Rightarrow> (ustr \<Rightarrow> nat) \<Rightarrow> nat \<Rightarrow> span list \<Rightarrow> nat \<Rightarrow> nat \<Rightarrow> span list result" where
  "split_overlong U t count maximum citation_spans start stop =
     (if count (substr t start stop) \<le> maximum then Inr [(start, stop)]
      else
        (let edges = start # sentence_boundaries U t citation_spans start stop @ [stop]
         in map_result concat (collect_results
              (map (\<lambda>(a, b). greedy_split U t count maximum citation_spans a b) (zip edges (tl edges))))))"

definition units ::
    "ucd \<Rightarrow> ustr \<Rightarrow> (ustr \<Rightarrow> nat) \<Rightarrow> nat \<Rightarrow> span list \<Rightarrow> section_span \<Rightarrow> span list result" where
  "units U t count maximum citation_spans sec =
     (let rows = paragraphs U t (sec_start sec) (sec_end sec)
      in if rows = [] then Inr []
         else
           (let starts = sec_start sec # filter (legal citation_spans) (map par_start (tl rows));
                ends = tl starts @ [sec_end sec]
            in map_result concat (collect_results
                 (map (\<lambda>(a, b). split_overlong U t count maximum citation_spans a b) (zip starts ends)))))"

section \<open>Packing\<close>

text \<open>A group is the pair of its first unit's index and the index after its last.\<close>

function grow :: "pipeline \<Rightarrow> nat list \<Rightarrow> nat \<Rightarrow> nat \<Rightarrow> nat" where
  "grow P unit_counts estimate position =
     (if position < length unit_counts then
        (let next_estimate = estimate + unit_counts ! position
         in if next_estimate > pl_chunk_target P \<and>
               \<not> (estimate < pl_chunk_minimum P \<and> next_estimate \<le> pl_chunk_maximum P)
            then position
            else grow P unit_counts next_estimate (position + 1))
      else position)"
  by pat_completeness auto
termination by (relation "measure (\<lambda>(P, cs, estimate, position). length cs - position)") auto

declare grow.simps [simp del]

lemma grow_bounds: "position \<le> length cs \<Longrightarrow> position \<le> grow P cs est position \<and> grow P cs est position \<le> length cs"
proof (induction P cs est position rule: grow.induct)
  case (1 P cs est position)
  then show ?case by (auto simp: grow.simps [of P cs est position] Let_def dest: Suc_leD)
qed

function pack :: "pipeline \<Rightarrow> nat list \<Rightarrow> nat \<Rightarrow> span list" where
  "pack P unit_counts position =
     (if position < length unit_counts then
        (let upto = grow P unit_counts (unit_counts ! position) (position + 1)
         in (position, upto) # pack P unit_counts upto)
      else [])"
  by pat_completeness auto
termination
proof (relation "measure (\<lambda>(P, cs, position). length cs - position)", goal_cases)
  case (2 P cs position upto)
  then show ?case using grow_bounds [of "position + 1" cs P "cs ! position"] by auto
qed simp

declare pack.simps [simp del]

definition merge_last :: "pipeline \<Rightarrow> (span \<Rightarrow> nat) \<Rightarrow> span list \<Rightarrow> span list" where
  "merge_last P weight groups =
     (if length groups > 1 then
        (let l = last groups; previous = last (butlast groups)
         in if weight l < pl_chunk_minimum P \<and> weight (fst previous, snd l) \<le> pl_chunk_maximum P
            then butlast (butlast groups) @ [(fst previous, snd l)] else groups)
      else groups)"

partial_function (option) hold :: "(span \<Rightarrow> nat) \<Rightarrow> nat \<Rightarrow> span list \<Rightarrow> span list result option" where
  "hold weight maximum groups =
     (case groups of
        [] \<Rightarrow> Some (Inr [])
      | g # rest \<Rightarrow>
          if weight g > maximum then
            (if snd g - fst g = 1 then Some (Inl ''ValueError'')
             else
               (let e = snd g - 1
                in hold weight maximum ((fst g, e) #
                     (case rest of [] \<Rightarrow> [(e, snd g)] | h # r \<Rightarrow> (e, snd h) # r))))
          else Option.bind (hold weight maximum rest) (\<lambda>r. Some (map_result ((#) g) r)))"

declare hold.simps [code]

definition group_span :: "span list \<Rightarrow> span \<Rightarrow> span" where
  "group_span us g = (fst (us ! fst g), snd (us ! (snd g - 1)))"

definition groups ::
    "ustr \<Rightarrow> span list \<Rightarrow> pipeline \<Rightarrow> (ustr \<Rightarrow> nat) \<Rightarrow> span list result option" where
  "groups t us P count =
     (let tokens = (\<lambda>(a, b). count (substr t a b)); weight = (\<lambda>g. tokens (group_span us g))
      in hold weight (pl_chunk_maximum P) (merge_last P weight (pack P (map tokens us) 0)))"

section \<open>Chunks\<close>

definition new_row ::
    "(bytes \<Rightarrow> ustr) \<Rightarrow> ustr \<Rightarrow> pipeline \<Rightarrow> ustr \<Rightarrow> section_span \<Rightarrow> (ustr \<Rightarrow> nat) \<Rightarrow> nat \<Rightarrow> span \<Rightarrow> new_chunk result"
  where
  "new_row sha doc_id P t sec count ordinal sp =
     (let slice_text = substr t (fst sp) (snd sp)
      in bind_result (utf8_encode (doc_id @ [10] @ pl_version P @ [10] @ decimal (fst sp) @ [10] @ decimal (snd sp)))
        (\<lambda>key. map_result (\<lambda>body.
           \<lparr>ck_chunk_id = sha key, ck_doc_id = doc_id, ck_pipeline = pl_version P, ck_ordinal = ordinal,
            ck_section_id = sec_id sec, ck_section_type = sec_type sec, ck_char_start = fst sp,
            ck_char_end = snd sp, ck_content_hash = sha body, ck_token_count = count slice_text\<rparr>)
          (utf8_encode slice_text)))"

primrec new_rows ::
    "(nat \<Rightarrow> span \<Rightarrow> new_chunk result) \<Rightarrow> nat \<Rightarrow> span list \<Rightarrow> new_chunk list result" where
  "new_rows row n [] = Inr []"
| "new_rows row n (sp # sps) = bind_result (row n sp) (\<lambda>r. map_result ((#) r) (new_rows row (n + 1) sps))"

primrec chunk_from ::
    "ucd \<Rightarrow> (bytes \<Rightarrow> ustr) \<Rightarrow> ustr \<Rightarrow> pipeline \<Rightarrow> ustr \<Rightarrow> span list \<Rightarrow> (ustr \<Rightarrow> nat) \<Rightarrow> new_chunk list \<Rightarrow>
       section_span list \<Rightarrow> new_chunk list result option" where
  "chunk_from U sha doc_id P t cites count rows [] = Some (Inr rows)"
| "chunk_from U sha doc_id P t cites count rows (sec # secs) =
     (case units U t count (pl_chunk_maximum P) cites sec of
        Inl e \<Rightarrow> Some (Inl e)
      | Inr us \<Rightarrow>
          if us = [] then chunk_from U sha doc_id P t cites count rows secs
          else Option.bind (groups t us P count) (\<lambda>r.
            case bind_result r (\<lambda>gs.
                new_rows (new_row sha doc_id P t sec count) (length rows) (map (group_span us) gs)) of
              Inl e \<Rightarrow> Some (Inl e)
            | Inr new \<Rightarrow> chunk_from U sha doc_id P t cites count (rows @ new) secs))"

definition chunk ::
    "ucd \<Rightarrow> (bytes \<Rightarrow> ustr) \<Rightarrow> ustr \<Rightarrow> pipeline \<Rightarrow> ustr \<Rightarrow> section_span list \<Rightarrow> span list \<Rightarrow> (ustr \<Rightarrow> nat) \<Rightarrow>
       new_chunk list result option" where
  "chunk U sha doc_id P t sections citation_spans count =
     chunk_from U sha doc_id P t citation_spans count [] sections"

section \<open>Tilings with legal edges\<close>

text \<open>The parts of a section a step hands on: a tiling whose inner edges are legal and whose tiles fit.\<close>

definition parts_ok :: "(span \<Rightarrow> bool) \<Rightarrow> (nat \<Rightarrow> bool) \<Rightarrow> span list \<Rightarrow> nat \<Rightarrow> nat \<Rightarrow> bool" where
  "parts_ok fits ok xs a b \<longleftrightarrow> tiles xs a b \<and> (\<forall>x \<in> set xs. fits x \<and> (fst x = a \<or> ok (fst x)))"

lemma parts_ok_append:
  "parts_ok fits ok xs a b \<Longrightarrow> parts_ok fits ok ys b c \<Longrightarrow> ok b \<or> xs = [] \<Longrightarrow> parts_ok fits ok (xs @ ys) a c"
  by (auto simp: parts_ok_def tiles_append)

lemma zip_edges: "zip (a # bs @ [c]) (bs @ [c]) = zip (a # bs) (bs @ [c])"
  using zip_append1 [of "a # bs" "[c]" "bs @ [c]"] by simp

lemma parts_ok_edges:
  assumes "\<And>x y ps. f x y = Inr ps \<Longrightarrow> x < y \<Longrightarrow> parts_ok fits ok ps x y"
    and "collect_results (map (\<lambda>(x, y). f x y) (zip (a # bs) (bs @ [c]))) = Inr pss"
    and "sorted_wrt (<) (a # bs @ [c])" and "list_all ok bs"
  shows "parts_ok fits ok (concat pss) a c"
  using assms(2-4)
proof (induction bs arbitrary: a pss)
  case Nil
  with assms(1) show ?case by (auto simp: bind_result_Inr_iff)
next
  case (Cons b bs)
  then obtain ps qss where ps: "f a b = Inr ps" "pss = ps # qss"
    and qss: "collect_results (map (\<lambda>(x, y). f x y) (zip (b # bs) (bs @ [c]))) = Inr qss"
    by (auto simp: bind_result_Inr_iff)
  from Cons.IH [OF qss] Cons.prems have "parts_ok fits ok (concat qss) b c" by simp
  moreover from assms(1) [OF ps(1)] Cons.prems(2) have "parts_ok fits ok ps a b" by simp
  ultimately show ?case using Cons.prems(3) ps(2) by (simp add: parts_ok_append)
qed

section \<open>Units tile their section\<close>

definition in_size :: "(ustr \<Rightarrow> nat) \<Rightarrow> ustr \<Rightarrow> nat \<Rightarrow> span \<Rightarrow> bool" where
  "in_size count t maximum sp \<longleftrightarrow> count (substr t (fst sp) (snd sp)) \<le> maximum"

lemma longest_fits:
  "low \<le> high \<Longrightarrow> (low \<noteq> 0 \<Longrightarrow> fits (cs ! (low - 1))) \<Longrightarrow>
     longest fits cs low high \<noteq> 0 \<Longrightarrow> fits (cs ! (longest fits cs low high - 1))"
proof (induction fits cs low high rule: longest.induct)
  case (1 fits cs low high)
  show ?case
  proof (cases "low < high")
    case True
    let ?m = "(low + high) div 2"
    show ?thesis
    proof (cases "fits (cs ! ?m)")
      case fit: True
      have "longest fits cs low high = longest fits cs (?m + 1) high"
        using True fit by (simp add: longest.simps [of fits cs low high])
      with 1(1) [OF True refl fit] True fit 1(5) show ?thesis by simp
    next
      case False
      have "longest fits cs low high = longest fits cs low ?m"
        using True False by (simp add: longest.simps [of fits cs low high])
      with 1(2) [OF True refl False] True 1(4,5) show ?thesis by simp
    qed
  next
    case False
    with 1(4,5) show ?thesis by (simp add: longest.simps)
  qed
qed

lemma chosen_fits: "chosen inside fits candidates = Some b \<Longrightarrow> fits b"
  using longest_fits [of 0 "length (filter inside candidates)" fits "filter inside candidates"]
  by (auto simp: chosen_def Let_def split: if_splits)

lemma boundary_in_fits:
  "boundary_in U t count maximum cites start stop = Some b \<Longrightarrow> in_size count t maximum (start, b)"
  by (auto simp: boundary_in_def in_size_def Let_def split: option.splits dest!: chosen_fits)

lemma greedy_split_parts:
  "greedy_split U t count maximum cites start stop = Inr ps \<Longrightarrow> start < stop \<Longrightarrow>
     parts_ok (in_size count t maximum) (legal cites) ps start stop"
proof (induction U t count maximum cites start stop arbitrary: ps rule: greedy_split.induct)
  case (1 U t count maximum cites start stop)
  show ?case
  proof (cases "count (substr t start stop) > maximum")
    case True
    with "1.prems"(1) obtain b qs where b: "boundary_in U t count maximum cites start stop = Some b"
      and qs: "greedy_split U t count maximum cites b stop = Inr qs" and ps: "ps = (start, b) # qs"
      by (auto simp: greedy_split.simps [of U t count maximum cites start stop] map_result_Inr_iff
          split: option.splits)
    from boundary_in_inside [OF b] have b': "start < b" "b < stop" "legal cites b" by auto
    from "1.IH" [OF True b qs b'(2)] b' boundary_in_fits [OF b] ps show ?thesis
      by (auto simp: parts_ok_def)
  next
    case False
    with "1.prems" show ?thesis
      by (auto simp: greedy_split.simps [of U t count maximum cites start stop] parts_ok_def in_size_def)
  qed
qed

lemma sentence_match_nonempty: "is_match U ic SENTENCE_PATTERN s m \<Longrightarrow> m_start m < m_end m"
proof -
  assume m: "is_match U ic SENTENCE_PATTERN s m"
  then have "reads SENTENCE_PATTERN U ic s (m_start m) (m_end m) [] (m_caps m)"
    by (simp add: is_match_def reads_def)
  then obtain r where "reads (Seq (chars SENTENCE_TERMINALS) r) U ic s (m_start m) (m_end m) [] (m_caps m)"
    by (auto simp: SENTENCE_PATTERN_def seqs_def)
  then obtain k e where "k = Suc (m_start m)" "k \<le> length s" "reads r U ic s k (m_end m) e (m_caps m)"
    by (auto simp: reads_Seq chars_def)
  with reads_forward [OF this(3,2)] show ?thesis by simp
qed

lemma sentence_ends_increasing:
  "sorted_wrt (<) (map m_end (re_finditer_in U False SENTENCE_PATTERN t a b))"
proof -
  let ?ms = "finditer U False SENTENCE_PATTERN (take b t) False a"
  have "sorted_wrt (\<lambda>m m'. m_end m < m_end m') ?ms"
  proof (rule sorted_wrt_mono_rel [OF _ finditer_ordered])
    fix m m' assume "m' \<in> set ?ms" "m_end m \<le> m_start m'"
    moreover from this(1) have "m_start m' < m_end m'" using finditer_in sentence_match_nonempty by blast
    ultimately show "m_end m < m_end m'" by simp
  qed
  then show ?thesis by (simp add: re_finditer_in_def sorted_wrt_map)
qed

lemma sorted_between:
  "sorted_wrt (<) bs \<Longrightarrow> \<forall>b \<in> set bs. a < b \<and> b < c \<Longrightarrow> a < c \<Longrightarrow> sorted_wrt (<) (a # bs @ [c :: nat])"
  by (auto simp: sorted_wrt_append)

lemma sentence_edges:
  assumes "start < stop"
  shows "sorted_wrt (<) (start # sentence_boundaries U t cites start stop @ [stop])"
proof (rule sorted_between)
  show "sorted_wrt (<) (sentence_boundaries U t cites start stop)"
    unfolding sentence_boundaries_def by (rule sorted_wrt_filter) (rule sentence_ends_increasing)
qed (use assms in \<open>auto simp: sentence_boundaries_def\<close>)

lemma split_overlong_parts:
  assumes "split_overlong U t count maximum cites start stop = Inr ps" and "start < stop"
  shows "parts_ok (in_size count t maximum) (legal cites) ps start stop"
proof (cases "count (substr t start stop) \<le> maximum")
  case True
  with assms show ?thesis by (auto simp: split_overlong_def parts_ok_def in_size_def)
next
  case False
  let ?bs = "sentence_boundaries U t cites start stop"
  from False assms(1) obtain pss where "ps = concat pss" and
    p: "collect_results (map (\<lambda>(a, b). greedy_split U t count maximum cites a b) (zip (start # ?bs) (?bs @ [stop])))
       = Inr pss"
    by (auto simp: split_overlong_def Let_def map_result_Inr_iff zip_edges)
  have "list_all (legal cites) ?bs" by (auto simp: sentence_boundaries_def list_all_iff)
  with sentence_edges [OF assms(2)] show ?thesis
    using parts_ok_edges [OF greedy_split_parts p] \<open>ps = concat pss\<close> by simp
qed

lemma unit_edges:
  assumes "paragraphs U t start stop \<noteq> []"
  shows "sorted_wrt (<) (start # filter ok (map par_start (tl (paragraphs U t start stop))) @ [stop])"
    and "start < stop"
proof -
  from assms obtain q qs where q: "paragraphs U t start stop = q # qs" by (cases "paragraphs U t start stop") auto
  with paragraphs_from_ordered [of U t start stop] have "\<forall>p \<in> set qs. start < par_start p \<and> par_start p < stop"
    "sorted_wrt (<) (map par_start qs)" and lt: "start < stop"
    by (fastforce simp: sorted_wrt_map paragraphs_def)+
  then show "sorted_wrt (<) (start # filter ok (map par_start (tl (paragraphs U t start stop))) @ [stop])"
    unfolding q by (intro sorted_between sorted_wrt_filter) auto
  show "start < stop" by (rule lt)
qed

lemma units_parts:
  assumes "units U t count maximum cites sec = Inr us" and "paragraphs U t (sec_start sec) (sec_end sec) \<noteq> []"
  shows "parts_ok (in_size count t maximum) (legal cites) us (sec_start sec) (sec_end sec)"
    and "sec_start sec < sec_end sec"
proof -
  let ?bs = "filter (legal cites) (map par_start (tl (paragraphs U t (sec_start sec) (sec_end sec))))"
  from assms obtain pss where us: "us = concat pss" and
    p: "collect_results (map (\<lambda>(a, b). split_overlong U t count maximum cites a b)
         (zip (sec_start sec # ?bs) (?bs @ [sec_end sec]))) = Inr pss"
    by (auto simp: units_def Let_def map_result_Inr_iff)
  from parts_ok_edges [OF split_overlong_parts p unit_edges(1) [OF assms(2)]]
  show "parts_ok (in_size count t maximum) (legal cites) us (sec_start sec) (sec_end sec)"
    by (simp add: us list_all_iff)
  show "sec_start sec < sec_end sec" by (rule unit_edges(2) [OF assms(2)])
qed

lemma units_Nil_iff:
  assumes "units U t count maximum cites sec = Inr us"
  shows "us = [] \<longleftrightarrow> paragraphs U t (sec_start sec) (sec_end sec) = []"
proof (cases "paragraphs U t (sec_start sec) (sec_end sec) = []")
  case True
  with assms show ?thesis by (simp add: units_def Let_def)
next
  case False
  from units_parts [OF assms False] False show ?thesis by (auto simp: parts_ok_def)
qed

section \<open>Groups of units\<close>

text \<open>The left edge of each unit, and the end of the last.\<close>

definition edge :: "span list \<Rightarrow> nat \<Rightarrow> nat \<Rightarrow> nat" where
  "edge us b k = (if k < length us then fst (us ! k) else b)"

lemma tiles_nth: "tiles us a b \<Longrightarrow> k < length us \<Longrightarrow> fst (us ! k) < snd (us ! k) \<and> snd (us ! k) = edge us b (Suc k)"
proof (induction us arbitrary: a k)
  case (Cons x us)
  then show ?case
    by (cases k; cases us) (auto simp: edge_def)
qed simp

lemma edge_less: "tiles us a b \<Longrightarrow> i < j \<Longrightarrow> j \<le> length us \<Longrightarrow> edge us b i < edge us b j"
proof (induction j)
  case (Suc j)
  then have "edge us b j < edge us b (Suc j)" using tiles_nth [of us a b j] by (simp add: edge_def)
  with Suc show ?case by (cases "i = j") auto
qed simp

lemma group_span_edges:
  "tiles us a b \<Longrightarrow> fst g < snd g \<Longrightarrow> snd g \<le> length us \<Longrightarrow>
     group_span us g = (edge us b (fst g), edge us b (snd g))"
  using tiles_nth [of us a b "snd g - 1"] by (auto simp: group_span_def edge_def)

lemma tiles_groups:
  assumes "tiles us a b"
  shows "tiles gs i (length us) \<Longrightarrow> tiles (map (group_span us) gs) (edge us b i) b"
proof (induction gs arbitrary: i)
  case (Cons g gs)
  then have g: "fst g = i" "i < snd g" "tiles gs (snd g) (length us)" by auto
  from tiles_le [OF g(3)] have "snd g \<le> length us" .
  with group_span_edges [OF assms, of g] edge_less [OF assms, of i "snd g"] g Cons.IH [OF g(3)]
  show ?case by simp
qed (simp add: edge_def)

lemma tiles_pack: "position \<le> length cs \<Longrightarrow> tiles (pack P cs position) position (length cs)"
proof (induction P cs position rule: pack.induct)
  case (1 P cs position)
  show ?case
  proof (cases "position < length cs")
    case True
    let ?q = "grow P cs (cs ! position) (position + 1)"
    have "position + 1 \<le> ?q" "?q \<le> length cs" using grow_bounds [of "position + 1" cs P "cs ! position"] True by auto
    with "1.IH" [OF True refl] True show ?thesis by (simp add: pack.simps [of P cs position] Let_def)
  qed (use 1 in \<open>simp add: pack.simps\<close>)
qed

lemma tiles_merge_last:
  assumes "tiles gs a b"
  shows "tiles (merge_last P weight gs) a b"
proof (cases gs rule: rev_cases)
  case (snoc ys h)
  with assms show ?thesis
    by (cases ys rule: rev_cases) (auto simp: merge_last_def Let_def tiles_append butlast_append)
qed (use assms in \<open>simp add: merge_last_def\<close>)

text \<open>Groups that tile units of which each fits on its own: the loop returns, keeps the tiling, and leaves
  no group over the maximum. Each pass shortens the first group or moves past it.\<close>

lemma hold_returns:
  assumes "\<And>k. k < n \<Longrightarrow> weight (k, Suc k) \<le> maximum"
  shows "tiles gs i n \<Longrightarrow>
     \<exists>hs. hold weight maximum gs = Some (Inr hs) \<and> tiles hs i n \<and> (\<forall>h \<in> set hs. weight h \<le> maximum)"
proof (induction "n - i" arbitrary: i gs rule: less_induct)
  case outer: less
  have "tiles (g # rest) i n \<Longrightarrow> \<exists>hs. hold weight maximum (g # rest) = Some (Inr hs) \<and> tiles hs i n \<and>
      (\<forall>h \<in> set hs. weight h \<le> maximum)" for g rest
  proof (induction "snd g" arbitrary: g rest rule: less_induct)
    case less
    then have g: "fst g = i" "i < snd g" "tiles rest (snd g) n" by auto
    from tiles_le [OF g(3)] have n: "snd g \<le> n" .
    show ?case
    proof (cases "weight g > maximum")
      case True
      have "snd g - fst g \<noteq> 1"
      proof
        assume "snd g - fst g = 1"
        with g have "g = (i, Suc i)" "i < n" using n by (auto simp: prod_eq_iff)
        with assms [of i] True show False by simp
      qed
      with g have e: "snd g - 1 < snd g" "i < snd g - 1" by auto
      let ?r = "case rest of [] \<Rightarrow> [(snd g - 1, snd g)] | h # r \<Rightarrow> (snd g - 1, snd h) # r"
      have "tiles ?r (snd g - 1) n"
        using g(3) e by (cases rest) auto
      with less.hyps [of "(i, snd g - 1)" ?r] e obtain hs where
        "hold weight maximum ((i, snd g - 1) # ?r) = Some (Inr hs)" "tiles hs i n" "\<forall>h \<in> set hs. weight h \<le> maximum"
        by auto
      moreover have "hold weight maximum (g # rest) = hold weight maximum ((i, snd g - 1) # ?r)"
        using True \<open>snd g - fst g \<noteq> 1\<close> g(1)
        by (subst hold.simps) (simp only: list.case if_True if_False Let_def not_False_eq_True)
      ultimately show ?thesis by auto
    next
      case False
      from outer.hyps [OF _ g(3)] g(2) n obtain hs where
        "hold weight maximum rest = Some (Inr hs)" "tiles hs (snd g) n" "\<forall>h \<in> set hs. weight h \<le> maximum"
        by (meson diff_less_mono2 less_le_trans)
      with False g show ?thesis by (simp add: hold.simps [of weight maximum "g # rest"])
    qed
  qed
  with outer.prems show ?case by (cases gs) (auto simp: hold.simps [of weight maximum "[]"])
qed

lemma groups_return:
  assumes "parts_ok (in_size count t (pl_chunk_maximum P)) ok us a b"
  shows "\<exists>gs. groups t us P count = Some (Inr gs) \<and>
    parts_ok (in_size count t (pl_chunk_maximum P)) ok (map (group_span us) gs) a b"
proof -
  let ?tokens = "\<lambda>(a, b). count (substr t a b)"
  let ?weight = "\<lambda>g. ?tokens (group_span us g)"
  have us: "tiles us a b" "\<And>x. x \<in> set us \<Longrightarrow> in_size count t (pl_chunk_maximum P) x \<and> (fst x = a \<or> ok (fst x))"
    using assms by (auto simp: parts_ok_def)
  have "?weight (k, Suc k) \<le> pl_chunk_maximum P" if "k < length us" for k
    using us(2) [of "us ! k"] that by (auto simp: group_span_def in_size_def split: prod.splits)
  then obtain gs where gs: "groups t us P count = Some (Inr gs)" "tiles gs 0 (length us)"
    "\<forall>g \<in> set gs. ?weight g \<le> pl_chunk_maximum P"
    using hold_returns [of "length us" ?weight "pl_chunk_maximum P" "merge_last P ?weight (pack P (map ?tokens us) 0)" 0]
      tiles_merge_last [OF tiles_pack [of 0 "map ?tokens us" P], of P ?weight]
    unfolding groups_def Let_def by auto
  have "edge us b 0 = a" using us(1) by (cases us) (auto simp: edge_def)
  with tiles_groups [OF us(1) gs(2)] have "tiles (map (group_span us) gs) a b" by simp
  moreover have "fst (group_span us g) = a \<or> ok (fst (group_span us g))" if "g \<in> set gs" for g
    using us(2) [of "us ! fst g"] tiles_within [OF gs(2) that] by (auto simp: group_span_def)
  moreover have "in_size count t (pl_chunk_maximum P) (group_span us g)" if "g \<in> set gs" for g
    using gs(3) that by (auto simp: in_size_def split: prod.splits)
  ultimately show ?thesis using gs(1) by (auto simp: parts_ok_def)
qed

section \<open>Whole documents\<close>

definition row_span :: "new_chunk \<Rightarrow> span" where
  "row_span r = (ck_char_start r, ck_char_end r)"

lemma new_rows_spans:
  "new_rows (new_row sha doc_id P t sec count) n sps = Inr rows \<Longrightarrow>
     map row_span rows = sps \<and> map ck_ordinal rows = [n..<n + length rows] \<and>
     (\<forall>r \<in> set rows. ck_token_count r = count (substr t (ck_char_start r) (ck_char_end r)) \<and>
        ck_section_id r = sec_id sec \<and> ck_section_type r = sec_type sec)"
proof (induction sps arbitrary: n rows)
  case (Cons sp sps)
  then obtain r rs where r: "new_row sha doc_id P t sec count n sp = Inr r"
    and rs: "new_rows (new_row sha doc_id P t sec count) (n + 1) sps = Inr rs" "rows = r # rs"
    by (auto simp: bind_result_Inr_iff map_result_Inr_iff)
  from r have "row_span r = sp" "ck_ordinal r = n" "ck_section_id r = sec_id sec" "ck_section_type r = sec_type sec"
    "ck_token_count r = count (substr t (ck_char_start r) (ck_char_end r))"
    by (auto simp: new_row_def Let_def bind_result_Inr_iff map_result_Inr_iff row_span_def)
  with Cons.IH [OF rs(1)] rs(2) show ?case by (simp add: upt_rec)
qed simp

definition section_chunked ::
    "ucd \<Rightarrow> ustr \<Rightarrow> (ustr \<Rightarrow> nat) \<Rightarrow> nat \<Rightarrow> span list \<Rightarrow> section_span \<Rightarrow> new_chunk list \<Rightarrow> bool" where
  "section_chunked U t count maximum cites sec rows \<longleftrightarrow>
     (if paragraphs U t (sec_start sec) (sec_end sec) = [] then rows = []
      else parts_ok (in_size count t maximum) (legal cites) (map row_span rows) (sec_start sec) (sec_end sec)) \<and>
     (\<forall>r \<in> set rows. ck_token_count r = count (substr t (ck_char_start r) (ck_char_end r)) \<and>
        ck_section_id r = sec_id sec \<and> ck_section_type r = sec_type sec)"

lemma chunk_from_sections:
  "chunk_from U sha doc_id P t cites count rows0 secs = Some (Inr rows) \<Longrightarrow>
     map ck_ordinal rows0 = [0..<length rows0] \<Longrightarrow>
     \<exists>rss. rows = rows0 @ concat rss \<and> map ck_ordinal rows = [0..<length rows] \<and>
       list_all2 (section_chunked U t count (pl_chunk_maximum P) cites) secs rss"
proof (induction secs arbitrary: rows0)
  case Nil
  then show ?case by auto
next
  case (Cons sec secs)
  let ?par = "paragraphs U t (sec_start sec) (sec_end sec)"
  from Cons.prems(1) obtain us where us: "units U t count (pl_chunk_maximum P) cites sec = Inr us"
    by (cases "units U t count (pl_chunk_maximum P) cites sec") simp_all
  show ?case
  proof (cases "us = []")
    case True
    with us Cons.prems(1) have "chunk_from U sha doc_id P t cites count rows0 secs = Some (Inr rows)" by simp
    from Cons.IH [OF this Cons.prems(2)] obtain rss where "rows = rows0 @ concat rss"
      "map ck_ordinal rows = [0..<length rows]"
      "list_all2 (section_chunked U t count (pl_chunk_maximum P) cites) secs rss" by blast
    moreover have "section_chunked U t count (pl_chunk_maximum P) cites sec []"
      using units_Nil_iff [OF us] True by (simp add: section_chunked_def)
    ultimately show ?thesis by (intro exI [of _ "[] # rss"]) simp
  next
    case False
    with units_Nil_iff [OF us] have ne: "?par \<noteq> []" by simp
    from groups_return [OF units_parts(1) [OF us ne]] obtain gs where gs: "groups t us P count = Some (Inr gs)"
      "parts_ok (in_size count t (pl_chunk_maximum P)) (legal cites) (map (group_span us) gs) (sec_start sec) (sec_end sec)"
      by blast
    from us False Cons.prems(1) gs(1) obtain added where
      added: "new_rows (new_row sha doc_id P t sec count) (length rows0) (map (group_span us) gs) = Inr added"
      and later: "chunk_from U sha doc_id P t cites count (rows0 @ added) secs = Some (Inr rows)"
      by (cases "new_rows (new_row sha doc_id P t sec count) (length rows0) (map (group_span us) gs)") simp_all
    note spans = new_rows_spans [OF added]
    have ordinals: "map ck_ordinal added = [length rows0..<length rows0 + length added]"
      and at: "map row_span added = map (group_span us) gs"
      and counted: "\<forall>r \<in> set added. ck_token_count r = count (substr t (ck_char_start r) (ck_char_end r)) \<and>
        ck_section_id r = sec_id sec \<and> ck_section_type r = sec_type sec"
      using spans by blast+
    have "map ck_ordinal (rows0 @ added) = [0..<length (rows0 @ added)]"
      unfolding map_append length_append Cons.prems(2) ordinals upt_add_eq_append [OF le0] add_0 ..
    from Cons.IH [OF later this] obtain rss where "rows = (rows0 @ added) @ concat rss"
      "map ck_ordinal rows = [0..<length rows]"
      "list_all2 (section_chunked U t count (pl_chunk_maximum P) cites) secs rss" by blast
    moreover have "section_chunked U t count (pl_chunk_maximum P) cites sec added"
      unfolding section_chunked_def at using gs(2) counted ne by (simp only: if_False simp_thms)
    ultimately show ?thesis by (intro exI [of _ "added # rss"]) simp
  qed
qed

lemma chunk_sections:
  "chunk U sha doc_id P t sections cites count = Some (Inr rows) \<Longrightarrow>
     \<exists>rss. rows = concat rss \<and> map ck_ordinal rows = [0..<length rows] \<and>
       list_all2 (section_chunked U t count (pl_chunk_maximum P) cites) sections rss"
  using chunk_from_sections [of U sha doc_id P t cites count "[]" sections rows] by (simp add: chunk_def)

text \<open>Tiles cover: a span that no inner edge cuts lies inside one of them.\<close>

lemma parts_hold_span:
  assumes "parts_ok fits ok xs a b" "a \<le> s" "s < e" "e \<le> b" "\<And>k. ok k \<Longrightarrow> \<not> (s < k \<and> k < e)"
  shows "\<exists>x \<in> set xs. fst x \<le> s \<and> e \<le> snd x"
  using assms(1,2)
proof (induction xs arbitrary: a)
  case Nil
  with assms(3,4) show ?case by (simp add: parts_ok_def)
next
  case (Cons x xs)
  then have x: "fst x = a" "a < snd x" "tiles xs (snd x) b"
    and ok: "\<And>y. y \<in> set xs \<Longrightarrow> fits y \<and> (fst y = a \<or> ok (fst y))"
    by (auto simp: parts_ok_def)
  from x(2) tiles_within [OF x(3)] ok have xs: "parts_ok fits ok xs (snd x) b"
    using x(3) by (fastforce simp: parts_ok_def)
  show ?case
  proof (cases "e \<le> snd x")
    case True
    with x(1) Cons.prems(2) show ?thesis by auto
  next
    case False
    with x(3) assms(4) obtain y ys where "xs = y # ys" by (cases xs) auto
    with x(2,3) ok [of y] have "ok (snd x)" by simp
    with assms(5) [of "snd x"] False have "snd x \<le> s" by auto
    from Cons.IH [OF xs this] show ?thesis by auto
  qed
qed

lemma chunk_row:
  assumes "chunk U sha doc_id P t sections cites count = Some (Inr rows)" "r \<in> set rows"
  obtains sec where "sec \<in> set sections" "ck_section_id r = sec_id sec" "ck_section_type r = sec_type sec" "ck_token_count r = count (substr t (ck_char_start r) (ck_char_end r))"
    "in_size count t (pl_chunk_maximum P) (row_span r)" "ck_char_start r = sec_start sec \<or> legal cites (ck_char_start r)"
proof -
  from chunk_sections [OF assms(1)] obtain rss where "rows = concat rss"
    and all: "list_all2 (section_chunked U t count (pl_chunk_maximum P) cites) sections rss" by blast
  with assms(2) obtain rs where "rs \<in> set rss" "r \<in> set rs" by auto
  with list_all2_mem [OF all] obtain sec where "sec \<in> set sections"
    "section_chunked U t count (pl_chunk_maximum P) cites sec rs" by blast
  with \<open>r \<in> set rs\<close> show thesis
    by (intro that [of sec]) (auto simp: section_chunked_def parts_ok_def row_span_def split: if_splits)
qed

lemma utf8_encode_error: "utf8_encode x = Inl e \<Longrightarrow> e = ''UnicodeEncodeError''"
  by (auto simp: utf8_encode_def split: if_splits)

lemma new_row_error: "new_row sha doc_id P t sec count n sp = Inl e \<Longrightarrow> e = ''UnicodeEncodeError''"
  by (cases "utf8_encode (doc_id @ [10] @ pl_version P @ [10] @ decimal (fst sp) @ [10] @ decimal (snd sp))";
      cases "utf8_encode (substr t (fst sp) (snd sp))")
    (simp_all add: new_row_def Let_def utf8_encode_error)

lemma new_rows_error: "new_rows (new_row sha doc_id P t sec count) n sps = Inl e \<Longrightarrow> e = ''UnicodeEncodeError''"
proof (induction sps arbitrary: n)
  case (Cons sp sps)
  show ?case
  proof (cases "new_row sha doc_id P t sec count n sp")
    case (Inr r)
    with Cons.prems Cons.IH [of "n + 1"] show ?thesis
      by (cases "new_rows (new_row sha doc_id P t sec count) (n + 1) sps") simp_all
  qed (use Cons.prems new_row_error in auto)
qed simp

lemma chunk_from_returns:
  "\<exists>r. chunk_from U sha doc_id P t cites count rows0 secs = Some r \<and>
     (\<forall>e. r = Inl e \<longrightarrow> e = ''UnicodeEncodeError'' \<or>
        (\<exists>sec \<in> set secs. units U t count (pl_chunk_maximum P) cites sec = Inl e))"
proof (induction secs arbitrary: rows0)
  case (Cons sec secs)
  show ?case
  proof (cases "units U t count (pl_chunk_maximum P) cites sec")
    case (Inr us)
    show ?thesis
    proof (cases "us = []")
      case False
      with units_Nil_iff [OF Inr] have ne: "paragraphs U t (sec_start sec) (sec_end sec) \<noteq> []" by simp
      from groups_return [OF units_parts(1) [OF Inr ne]] obtain gs where "groups t us P count = Some (Inr gs)"
        by blast
      with Inr False Cons.IH new_rows_error [of sha doc_id P t sec count "length rows0" "map (group_span us) gs"]
      show ?thesis
        by (cases "new_rows (new_row sha doc_id P t sec count) (length rows0) (map (group_span us) gs)") fastforce+
    qed (use Inr Cons.IH in auto)
  qed auto
qed simp

section \<open>Splitting succeeds\<close>

lemma longest_first:
  "low < high \<Longrightarrow> fits (cs ! low) \<Longrightarrow> longest fits cs low high \<noteq> low"
proof (induction fits cs low high rule: longest.induct)
  case (1 fits cs low high)
  let ?m = "(low + high) div 2"
  show ?case
  proof (cases "fits (cs ! ?m)")
    case True
    have "?m + 1 \<le> high" "low < ?m + 1" using 1(3) by auto
    with longest_bounds [of "?m + 1" high fits cs] True 1(3) show ?thesis
      by (simp add: longest.simps [of fits cs low high])
  next
    case False
    with 1(4) have "low \<noteq> ?m" by metis
    with 1(3) have "low < ?m" by auto
    with 1(2) [OF 1(3) refl False _ 1(4)] False 1(3) show ?thesis
      by (simp add: longest.simps [of fits cs low high])
  qed
qed

lemma chosen_first: "inside c \<Longrightarrow> fits c \<Longrightarrow> chosen inside fits (c # cs) \<noteq> None"
  using longest_first [of 0 "Suc (length (filter inside cs))" fits "c # filter inside cs"]
  by (simp add: chosen_def Let_def)

lemma boundary_in_exists:
  assumes "start + 1 < stop" "legal cites (start + 1)" "count (substr t start (start + 1)) \<le> maximum"
  shows "boundary_in U t count maximum cites start stop \<noteq> None"
proof -
  have "[start + 1..<stop] = (start + 1) # [start + 2..<stop]" using assms(1) by (simp add: upt_conv_Cons)
  then have "chosen (\<lambda>c. start < c \<and> c < stop \<and> legal cites c) (\<lambda>c. count (substr t start c) \<le> maximum)
      [start + 1..<stop] \<noteq> None"
    using assms chosen_first by simp
  then show ?thesis by (simp add: boundary_in_def Let_def split: option.split)
qed

lemma greedy_split_succeeds:
  assumes "\<forall>k. legal cites k \<and> count (substr t k (k + 1)) \<le> maximum"
  shows "start < stop \<Longrightarrow> \<exists>ps. greedy_split U t count maximum cites start stop = Inr ps"
proof (induction "stop - start" arbitrary: start rule: less_induct)
  case less
  show ?case
  proof (cases "count (substr t start stop) > maximum")
    case True
    with spec [OF assms, of start] have "stop \<noteq> start + 1" by auto
    with less.prems have "start + 1 < stop" by simp
    with boundary_in_exists [of start stop cites count t maximum U] assms obtain b where
      b: "boundary_in U t count maximum cites start stop = Some b" by blast
    note b' = boundary_in_inside [OF b]
    from b' have "stop - b < stop - start" by linarith
    from less.hyps [OF this] b' obtain ps where "greedy_split U t count maximum cites b stop = Inr ps" by auto
    with b True show ?thesis by (simp add: greedy_split.simps [of U t count maximum cites start stop])
  qed (simp add: greedy_split.simps [of U t count maximum cites start stop])
qed

lemma edges_succeed:
  assumes "\<And>x y. x < y \<Longrightarrow> \<exists>ps. f x y = Inr ps"
  shows "sorted_wrt (<) (a # bs @ [c :: nat]) \<Longrightarrow>
    \<exists>pss. collect_results (map (\<lambda>(x, y). f x y) (zip (a # bs) (bs @ [c]))) = Inr pss"
proof (induction bs arbitrary: a)
  case Nil
  with assms [of a c] show ?case by auto
next
  case (Cons b bs)
  from assms [of a b] Cons.prems obtain ps where "f a b = Inr ps" by auto
  moreover from Cons.IH [of b] Cons.prems obtain pss where
    "collect_results (map (\<lambda>(x, y). f x y) (zip (b # bs) (bs @ [c]))) = Inr pss" by auto
  ultimately show ?case by simp
qed

lemma units_succeed:
  assumes "\<forall>k. legal cites k \<and> count (substr t k (k + 1)) \<le> maximum"
  shows "\<exists>us. units U t count maximum cites sec = Inr us"
proof (cases "paragraphs U t (sec_start sec) (sec_end sec) = []")
  case False
  have "\<exists>ps. split_overlong U t count maximum cites start stop = Inr ps" if "start < stop" for start stop
    using edges_succeed [where f = "greedy_split U t count maximum cites", OF greedy_split_succeeds [OF assms]
        sentence_edges [OF that, of U t cites]] by (auto simp: split_overlong_def Let_def zip_edges)
  from edges_succeed [where f = "split_overlong U t count maximum cites", OF this unit_edges(1) [OF False, of "legal cites"]]
    False show ?thesis by (auto simp: units_def Let_def)
qed (simp add: units_def)

lemma chunk_from_succeeds:
  assumes "\<forall>k. legal cites k \<and> count (substr t k (k + 1)) \<le> pl_chunk_maximum P"
    and "\<And>n sec sp. \<exists>r. new_row sha doc_id P t sec count n sp = Inr r"
  shows "\<exists>rows. chunk_from U sha doc_id P t cites count rows0 secs = Some (Inr rows)"
proof (induction secs arbitrary: rows0)
  case (Cons sec secs)
  have "\<exists>rs. new_rows (new_row sha doc_id P t sec count) n sps = Inr rs" for n sps
  proof (induction sps arbitrary: n)
    case (Cons sp sps)
    from Cons.IH [of "n + 1"] assms(2) [of sec n sp] show ?case by auto
  qed simp
  moreover from units_succeed [OF assms(1)] obtain us where us: "units U t count (pl_chunk_maximum P) cites sec = Inr us"
    by blast
  moreover have "\<exists>gs. groups t us P count = Some (Inr gs)" if "us \<noteq> []"
    using groups_return [OF units_parts(1) [OF us]] units_Nil_iff [OF us] that by blast
  ultimately obtain gs rs where "us \<noteq> [] \<Longrightarrow> groups t us P count = Some (Inr gs)"
    "new_rows (new_row sha doc_id P t sec count) (length rows0) (map (group_span us) gs) = Inr rs" by metis
  with us Cons.IH [of rows0] Cons.IH [of "rows0 @ rs"] show ?case by (cases "us = []") simp_all
qed simp

lemma new_row_succeeds:
  assumes "list_all is_scalar doc_id" "list_all is_scalar (pl_version P)" "list_all is_scalar t"
  shows "\<exists>r. new_row sha doc_id P t sec count n sp = Inr r"
proof -
  have "list_all is_scalar (substr t a b)" for a b
    using assms(3) by (auto simp: list_all_iff substr_def dest: in_set_takeD in_set_dropD)
  moreover have "list_all is_scalar (decimal k)" for k
    using decimal_digits [of k] by (auto simp: list_all_iff digit_char_def is_scalar_def)
  moreover have "is_scalar 10" by (simp add: is_scalar_def)
  ultimately show ?thesis using assms(1,2) by (simp add: new_row_def Let_def utf8_encode_def)
qed

section \<open>Binary search\<close>

lemma longest_partition:
  assumes "\<forall>j < high. fits (cs ! j) \<longrightarrow> (\<forall>i \<le> j. fits (cs ! i))" "low \<le> high"
  shows "(\<forall>i. low \<le> i \<and> i < longest fits cs low high \<longrightarrow> fits (cs ! i)) \<and>
    (\<forall>i. longest fits cs low high \<le> i \<and> i < high \<longrightarrow> \<not> fits (cs ! i))"
  using assms
proof (induction fits cs low high rule: longest.induct)
  case (1 fits cs low high)
  let ?m = "(low + high) div 2"
  show ?case
  proof (cases "low < high")
    case True
    then have m: "?m < high" "low \<le> ?m" "?m + 1 \<le> high" by auto
    show ?thesis
    proof (cases "fits (cs ! ?m)")
      case fit: True
      have eq: "longest fits cs low high = longest fits cs (?m + 1) high"
        using True fit by (simp add: longest.simps [of fits cs low high])
      from 1(1) [OF True refl fit 1(3) m(3)] have
        IH: "\<And>i. ?m + 1 \<le> i \<Longrightarrow> i < longest fits cs (?m + 1) high \<Longrightarrow> fits (cs ! i)"
        "\<And>i. longest fits cs (?m + 1) high \<le> i \<Longrightarrow> i < high \<Longrightarrow> \<not> fits (cs ! i)" by blast+
      have "fits (cs ! i)" if "i \<le> ?m" for i using 1(3) m(1) fit that by blast
      with IH show ?thesis unfolding eq by (metis Suc_eq_plus1 not_less_eq_eq)
    next
      case False
      have eq: "longest fits cs low high = longest fits cs low ?m"
        using True False by (simp add: longest.simps [of fits cs low high])
      have "\<forall>j < ?m. fits (cs ! j) \<longrightarrow> (\<forall>i \<le> j. fits (cs ! i))"
        using 1(3) m(1) by (meson less_trans)
      from 1(2) [OF True refl False this m(2)] have
        IH: "\<And>i. low \<le> i \<Longrightarrow> i < longest fits cs low ?m \<Longrightarrow> fits (cs ! i)"
        "\<And>i. longest fits cs low ?m \<le> i \<Longrightarrow> i < ?m \<Longrightarrow> \<not> fits (cs ! i)" by blast+
      have "\<not> fits (cs ! i)" if "?m \<le> i" "i < high" for i using 1(3) that False by blast
      with IH show ?thesis unfolding eq by (metis not_le)
    qed
  qed (use 1(4) in \<open>auto simp: longest.simps\<close>)
qed

section \<open>Properties\<close>

text \<open>C21: the chunks of a document are numbered from 0 in order, and for every section that is not
  blank they tile it: each begins where the one before ends, none is empty, and together they hold
  exactly the section's text.\<close>

theorem chunks_tile_sections:
  assumes "chunk U sha doc_id P t sections cites count = Some (Inr rows)"
  shows "map ck_ordinal rows = [0..<length rows] \<and>
    (\<exists>rss. rows = concat rss \<and>
      list_all2 (\<lambda>sec rs. if paragraphs U t (sec_start sec) (sec_end sec) = [] then rs = []
          else tiles (map row_span rs) (sec_start sec) (sec_end sec) \<and>
            concat (map (\<lambda>r. substr t (ck_char_start r) (ck_char_end r)) rs) = substr t (sec_start sec) (sec_end sec))
        sections rss)"
proof -
  from chunk_sections [OF assms] obtain rss where "rows = concat rss" "map ck_ordinal rows = [0..<length rows]"
    and all: "list_all2 (section_chunked U t count (pl_chunk_maximum P) cites) sections rss" by blast
  moreover have "section_chunked U t count (pl_chunk_maximum P) cites sec rs \<Longrightarrow>
    if paragraphs U t (sec_start sec) (sec_end sec) = [] then rs = []
    else tiles (map row_span rs) (sec_start sec) (sec_end sec) \<and>
      concat (map (\<lambda>r. substr t (ck_char_start r) (ck_char_end r)) rs) = substr t (sec_start sec) (sec_end sec)"
    for sec rs
    using tiles_text [of "map row_span rs" "sec_start sec" "sec_end sec" t]
    by (auto simp: section_chunked_def parts_ok_def row_span_def o_def split: if_splits)
  ultimately show ?thesis by (blast intro: list_all2_mono)
qed

text \<open>The witnesses chunk a short document of two sections, one of them blank, counting characters.\<close>

definition small_pipeline :: pipeline where
  "small_pipeline = \<lparr>pl_version = ulit ''1'', pl_chunk_target = 6, pl_chunk_maximum = 8, pl_chunk_minimum = 2,
     pl_tokenizer = \<lparr>tp_repository = [], tp_revision = [], tp_files = []\<rparr>, pl_eyecite_version = []\<rparr>"

definition small_sections :: "section_span list" where
  "small_sections = [\<lparr>sec_id = ulit ''a'', sec_type = ulit ''body'', sec_start = 0, sec_end = 17\<rparr>,
     \<lparr>sec_id = ulit ''b'', sec_type = ulit ''body'', sec_start = 17, sec_end = 18\<rparr>]"

definition small_row :: "nat \<Rightarrow> nat \<Rightarrow> nat \<Rightarrow> new_chunk" where
  "small_row n a b = \<lparr>ck_chunk_id = [], ck_doc_id = ulit ''d'', ck_pipeline = ulit ''1'', ck_ordinal = n,
     ck_section_id = ulit ''a'', ck_section_type = ulit ''body'', ck_char_start = a, ck_char_end = b,
     ck_content_hash = [], ck_token_count = b - a\<rparr>"

lemma small_chunked:
  "chunk ascii_ucd (\<lambda>_. []) (ulit ''d'') small_pipeline (ulit ''See 12 F. 34. Ok. '') small_sections [(4, 12)] length
    = Some (Inr [small_row 0 0 4, small_row 1 4 12, small_row 2 12 17])"
  by code_simp

theorem chunks_tile_sections_witness:
  "map ck_ordinal [small_row 0 0 4, small_row 1 4 12, small_row 2 12 17] = [0..<3] \<and>
   concat (map (\<lambda>r. substr (ulit ''See 12 F. 34. Ok. '') (ck_char_start r) (ck_char_end r))
     [small_row 0 0 4, small_row 1 4 12, small_row 2 12 17]) = ulit ''See 12 F. 34. Ok.''"
proof
  note tiled = chunks_tile_sections [OF small_chunked]
  then show "map ck_ordinal [small_row 0 0 4, small_row 1 4 12, small_row 2 12 17] = [0..<3]"
    by (simp add: numeral_3_eq_3)
  show "concat (map (\<lambda>r. substr (ulit ''See 12 F. 34. Ok. '') (ck_char_start r) (ck_char_end r))
     [small_row 0 0 4, small_row 1 4 12, small_row 2 12 17]) = ulit ''See 12 F. 34. Ok.''"
    by code_simp
qed

text \<open>C22: no chunk is over the pipeline's maximum, whatever the token counter does, and each row records
  the count of its own text.\<close>

theorem chunk_within_maximum:
  assumes "chunk U sha doc_id P t sections cites count = Some (Inr rows)" and "r \<in> set rows"
  shows "ck_token_count r = count (substr t (ck_char_start r) (ck_char_end r)) \<and>
    ck_token_count r \<le> pl_chunk_maximum P"
  using chunk_row [OF assms] by (metis fst_conv in_size_def row_span_def snd_conv)

theorem chunk_within_maximum_witness:
  "ck_token_count (small_row 1 4 12) = length (substr (ulit ''See 12 F. 34. Ok. '') 4 12) \<and>
   ck_token_count (small_row 1 4 12) \<le> 8"
  using chunk_within_maximum [OF small_chunked, of "small_row 1 4 12"]
  by (simp add: small_pipeline_def small_row_def)

text \<open>C23: a citation that lies inside one section that is not blank lies inside one chunk: no cut falls inside it. A
  citation that crosses a section boundary is cut there, as every section is chunked by itself.\<close>

theorem citation_in_one_chunk:
  assumes "chunk U sha doc_id P t sections cites count = Some (Inr rows)"
    and "(s, e) \<in> set cites" "s < e"
    and "sec \<in> set sections" "sec_start sec \<le> s" "e \<le> sec_end sec"
    and "paragraphs U t (sec_start sec) (sec_end sec) \<noteq> []"
  shows "\<exists>r \<in> set rows. ck_char_start r \<le> s \<and> e \<le> ck_char_end r"
proof -
  from chunk_sections [OF assms(1)] obtain rss where "rows = concat rss"
    and all: "list_all2 (section_chunked U t count (pl_chunk_maximum P) cites) sections rss" by blast
  from list_all2_mem1 [OF all assms(4)] obtain rs where rs: "rs \<in> set rss"
    "section_chunked U t count (pl_chunk_maximum P) cites sec rs" by blast
  with assms(7) have "parts_ok (in_size count t (pl_chunk_maximum P)) (legal cites) (map row_span rs)
      (sec_start sec) (sec_end sec)" by (simp add: section_chunked_def)
  from parts_hold_span [OF this assms(5,3,6)] assms(2) show ?thesis
    using rs(1) \<open>rows = concat rss\<close> by (fastforce simp: legal_def list_all_iff row_span_def)
qed

theorem citation_in_one_chunk_witness:
  "\<exists>r \<in> set [small_row 0 0 4, small_row 1 4 12, small_row 2 12 17]. ck_char_start r \<le> 4 \<and> 12 \<le> ck_char_end r"
  by (rule citation_in_one_chunk [OF small_chunked, where sec = "hd small_sections"])
    (simp_all add: small_sections_def, code_simp)

text \<open>Chunking always returns, and the only errors are a document that cannot be encoded and a unit
  that cannot be split: the packing loop's own error is never reached.\<close>

theorem chunk_returns:
  "case chunk U sha doc_id P t sections cites count of
     None \<Rightarrow> False
   | Some (Inl e) \<Rightarrow> e = ''UnicodeEncodeError'' \<or>
        (\<exists>sec \<in> set sections. units U t count (pl_chunk_maximum P) cites sec = Inl e)
   | Some (Inr rows) \<Rightarrow> True"
  using chunk_from_returns [of U sha doc_id P t cites count "[]" sections]
  by (auto simp: chunk_def split: sum.splits)

text \<open>A document without citations is always chunked, where every single character is within the
  maximum and the text can be encoded.\<close>

theorem chunk_succeeds:
  assumes "\<forall>k. count (substr t k (k + 1)) \<le> pl_chunk_maximum P"
    and "list_all is_scalar doc_id" "list_all is_scalar (pl_version P)" "list_all is_scalar t"
  shows "\<exists>rows. chunk U sha doc_id P t sections [] count = Some (Inr rows)"
  unfolding chunk_def using assms new_row_succeeds [OF assms(2-4)]
  by (intro chunk_from_succeeds) (auto simp: legal_def)

theorem chunk_succeeds_witness:
  "\<exists>rows. chunk ascii_ucd (\<lambda>_. []) (ulit ''d'') small_pipeline (ulit ''See it. Ok. '') small_sections [] length
    = Some (Inr rows)"
proof (rule chunk_succeeds)
  show "\<forall>k. length (substr (ulit ''See it. Ok. '') k (k + 1)) \<le> pl_chunk_maximum small_pipeline"
    by (simp add: small_pipeline_def min_def)
qed code_simp+

text \<open>Where the counts of longer prefixes do not shrink, the binary search takes the last candidate
  whose prefix is within the maximum, as a scan of all of them would.\<close>

theorem chosen_last_fitting:
  assumes "\<forall>j < length (filter inside candidates). fits (filter inside candidates ! j) \<longrightarrow>
      (\<forall>i \<le> j. fits (filter inside candidates ! i))"
  shows "chosen inside fits candidates =
    (let found = filter (\<lambda>c. inside c \<and> fits c) candidates in if found = [] then None else Some (last found))"
proof -
  let ?cs = "filter inside candidates"
  let ?low = "longest fits ?cs 0 (length ?cs)"
  have low: "?low \<le> length ?cs" using longest_bounds [of 0 "length ?cs"] by blast
  note longest_partition [OF assms le0]
  then have "\<forall>x \<in> set (take ?low ?cs). fits x" "\<forall>x \<in> set (drop ?low ?cs). \<not> fits x"
    using low by (auto simp: in_set_conv_nth)
  then have "filter fits (take ?low ?cs @ drop ?low ?cs) = take ?low ?cs"
    unfolding filter_append by simp
  then have "filter (\<lambda>c. inside c \<and> fits c) candidates = take ?low ?cs"
    by (simp add: conj_commute)
  moreover have "last (take ?low ?cs) = ?cs ! (?low - 1)" if "?low \<noteq> 0"
    using that low by (subst last_conv_nth) (auto simp: min_absorb2)
  ultimately show ?thesis using low by (auto simp: chosen_def Let_def)
qed

theorem chosen_last_fitting_witness:
  "chosen (\<lambda>c. c \<noteq> 4) (\<lambda>c. c \<le> 6) [2, 4, 6, 8] = Some 6"
  using chosen_last_fitting [of "\<lambda>c. c \<noteq> 4" "[2, 4, 6, 8 :: nat]" "\<lambda>c. c \<le> 6"]
  by (simp add: nth_Cons less_Suc_eq split: nat.split)

end
