(* ===== verification/Extraction_Contract.thy ===== *)
theory Extraction_Contract
  imports Py_Effects "HOL-Library.Product_Lexorder" "HOL-Library.Multiset" "HOL-Library.Code_Target_Int"
begin

text \<open>
  \<open>gideon/extraction/contract.py\<close>: the exact objects an extraction emits, their wire shape, the rule of
  precedence that combines two extractions, and the checks of a labelled set. Offsets are integers, as the
  wire carries them.
\<close>

section \<open>Vocabulary\<close>

definition OBJECT_TYPES :: "string list" where
  "OBJECT_TYPES = [''statute'', ''guideline'', ''court_rule'', ''bare_section'', ''bare_rule'', ''regulation'',
     ''appendix_statute'', ''habeas_rule'', ''scotus_rule'', ''docket'', ''case_cite'', ''state_code'', ''caption'']"

definition EYECITE_TYPES :: "string list" where
  "EYECITE_TYPES = [''case_cite'']"

definition KEYED_TYPES :: "string list" where
  "KEYED_TYPES = [''statute'', ''guideline'', ''court_rule'', ''regulation'', ''appendix_statute'', ''habeas_rule'',
     ''scotus_rule'']"

definition SUBSECTION_TYPES :: "string list" where
  "SUBSECTION_TYPES = [''statute'', ''guideline'', ''court_rule'', ''bare_section'', ''bare_rule'', ''regulation'',
     ''appendix_statute'', ''habeas_rule'', ''scotus_rule'']"

record exact_object =
  xo_type :: ustr
  xo_start :: int
  xo_end :: int
  xo_text :: ustr
  xo_key :: "ustr option"
  xo_pattern_id :: "ustr option"
  xo_subsections :: "ustr list"

abbreviation of_types :: "ustr \<Rightarrow> string list \<Rightarrow> bool" where
  "of_types t names \<equiv> t \<in> set (map ulit names)"

section \<open>Precedence\<close>

text \<open>Candidates taken in turn, each only where it overlaps none already kept; \<open>f\<close> gives a candidate's span.\<close>

definition overlapping :: "int \<times> int \<Rightarrow> int \<times> int \<Rightarrow> bool" where
  "overlapping x k = (fst x < snd k \<and> fst k < snd x)"

primrec keep_disjoint :: "('a \<Rightarrow> int \<times> int) \<Rightarrow> 'a list \<Rightarrow> 'a list \<Rightarrow> 'a list" where
  "keep_disjoint f kept [] = kept"
| "keep_disjoint f kept (x # xs) =
     (if list_ex (\<lambda>k. overlapping (f x) (f k)) kept then keep_disjoint f kept xs
      else keep_disjoint f (kept @ [x]) xs)"

definition longest_first :: "int \<times> int \<Rightarrow> int \<times> int" where
  "longest_first x = (fst x, - (snd x - fst x))"

definition xo_span :: "exact_object \<Rightarrow> int \<times> int" where
  "xo_span x = (xo_start x, xo_end x)"

definition combine_extractions :: "exact_object list \<Rightarrow> exact_object list \<Rightarrow> exact_object list" where
  "combine_extractions first second =
     sort_key xo_start (keep_disjoint xo_span first (sort_key (longest_first \<circ> xo_span) second))"

section \<open>The wire\<close>

definition optional_str :: "ustr option \<Rightarrow> json" where
  "optional_str v = (case v of None \<Rightarrow> JNull | Some s \<Rightarrow> JStr s)"

definition object_to_wire :: "exact_object \<Rightarrow> jobject" where
  "object_to_wire x =
     [(ulit ''type'', JStr (xo_type x)), (ulit ''start'', JInt (xo_start x)), (ulit ''end'', JInt (xo_end x)),
      (ulit ''text'', JStr (xo_text x)), (ulit ''key'', optional_str (xo_key x)),
      (ulit ''pattern_id'', optional_str (xo_pattern_id x)), (ulit ''subsections'', JArr (map JStr (xo_subsections x)))]"

definition WIRE_FIELDS :: "string list" where
  "WIRE_FIELDS = [''type'', ''start'', ''end'', ''text'', ''key'', ''pattern_id'', ''subsections'']"

definition keys_equal :: "ucd \<Rightarrow> ustr option \<Rightarrow> ustr option \<Rightarrow> bool" where
  "keys_equal U left right =
     (case (left, right) of
        (Some a, Some b) \<Rightarrow> py_casefold U a = py_casefold U b
      | (None, None) \<Rightarrow> True
      | _ \<Rightarrow> False)"

definition span_violations :: "ustr \<Rightarrow> exact_object list \<Rightarrow> exact_object list" where
  "span_violations source objects =
     filter (\<lambda>x. xo_start x < 0 \<or> xo_end x \<le> xo_start x \<or> xo_end x > int (length source) \<or>
       substr source (nat (xo_start x)) (nat (xo_end x)) \<noteq> xo_text x) objects"

definition key_violations :: "exact_object list \<Rightarrow> exact_object list" where
  "key_violations objects =
     filter (\<lambda>x. \<not> of_types (xo_type x) OBJECT_TYPES \<or>
       of_types (xo_type x) KEYED_TYPES \<and> xo_key x = None \<or>
       \<not> of_types (xo_type x) KEYED_TYPES \<and> xo_key x \<noteq> None) objects"

primrec ordering_from :: "exact_object option \<Rightarrow> exact_object list \<Rightarrow> exact_object list" where
  "ordering_from previous [] = []"
| "ordering_from previous (x # xs) =
     (case previous of
        Some p \<Rightarrow> if xo_start x < xo_end p then [x] else []
      | None \<Rightarrow> []) @ ordering_from (Some x) xs"

definition ordering_violations :: "exact_object list \<Rightarrow> exact_object list" where
  "ordering_violations objects = ordering_from None objects"

definition optional_str_of :: "json \<Rightarrow> ustr option result" where
  "optional_str_of j = (case j of JNull \<Rightarrow> Inr None | JStr s \<Rightarrow> Inr (Some s) | _ \<Rightarrow> Inl ''ValueError'')"

definition str_list_of :: "json \<Rightarrow> ustr list result" where
  "str_list_of j =
     (case j of
        JArr js \<Rightarrow> collect_results (map (\<lambda>j. case as_str j of Some s \<Rightarrow> Inr s | None \<Rightarrow> Inl ''ValueError'') js)
      | _ \<Rightarrow> Inl ''ValueError'')"

definition span_of_wire :: "json \<Rightarrow> json \<Rightarrow> json \<Rightarrow> (int \<times> int \<times> ustr) result" where
  "span_of_wire start stop source_text =
     (case (start, stop, source_text) of
        (JInt a, JInt b, JStr t) \<Rightarrow>
          if a < 0 \<or> b \<le> a \<or> int (length t) \<noteq> b - a then Inl ''ValueError'' else Inr (a, b, t)
      | _ \<Rightarrow> Inl ''ValueError'')"

definition object_type_of :: "json \<Rightarrow> ustr result" where
  "object_type_of j =
     (case as_str j of
        Some t \<Rightarrow> if of_types t OBJECT_TYPES then Inr t else Inl ''ValueError''
      | None \<Rightarrow> Inl ''ValueError'')"

definition checked_object :: "exact_object \<Rightarrow> exact_object result" where
  "checked_object x =
     (if key_violations [x] \<noteq> [] \<or> \<not> of_types (xo_type x) SUBSECTION_TYPES \<and> xo_subsections x \<noteq> []
      then Inl ''ValueError'' else Inr x)"

definition object_of_fields :: "(string \<Rightarrow> json) \<Rightarrow> exact_object result" where
  "object_of_fields field =
     bind_result (object_type_of (field ''type'')) (\<lambda>object_type.
     bind_result (span_of_wire (field ''start'') (field ''end'') (field ''text'')) (\<lambda>(start, stop, source_text).
     bind_result (optional_str_of (field ''key'')) (\<lambda>key.
     bind_result (optional_str_of (field ''pattern_id'')) (\<lambda>pattern_id.
     bind_result (str_list_of (field ''subsections'')) (\<lambda>subsections.
       checked_object \<lparr>xo_type = object_type, xo_start = start, xo_end = stop, xo_text = source_text, xo_key = key,
         xo_pattern_id = pattern_id, xo_subsections = subsections\<rparr>)))))"

definition object_from_wire :: "json \<Rightarrow> exact_object result" where
  "object_from_wire value =
     (case as_obj value of
        None \<Rightarrow> Inl ''ValueError''
      | Some d \<Rightarrow>
          if set (map fst d) \<noteq> set (map ulit WIRE_FIELDS) then Inl ''ValueError''
          else object_of_fields (\<lambda>name. the (jget name d)))"

section \<open>Precedence keeps the spans apart\<close>

lemma overlapping_sym: "overlapping x k = overlapping k x"
  by (auto simp: overlapping_def)

definition all_apart :: "('a \<Rightarrow> int \<times> int) \<Rightarrow> 'a list \<Rightarrow> bool" where
  "all_apart f xs \<longleftrightarrow> sorted_wrt (\<lambda>x y. \<not> overlapping (f x) (f y)) xs"

lemma keep_disjoint_sets: "set kept \<subseteq> set (keep_disjoint f kept xs) \<and> set (keep_disjoint f kept xs) \<subseteq> set kept \<union> set xs"
  by (induction xs arbitrary: kept) force+

lemma keep_disjoint_apart: "all_apart f kept \<Longrightarrow> all_apart f (keep_disjoint f kept xs)"
  by (induction xs arbitrary: kept) (auto simp: all_apart_def sorted_wrt_append list_ex_iff overlapping_sym)

text \<open>What is left out overlaps something that was there from the start or came before it.\<close>

lemma keep_disjoint_left_out:
  "sorted_wrt le xs \<Longrightarrow> x \<in> set xs \<Longrightarrow> x \<notin> set (keep_disjoint f kept xs) \<Longrightarrow>
     \<exists>k \<in> set (keep_disjoint f kept xs). overlapping (f x) (f k) \<and> (k \<in> set kept \<or> k \<in> set xs \<and> le k x)"
proof (induction xs arbitrary: kept)
  case (Cons y ys)
  show ?case
  proof (cases "list_ex (\<lambda>k. overlapping (f y) (f k)) kept")
    case True
    then have step: "keep_disjoint f kept (y # ys) = keep_disjoint f kept ys" by simp
    show ?thesis
    proof (cases "x \<in> set ys")
      case False
      with Cons.prems(2) True obtain k where "k \<in> set kept" "overlapping (f x) (f k)" by (auto simp: list_ex_iff)
      with keep_disjoint_sets [of kept f ys] show ?thesis unfolding step by blast
    next
      case x: True
      from Cons.IH [OF _ x Cons.prems(3) [unfolded step]] Cons.prems(1) show ?thesis unfolding step by auto
    qed
  next
    case False
    then have step: "keep_disjoint f kept (y # ys) = keep_disjoint f (kept @ [y]) ys" by simp
    have "y \<in> set (keep_disjoint f (kept @ [y]) ys)" using keep_disjoint_sets [of "kept @ [y]" f ys] by auto
    with Cons.prems(3) have "x \<noteq> y" unfolding step by auto
    with Cons.prems(2) have x: "x \<in> set ys" by simp
    from Cons.IH [OF _ x Cons.prems(3) [unfolded step]] Cons.prems(1) x show ?thesis unfolding step by auto
  qed
qed simp

lemma all_apart_perm:
  assumes "all_apart f xs" "mset xs = mset ys"
  shows "all_apart f ys"
proof -
  show ?thesis using assms
  proof (induction xs arbitrary: ys)
    case (Cons x xs)
    then have "x \<in> set ys" by (metis list.set_intros(1) mset_eq_setD)
    then obtain us vs where ys: "ys = us @ x # vs" by (meson split_list)
    with Cons.prems(2) have m: "mset xs = mset (us @ vs)" by simp
    from Cons.IH [OF _ m] Cons.prems(1) have "all_apart f (us @ vs)" by (simp add: all_apart_def)
    moreover have "\<forall>y \<in> set (us @ vs). \<not> overlapping (f x) (f y)"
      using Cons.prems(1) mset_eq_setD [OF m] by (simp add: all_apart_def)
    ultimately show ?case by (auto simp: ys all_apart_def sorted_wrt_append overlapping_sym)
  qed (simp add: all_apart_def)
qed

lemma ordered_apart:
  "sorted (map xo_start xs) \<Longrightarrow> all_apart xo_span xs \<Longrightarrow> \<forall>x \<in> set xs. xo_start x < xo_end x \<Longrightarrow>
     (case previous of None \<Rightarrow> True | Some p \<Rightarrow> (\<forall>x \<in> set xs. xo_end p \<le> xo_start x)) \<Longrightarrow> ordering_from previous xs = []"
proof (induction xs arbitrary: previous)
  case (Cons x xs)
  have "\<forall>y \<in> set xs. xo_end x \<le> xo_start y"
  proof
    fix y assume y: "y \<in> set xs"
    with Cons.prems have "\<not> overlapping (xo_span x) (xo_span y)" "xo_start x \<le> xo_start y" "xo_start y < xo_end y"
      by (auto simp: all_apart_def)
    then show "xo_end x \<le> xo_start y" by (simp add: overlapping_def xo_span_def)
  qed
  then have "ordering_from (Some x) xs = []" using Cons.prems by (intro Cons.IH) (auto simp: all_apart_def)
  then show ?case using Cons.prems(4) by (auto split: option.splits)
qed simp

section \<open>Properties\<close>

text \<open>Combining two extractions keeps every object of the first and adds one of the second exactly where it
  overlaps none of the first and none of the second taken before it, earliest and longest first; the result
  is in order without overlaps.\<close>

theorem combine_extractions_precedence:
  assumes "all_apart xo_span first" and "\<forall>x \<in> set first \<union> set second. xo_start x < xo_end x"
  shows "let combined = combine_extractions first second
    in ordering_violations combined = [] \<and> set first \<subseteq> set combined \<and> set combined \<subseteq> set first \<union> set second \<and>
    (\<forall>x \<in> set second - set combined. \<exists>k \<in> set combined. overlapping (xo_span x) (xo_span k) \<and>
       (k \<in> set first \<or> longest_first (xo_span k) \<le> longest_first (xo_span x)))"
proof -
  define combined where "combined = combine_extractions first second"
  let ?second = "sort_key (longest_first \<circ> xo_span) second"
  let ?kept = "keep_disjoint xo_span first ?second"
  have sets: "set combined = set ?kept" by (simp add: combined_def combine_extractions_def)
  have sub: "set first \<subseteq> set combined" "set combined \<subseteq> set first \<union> set second"
    using keep_disjoint_sets [of first xo_span ?second] unfolding sets by auto
  have "all_apart xo_span combined" unfolding combined_def combine_extractions_def
    by (rule all_apart_perm [OF keep_disjoint_apart [OF assms(1)]]) simp
  moreover have "\<forall>x \<in> set combined. xo_start x < xo_end x" using sub(2) assms(2) by blast
  ultimately have "ordering_violations combined = []"
    unfolding ordering_violations_def by (intro ordered_apart) (simp_all add: combined_def combine_extractions_def)
  moreover have "\<exists>k \<in> set combined. overlapping (xo_span x) (xo_span k) \<and>
      (k \<in> set first \<or> longest_first (xo_span k) \<le> longest_first (xo_span x))" if "x \<in> set second - set combined" for x
  proof -
    have "sorted_wrt (\<lambda>x y. longest_first (xo_span x) \<le> longest_first (xo_span y)) ?second"
      using sorted_sort_key [of "longest_first \<circ> xo_span" second] by (simp add: sorted_map)
    from keep_disjoint_left_out [OF this, of x xo_span first] that show ?thesis unfolding sets by auto
  qed
  ultimately show ?thesis using sub unfolding Let_def combined_def [symmetric] by blast
qed

definition valid_object :: "exact_object \<Rightarrow> bool" where
  "valid_object x \<longleftrightarrow> of_types (xo_type x) OBJECT_TYPES \<and> 0 \<le> xo_start x \<and> xo_start x < xo_end x \<and>
     int (length (xo_text x)) = xo_end x - xo_start x \<and> (of_types (xo_type x) KEYED_TYPES \<longleftrightarrow> xo_key x \<noteq> None) \<and>
     (of_types (xo_type x) SUBSECTION_TYPES \<or> xo_subsections x = [])"

lemma optional_str_of_iff [simp]: "optional_str_of j = Inr v \<longleftrightarrow> j = optional_str v"
  by (cases j; cases v) (auto simp: optional_str_of_def optional_str_def)

lemma str_list_of_iff [simp]: "str_list_of j = Inr ss \<longleftrightarrow> j = JArr (map JStr ss)"
proof -
  have "map (\<lambda>j. case as_str j of Some s \<Rightarrow> Inr s | None \<Rightarrow> Inl ''ValueError'') js = map Inr ss \<longleftrightarrow> js = map JStr ss"
    for js and ss :: "ustr list"
    by (induction js arbitrary: ss) (auto simp: Cons_eq_map_conv split: option.splits)
  then show ?thesis by (cases j) (simp_all add: str_list_of_def collect_results_Inr_iff)
qed

lemma span_of_wire_iff [simp]:
  "span_of_wire a b c = Inr (s, e, t) \<longleftrightarrow>
     a = JInt s \<and> b = JInt e \<and> c = JStr t \<and> 0 \<le> s \<and> s < e \<and> int (length t) = e - s"
  by (auto simp: span_of_wire_def split: json.splits)

lemma object_type_of_iff [simp]: "object_type_of j = Inr t \<longleftrightarrow> j = JStr t \<and> of_types t OBJECT_TYPES"
  by (auto simp: object_type_of_def split: option.split)

lemma checked_object_iff [simp]: "checked_object x = Inr y \<longleftrightarrow> y = x \<and> key_violations [x] = [] \<and>
    (of_types (xo_type x) SUBSECTION_TYPES \<or> xo_subsections x = [])"
  by (auto simp: checked_object_def)

lemma key_violations_Nil: "key_violations [x] = [] \<longleftrightarrow> of_types (xo_type x) OBJECT_TYPES \<and>
    (of_types (xo_type x) KEYED_TYPES \<longleftrightarrow> xo_key x \<noteq> None)"
  by (auto simp: key_violations_def)

lemma jget_wire:
  "jget ''type'' (object_to_wire x) = Some (JStr (xo_type x))" "jget ''start'' (object_to_wire x) = Some (JInt (xo_start x))"
  "jget ''end'' (object_to_wire x) = Some (JInt (xo_end x))" "jget ''text'' (object_to_wire x) = Some (JStr (xo_text x))"
  "jget ''key'' (object_to_wire x) = Some (optional_str (xo_key x))"
  "jget ''pattern_id'' (object_to_wire x) = Some (optional_str (xo_pattern_id x))"
  "jget ''subsections'' (object_to_wire x) = Some (JArr (map JStr (xo_subsections x)))"
  by (simp_all add: object_to_wire_def jget_def)

lemma object_of_fields_iff:
  "object_of_fields field = Inr x \<longleftrightarrow> valid_object x \<and> field ''type'' = JStr (xo_type x) \<and>
     field ''start'' = JInt (xo_start x) \<and> field ''end'' = JInt (xo_end x) \<and> field ''text'' = JStr (xo_text x) \<and>
     field ''key'' = optional_str (xo_key x) \<and> field ''pattern_id'' = optional_str (xo_pattern_id x) \<and>
     field ''subsections'' = JArr (map JStr (xo_subsections x))"
  unfolding object_of_fields_def valid_object_def
  by (cases x) (auto simp: bind_result_Inr_iff key_violations_Nil)

lemma object_from_wire_iff:
  "object_from_wire (JObj d) = Inr x \<longleftrightarrow> valid_object x \<and> set (map fst d) = set (map ulit WIRE_FIELDS) \<and>
     list_all (\<lambda>name. jget name d = jget name (object_to_wire x)) WIRE_FIELDS"
proof (cases "set (map fst d) = set (map ulit WIRE_FIELDS)")
  case True
  have "jget name d \<noteq> None" if "name \<in> set WIRE_FIELDS" for name
  proof -
    from that have "ulit name \<in> set (map fst d)" unfolding True by simp
    then show ?thesis by (simp add: jget_def map_of_eq_None_iff)
  qed
  then have some: "jget name d = Some j \<longleftrightarrow> the (jget name d) = j" if "name \<in> set WIRE_FIELDS" for name j
    using that by fastforce
  have "list_all (\<lambda>name. jget name d = jget name (object_to_wire x)) WIRE_FIELDS \<longleftrightarrow>
      the (jget ''type'' d) = JStr (xo_type x) \<and> the (jget ''start'' d) = JInt (xo_start x) \<and>
      the (jget ''end'' d) = JInt (xo_end x) \<and> the (jget ''text'' d) = JStr (xo_text x) \<and>
      the (jget ''key'' d) = optional_str (xo_key x) \<and> the (jget ''pattern_id'' d) = optional_str (xo_pattern_id x) \<and>
      the (jget ''subsections'' d) = JArr (map JStr (xo_subsections x))"
    using some unfolding WIRE_FIELDS_def by (simp add: jget_wire)
  moreover have "object_from_wire (JObj d) = Inr x \<longleftrightarrow> valid_object x \<and> the (jget ''type'' d) = JStr (xo_type x) \<and>
      the (jget ''start'' d) = JInt (xo_start x) \<and>
      the (jget ''end'' d) = JInt (xo_end x) \<and> the (jget ''text'' d) = JStr (xo_text x) \<and>
      the (jget ''key'' d) = optional_str (xo_key x) \<and> the (jget ''pattern_id'' d) = optional_str (xo_pattern_id x) \<and>
      the (jget ''subsections'' d) = JArr (map JStr (xo_subsections x))"
    using object_of_fields_iff [of "\<lambda>name. the (jget name d)" x] True by (simp add: object_from_wire_def)
  ultimately show ?thesis using True by simp
qed (simp add: object_from_wire_def Let_def)

lemma wire_same_fields:
  "list_all (\<lambda>name. jget name (object_to_wire x) = jget name (object_to_wire y)) WIRE_FIELDS \<Longrightarrow> x = y"
  by (cases x; cases y) (auto simp: WIRE_FIELDS_def jget_wire optional_str_def dest: map_injective [OF _ injI]
    split: option.splits)

lemma str_list_of_error: "str_list_of j = Inl e \<Longrightarrow> e = ''ValueError''"
proof -
  have "collect_results (map (\<lambda>j. case as_str j of Some s \<Rightarrow> Inr s | None \<Rightarrow> Inl ''ValueError'') js) = Inl e \<Longrightarrow>
    e = ''ValueError''" for js
    by (induction js) (auto split: option.splits sum.splits simp: bind_result_Inl_iff)
  then show "str_list_of j = Inl e \<Longrightarrow> e = ''ValueError''" by (cases j) (simp_all add: str_list_of_def)
qed

lemma span_of_wire_error: "span_of_wire a b c = Inl e \<Longrightarrow> e = ''ValueError''"
  by (cases a; cases b; cases c) (auto simp: span_of_wire_def split: if_splits)

lemma optional_str_of_error: "optional_str_of j = Inl e \<Longrightarrow> e = ''ValueError''"
  by (cases j) (auto simp: optional_str_of_def)

lemma object_type_of_error: "object_type_of j = Inl e \<Longrightarrow> e = ''ValueError''"
  by (auto simp: object_type_of_def split: option.splits if_splits)

lemma checked_object_error: "checked_object x = Inl e \<Longrightarrow> e = ''ValueError''"
  by (simp add: checked_object_def split: if_splits)

lemma object_from_wire_error: "object_from_wire v = Inl e \<Longrightarrow> e = ''ValueError''"
  unfolding object_from_wire_def object_of_fields_def
  by (auto simp: bind_result_Inl_iff split: option.splits if_splits
    dest: object_type_of_error span_of_wire_error optional_str_of_error str_list_of_error checked_object_error)

text \<open>C27: an object written to the wire and read back is the same object where it keeps the contract, and is
  refused where it does not.\<close>

theorem wire_roundtrip:
  "object_from_wire (JObj (object_to_wire x)) = (if valid_object x then Inr x else Inl ''ValueError'')"
proof (cases "valid_object x")
  case True
  have "set (map fst (object_to_wire x)) = set (map ulit WIRE_FIELDS)"
    by (simp add: object_to_wire_def WIRE_FIELDS_def)
  with True show ?thesis by (simp add: object_from_wire_iff list_all_iff)
next
  case False
  then have "object_from_wire (JObj (object_to_wire x)) \<noteq> Inr y" for y
    using wire_same_fields [of x y] by (auto simp: object_from_wire_iff)
  with False show ?thesis
    by (cases "object_from_wire (JObj (object_to_wire x))") (auto dest: object_from_wire_error)
qed

text \<open>Whatever is read from the wire keeps the contract, and writing it again gives the same fields.\<close>

theorem wire_read_valid:
  assumes "object_from_wire (JObj d) = Inr x"
  shows "valid_object x \<and> list_all (\<lambda>name. jget name d = jget name (object_to_wire x)) WIRE_FIELDS"
  using assms by (simp add: object_from_wire_iff)

text \<open>The witnesses combine three spans of one text and read one of them from the wire.\<close>

definition small_object :: "string \<Rightarrow> int \<Rightarrow> string \<Rightarrow> exact_object" where
  "small_object kind start t = \<lparr>xo_type = ulit kind, xo_start = start, xo_end = start + int (length t),
     xo_text = ulit t, xo_key = None, xo_pattern_id = None, xo_subsections = []\<rparr>"

theorem combine_extractions_precedence_witness:
  "ordering_violations (combine_extractions [small_object ''docket'' 4 ''No. 7'']
     [small_object ''case_cite'' 6 ''. 7, 1 U.S. 2'', small_object ''case_cite'' 20 ''1 U.S. 2'']) = []"
  using combine_extractions_precedence [of "[small_object ''docket'' 4 ''No. 7'']"
    "[small_object ''case_cite'' 6 ''. 7, 1 U.S. 2'', small_object ''case_cite'' 20 ''1 U.S. 2'']"]
  by (simp add: all_apart_def small_object_def Let_def)

theorem wire_read_valid_witness:
  "valid_object (small_object ''docket'' 4 ''No. 7'')"
proof -
  have "object_from_wire (JObj (object_to_wire (small_object ''docket'' 4 ''No. 7''))) =
      Inr (small_object ''docket'' 4 ''No. 7'')"
    by code_simp
  from wire_read_valid [OF this] show ?thesis by blast
qed

end
