(* ===== verification/Worker_Citations.thy ===== *)
theory Worker_Citations
  imports Worker_Chunker Extraction_Contract
begin

text \<open>
  \<open>gideon/worker/citations.py\<close> and \<open>gideon/casecite/found.py\<close>: the grammar's objects and the citations found by the
  reader of case law merged into disjoint spans, each placed in its section. The Unicode categories, the hash
  and the resolution of a reporter cite are parameters.
\<close>

section \<open>Findings\<close>

definition CITE_FORMS :: "string list" where
  "CITE_FORMS = [''full'', ''short'', ''id'', ''supra'', ''reference'']"

definition CITE_KINDS :: "string list" where
  "CITE_KINDS = [''case'', ''law'', ''journal'', ''unknown'']"

definition EDGE_PATTERN_ID :: string where
  "EDGE_PATTERN_ID = ''eyecite/edges@1''"

record found_citation =
  fc_start :: int
  fc_end :: int
  fc_form :: ustr
  fc_kind :: ustr
  fc_resource :: "int option"
  fc_volume :: "ustr option"
  fc_reporter :: "ustr option"
  fc_page :: "ustr option"
  fc_reporter_cite :: "ustr option"
  fc_pincite :: "ustr option"

definition CITE_TYPES :: "string list" where
  "CITE_TYPES = filter (\<lambda>kind. kind \<notin> {''docket'', ''caption'', ''case_cite''}) OBJECT_TYPES @
     [''case_cite'', ''law_cite'', ''journal_cite'', ''unknown'']"

record new_citation =
  ci_citation_id :: ustr
  ci_doc_id :: ustr
  ci_ordinal :: nat
  ci_char_start :: int
  ci_char_end :: int
  ci_section_id :: ustr
  ci_section_type :: ustr
  ci_cite_type :: ustr
  ci_cite_form :: ustr
  ci_raw_cite :: ustr
  ci_reporter_cite :: "ustr option"
  ci_pincite :: "ustr option"
  ci_key :: "ustr option"
  ci_to_cluster :: "int option"
  ci_pattern_id :: ustr

definition designator_gap :: "ucd \<Rightarrow> (codepoint \<Rightarrow> bool) \<Rightarrow> ustr \<Rightarrow> bool" where
  "designator_gap U punctuation gap =
     (filter (\<lambda>c. \<not> uc_space U c \<and> \<not> punctuation c) (py_casefold U gap) \<in> {[], ulit ''at''})"

section \<open>Candidates\<close>

datatype candidate = Exact exact_object | Cited found_citation

primrec cd_span :: "candidate \<Rightarrow> int \<times> int" where
  "cd_span (Exact x) = (xo_start x, xo_end x)"
| "cd_span (Cited c) = (fc_start c, fc_end c)"

definition fc_span :: "found_citation \<Rightarrow> int \<times> int" where
  "fc_span c = (fc_start c, fc_end c)"

definition selected :: "found_citation list \<Rightarrow> exact_object list \<Rightarrow> candidate list" where
  "selected found objects =
     sort_key (fst \<circ> cd_span) (keep_disjoint cd_span
       (map Exact (filter (\<lambda>x. of_types (xo_type x) CITE_TYPES \<and> xo_type x \<noteq> ulit ''case_cite'') objects))
       (map Cited (sort_key (longest_first \<circ> fc_span) found)))"

section \<open>One edge\<close>

record edge =
  eg_type :: ustr
  eg_form :: ustr
  eg_reporter_cite :: "ustr option"
  eg_pincite :: "ustr option"
  eg_key :: "ustr option"
  eg_to_cluster :: "int option"
  eg_pattern_id :: "ustr option"

type_synonym resolver = "ustr \<times> ustr \<times> ustr \<Rightarrow> int option"

definition int_slice :: "ustr \<Rightarrow> int \<Rightarrow> int \<Rightarrow> ustr" where  \<comment> \<open>\<open>t[a:b]\<close>, offsets not negative\<close>
  "int_slice t a b = substr t (nat a) (nat b)"

definition kind_type :: "found_citation \<Rightarrow> ustr" where
  "kind_type c = (if fc_kind c \<noteq> ulit ''unknown'' then fc_kind c @ ulit ''_cite'' else ulit ''unknown'')"

definition resolved :: "resolver \<Rightarrow> found_citation \<Rightarrow> int option" where
  "resolved resolve c =
     (if kind_type c = ulit ''case_cite'' \<and> fc_resource c \<noteq> None then
        (case (fc_volume c, fc_reporter c, fc_page c) of
           (Some v, Some r, Some p) \<Rightarrow> resolve (v, r, p)
         | _ \<Rightarrow> None)
      else None)"

text \<open>\<open>barrier\<close> is the object an \<open>Id.\<close> refers back to.\<close>

definition edge_of ::
    "ucd \<Rightarrow> (codepoint \<Rightarrow> bool) \<Rightarrow> ustr \<Rightarrow> resolver \<Rightarrow> exact_object option \<Rightarrow> candidate \<Rightarrow> candidate option \<Rightarrow>
       (edge \<times> exact_object option) result" where
  "edge_of U punctuation t resolve barrier cd next_cd =
     (case cd of
        Exact x \<Rightarrow>
          Inr (\<lparr>eg_type = xo_type x, eg_form = ulit ''full'', eg_reporter_cite = None, eg_pincite = None,
                eg_key = xo_key x, eg_to_cluster = None, eg_pattern_id = xo_pattern_id x\<rparr>, Some x)
      | Cited c \<Rightarrow>
          if \<not> of_types (fc_form c) CITE_FORMS then Inl ''ValueError''
          else
            (case (if fc_form c = ulit ''id'' then barrier else None) of
               Some b \<Rightarrow>
                 (let designator = (case next_cd of
                        Some (Exact x) \<Rightarrow> designator_gap U punctuation (int_slice t (fc_end c) (xo_start x))
                      | _ \<Rightarrow> False);
                      pinned = (case fc_pincite c of None \<Rightarrow> False | Some p \<Rightarrow> p \<noteq> [])
                  in Inr (\<lparr>eg_type = xo_type b, eg_form = fc_form c, eg_reporter_cite = None,
                        eg_pincite = fc_pincite c, eg_key = (if \<not> pinned \<and> \<not> designator then xo_key b else None),
                        eg_to_cluster = None, eg_pattern_id = Some (ulit EDGE_PATTERN_ID)\<rparr>, barrier))
             | None \<Rightarrow>
                 Inr (\<lparr>eg_type = kind_type c, eg_form = fc_form c, eg_reporter_cite = fc_reporter_cite c,
                       eg_pincite = fc_pincite c, eg_key = None, eg_to_cluster = resolved resolve c,
                       eg_pattern_id = Some (ulit EDGE_PATTERN_ID)\<rparr>, None)))"

section \<open>The edges of a document\<close>

text \<open>\<open>bisect_right(starts, start) - 1\<close>, refused where it is before every section or past the end of its own.\<close>

definition section_at :: "section_span list \<Rightarrow> int \<Rightarrow> section_span result" where
  "section_at sections k =
     (case length (takeWhile (\<lambda>s. int (sec_start s) \<le> k) sections) of
        0 \<Rightarrow> Inl ''ValueError''
      | Suc i \<Rightarrow> if int (sec_end (sections ! i)) \<le> k then Inl ''ValueError'' else Inr (sections ! i))"

definition int_decimal :: "int \<Rightarrow> ustr" where  \<comment> \<open>\<open>str(n)\<close>\<close>
  "int_decimal n = (if n < 0 then 45 # decimal (nat (- n)) else decimal (nat n))"

definition citation_row ::
    "(bytes \<Rightarrow> ustr) \<Rightarrow> ustr \<Rightarrow> ustr \<Rightarrow> ustr \<Rightarrow> nat \<Rightarrow> candidate \<Rightarrow> section_span \<Rightarrow> edge \<Rightarrow> new_citation result" where
  "citation_row sha doc_id pipeline t ordinal cd sec e =
     (case eg_pattern_id e of
        None \<Rightarrow> Inl ''ValueError''
      | Some pattern_id \<Rightarrow>
          map_result (\<lambda>key.
            \<lparr>ci_citation_id = sha key, ci_doc_id = doc_id, ci_ordinal = ordinal, ci_char_start = fst (cd_span cd),
             ci_char_end = snd (cd_span cd), ci_section_id = sec_id sec, ci_section_type = sec_type sec,
             ci_cite_type = eg_type e, ci_cite_form = eg_form e,
             ci_raw_cite = int_slice t (fst (cd_span cd)) (snd (cd_span cd)), ci_reporter_cite = eg_reporter_cite e,
             ci_pincite = eg_pincite e, ci_key = eg_key e, ci_to_cluster = eg_to_cluster e, ci_pattern_id = pattern_id\<rparr>)
            (utf8_encode (doc_id @ [10] @ pipeline @ [10] @ int_decimal (fst (cd_span cd)) @ [10] @
               int_decimal (snd (cd_span cd)))))"

definition next_of :: "candidate list \<Rightarrow> candidate option" where
  "next_of cds = (case cds of [] \<Rightarrow> None | c # _ \<Rightarrow> Some c)"

primrec edges_from ::
    "ucd \<Rightarrow> (codepoint \<Rightarrow> bool) \<Rightarrow> (bytes \<Rightarrow> ustr) \<Rightarrow> resolver \<Rightarrow> ustr \<Rightarrow> ustr \<Rightarrow> ustr \<Rightarrow> section_span list \<Rightarrow> nat \<Rightarrow>
       exact_object option \<Rightarrow> candidate list \<Rightarrow> new_citation list result" where
  "edges_from U punctuation sha resolve doc_id pipeline t sections ordinal barrier [] = Inr []"
| "edges_from U punctuation sha resolve doc_id pipeline t sections ordinal barrier (cd # cds) =
     bind_result (section_at sections (fst (cd_span cd))) (\<lambda>sec.
     bind_result (edge_of U punctuation t resolve barrier cd (next_of cds)) (\<lambda>(e, next_barrier).
     bind_result (citation_row sha doc_id pipeline t ordinal cd sec e) (\<lambda>row.
       map_result ((#) row)
         (edges_from U punctuation sha resolve doc_id pipeline t sections (ordinal + 1) next_barrier cds))))"

definition edges ::
    "ucd \<Rightarrow> (codepoint \<Rightarrow> bool) \<Rightarrow> (bytes \<Rightarrow> ustr) \<Rightarrow> resolver \<Rightarrow> ustr \<Rightarrow> ustr \<Rightarrow> ustr \<Rightarrow> section_span list \<Rightarrow>
       found_citation list \<Rightarrow> exact_object list \<Rightarrow> new_citation list result" where
  "edges U punctuation sha resolve doc_id pipeline t sections found objects =
     (if sections = [] then Inl ''ValueError''
      else edges_from U punctuation sha resolve doc_id pipeline t sections 0 None (selected found objects))"

section \<open>Placing\<close>

definition sections_tile :: "section_span list \<Rightarrow> nat \<Rightarrow> bool" where
  "sections_tile sections n \<longleftrightarrow> tiles (map (\<lambda>s. (sec_start s, sec_end s)) sections) 0 n"

definition inside :: "section_span \<Rightarrow> int \<Rightarrow> bool" where
  "inside s k \<longleftrightarrow> int (sec_start s) \<le> k \<and> k < int (sec_end s)"

lemma section_at_tiled:
  "tiles (map (\<lambda>s. (sec_start s, sec_end s)) sections) a n \<Longrightarrow> int a \<le> k \<Longrightarrow> k < int n \<Longrightarrow>
     \<exists>s \<in> set sections. section_at sections k = Inr s \<and> inside s k"
proof (induction sections arbitrary: a)
  case (Cons s ss)
  then have s: "sec_start s = a" "a < sec_end s" "tiles (map (\<lambda>s. (sec_start s, sec_end s)) ss) (sec_end s) n" by simp_all
  show ?case
  proof (cases "int (sec_end s) \<le> k")
    case True
    from Cons.IH [OF s(3) True Cons.prems(3)] obtain q where q: "q \<in> set ss" "section_at ss k = Inr q" "inside q k" by blast
    then have "section_at (s # ss) k = Inr q"
      using s(1) Cons.prems(2) by (auto simp: section_at_def split: nat.splits)
    with q show ?thesis by auto
  next
    case False
    have "takeWhile (\<lambda>s. int (sec_start s) \<le> k) ss = []"
      using False s(3) by (cases ss) auto
    with False s(1) Cons.prems(2) show ?thesis by (simp add: section_at_def inside_def)
  qed
qed simp

lemma section_at_inside:
  assumes "section_at sections k = Inr s"
  shows "s \<in> set sections \<and> inside s k"
proof -
  let ?i = "length (takeWhile (\<lambda>s. int (sec_start s) \<le> k) sections)"
  from assms obtain i where i: "?i = Suc i" "s = sections ! i" "k < int (sec_end s)"
    by (auto simp: section_at_def split: nat.splits if_splits)
  then have "i < ?i" by simp
  then have "sections ! i \<in> set (takeWhile (\<lambda>s. int (sec_start s) \<le> k) sections)"
    by (metis nth_mem takeWhile_nth)
  then show ?thesis using i by (auto simp: inside_def dest: set_takeWhileD)
qed

section \<open>Row by row\<close>

definition is_id :: "candidate \<Rightarrow> bool" where
  "is_id cd = (case cd of Exact x \<Rightarrow> False | Cited c \<Rightarrow> fc_form c = ulit ''id'')"

definition step_barrier :: "candidate \<Rightarrow> exact_object option \<Rightarrow> exact_object option" where
  "step_barrier cd b = (case cd of Exact x \<Rightarrow> Some x | Cited c \<Rightarrow> if fc_form c = ulit ''id'' then b else None)"

lemma edge_of_barrier: "edge_of U punctuation t resolve b cd next_cd = Inr (e, b1) \<Longrightarrow> b1 = step_barrier cd b"
  by (auto simp: edge_of_def step_barrier_def Let_def split: candidate.splits if_splits option.splits)

lemma edges_from_row:
  "edges_from U punctuation sha resolve doc_id pipeline t sections n b cds = Inr rows \<Longrightarrow>
     length rows = length cds \<and>
     (\<forall>i < length cds. \<exists>sec e b1. section_at sections (fst (cd_span (cds ! i))) = Inr sec \<and>
        edge_of U punctuation t resolve (fold step_barrier (take i cds) b) (cds ! i) (next_of (drop (i + 1) cds)) = Inr (e, b1) \<and>
        citation_row sha doc_id pipeline t (n + i) (cds ! i) sec e = Inr (rows ! i))"
proof (induction cds arbitrary: n b rows)
  case (Cons cd cds)
  from Cons.prems obtain sec e b1 row rest where
    step: "section_at sections (fst (cd_span cd)) = Inr sec" "edge_of U punctuation t resolve b cd (next_of cds) = Inr (e, b1)"
    "citation_row sha doc_id pipeline t n cd sec e = Inr row" "rows = row # rest"
    "edges_from U punctuation sha resolve doc_id pipeline t sections (n + 1) b1 cds = Inr rest"
    by (auto simp: bind_result_Inr_iff map_result_Inr_iff)
  note IH = Cons.IH [OF step(5)] and b1 = edge_of_barrier [OF step(2)]
  show ?case
  proof (intro conjI allI impI)
    fix i assume i: "i < length (cd # cds)"
    show "\<exists>sec e b1. section_at sections (fst (cd_span ((cd # cds) ! i))) = Inr sec \<and>
        edge_of U punctuation t resolve (fold step_barrier (take i (cd # cds)) b) ((cd # cds) ! i)
          (next_of (drop (i + 1) (cd # cds))) = Inr (e, b1) \<and>
        citation_row sha doc_id pipeline t (n + i) ((cd # cds) ! i) sec e = Inr (rows ! i)"
    proof (cases i)
      case 0
      with step show ?thesis by auto
    next
      case (Suc j)
      with i IH b1 step(4) show ?thesis by simp
    qed
  qed (use IH step(4) in simp)
qed simp

lemma citation_row_fields:
  assumes "citation_row sha doc_id pipeline t n cd sec e = Inr row"
  shows "ci_ordinal row = n" "(ci_char_start row, ci_char_end row) = cd_span cd" "ci_section_id row = sec_id sec"
    "ci_section_type row = sec_type sec" "ci_cite_type row = eg_type e" "ci_to_cluster row = eg_to_cluster e"
    "ci_key row = eg_key e" "\<exists>b. ci_citation_id row = sha b"
  using assms by (auto simp: citation_row_def map_result_Inr_iff split: option.splits)

lemma edges_row_section:
  assumes "edges U punctuation sha resolve doc_id pipeline t sections found objects = Inr rows" "r \<in> set rows"
  shows "\<exists>s \<in> set sections. inside s (ci_char_start r) \<and> ci_section_id r = sec_id s \<and> ci_section_type r = sec_type s"
    "\<exists>b. ci_citation_id r = sha b"
proof -
  from assms(1) have "edges_from U punctuation sha resolve doc_id pipeline t sections 0 None (selected found objects) = Inr rows"
    by (simp add: edges_def split: if_splits)
  note from0 = edges_from_row [OF this]
  from assms(2) obtain i where i: "i < length rows" "r = rows ! i" by (auto simp: in_set_conv_nth)
  with from0 obtain sec e where
    sec: "section_at sections (fst (cd_span (selected found objects ! i))) = Inr sec"
    "citation_row sha doc_id pipeline t (0 + i) (selected found objects ! i) sec e = Inr r" by metis
  from section_at_inside [OF sec(1)] citation_row_fields(2-4) [OF sec(2)]
  show "\<exists>s \<in> set sections. inside s (ci_char_start r) \<and> ci_section_id r = sec_id s \<and> ci_section_type r = sec_type s"
    by (metis fst_conv)
  show "\<exists>b. ci_citation_id r = sha b" by (rule citation_row_fields(8) [OF sec(2)])
qed

definition ci_span :: "new_citation \<Rightarrow> int \<times> int" where
  "ci_span r = (ci_char_start r, ci_char_end r)"

lemma rows_spans:
  assumes "edges_from U punctuation sha resolve doc_id pipeline t sections 0 None cds = Inr rows"
  shows "map ci_span rows = map cd_span cds \<and> map ci_ordinal rows = [0..<length rows]"
proof -
  note rows = edges_from_row [OF assms]
  have "ci_span (rows ! i) = cd_span (cds ! i) \<and> ci_ordinal (rows ! i) = i" if i: "i < length cds" for i
  proof -
    from rows i obtain sec e where "citation_row sha doc_id pipeline t (0 + i) (cds ! i) sec e = Inr (rows ! i)" by blast
    from citation_row_fields(1,2) [OF this] show ?thesis by (simp add: ci_span_def)
  qed
  with rows show ?thesis by (auto intro!: nth_equalityI)
qed

lemma all_apart_map: "all_apart f xs \<longleftrightarrow> all_apart (\<lambda>x. x) (map f xs)"
  by (simp add: all_apart_def sorted_wrt_map)

lemma selected_facts:
  assumes "all_apart xo_span objects"
  shows "sorted (map (fst \<circ> cd_span) (selected found objects))" "all_apart cd_span (selected found objects)"
    "set (selected found objects) \<subseteq> Exact ` set objects \<union> Cited ` set found"
    "\<forall>c \<in> set found. Cited c \<in> set (selected found objects) \<or>
       (\<exists>k \<in> set (selected found objects). overlapping (fc_span c) (cd_span k))"
proof -
  let ?exact = "map Exact (filter (\<lambda>x. of_types (xo_type x) CITE_TYPES \<and> xo_type x \<noteq> ulit ''case_cite'') objects)"
  let ?cited = "map Cited (sort_key (longest_first \<circ> fc_span) found)"
  let ?kept = "keep_disjoint cd_span ?exact ?cited"
  have set: "set (selected found objects) = set ?kept" by (simp add: selected_def)
  show "sorted (map (fst \<circ> cd_span) (selected found objects))" unfolding selected_def by (rule sorted_sort_key)
  have "all_apart cd_span ?exact"
    using sorted_wrt_filter [OF assms [unfolded all_apart_def]]
    by (simp add: all_apart_def sorted_wrt_map xo_span_def)
  from keep_disjoint_apart [OF this] show "all_apart cd_span (selected found objects)"
    by (rule all_apart_perm) (simp add: selected_def)
  show "set (selected found objects) \<subseteq> Exact ` set objects \<union> Cited ` set found"
  proof -
    have "set ?exact \<subseteq> Exact ` set objects" "set ?cited = Cited ` set found" by auto
    with keep_disjoint_sets [of ?exact cd_span ?cited] show ?thesis unfolding set by blast
  qed
  show "\<forall>c \<in> set found. Cited c \<in> set (selected found objects) \<or>
       (\<exists>k \<in> set (selected found objects). overlapping (fc_span c) (cd_span k))"
  proof
    fix c assume "c \<in> set found"
    then have c: "Cited c \<in> set ?cited" by simp
    have "sorted_wrt (\<lambda>_ _. True) ?cited" by (simp add: sorted_wrt_true)
    from keep_disjoint_left_out [OF this c, of cd_span ?exact] show "Cited c \<in> set (selected found objects) \<or>
       (\<exists>k \<in> set (selected found objects). overlapping (fc_span c) (cd_span k))"
      unfolding set by (auto simp: fc_span_def)
  qed
qed

text \<open>The object an \<open>Id.\<close> refers to, read off the candidates before it.\<close>

definition referent :: "candidate list \<Rightarrow> exact_object option" where
  "referent before_it =
     (case rev (filter (\<lambda>cd. \<not> is_id cd) before_it) of
        Exact x # _ \<Rightarrow> Some x
      | _ \<Rightarrow> None)"

lemma fold_step_barrier: "fold step_barrier cds None = referent cds"
proof (induction cds rule: rev_induct)
  case (snoc cd cds)
  then show ?case by (cases cd) (auto simp: step_barrier_def referent_def is_id_def)
qed (simp add: referent_def)

section \<open>Properties\<close>

text \<open>C25: the citations of a document are numbered in text order without overlaps, each in the section that
  holds its start, and every citation found is there or gave way to one it overlaps.\<close>

theorem edges_placed:
  assumes "edges U punctuation sha resolve doc_id pipeline t sections found objects = Inr rows"
    and "all_apart xo_span objects"
  shows "map ci_ordinal rows = [0..<length rows] \<and> sorted (map ci_char_start rows) \<and> all_apart ci_span rows \<and>
    (\<forall>r \<in> set rows. \<exists>s \<in> set sections. inside s (ci_char_start r) \<and> ci_section_id r = sec_id s \<and>
       ci_section_type r = sec_type s) \<and>
    (\<forall>c \<in> set found. \<exists>r \<in> set rows. ci_span r = fc_span c \<or> overlapping (fc_span c) (ci_span r))"
proof -
  let ?cds = "selected found objects"
  from assms(1) have from0: "edges_from U punctuation sha resolve doc_id pipeline t sections 0 None ?cds = Inr rows"
    by (simp add: edges_def split: if_splits)
  note spans = rows_spans [OF from0] and sel = selected_facts [OF assms(2), of found]
  have starts: "map ci_char_start rows = map (fst \<circ> cd_span) ?cds"
    using arg_cong [OF conjunct1 [OF spans], of "map fst"] by (simp add: ci_span_def comp_def)
  have apart: "all_apart ci_span rows"
    using sel(2) unfolding all_apart_map [of cd_span] all_apart_map [of ci_span] conjunct1 [OF spans] .
  have "\<exists>r \<in> set rows. ci_span r = fc_span c \<or> overlapping (fc_span c) (ci_span r)" if "c \<in> set found" for c
  proof -
    from sel(4) that obtain cd where "cd \<in> set ?cds" "cd_span cd = fc_span c \<or> overlapping (fc_span c) (cd_span cd)"
      by (force simp: fc_span_def)
    moreover from this(1) have "cd_span cd \<in> set (map ci_span rows)" unfolding conjunct1 [OF spans] by simp
    ultimately show ?thesis by force
  qed
  with spans starts sel(1) apart edges_row_section(1) [OF assms(1)] show ?thesis by simp
qed

text \<open>C26: an \<open>Id.\<close> carries the type of the last object before it when only other \<open>Id.\<close>s lie between them, and
  then never resolves to a case; otherwise it stands for what the reader of case law found.\<close>

theorem id_citation_follows:
  assumes "edges U punctuation sha resolve doc_id pipeline t sections found objects = Inr rows"
    and "i < length rows" and "selected found objects ! i = Cited c" and "fc_form c = ulit ''id''"
  shows "ci_cite_type (rows ! i) = (case referent (take i (selected found objects)) of
      Some x \<Rightarrow> xo_type x | None \<Rightarrow> kind_type c) \<and>
    ci_to_cluster (rows ! i) = (case referent (take i (selected found objects)) of
      Some x \<Rightarrow> None | None \<Rightarrow> resolved resolve c)"
proof -
  let ?cds = "selected found objects"
  from assms(1) have from0: "edges_from U punctuation sha resolve doc_id pipeline t sections 0 None ?cds = Inr rows"
    by (simp add: edges_def split: if_splits)
  with edges_from_row [OF from0] assms(2) obtain sec e b where
    e: "edge_of U punctuation t resolve (fold step_barrier (take i ?cds) None) (?cds ! i) (next_of (drop (i + 1) ?cds)) = Inr (e, b)"
    "citation_row sha doc_id pipeline t (0 + i) (?cds ! i) sec e = Inr (rows ! i)" by metis
  from e(1) have "eg_type e = (case referent (take i ?cds) of Some x \<Rightarrow> xo_type x | None \<Rightarrow> kind_type c) \<and>
    eg_to_cluster e = (case referent (take i ?cds) of Some x \<Rightarrow> None | None \<Rightarrow> resolved resolve c)"
    unfolding fold_step_barrier assms(3) using assms(4)
    by (auto simp: edge_of_def Let_def split: option.splits if_splits)
  with citation_row_fields(5,6) [OF e(2)] show ?thesis by simp
qed

text \<open>Over sections that tile the text, citations that start in it, of declared forms and with their
  patterns, always get their rows.\<close>

theorem edges_returns:
  assumes "sections_tile sections n" "sections \<noteq> []" "all_apart xo_span objects"
    and "\<forall>x \<in> set objects. 0 \<le> xo_start x \<and> xo_start x < int n \<and> xo_pattern_id x \<noteq> None"
    and "\<forall>c \<in> set found. 0 \<le> fc_start c \<and> fc_start c < int n \<and> of_types (fc_form c) CITE_FORMS"
    and "list_all is_scalar doc_id" "list_all is_scalar pipeline"
  shows "\<exists>rows. edges U punctuation sha resolve doc_id pipeline t sections found objects = Inr rows"
proof -
  have digits: "list_all is_scalar (decimal k)" for k
    using decimal_digits [of k] by (auto simp: list_all_iff digit_char_def is_scalar_def)
  have row: "\<exists>row. citation_row sha doc_id pipeline t m cd sec e = Inr row" if "eg_pattern_id e \<noteq> None" for m cd sec e
    using that assms(6,7) digits by (auto simp: citation_row_def utf8_encode_def int_decimal_def is_scalar_def)
  have "\<forall>cd \<in> set cds. 0 \<le> fst (cd_span cd) \<and> fst (cd_span cd) < int n \<and>
      (case cd of Exact x \<Rightarrow> xo_pattern_id x \<noteq> None | Cited c \<Rightarrow> of_types (fc_form c) CITE_FORMS) \<Longrightarrow>
    \<exists>rows. edges_from U punctuation sha resolve doc_id pipeline t sections m b cds = Inr rows" for cds m b
  proof (induction cds arbitrary: m b)
    case (Cons cd cds)
    then have "0 \<le> fst (cd_span cd)" "fst (cd_span cd) < int n" by simp_all
    with section_at_tiled [OF assms(1) [unfolded sections_tile_def], of "fst (cd_span cd)"] obtain sec where
      sec: "section_at sections (fst (cd_span cd)) = Inr sec" by auto
    have "\<exists>e b1. edge_of U punctuation t resolve b cd (next_of cds) = Inr (e, b1) \<and> eg_pattern_id e \<noteq> None"
      using Cons.prems by (cases cd) (auto simp: edge_of_def Let_def split: option.split)
    then obtain e b1 where e: "edge_of U punctuation t resolve b cd (next_of cds) = Inr (e, b1)" "eg_pattern_id e \<noteq> None"
      by blast
    from row [OF e(2)] obtain r where "citation_row sha doc_id pipeline t m cd sec e = Inr r" by blast
    with sec e(1) Cons show ?case by (fastforce simp: map_result_Inr_iff)
  qed simp
  moreover have "\<forall>cd \<in> set (selected found objects). 0 \<le> fst (cd_span cd) \<and> fst (cd_span cd) < int n \<and>
      (case cd of Exact x \<Rightarrow> xo_pattern_id x \<noteq> None | Cited c \<Rightarrow> of_types (fc_form c) CITE_FORMS)"
    using selected_facts(3) [OF assms(3), of found] assms(4,5) by fastforce
  ultimately show ?thesis using assms(2) by (simp add: edges_def)
qed

text \<open>The witnesses cite one statute, a case inside it and an \<open>Id.\<close> after it, in the chunker's small text.\<close>

definition small_statute :: exact_object where
  "small_statute = \<lparr>xo_type = ulit ''statute'', xo_start = 4, xo_end = 12, xo_text = ulit ''12 F. 34'',
     xo_key = Some (ulit ''/us/usc/t12/s34''), xo_pattern_id = Some (ulit ''statute@1''), xo_subsections = []\<rparr>"

definition small_found :: "string \<Rightarrow> int \<Rightarrow> int \<Rightarrow> found_citation" where
  "small_found form a b = \<lparr>fc_start = a, fc_end = b, fc_form = ulit form, fc_kind = ulit ''case'', fc_resource = None,
     fc_volume = None, fc_reporter = None, fc_page = None, fc_reporter_cite = None, fc_pincite = None\<rparr>"

definition small_edges :: "new_citation list result" where
  "small_edges = edges ascii_ucd (\<lambda>c. c = 46) (\<lambda>_. []) (\<lambda>_. None) (ulit ''d'') (ulit ''1'') (ulit ''See 12 F. 34. Ok. '')
     small_sections [small_found ''full'' 6 10, small_found ''id'' 14 16] [small_statute]"

lemma small_apart: "all_apart xo_span [small_statute]"
  by (simp add: all_apart_def)

lemma small_selected:
  "selected [small_found ''full'' 6 10, small_found ''id'' 14 16] [small_statute] = [Exact small_statute, Cited (small_found ''id'' 14 16)]"
  by code_simp

theorem edges_returns_witness: "\<exists>rows. small_edges = Inr rows"
  unfolding small_edges_def
proof (rule edges_returns)
  show "sections_tile small_sections 18" by code_simp
  show "\<forall>x \<in> set [small_statute]. 0 \<le> xo_start x \<and> xo_start x < int 18 \<and> xo_pattern_id x \<noteq> None"
    by (simp add: small_statute_def)
  show "\<forall>c \<in> set [small_found ''full'' 6 10, small_found ''id'' 14 16]. 0 \<le> fc_start c \<and> fc_start c < int 18 \<and>
      of_types (fc_form c) CITE_FORMS"
    by (simp add: small_found_def CITE_FORMS_def)
qed (use small_apart in \<open>simp_all add: small_sections_def is_scalar_def ulit_def\<close>)

lemma small_edges_rows: "\<exists>rows. small_edges = Inr rows \<and> length rows = 2"
proof -
  have "case small_edges of Inl e \<Rightarrow> False | Inr rows \<Rightarrow> length rows = 2" by code_simp
  then show ?thesis by (auto split: sum.splits)
qed

theorem edges_placed_witness: "case small_edges of Inl e \<Rightarrow> False | Inr rows \<Rightarrow> sorted (map ci_char_start rows)"
proof -
  from small_edges_rows obtain rows where rows: "small_edges = Inr rows" by blast
  from edges_placed [OF rows [unfolded small_edges_def] small_apart] have "sorted (map ci_char_start rows)" by blast
  then show ?thesis unfolding rows sum.case .
qed

theorem id_citation_follows_witness:
  "case small_edges of Inl e \<Rightarrow> False | Inr rows \<Rightarrow> ci_cite_type (rows ! 1) = ulit ''statute''"
proof -
  from small_edges_rows obtain rows where rows: "small_edges = Inr rows" "length rows = 2" by blast
  have "ci_cite_type (rows ! 1) = (case referent [Exact small_statute] of
      Some x \<Rightarrow> xo_type x | None \<Rightarrow> kind_type (small_found ''id'' 14 16))"
    using id_citation_follows [OF rows(1) [unfolded small_edges_def], of 1 "small_found ''id'' 14 16"] rows(2)
    by (simp add: small_selected) (simp add: small_found_def)
  then show ?thesis unfolding rows(1) sum.case by (simp add: referent_def is_id_def small_statute_def)
qed

end
