(* ===== verification/Worker_Treatment.thy ===== *)
theory Worker_Treatment
  imports Worker_Citations
begin

text \<open>
  \<open>gideon/worker/treatment.py\<close>: treatment language found around each citation of a case, and its standing by the
  courts' places. The hash, the court of a cluster, the geography of a court and the two Unicode properties the
  abbreviation test asks for are parameters.
\<close>

section \<open>Vocabularies\<close>

definition PATTERN_SET_ID :: string where "PATTERN_SET_ID = ''treatment/patterns@2''"

definition TREATMENT_SIGNALS :: "string list" where
  "TREATMENT_SIGNALS = [''overruled'', ''abrogated'', ''superseded'', ''reversed'', ''vacated'', ''disapproved'']"

definition QUALIFIERS :: "string list" where
  "QUALIFIERS = [''in_part'', ''on_other_grounds'', ''none'']"

definition TREATMENT_STATES :: "string list" where
  "TREATMENT_STATES = [''negative'', ''caution'']"

definition NO_STATE_REASONS :: "string list" where
  "NO_STATE_REASONS = [''non_holding'', ''lineage_unverified'', ''unresolved'']"

definition HOLDING_SECTIONS :: "string list" where
  "HOLDING_SECTIONS = [''majority'', ''per_curiam'']"

definition LINEAGE_SIGNALS :: "string list" where
  "LINEAGE_SIGNALS = [''reversed'', ''vacated'']"

definition ATTRIBUTIONS :: "string list" where
  "ATTRIBUTIONS = [''sentence'', ''nearest'']"

definition LEVELS :: "string list" where
  "LEVELS = [''scotus'', ''circuit'', ''district'', ''state_supreme'', ''state_appellate'', ''other'']"

definition CIRCUIT_PATTERN :: regex where
  "CIRCUIT_PATTERN =
     Seq (alts [Seq (lit ''ca'') (alts [Cls False [CRange 49 57], lit ''10'', lit ''11'']), lit ''cadc'', lit ''cafc'']) TextEnd"

definition STATE_PATTERN :: regex where
  "STATE_PATTERN = Seq (alts (map lit
     [''AL'', ''AK'', ''AZ'', ''AR'', ''CA'', ''CO'', ''CT'', ''DE'', ''FL'', ''GA'', ''HI'', ''ID'', ''IL'', ''IN'', ''IA'', ''KS'', ''KY'', ''LA'', ''ME'', ''MD'',
      ''MA'', ''MI'', ''MN'', ''MS'', ''MO'', ''MT'', ''NE'', ''NV'', ''NH'', ''NJ'', ''NM'', ''NY'', ''NC'', ''ND'', ''OH'', ''OK'', ''OR'', ''PA'', ''RI'', ''SC'',
      ''SD'', ''TN'', ''TX'', ''UT'', ''VT'', ''VA'', ''WA'', ''WV'', ''WI'', ''WY'', ''DC'', ''AS'', ''GU'', ''MP'', ''PR'', ''VI''])) TextEnd"

definition ABBREVIATIONS :: "string list" where
  "ABBREVIATIONS =
     [''v.'', ''Id.'', ''id.'', ''e.g.'', ''i.e.'', ''cf.'', ''et al.'', ''Inc.'', ''Co.'', ''Corp.'',
      ''Ltd.'', ''No.'', ''Nos.'', ''Mr.'', ''Mrs.'', ''Ms.'', ''Dr.'', ''Jr.'', ''Sr.'',
      ''St.'', ''Ct.'', ''Cir.'', ''Dist.'', ''App.'', ''Div.'', ''Supp.'', ''Fed.'',
      ''Crim.'', ''Civ.'', ''Ann.'', ''Stat.'', ''Sec.'', ''Art.'', ''Ch.'', ''Pt.'', ''Vol.'']"

section \<open>Patterns\<close>

definition some_space :: regex where  \<comment> \<open>\<open>\s+\<close>\<close>
  "some_space = Many 1 (Cls False [CSpace])"

definition PARAGRAPH :: regex where
  "PARAGRAPH = seqs [chars [10], Many 0 (chars [32, 9]), chars [10]]"

definition TERMINATOR :: regex where
  "TERMINATOR = seqs [chars [46, 63, 33], Many 0 (chars [34, 39, 8217, 8221, 41]), some_space,
     Look True (Cls False [CRange 65 90, CRange 48 57, CChar 34, CChar 39, CChar 8220, CChar 40])]"

definition SEMICOLON :: regex where
  "SEMICOLON = Seq (chars [59]) some_space"

definition WORDS :: regex where
  "WORDS = seqs [WordB, Many 1 (Cls False [CWord]), WordB]"

text \<open>One named verb of a pattern: a stem with its endings, between word boundaries.\<close>

definition named_verb :: "string \<Rightarrow> regex \<Rightarrow> regex" where
  "named_verb name r = seqs [WordB, Group name r, WordB]"

definition VERBS :: regex where
  "VERBS = alts
     [named_verb ''overruled'' (Seq (lit ''overrul'') (alts [lit ''e'', lit ''es'', lit ''ed'', lit ''ing''])),
      named_verb ''abrogated'' (Seq (lit ''abrogat'') (alts [lit ''e'', lit ''es'', lit ''ed'', lit ''ing''])),
      named_verb ''superseded'' (Seq (lit ''supersed'') (alts [lit ''e'', lit ''es'', lit ''ed'', lit ''ing''])),
      named_verb ''reversed'' (lit ''reversed''),
      named_verb ''vacated'' (lit ''vacated''),
      named_verb ''disapproved'' (Seq (lit ''disapprov'') (alts [lit ''e'', lit ''es'', lit ''ed'', lit ''ing'']))]"

definition HYPHENATED_VERBS :: regex where
  "HYPHENATED_VERBS = alts
     [named_verb ''overruled''
        (seqs [lit ''over'', optional (lit ''-''), lit ''rul'', alts [lit ''e'', lit ''es'', lit ''ed'', lit ''ing'']]),
      named_verb ''abrogated'' (Seq (lit ''abrogat'') (alts [lit ''e'', lit ''es'', lit ''ed'', lit ''ing''])),
      named_verb ''superseded''
        (seqs [lit ''super'', optional (lit ''-''), lit ''sed'', alts [lit ''e'', lit ''es'', lit ''ed'', lit ''ing'']]),
      named_verb ''reversed'' (lit ''reversed''),
      named_verb ''vacated'' (lit ''vacated''),
      named_verb ''disapproved''
        (seqs [lit ''dis'', optional (lit ''-''), lit ''approv'', alts [lit ''e'', lit ''es'', lit ''ed'', lit ''ing'']])]"

definition in_part :: regex where "in_part = seqs [lit ''in'', some_space, lit ''part'']"

definition on_other_grounds :: regex where
  "on_other_grounds = seqs [lit ''on'', some_space, lit ''other'', some_space, lit ''grounds'']"

definition QUALIFIER :: regex where
  "QUALIFIER = seqs [WordB, alts [in_part, on_other_grounds], WordB]"

definition DIRECTION :: regex where
  "DIRECTION = seqs [some_space,
     alts [seqs [alts [in_part, on_other_grounds], some_space, alts [lit ''by'', lit ''in'']],
           lit ''by'',
           Seq (lit ''in'') (Look False (seqs [some_space, lit ''part'', WordB]))],
     WordB]"

definition ABBREVIATION_REACH :: nat where
  "ABBREVIATION_REACH = Max (set (map length ABBREVIATIONS)) + 1"

definition BASE_FORMS :: "string list" where
  "BASE_FORMS = [''overrule'', ''abrogate'', ''supersede'', ''disapprove'']"

definition NEGATORS :: "string list" where
  "NEGATORS = [''not'', ''never'', ''nor'', ''neither'', ''no'']"

definition MODALS :: "string list" where
  "MODALS = [''would'', ''should'', ''could'', ''might'', ''may'', ''must'']"

definition PROCEDURAL_OBJECTS :: "string list" where
  "PROCEDURAL_OBJECTS =
     [''objection'', ''objections'', ''exception'', ''exceptions'', ''motion'', ''motions'', ''demurrer'', ''demurrers'']"

definition PROCEDURAL_PHRASE_HEADS :: "string list" where
  "PROCEDURAL_PHRASE_HEADS = [''assignment'', ''assignments'', ''point'', ''points'']"

section \<open>Records\<close>

record treatment_section = section_span +
  ts_parent_section_id :: "ustr option"

record geography =
  ge_level :: ustr
  ge_circuit :: "ustr option"
  ge_state :: "ustr option"

record pattern_rules =
  ru_window :: nat
  ru_hyphenated :: bool
  ru_negator_reach :: nat
  ru_procedural_objects :: bool
  ru_direction :: bool
  ru_attribution :: string
  ru_semicolon_boundary :: bool

definition make_rules :: "int \<Rightarrow> bool \<Rightarrow> int \<Rightarrow> bool \<Rightarrow> bool \<Rightarrow> string \<Rightarrow> bool \<Rightarrow> pattern_rules result" where
  "make_rules window hyphenated negator_reach procedural_objects direction attribution semicolon_boundary =
     (if window \<le> 0 then Inl ''ValueError''
      else if negator_reach \<le> 0 then Inl ''ValueError''
      else if attribution \<notin> set ATTRIBUTIONS then Inl ''ValueError''
      else Inr \<lparr>ru_window = nat window, ru_hyphenated = hyphenated, ru_negator_reach = nat negator_reach,
        ru_procedural_objects = procedural_objects, ru_direction = direction, ru_attribution = attribution,
        ru_semicolon_boundary = semicolon_boundary\<rparr>)"

definition RULES_1 :: pattern_rules where
  "RULES_1 = \<lparr>ru_window = 300, ru_hyphenated = False, ru_negator_reach = 3, ru_procedural_objects = False,
     ru_direction = True, ru_attribution = ''sentence'', ru_semicolon_boundary = False\<rparr>"

definition RULES :: pattern_rules where
  "RULES = \<lparr>ru_window = 300, ru_hyphenated = True, ru_negator_reach = 3, ru_procedural_objects = True,
     ru_direction = True, ru_attribution = ''sentence'', ru_semicolon_boundary = False\<rparr>"

record new_signal =
  sg_signal_id :: ustr
  sg_citation_id :: ustr
  sg_doc_id :: ustr
  sg_signal_source :: string
  sg_pattern_set :: string
  sg_treatment_signal :: string
  sg_qualifier :: ustr
  sg_effective_section :: ustr
  sg_state :: "string option"
  sg_no_state_reason :: "string option"
  sg_char_start :: nat
  sg_char_end :: nat

record occurrence =
  oc_signal :: string
  oc_qualifier :: ustr
  oc_start :: nat
  oc_end :: nat

record letters =  \<comment> \<open>\<open>str.isalpha\<close> and \<open>str.isupper\<close> of one character\<close>
  lt_alpha :: "codepoint \<Rightarrow> bool"
  lt_upper :: "codepoint \<Rightarrow> bool"

section \<open>The geography of a job argument\<close>

definition place_of :: "ucd \<Rightarrow> regex \<Rightarrow> json \<Rightarrow> ustr option result" where
  "place_of U pattern j =
     (case j of
        JNull \<Rightarrow> Inr None
      | JStr t \<Rightarrow> if re_fullmatch U False pattern t = None then Inl ''ValueError'' else Inr (Some t)
      | _ \<Rightarrow> Inl ''ValueError'')"

definition level_of :: "json \<Rightarrow> ustr result" where
  "level_of j = (case j of JStr t \<Rightarrow> if of_types t LEVELS then Inr t else Inl ''ValueError'' | _ \<Rightarrow> Inl ''ValueError'')"

definition parse_geography :: "ucd \<Rightarrow> json \<Rightarrow> geography result" where
  "parse_geography U j =
     (case j of
        JObj kvs \<Rightarrow>
          if set (map fst kvs) \<noteq> set (map ulit [''level'', ''circuit'', ''state'']) then Inl ''ValueError''
          else let field = (\<lambda>name. the (jget name kvs))
            in bind_result (level_of (field ''level'')) (\<lambda>level.
               bind_result (place_of U CIRCUIT_PATTERN (field ''circuit'')) (\<lambda>circuit.
               map_result (\<lambda>state. \<lparr>ge_level = level, ge_circuit = circuit, ge_state = state\<rparr>)
                 (place_of U STATE_PATTERN (field ''state''))))
      | _ \<Rightarrow> Inl ''ValueError'')"

section \<open>Sentences\<close>

definition abbreviation_at :: "letters \<Rightarrow> ustr \<Rightarrow> nat \<Rightarrow> bool" where
  "abbreviation_at A t position =
     (let tail = substr t (position + 1 - ABBREVIATION_REACH) (position + 1)
      in list_ex (\<lambda>a. ends_with tail (ulit a) \<and>
             (position < length a \<or> \<not> lt_alpha A (t ! (position - length a)))) ABBREVIATIONS \<or>
         0 < position \<and> lt_upper A (t ! (position - 1)) \<and>
           (position = 1 \<or> \<not> lt_alpha A (t ! (position - 2))))"

text \<open>One loop over separators around \<open>start\<close> and \<open>stop\<close>: one before moves the left bound, the first after
  cuts the right bound.\<close>

primrec narrow ::
    "(match \<Rightarrow> bool) \<Rightarrow> (match \<Rightarrow> nat \<Rightarrow> nat) \<Rightarrow> nat \<Rightarrow> nat \<Rightarrow> match list \<Rightarrow> nat \<times> nat \<Rightarrow> nat \<times> nat" where
  "narrow passes bound start stop [] b = b"
| "narrow passes bound start stop (m # ms) b =
     (if passes m then narrow passes bound start stop ms b
      else if m_end m \<le> start then narrow passes bound start stop ms (m_end m, snd b)
      else if stop \<le> m_start m then (fst b, bound m (snd b))
      else narrow passes bound start stop ms b)"

definition in_citation :: "(nat \<times> nat) list \<Rightarrow> nat \<Rightarrow> bool" where
  "in_citation spans point = list_ex (\<lambda>(a, b). a \<le> point \<and> point < b) spans"

definition terminator_skipped :: "letters \<Rightarrow> ustr \<Rightarrow> (nat \<times> nat) list \<Rightarrow> match \<Rightarrow> bool" where
  "terminator_skipped A t spans m =
     (t ! m_start m = 46 \<and> (in_citation spans (m_start m) \<or> abbreviation_at A t (m_start m)))"

definition rstrip_blanks :: "ustr \<Rightarrow> ustr" where  \<comment> \<open>\<open>rstrip(" \t\n\r")\<close>\<close>
  "rstrip_blanks s = rev (dropWhile (\<lambda>c. c \<in> {32, 9, 10, 13}) (rev s))"

definition sentence_end :: "ustr \<Rightarrow> match \<Rightarrow> nat \<Rightarrow> nat" where
  "sentence_end t m right = m_start m + 1 + length (rstrip_blanks (tl (group0 t m)))"

definition sentence ::
    "ucd \<Rightarrow> letters \<Rightarrow> ustr \<Rightarrow> nat \<Rightarrow> nat \<Rightarrow> nat \<times> nat \<Rightarrow> (nat \<times> nat) list \<Rightarrow> pattern_rules \<Rightarrow> nat \<times> nat" where
  "sentence U A t start stop bounds spans rules =
     (let b0 = (max (fst bounds) (start - ru_window rules), min (snd bounds) (stop + ru_window rules));
          b1 = narrow (\<lambda>_. False) (\<lambda>m right. min right (m_start m)) start stop
                 (re_finditer_in U False PARAGRAPH t (fst b0) (snd b0)) b0;
          b2 = narrow (terminator_skipped A t spans) (sentence_end t) start stop
                 (re_finditer_in U False TERMINATOR t (fst b1) (snd b1)) b1
      in if ru_semicolon_boundary rules
         then narrow (\<lambda>m. in_citation spans (m_start m)) (\<lambda>m right. m_start m + 1) start stop
                (re_finditer_in U False SEMICOLON t (fst b2) (snd b2)) b2
         else b2)"

section \<open>Treatment verbs\<close>

abbreviation one_of :: "ustr \<Rightarrow> string list \<Rightarrow> bool" where
  "one_of w names \<equiv> w \<in> set (map ulit names)"

definition word_of :: "ucd \<Rightarrow> ustr \<Rightarrow> match \<Rightarrow> ustr" where
  "word_of U fragment m = py_casefold U (group0 fragment m)"

definition blank_between :: "ucd \<Rightarrow> ustr \<Rightarrow> match \<Rightarrow> match \<Rightarrow> bool" where
  "blank_between U fragment m m' =
     (let gap = substr fragment (m_end m) (m_start m') in gap \<noteq> [] \<and> list_all (uc_space U) gap)"

definition last_n :: "nat \<Rightarrow> 'a list \<Rightarrow> 'a list" where  \<comment> \<open>\<open>xs[-n:]\<close> for a positive \<open>n\<close>\<close>
  "last_n n xs = drop (length xs - n) xs"

definition procedural_object :: "ucd \<Rightarrow> ustr \<Rightarrow> match list \<Rightarrow> nat \<Rightarrow> bool" where
  "procedural_object U fragment before verb_end =
     (let ws = before @ re_finditer_in U False WORDS fragment verb_end (length fragment); n = length before
      in list_ex (\<lambda>i. let form = word_of U fragment (ws ! i)
           in one_of form PROCEDURAL_OBJECTS \<or>
              one_of form PROCEDURAL_PHRASE_HEADS \<and> i + 2 < length ws \<and>
              word_of U fragment (ws ! (i + 1)) = ulit ''of'' \<and> word_of U fragment (ws ! (i + 2)) = ulit ''error'' \<and>
              blank_between U fragment (ws ! i) (ws ! (i + 1)) \<and>
              blank_between U fragment (ws ! (i + 1)) (ws ! (i + 2)))
         [n - 4..<min (length ws) (n + 4)])"

definition excluded :: "ucd \<Rightarrow> ustr \<Rightarrow> nat \<Rightarrow> nat \<Rightarrow> ustr \<Rightarrow> pattern_rules \<Rightarrow> bool" where
  "excluded U fragment verb_start verb_end form rules =
     (let before = re_finditer_in U False WORDS fragment 0 verb_start; ws = map (word_of U fragment) before
      in ulit ''whether'' \<in> set ws \<or>
         list_ex (\<lambda>w. one_of w NEGATORS) (last_n (ru_negator_reach rules) ws) \<or>
         one_of form BASE_FORMS \<and>
           (ws \<noteq> [] \<and> last ws = ulit ''to'' \<or> list_ex (\<lambda>w. one_of w MODALS) (last_n 2 ws)) \<or>
         ru_procedural_objects rules \<and> procedural_object U fragment before verb_end)"

definition qualifier_after :: "ucd \<Rightarrow> ustr \<Rightarrow> nat \<Rightarrow> ustr" where
  "qualifier_after U fragment position =
     (case search_from U True QUALIFIER fragment False position of
        None \<Rightarrow> ulit ''none''
      | Some q \<Rightarrow> join_with [95] (split_words (uc_space U) (py_casefold U (group0 fragment q))))"

definition verbs_of :: "pattern_rules \<Rightarrow> regex" where
  "verbs_of rules = (if ru_hyphenated rules then HYPHENATED_VERBS else VERBS)"

definition occurrence_of :: "ucd \<Rightarrow> ustr \<Rightarrow> pattern_rules \<Rightarrow> match \<Rightarrow> occurrence list" where
  "occurrence_of U fragment rules m =
     (if excluded U fragment (m_start m) (m_end m) (filter (\<lambda>c. c \<noteq> 45) (word_of U fragment m)) rules then []
      else case m_caps m of
        [] \<Rightarrow> []
      | (signal, _) # _ \<Rightarrow>
          [\<lparr>oc_signal = signal, oc_qualifier = qualifier_after U fragment (m_end m), oc_start = m_start m,
            oc_end = m_end m\<rparr>])"

definition occurrences :: "ucd \<Rightarrow> ustr \<Rightarrow> pattern_rules \<Rightarrow> occurrence list" where
  "occurrences U fragment rules =
     concat (map (occurrence_of U fragment rules) (re_finditer U True (verbs_of rules) fragment))"

section \<open>Standing\<close>

type_synonym sections_by_id = "ustr \<Rightarrow> treatment_section option"

definition effective_section :: "new_citation \<Rightarrow> sections_by_id \<Rightarrow> ustr result" where
  "effective_section row by_id =
     (case by_id (ci_section_id row) of
        None \<Rightarrow> Inl ''ValueError''
      | Some s \<Rightarrow>
          if ci_section_type row \<noteq> ulit ''footnote'' then Inr (ci_section_type row)
          else Inr (case Option.bind (ts_parent_section_id s) by_id of
                      None \<Rightarrow> ulit ''footnote'' | Some parent \<Rightarrow> sec_type parent))"

definition binds :: "geography \<Rightarrow> geography \<Rightarrow> bool" where
  "binds citing cited =
     (if ge_level citing = ulit ''scotus'' then True
      else if ge_level citing = ulit ''circuit'' then
        ge_circuit citing \<noteq> None \<and> one_of (ge_level cited) [''circuit'', ''district''] \<and> ge_circuit cited = ge_circuit citing
      else if ge_level citing = ulit ''state_supreme'' then
        ge_state citing \<noteq> None \<and> one_of (ge_level cited) [''state_supreme'', ''state_appellate''] \<and>
        ge_state cited = ge_state citing
      else False)"

record courts =
  co_cluster_court :: "int \<Rightarrow> ustr option"
  co_geography_of :: "ustr \<Rightarrow> geography option"

definition cited_place :: "courts \<Rightarrow> new_citation \<Rightarrow> geography option" where
  "cited_place V row = Option.bind (Option.bind (ci_to_cluster row) (co_cluster_court V)) (co_geography_of V)"

text \<open>The state of a signal or the reason it has none.\<close>

definition standing_of :: "courts \<Rightarrow> geography \<Rightarrow> new_citation \<Rightarrow> ustr \<Rightarrow> string \<Rightarrow> string option \<times> string option" where
  "standing_of V citing row standing signal =
     (if \<not> one_of standing HOLDING_SECTIONS then (None, Some ''non_holding'')
      else if signal \<in> set LINEAGE_SIGNALS then (None, Some ''lineage_unverified'')
      else case cited_place V row of
        None \<Rightarrow> (None, Some ''unresolved'')
      | Some cited \<Rightarrow> (Some (if binds citing cited then ''negative'' else ''caution''), None))"

section \<open>The signals of a document\<close>

definition row_start :: "new_citation \<Rightarrow> nat" where "row_start c = nat (ci_char_start c)"
definition row_end :: "new_citation \<Rightarrow> nat" where "row_end c = nat (ci_char_end c)"

definition is_actor :: "ucd \<Rightarrow> pattern_rules \<Rightarrow> ustr \<Rightarrow> occurrence \<Rightarrow> bool" where
  "is_actor U rules fragment x = (ru_direction rules \<and> re_match_at U True DIRECTION fragment (oc_end x) \<noteq> None)"

text \<open>The index in the case rows of the citation nearest to a verb, among those in the sentence.\<close>

definition nearest_row :: "new_citation list \<Rightarrow> nat \<times> nat \<Rightarrow> bool \<Rightarrow> nat \<Rightarrow> nat \<Rightarrow> nat option" where
  "nearest_row case_rows bounds actor start stop =
     least_by (\<lambda>i. let c = case_rows ! i
         in (max (start - row_end c) (row_start c - stop), if stop \<le> row_start c then 0 else 1 :: nat, ci_ordinal c))
       (filter (\<lambda>i. let c = case_rows ! i
          in fst bounds \<le> row_start c \<and> row_end c \<le> snd bounds \<and> (\<not> actor \<or> row_end c \<le> start))
         [0..<length case_rows])"

definition passed_over ::
    "ucd \<Rightarrow> pattern_rules \<Rightarrow> new_citation list \<Rightarrow> nat \<Rightarrow> nat \<times> nat \<Rightarrow> ustr \<Rightarrow> occurrence \<Rightarrow> bool" where
  "passed_over U rules case_rows i bounds fragment x =
     (let start = fst bounds + oc_start x; stop = fst bounds + oc_end x; actor = is_actor U rules fragment x
      in actor \<and> start < row_end (case_rows ! i) \<or>
         ru_attribution rules = ''nearest'' \<and> nearest_row case_rows bounds actor start stop \<noteq> Some i)"

definition signal_id_of :: "(bytes \<Rightarrow> ustr) \<Rightarrow> new_citation \<Rightarrow> ustr result" where
  "signal_id_of sha row =
     map_result sha (utf8_encode (ci_citation_id row @ [10] @ ulit ''pattern'' @ [10] @ ulit PATTERN_SET_ID))"

definition signal_row ::
    "(bytes \<Rightarrow> ustr) \<Rightarrow> courts \<Rightarrow> geography \<Rightarrow> ustr \<Rightarrow> sections_by_id \<Rightarrow> new_citation \<Rightarrow> nat \<Rightarrow> occurrence \<Rightarrow> new_signal result" where
  "signal_row sha V citing doc_id by_id row first x =
     bind_result (effective_section row by_id) (\<lambda>standing.
       map_result (\<lambda>k. \<lparr>sg_signal_id = k, sg_citation_id = ci_citation_id row, sg_doc_id = doc_id,
           sg_signal_source = ''pattern'', sg_pattern_set = PATTERN_SET_ID, sg_treatment_signal = oc_signal x,
           sg_qualifier = oc_qualifier x, sg_effective_section = standing,
           sg_state = fst (standing_of V citing row standing (oc_signal x)),
           sg_no_state_reason = snd (standing_of V citing row standing (oc_signal x)),
           sg_char_start = first + oc_start x, sg_char_end = first + oc_end x\<rparr>)
         (signal_id_of sha row))"

record treating =
  tg_rules :: pattern_rules
  tg_letters :: letters
  tg_courts :: courts
  tg_citing :: geography

definition spans_of :: "new_citation list \<Rightarrow> (nat \<times> nat) list" where
  "spans_of rows = map (\<lambda>c. (row_start c, row_end c)) rows"

definition row_sentence ::
    "ucd \<Rightarrow> treating \<Rightarrow> ustr \<Rightarrow> sections_by_id \<Rightarrow> new_citation list \<Rightarrow> new_citation \<Rightarrow> (nat \<times> nat) option" where
  "row_sentence U G t by_id rows row =
     map_option (\<lambda>s. sentence U (tg_letters G) t (row_start row) (row_end row) (sec_start s, sec_end s) (spans_of rows)
       (tg_rules G)) (by_id (ci_section_id row))"

definition first_eligible ::
    "ucd \<Rightarrow> pattern_rules \<Rightarrow> ustr \<Rightarrow> new_citation list \<Rightarrow> nat \<Rightarrow> nat \<times> nat \<Rightarrow> occurrence option" where
  "first_eligible U rules t case_rows i bounds =
     (let fragment = substr t (fst bounds) (snd bounds)
      in find (\<lambda>x. \<not> passed_over U rules case_rows i bounds fragment x) (occurrences U fragment rules))"

definition row_signals ::
    "ucd \<Rightarrow> (bytes \<Rightarrow> ustr) \<Rightarrow> treating \<Rightarrow> ustr \<Rightarrow> ustr \<Rightarrow> sections_by_id \<Rightarrow> new_citation list \<Rightarrow> new_citation list \<Rightarrow> nat \<Rightarrow>
       new_signal list result" where
  "row_signals U sha G doc_id t by_id rows case_rows i =
     (case row_sentence U G t by_id rows (case_rows ! i) of
        None \<Rightarrow> Inl ''ValueError''
      | Some bounds \<Rightarrow>
          (case first_eligible U (tg_rules G) t case_rows i bounds of
             None \<Rightarrow> Inr []
           | Some x \<Rightarrow> map_result (\<lambda>r. [r])
               (signal_row sha (tg_courts G) (tg_citing G) doc_id by_id (case_rows ! i) (fst bounds) x)))"

definition case_rows_of :: "new_citation list \<Rightarrow> new_citation list" where
  "case_rows_of rows = filter (\<lambda>c. ci_cite_type c = ulit ''case_cite'') (sort_key ci_ordinal rows)"

definition by_section_id :: "treatment_section list \<Rightarrow> sections_by_id" where
  "by_section_id sections = map_of (rev (map (\<lambda>s. (sec_id s, s)) sections))"

definition signals ::
    "ucd \<Rightarrow> (bytes \<Rightarrow> ustr) \<Rightarrow> treating \<Rightarrow> ustr \<Rightarrow> ustr \<Rightarrow> treatment_section list \<Rightarrow> new_citation list \<Rightarrow>
       new_signal list result" where
  "signals U sha G doc_id t sections rows =
     (let case_rows = case_rows_of rows
      in map_result concat (collect_results (map (row_signals U sha G doc_id t (by_section_id sections) rows case_rows)
           [0..<length case_rows])))"

section \<open>Sentences hold their citation\<close>

lemma narrow_bounds:
  assumes "sorted_wrt (\<lambda>m m'. m_end m \<le> m_start m') ms"
    and "\<forall>m \<in> set ms. l \<le> m_start m \<and> m_start m \<le> m_end m"
    and "\<forall>m \<in> set ms. stop \<le> m_start m \<longrightarrow> stop \<le> bound m r \<and> bound m r \<le> r"
    and "l \<le> start" "start \<le> stop" "stop \<le> r" "narrow passes bound start stop ms (l, r) = (l', r')"
  shows "l \<le> l' \<and> l' \<le> start \<and> stop \<le> r' \<and> r' \<le> r"
  using assms
proof (induction ms arbitrary: l)
  case (Cons m ms)
  have later: "\<forall>k \<in> set ms. m_end m \<le> m_start k \<and> l \<le> m_start k" using Cons.prems(1,2) by simp
  show ?case
  proof (cases "\<not> passes m \<and> m_end m \<le> start")
    case True
    have "m_end m \<le> l' \<and> l' \<le> start \<and> stop \<le> r' \<and> r' \<le> r"
      by (rule Cons.IH) (use Cons.prems later True in auto)
    with Cons.prems(2) show ?thesis by auto
  next
    case False
    show ?thesis
    proof (cases "\<not> passes m \<and> stop \<le> m_start m")
      case True
      with False Cons.prems show ?thesis by auto
    next
      case pass: False
      show ?thesis by (rule Cons.IH) (use Cons.prems False pass in \<open>auto split: if_splits\<close>)
    qed
  qed
qed simp

text \<open>What stands between the citation and the bounds is no separator.\<close>

lemma narrow_separators:
  assumes "sorted_wrt (\<lambda>m m'. m_end m \<le> m_start m') ms"
    and "\<forall>m \<in> set ms. l \<le> m_start m \<and> m_start m \<le> m_end m" "start \<le> stop"
    and "narrow (\<lambda>_. False) (\<lambda>m r. min r (m_start m)) start stop ms (l, r) = (l', r')" "m \<in> set ms"
  shows "if m_end m \<le> start then m_end m \<le> l' else stop \<le> m_start m \<longrightarrow> r' \<le> m_start m"
  using assms
proof (induction ms arbitrary: l)
  case (Cons k ms)
  have later: "\<forall>m \<in> set ms. m_end k \<le> m_start m" using Cons.prems(1) by simp
  have sorted: "sorted_wrt (\<lambda>m m'. m_end m \<le> m_start m') ms" using Cons.prems(1) by simp
  have grow: "l \<le> fst (narrow (\<lambda>_. False) (\<lambda>m r. min r (m_start m)) start stop ms (l, r))"
    if "sorted_wrt (\<lambda>m m'. m_end m \<le> m_start m') ms" "\<forall>m \<in> set ms. l \<le> m_start m \<and> m_start m \<le> m_end m" for l ms
    using that
  proof (induction ms arbitrary: l)
    case (Cons m ms)
    have "m_end m \<le> fst (narrow (\<lambda>_. False) (\<lambda>m r. min r (m_start m)) start stop ms (m_end m, r))"
      by (rule Cons.IH) (use Cons.prems in auto)
    with Cons show ?case by (auto intro: order_trans)
  qed simp
  show ?case
  proof (cases "m_end k \<le> start")
    case True
    then have step: "narrow (\<lambda>_. False) (\<lambda>m r. min r (m_start m)) start stop ms (m_end k, r) = (l', r')"
      using Cons.prems(4) by simp
    have ok: "\<forall>m \<in> set ms. m_end k \<le> m_start m \<and> m_start m \<le> m_end m" using Cons.prems(2) later by simp
    from grow [OF sorted ok] step have "m_end k \<le> l'" by simp
    moreover have "if m_end m \<le> start then m_end m \<le> l' else stop \<le> m_start m \<longrightarrow> r' \<le> m_start m" if "m \<in> set ms"
      by (rule Cons.IH [OF sorted ok Cons.prems(3) step that])
    ultimately show ?thesis using Cons.prems(5) True by auto
  next
    case False
    show ?thesis
    proof (cases "stop \<le> m_start k")
      case True
      with False Cons.prems(4) have "r' \<le> m_start k" by auto
      with True False Cons.prems(2,3,5) later show ?thesis by fastforce
    next
      case mid: False
      with False Cons.prems(4) have step: "narrow (\<lambda>_. False) (\<lambda>m r. min r (m_start m)) start stop ms (l, r) = (l', r')"
        by simp
      have "if m_end m \<le> start then m_end m \<le> l' else stop \<le> m_start m \<longrightarrow> r' \<le> m_start m" if "m \<in> set ms"
        by (rule Cons.IH [OF sorted _ Cons.prems(3) step that]) (use Cons.prems(2) in simp)
      with mid False Cons.prems(5) show ?thesis by auto
    qed
  qed
qed simp

lemma class_first:
  "is_match U ic (Seq (Cls neg items) r) s m \<Longrightarrow> m_start m < m_end m"
proof -
  assume "is_match U ic (Seq (Cls neg items) r) s m"
  then have "(m_end m, m_caps m) \<in> set (rmatch (Seq (Cls neg items) r) U ic s (m_start m) [])" by (simp add: is_match_def)
  then have "m_start m < length s" "(m_end m, m_caps m) \<in> set (rmatch r U ic s (Suc (m_start m)) [])"
    by (auto split: if_splits)
  with rmatch_forward [OF _ this(2)] show ?thesis by simp
qed

lemma found_in:
  assumes "m \<in> set (re_finditer_in U ic r t a b)"
  shows "is_match U ic r (take b t) m \<and> a \<le> m_start m \<and> m_start m \<le> m_end m \<and> m_end m \<le> b"
  using finditer_in [OF assms [unfolded re_finditer_in_def]] by (auto simp: is_match_def)

lemma separators_nonempty:
  assumes "m \<in> set (re_finditer_in U ic r t a b)" "r \<in> {TERMINATOR, SEMICOLON}"
  shows "m_start m < m_end m"
proof -
  from assms(2) obtain items q where "r = Seq (Cls False items) q"
    by (auto simp: TERMINATOR_def SEMICOLON_def seqs_def chars_def)
  with found_in [OF assms(1)] show ?thesis using class_first by blast
qed

lemma sentence_end_bounds: "m_start m < m_end m \<Longrightarrow> m_start m < sentence_end t m r \<and> sentence_end t m r \<le> m_end m"
proof -
  assume m: "m_start m < m_end m"
  have "length (rstrip_blanks s) \<le> length s" for s
    using length_dropWhile_le [of _ "rev s"] by (simp add: rstrip_blanks_def)
  from this [of "tl (group0 t m)"] have "length (rstrip_blanks (tl (group0 t m))) \<le> m_end m - m_start m - 1"
    by (simp add: group0_def)
  with m show ?thesis by (simp add: sentence_end_def)
qed

text \<open>The bounds of a sentence once its paragraph is found.\<close>

lemma sentence_bounds:
  assumes "start \<le> stop" "fst bounds \<le> start" "stop \<le> snd bounds"
    and "sentence U A t start stop bounds spans rules = (l, r)"
  obtains a b c d where "a = max (fst bounds) (start - ru_window rules)" "b = min (snd bounds) (stop + ru_window rules)"
    "narrow (\<lambda>_. False) (\<lambda>m r. min r (m_start m)) start stop (re_finditer_in U False PARAGRAPH t a b) (a, b) = (c, d)"
    "a \<le> c" "c \<le> l" "l \<le> start" "stop \<le> r" "r \<le> d" "d \<le> b"
proof -
  define a where "a = max (fst bounds) (start - ru_window rules)"
  define b where "b = min (snd bounds) (stop + ru_window rules)"
  obtain c d where para: "narrow (\<lambda>_. False) (\<lambda>m r. min r (m_start m)) start stop
      (re_finditer_in U False PARAGRAPH t a b) (a, b) = (c, d)" by fastforce
  obtain e f where stops: "narrow (terminator_skipped A t spans) (sentence_end t) start stop
      (re_finditer_in U False TERMINATOR t c d) (c, d) = (e, f)" by fastforce
  have ab: "a \<le> start" "stop \<le> b" using assms(1-3) by (auto simp: a_def b_def)
  note ordered = finditer_ordered [where adv = False, folded re_finditer_in_def]
  have sorted: "sorted_wrt (\<lambda>m m'. m_end m \<le> m_start m') (re_finditer_in U ic r t i j)" for ic r i j
    unfolding re_finditer_in_def by (rule finditer_ordered)
  have cd: "a \<le> c \<and> c \<le> start \<and> stop \<le> d \<and> d \<le> b"
    by (rule narrow_bounds [OF sorted _ _ ab(1) assms(1) ab(2) para]) (use found_in ab in fastforce)+
  have ef: "c \<le> e \<and> e \<le> start \<and> stop \<le> f \<and> f \<le> d"
  proof (rule narrow_bounds [OF sorted _ _ _ assms(1) _ stops])
    show "\<forall>m \<in> set (re_finditer_in U False TERMINATOR t c d). stop \<le> m_start m \<longrightarrow>
        stop \<le> sentence_end t m d \<and> sentence_end t m d \<le> d"
      using found_in sentence_end_bounds [OF separators_nonempty] by (meson insertI1 le_trans less_imp_le_nat)
  qed (use found_in cd in auto)
  have lr: "(l, r) = (if ru_semicolon_boundary rules
      then narrow (\<lambda>m. in_citation spans (m_start m)) (\<lambda>m right. m_start m + 1) start stop
             (re_finditer_in U False SEMICOLON t e f) (e, f) else (e, f))"
    using assms(4) unfolding sentence_def Let_def a_def [symmetric] b_def [symmetric] fst_conv snd_conv para stops
    by (simp only:)
  have "e \<le> l \<and> l \<le> start \<and> stop \<le> r \<and> r \<le> f"
  proof (cases "ru_semicolon_boundary rules")
    case True
    show ?thesis
    proof (rule narrow_bounds [OF sorted _ _ _ assms(1)])
      show "narrow (\<lambda>m. in_citation spans (m_start m)) (\<lambda>m right. m_start m + 1) start stop
             (re_finditer_in U False SEMICOLON t e f) (e, f) = (l, r)" using lr True by simp
      show "\<forall>m \<in> set (re_finditer_in U False SEMICOLON t e f). stop \<le> m_start m \<longrightarrow>
          stop \<le> m_start m + 1 \<and> m_start m + 1 \<le> f"
        using found_in separators_nonempty by fastforce
    qed (use found_in ef in auto)
  qed (use lr ef in simp)
  with that [OF a_def b_def para] cd ef show thesis by (meson le_trans)
qed

section \<open>The names a pattern captures\<close>

primrec group_names :: "regex \<Rightarrow> string set" where
  "group_names Eps = {}"
| "group_names (Cls neg items) = {}"
| "group_names (Seq r q) = group_names r \<union> group_names q"
| "group_names (Alt r q) = group_names r \<union> group_names q"
| "group_names (Rep g lo hi r) = group_names r"
| "group_names (Many lo r) = group_names r"
| "group_names (Lazy lo r) = group_names r"
| "group_names (Look p r) = group_names r"
| "group_names (Behind p w r) = group_names r"
| "group_names WordB = {}"
| "group_names TextStart = {}"
| "group_names TextEnd = {}"
| "group_names LineEnd = {}"
| "group_names LineStart = {}"
| "group_names LineStop = {}"
| "group_names (CaseI r) = group_names r"
| "group_names (Group name r) = insert name (group_names r)"

lemma repeats_names:
  assumes f: "\<And>i c j d. (j, d) \<in> set (f i c) \<Longrightarrow> fst ` set d \<subseteq> N \<union> fst ` set c"
  shows "(j, d) \<in> set (repeats f g lo i c hi) \<Longrightarrow> fst ` set d \<subseteq> N \<union> fst ` set c"
proof (induction hi arbitrary: lo i c)
  case (Suc hi)
  from Suc.prems consider "d = c"
    | k e where "(k, e) \<in> set (f i c)" "(j, d) \<in> set (repeats f g (lo - 1) k e hi)"
    by (auto simp: Let_def split: if_splits)
  then show ?case
  proof cases
    case 2
    from Suc.IH [OF 2(2)] f [OF 2(1)] show ?thesis by blast
  qed simp
qed (simp split: if_splits)

lemma rmatch_names: "(j, d) \<in> set (rmatch r U ic s i c) \<Longrightarrow> fst ` set d \<subseteq> group_names r \<union> fst ` set c"
proof (induction r arbitrary: ic i c j d)
  case (Seq r q)
  from Seq.prems obtain k e where k: "(k, e) \<in> set (rmatch r U ic s i c)" "(j, d) \<in> set (rmatch q U ic s k e)" by auto
  from Seq.IH(1) [OF k(1)] Seq.IH(2) [OF k(2)] show ?case unfolding group_names.simps by blast
next
  case (Alt r q)
  from Alt.prems consider "(j, d) \<in> set (rmatch r U ic s i c)" | "(j, d) \<in> set (rmatch q U ic s i c)" by auto
  then show ?case
  proof cases
    case 1
    from Alt.IH(1) [OF 1] show ?thesis unfolding group_names.simps by blast
  next
    case 2
    from Alt.IH(2) [OF 2] show ?thesis unfolding group_names.simps by blast
  qed
next
  case (Rep g lo hi r)
  from repeats_names [where f = "rmatch r U ic s", OF Rep.IH] Rep.prems show ?case by simp
next
  case (Many lo r)
  from repeats_names [where f = "rmatch r U ic s", OF Many.IH] Many.prems show ?case by simp
next
  case (Lazy lo r)
  from repeats_names [where f = "rmatch r U ic s", OF Lazy.IH] Lazy.prems show ?case by simp
next
  case (Look p r)
  show ?case
  proof (cases "rmatch r U ic s i c")
    case Nil
    with Look.prems show ?thesis by (auto split: if_splits)
  next
    case (Cons x rest)
    obtain k e where x: "x = (k, e)" by fastforce
    with Cons have "(k, e) \<in> set (rmatch r U ic s i c)" by simp
    from Look.IH [OF this] Look.prems Cons x show ?thesis by (auto split: if_splits)
  qed
next
  case (Group name r)
  from Group.prems obtain e where e: "(j, e) \<in> set (rmatch r U ic s i c)" "d = (name, i, j) # e" by auto
  from Group.IH [OF e(1)] e(2) show ?case by auto
qed (auto split: if_splits)

lemma group_names_builders [simp]:
  "group_names (lit s) = {}" "group_names (seqs []) = {}" "group_names (seqs (r # rs)) = group_names r \<union> group_names (seqs rs)"
  "group_names (optional r) = group_names r"
proof -
  have "group_names (rx_chars s) = {}" for s by (induction s) (simp_all add: rx_chars_def)
  then show "group_names (lit s) = {}" by (simp add: lit_def)
qed (simp_all add: seqs_def optional_def)

lemma named_verb_names: "group_names (named_verb name r) = insert name (group_names r)"
  by (simp add: named_verb_def)

lemma verb_names: "group_names (verbs_of rules) \<subseteq> set TREATMENT_SIGNALS"
  by (simp add: verbs_of_def VERBS_def HYPHENATED_VERBS_def named_verb_names TREATMENT_SIGNALS_def)

lemma occurrence_verb:
  assumes "x \<in> set (occurrences U fragment rules)"
  shows "oc_signal x \<in> set TREATMENT_SIGNALS \<and> oc_start x \<le> oc_end x \<and> oc_end x \<le> length fragment"
proof -
  from assms obtain m rest a b where m: "m \<in> set (re_finditer U True (verbs_of rules) fragment)"
    "m_caps m = (oc_signal x, a, b) # rest" "oc_start x = m_start m" "oc_end x = m_end m"
    unfolding occurrences_def occurrence_of_def by (auto split: if_splits list.splits dest: sym)
  from re_finditer_inD [OF m(1)] have "is_match U True (verbs_of rules) fragment m" by blast
  with m(2-4) rmatch_names [of "m_end m" "m_caps m"] verb_names [of rules] show ?thesis
    by (fastforce simp: is_match_def)
qed

lemma occurrences_Nil: "occurrences U [] rules = []"
proof -
  have "rmatch (verbs_of rules) U True [] 0 [] = []"
    by (simp add: verbs_of_def VERBS_def HYPHENATED_VERBS_def named_verb_def seqs_def at_word_boundary_def word_at_def)
  then show ?thesis by (simp add: occurrences_def re_finditer_def finditer.simps search_from_def)
qed

section \<open>Signals are grounded\<close>

text \<open>What a signal row says of its citation and of the sentence around it.\<close>

lemma signal_row_fields:
  assumes "signal_row sha V citing doc_id by_id row first x = Inr r"
  shows "sg_citation_id r = ci_citation_id row \<and> sg_treatment_signal r = oc_signal x \<and>
    sg_char_start r = first + oc_start x \<and> sg_char_end r = first + oc_end x \<and>
    effective_section row by_id = Inr (sg_effective_section r) \<and>
    (sg_state r, sg_no_state_reason r) = standing_of V citing row (sg_effective_section r) (oc_signal x)"
  using assms by (auto simp: signal_row_def bind_result_Inr_iff map_result_Inr_iff)

lemma standing_cases:
  "(fst (standing_of V citing row standing signal) = None) = (snd (standing_of V citing row standing signal) \<noteq> None)"
  "fst (standing_of V citing row standing signal) = Some ''negative'' \<longleftrightarrow>
     one_of standing HOLDING_SECTIONS \<and> signal \<notin> set LINEAGE_SIGNALS \<and>
     (case cited_place V row of None \<Rightarrow> False | Some cited \<Rightarrow> binds citing cited)"
  by (auto simp: standing_of_def split: option.splits)

lemma eligible_within:
  assumes "first_eligible U rules t case_rows i bounds = Some x"
  shows "oc_signal x \<in> set TREATMENT_SIGNALS \<and> oc_start x \<le> oc_end x \<and> fst bounds + oc_end x \<le> snd bounds"
proof -
  let ?fragment = "substr t (fst bounds) (snd bounds)"
  from assms have x: "x \<in> set (occurrences U ?fragment rules)"
    by (auto simp: first_eligible_def Let_def find_Some_iff)
  then have "?fragment \<noteq> []" using occurrences_Nil by force
  then have "fst bounds + length ?fragment \<le> snd bounds" by (auto simp: substr_def)
  with occurrence_verb [OF x] show ?thesis by linarith
qed

lemma row_signals_cases:
  assumes "row_signals U sha G doc_id t by_id rows case_rows i = Inr rs"
  obtains bounds where "row_sentence U G t by_id rows (case_rows ! i) = Some bounds"
    "case first_eligible U (tg_rules G) t case_rows i bounds of
       None \<Rightarrow> rs = []
     | Some x \<Rightarrow> \<exists>r. rs = [r] \<and>
         signal_row sha (tg_courts G) (tg_citing G) doc_id by_id (case_rows ! i) (fst bounds) x = Inr r"
  using assms by (auto simp: row_signals_def map_result_Inr_iff split: option.splits)

lemma map_Inr_list_all2: "map f xs = map Inr ys \<Longrightarrow> list_all2 (\<lambda>x y. f x = Inr y) xs ys"
  by (induction xs arbitrary: ys) (auto simp: Cons_eq_map_conv)

lemma concat_chosen:
  assumes "list_all2 (\<lambda>i ys. if P i then \<exists>y. ys = [y] \<and> Q i y else ys = []) xs yss"
  shows "list_all2 Q (filter P xs) (concat yss)"
  using assms by (induction rule: list_all2_induct) (auto split: if_splits)

text \<open>The sentence taken for a citation that lies in its section holds the citation, stays in the section and
  within the window on both sides, and no paragraph break of that stretch stands between the citation and its
  bounds.\<close>

theorem sentence_holds_citation:
  assumes "start \<le> stop" "fst bounds \<le> start" "stop \<le> snd bounds"
  shows "case sentence U A t start stop bounds spans rules of (l, r) \<Rightarrow>
    fst bounds \<le> l \<and> l \<le> start \<and> stop \<le> r \<and> r \<le> snd bounds \<and>
    start \<le> l + ru_window rules \<and> r \<le> stop + ru_window rules \<and>
    list_all (\<lambda>m. m_end m \<le> l \<or> r \<le> m_start m \<or> start < m_end m \<and> m_start m < stop)
      (re_finditer_in U False PARAGRAPH t (max (fst bounds) (start - ru_window rules))
        (min (snd bounds) (stop + ru_window rules)))"
proof -
  obtain l r where lr: "sentence U A t start stop bounds spans rules = (l, r)" by fastforce
  from sentence_bounds [OF assms lr] obtain a b c d where ab: "a = max (fst bounds) (start - ru_window rules)"
    "b = min (snd bounds) (stop + ru_window rules)"
    and para: "narrow (\<lambda>_. False) (\<lambda>m r. min r (m_start m)) start stop (re_finditer_in U False PARAGRAPH t a b) (a, b) = (c, d)"
    and order: "a \<le> c" "c \<le> l" "l \<le> start" "stop \<le> r" "r \<le> d" "d \<le> b" .
  have "m_end m \<le> l \<or> r \<le> m_start m \<or> start < m_end m \<and> m_start m < stop"
    if m: "m \<in> set (re_finditer_in U False PARAGRAPH t a b)" for m
  proof -
    have "if m_end m \<le> start then m_end m \<le> c else stop \<le> m_start m \<longrightarrow> d \<le> m_start m"
      by (rule narrow_separators [OF _ _ assms(1) para m])
        (use finditer_ordered in \<open>auto simp: re_finditer_in_def\<close>, (metis found_in re_finditer_in_def)+)
    with order show ?thesis by (auto split: if_splits)
  qed
  with order ab show ?thesis unfolding lr by (auto simp: list_all_iff)
qed

text \<open>C30: exactly the case citations with an eligible verb in their sentence get a signal, in the order of the
  citations; the signal lies in the sentence, is of the vocabulary, has a state or a reason but not both, and is
  negative only where the section states a holding, the verb is not one of lineage and the citing court binds.\<close>

theorem signals_grounded:
  assumes "signals U sha G doc_id t sections rows = Inr out"
  shows "let case_rows = case_rows_of rows;
      bounds = (\<lambda>i. the (row_sentence U G t (by_section_id sections) rows (case_rows ! i)))
    in list_all2 (\<lambda>i r. sg_citation_id r = ci_citation_id (case_rows ! i) \<and>
          sg_treatment_signal r \<in> set TREATMENT_SIGNALS \<and>
          fst (bounds i) \<le> sg_char_start r \<and> sg_char_start r \<le> sg_char_end r \<and> sg_char_end r \<le> snd (bounds i) \<and>
          (sg_state r = None) = (sg_no_state_reason r \<noteq> None) \<and>
          (sg_state r = Some ''negative'') = (one_of (sg_effective_section r) HOLDING_SECTIONS \<and>
             sg_treatment_signal r \<notin> set LINEAGE_SIGNALS \<and>
             (case cited_place (tg_courts G) (case_rows ! i) of None \<Rightarrow> False | Some cited \<Rightarrow> binds (tg_citing G) cited)))
        (filter (\<lambda>i. first_eligible U (tg_rules G) t case_rows i (bounds i) \<noteq> None) [0..<length case_rows]) out"
proof -
  define case_rows where "case_rows = case_rows_of rows"
  define by_id where "by_id = by_section_id sections"
  define bounds where "bounds = (\<lambda>i. the (row_sentence U G t by_id rows (case_rows ! i)))"
  define ok where "ok = (\<lambda>i (r :: new_signal). sg_citation_id r = ci_citation_id (case_rows ! i) \<and>
          sg_treatment_signal r \<in> set TREATMENT_SIGNALS \<and>
          fst (bounds i) \<le> sg_char_start r \<and> sg_char_start r \<le> sg_char_end r \<and> sg_char_end r \<le> snd (bounds i) \<and>
          (sg_state r = None) = (sg_no_state_reason r \<noteq> None) \<and>
          (sg_state r = Some ''negative'') = (one_of (sg_effective_section r) HOLDING_SECTIONS \<and>
             sg_treatment_signal r \<notin> set LINEAGE_SIGNALS \<and>
             (case cited_place (tg_courts G) (case_rows ! i) of None \<Rightarrow> False | Some cited \<Rightarrow> binds (tg_citing G) cited)))"
  from assms obtain rss where rss: "map (row_signals U sha G doc_id t by_id rows case_rows) [0..<length case_rows] = map Inr rss"
    "out = concat rss"
    by (auto simp: signals_def Let_def map_result_Inr_iff collect_results_Inr_iff case_rows_def by_id_def)
  have "if first_eligible U (tg_rules G) t case_rows i (bounds i) \<noteq> None then \<exists>r. rs = [r] \<and> ok i r else rs = []"
    if one: "row_signals U sha G doc_id t by_id rows case_rows i = Inr rs" for i rs
  proof -
    from row_signals_cases [OF one] obtain b where b: "row_sentence U G t by_id rows (case_rows ! i) = Some b"
      "case first_eligible U (tg_rules G) t case_rows i b of
         None \<Rightarrow> rs = []
       | Some x \<Rightarrow> \<exists>r. rs = [r] \<and>
           signal_row sha (tg_courts G) (tg_citing G) doc_id by_id (case_rows ! i) (fst b) x = Inr r" .
    from b(1) have "bounds i = b" by (simp add: bounds_def)
    moreover have "ok i r" if "first_eligible U (tg_rules G) t case_rows i b = Some x"
      "signal_row sha (tg_courts G) (tg_citing G) doc_id by_id (case_rows ! i) (fst b) x = Inr r" for x r
      using signal_row_fields [OF that(2)] eligible_within [OF that(1)]
        standing_cases [of "tg_courts G" "tg_citing G" "case_rows ! i" "sg_effective_section r" "oc_signal x"] \<open>bounds i = b\<close>
      unfolding ok_def by (metis fst_conv snd_conv le_add1 nat_add_left_cancel_le)
    ultimately show ?thesis using b(2) by (auto split: option.splits)
  qed
  moreover have "list_all2 (\<lambda>i rs. row_signals U sha G doc_id t by_id rows case_rows i = Inr rs) [0..<length case_rows] rss"
    using rss(1) by (rule map_Inr_list_all2)
  ultimately have "list_all2 (\<lambda>i rs. if first_eligible U (tg_rules G) t case_rows i (bounds i) \<noteq> None
      then \<exists>r. rs = [r] \<and> ok i r else rs = []) [0..<length case_rows] rss"
    by (rule list_all2_mono [rotated])
  from concat_chosen [OF this] show ?thesis
    unfolding rss(2) ok_def case_rows_def by_id_def bounds_def Let_def .
qed

text \<open>The witnesses read one sentence of a majority opinion that overrules a case of a district court.\<close>

definition small_letters :: letters where
  "small_letters = \<lparr>lt_alpha = (\<lambda>c. 65 \<le> c \<and> c \<le> 90 \<or> 97 \<le> c \<and> c \<le> 122), lt_upper = (\<lambda>c. 65 \<le> c \<and> c \<le> 90)\<rparr>"

definition small_text :: ustr where
  "small_text = ulit ''We overruled 1 F. 2.''"

definition small_citation :: new_citation where
  "small_citation = \<lparr>ci_citation_id = ulit ''c'', ci_doc_id = ulit ''d'', ci_ordinal = 0, ci_char_start = 13, ci_char_end = 19,
     ci_section_id = ulit ''s'', ci_section_type = ulit ''majority'', ci_cite_type = ulit ''case_cite'',
     ci_cite_form = ulit ''full'', ci_raw_cite = ulit ''1 F. 2'', ci_reporter_cite = None, ci_pincite = None, ci_key = None,
     ci_to_cluster = Some 7, ci_pattern_id = ulit EDGE_PATTERN_ID\<rparr>"

definition small_treating :: treating where
  "small_treating = \<lparr>tg_rules = RULES, tg_letters = small_letters,
     tg_courts = \<lparr>co_cluster_court = (\<lambda>k. if k = 7 then Some (ulit ''court'') else None),
       co_geography_of = (\<lambda>_. Some \<lparr>ge_level = ulit ''district'', ge_circuit = Some (ulit ''ca5''), ge_state = None\<rparr>)\<rparr>,
     tg_citing = \<lparr>ge_level = ulit ''circuit'', ge_circuit = Some (ulit ''ca5''), ge_state = None\<rparr>\<rparr>"

definition small_majority :: "treatment_section list" where
  "small_majority = [\<lparr>sec_id = ulit ''s'', sec_type = ulit ''majority'', sec_start = 0, sec_end = 20, ts_parent_section_id = None\<rparr>]"

definition small_signal :: new_signal where
  "small_signal = \<lparr>sg_signal_id = [], sg_citation_id = ulit ''c'', sg_doc_id = ulit ''d'', sg_signal_source = ''pattern'',
     sg_pattern_set = PATTERN_SET_ID, sg_treatment_signal = ''overruled'', sg_qualifier = ulit ''none'',
     sg_effective_section = ulit ''majority'', sg_state = Some ''negative'', sg_no_state_reason = None,
     sg_char_start = 3, sg_char_end = 12\<rparr>"

lemma small_signals:
  "signals ascii_ucd (\<lambda>_. []) small_treating (ulit ''d'') small_text small_majority [small_citation] = Inr [small_signal]"
  by code_simp

theorem sentence_holds_citation_witness:
  "case sentence ascii_ucd small_letters small_text 13 19 (0, 20) [(13, 19)] RULES of (l, r) \<Rightarrow> l \<le> 13 \<and> 19 \<le> r"
  using sentence_holds_citation [where start = 13 and stop = 19 and bounds = "(0, 20)" and U = ascii_ucd
      and A = small_letters and t = small_text and spans = "[(13, 19)]" and rules = RULES]
  by (auto split: prod.splits)

theorem signals_grounded_witness:
  "let bounds = the (row_sentence ascii_ucd small_treating small_text (by_section_id small_majority) [small_citation]
       small_citation)
   in fst bounds \<le> sg_char_start small_signal \<and> sg_char_end small_signal \<le> snd bounds"
proof -
  have "case_rows_of [small_citation] = [small_citation]" by (simp add: case_rows_of_def small_citation_def)
  with signals_grounded [OF small_signals] show ?thesis
    by (auto simp: Let_def list_all2_Cons2 split: if_splits)
qed

end
