(* ===== verification/Worker_Document.thy ===== *)
theory Worker_Document
  imports Worker_Segment Worker_Anchors Worker_Opinion Worker_Treatment
begin

text \<open>
  The pass over one opinion of \<open>gideon/worker/caselaw.py\<close>: its source read, segmented, anchored, cited and
  chunked into the rows the record takes. Reading citations and objects, the token counter, the hash and the order
  in which a set is iterated are parameters.
\<close>

section \<open>Rows\<close>

record new_section =
  ns_section_id :: ustr
  ns_doc_id :: ustr
  ns_ordinal :: nat
  ns_section_type :: string
  ns_typed_by :: string
  ns_char_start :: nat
  ns_char_end :: nat
  ns_label :: "ustr option"
  ns_ref_offset :: "nat option"
  ns_parent_section_id :: "ustr option"

record new_anchor =
  na_anchor_id :: ustr
  na_doc_id :: ustr
  na_kind :: string
  na_label :: ustr
  na_char_start :: nat
  na_char_end :: nat
  na_attrs :: attrs

definition joined :: "ustr list \<Rightarrow> ustr" where
  "joined parts = join_with [10] parts"

definition section_id_of :: "(bytes \<Rightarrow> ustr) \<Rightarrow> ustr \<Rightarrow> ustr \<Rightarrow> nat \<Rightarrow> nat \<Rightarrow> ustr result" where
  "section_id_of sha doc_id pipeline start stop =
     map_result sha (utf8_encode (joined [doc_id, pipeline, decimal start, decimal stop]))"

definition anchor_id_of :: "(bytes \<Rightarrow> ustr) \<Rightarrow> ustr \<Rightarrow> ustr \<Rightarrow> string \<Rightarrow> ustr \<Rightarrow> nat \<Rightarrow> nat \<Rightarrow> ustr result" where
  "anchor_id_of sha doc_id pipeline kind scheme start stop =
     map_result sha (utf8_encode (joined [doc_id, pipeline, ulit kind, scheme, decimal start, decimal stop]))"

definition section_row :: "ustr \<Rightarrow> ustr list \<Rightarrow> nat \<times> text_section \<Rightarrow> new_section" where
  "section_row doc_id ids x =
     (case x of (ordinal, s) \<Rightarrow>
       \<lparr>ns_section_id = ids ! ordinal, ns_doc_id = doc_id, ns_ordinal = ordinal,
        ns_section_type = sc_section_type s, ns_typed_by = sc_typed_by s, ns_char_start = sc_char_start s,
        ns_char_end = sc_char_end s, ns_label = sc_label s, ns_ref_offset = sc_ref_offset s,
        ns_parent_section_id = map_option ((!) ids) (sc_parent s)\<rparr>)"

text \<open>Any failure of a stage is filed under the stage's name.\<close>

definition filed :: "string \<Rightarrow> 'a result \<Rightarrow> 'a result" where
  "filed class r = (case r of Inl e \<Rightarrow> Inl class | Inr x \<Rightarrow> Inr x)"

definition section_rows ::
    "(bytes \<Rightarrow> ustr) \<Rightarrow> ustr \<Rightarrow> ustr \<Rightarrow> text_section list result \<Rightarrow> (new_section list \<times> text_section list) result" where
  "section_rows sha doc_id pipeline segmented =
     filed ''segmenter''
       (bind_result segmented (\<lambda>secs.
        bind_result (collect_results (map (\<lambda>s. section_id_of sha doc_id pipeline (sc_char_start s) (sc_char_end s)) secs))
          (\<lambda>ids. if list_ex (\<lambda>s. case sc_parent s of None \<Rightarrow> False | Some p \<Rightarrow> length ids \<le> p) secs then Inl ''IndexError''
                  else Inr (map (section_row doc_id ids) (enumerate 0 secs), secs))))"

definition anchor_row :: "(bytes \<Rightarrow> ustr) \<Rightarrow> ustr \<Rightarrow> ustr \<Rightarrow> text_anchor \<Rightarrow> new_anchor result" where
  "anchor_row sha doc_id pipeline a =
     map_result (\<lambda>k. \<lparr>na_anchor_id = k, na_doc_id = doc_id, na_kind = an_kind a, na_label = an_label a,
        na_char_start = an_char_start a, na_char_end = an_char_end a, na_attrs = an_attrs a\<rparr>)
       (anchor_id_of sha doc_id pipeline (an_kind a) (row_scheme a) (an_char_start a) (an_char_end a))"

definition anchor_rows ::
    "ucd \<Rightarrow> (bytes \<Rightarrow> ustr) \<Rightarrow> ustr \<Rightarrow> ustr \<Rightarrow> parsed \<Rightarrow> text_section list \<Rightarrow> (new_anchor list \<times> nat \<times> nat) result" where
  "anchor_rows U sha doc_id pipeline P secs =
     filed ''anchors''
       (bind_result (anchor U P secs) (\<lambda>a.
          map_result (\<lambda>rows. (rows, ag_pgmap_checked a, ag_pgmap_disagreeing a))
            (collect_results (map (anchor_row sha doc_id pipeline) (ag_anchors a)))))"

definition row_span_of :: "new_section \<Rightarrow> section_span" where
  "row_span_of r = \<lparr>sec_id = ns_section_id r, sec_type = ulit (ns_section_type r), sec_start = ns_char_start r,
     sec_end = ns_char_end r\<rparr>"

definition row_section :: "new_section \<Rightarrow> treatment_section" where
  "row_section r = \<lparr>sec_id = ns_section_id r, sec_type = ulit (ns_section_type r), sec_start = ns_char_start r,
     sec_end = ns_char_end r, ts_parent_section_id = ns_parent_section_id r\<rparr>"

text \<open>What a pass is given besides the text: its pipeline, the readers of citations and objects, the courts of the
  treatment signals, the token counter and the hash.\<close>

record document_pass =
  dp_order :: "nat set \<Rightarrow> nat list"
  dp_ucd :: ucd
  dp_sha :: "bytes \<Rightarrow> ustr"
  dp_find :: "ustr \<Rightarrow> found_citation list result"
  dp_extract :: "ustr \<Rightarrow> exact_object list"
  dp_resolve :: resolver
  dp_punctuation :: "codepoint \<Rightarrow> bool"
  dp_treating :: treating
  dp_tokens :: "ustr \<Rightarrow> nat"
  dp_pipeline :: pipeline

abbreviation dp_version :: "document_pass \<Rightarrow> ustr" where
  "dp_version D \<equiv> pl_version (dp_pipeline D)"

definition citation_rows :: "document_pass \<Rightarrow> ustr \<Rightarrow> ustr \<Rightarrow> new_section list \<Rightarrow> new_citation list result" where
  "citation_rows D doc_id t rows =
     filed ''citations''
       (bind_result (dp_find D t) (\<lambda>found.
          edges (dp_ucd D) (dp_punctuation D) (dp_sha D) (dp_resolve D) doc_id (dp_version D) t (map row_span_of rows)
            found (dp_extract D t)))"

definition signal_rows ::
    "document_pass \<Rightarrow> ustr \<Rightarrow> ustr \<Rightarrow> new_section list \<Rightarrow> new_citation list \<Rightarrow> new_signal list result" where
  "signal_rows D doc_id t rows cites =
     filed ''treatment'' (signals (dp_ucd D) (dp_sha D) (dp_treating D) doc_id t (map row_section rows) cites)"

definition chunk_rows ::
    "document_pass \<Rightarrow> ustr \<Rightarrow> ustr \<Rightarrow> new_section list \<Rightarrow> new_citation list \<Rightarrow> new_chunk list result option" where
  "chunk_rows D doc_id t rows cites =
     map_option (filed ''chunker'')
       (chunk (dp_ucd D) (dp_sha D) doc_id (dp_pipeline D) t (map row_span_of rows) (spans_of cites) (dp_tokens D))"

section \<open>The whole walk of a text\<close>

record walk_rows =
  wk_sections :: "new_section list"
  wk_anchors :: "new_anchor list"
  wk_checked :: nat
  wk_disagreeing :: nat
  wk_citations :: "new_citation list"
  wk_signals :: "new_signal list"
  wk_chunks :: "new_chunk list"

text \<open>Sections, anchors, citations, signals and chunks in turn; \<open>None\<close> where chunking does not return.\<close>

definition whole_walk ::
    "document_pass \<Rightarrow> ustr \<Rightarrow> ustr \<Rightarrow> bool \<Rightarrow> string \<Rightarrow> parsed \<Rightarrow> walk_rows result option" where
  "whole_walk D doc_id opinion_type per_curiam column T =
     (let t = pd_text T
      in case section_rows (dp_sha D) doc_id (dp_version D)
           (segment (dp_order D) (dp_ucd D) T (Some opinion_type) per_curiam (ulit column)) of
        Inl e \<Rightarrow> Some (Inl e)
      | Inr (rows, secs) \<Rightarrow>
          (case anchor_rows (dp_ucd D) (dp_sha D) doc_id (dp_version D) T secs of
             Inl e \<Rightarrow> Some (Inl e)
           | Inr (anchors, checked, disagreeing) \<Rightarrow>
               (case citation_rows D doc_id t rows of
                  Inl e \<Rightarrow> Some (Inl e)
                | Inr cites \<Rightarrow>
                    (case signal_rows D doc_id t rows cites of
                       Inl e \<Rightarrow> Some (Inl e)
                     | Inr sigs \<Rightarrow>
                         map_option (map_result (\<lambda>chunks. \<lparr>wk_sections = rows, wk_anchors = anchors, wk_checked = checked,
                             wk_disagreeing = disagreeing, wk_citations = cites, wk_signals = sigs, wk_chunks = chunks\<rparr>))
                           (chunk_rows D doc_id t rows cites)))))"

section \<open>Sections that tile the text\<close>

lemma list_all_substr_split:
  "a \<le> b \<Longrightarrow> b \<le> c \<Longrightarrow> list_all p (substr t a b) \<Longrightarrow> list_all p (substr t b c) \<Longrightarrow> list_all p (substr t a c)"
  using substr_append [of a b c t] by (metis list_all_append)

text \<open>A span without paragraphs is blank.\<close>

lemma paragraphs_from_blank:
  "uc_space U 10 \<Longrightarrow> paragraphs_from U t position stop = [] \<Longrightarrow> list_all (uc_space U) (substr t position stop)"
proof (induction U t position stop rule: paragraphs_from.induct)
  case (1 U t position stop)
  show ?case
  proof (cases "position < stop")
    case True
    define pe where "pe = (case find_sub [10, 10] (substr t position stop) of None \<Rightarrow> stop | Some k \<Rightarrow> position + k)"
    have ps: "paragraphs_from U t position stop =
      (let part = substr t position pe; line = strip_by (uc_space U) part;
           first = position + length (takeWhile (uc_space U) part); rest = paragraphs_from U t (pe + 2) stop
       in if line = [] then rest else \<lparr>par_start = first, par_end = pe, par_line = line\<rparr> # rest)"
      using True by (subst paragraphs_from.simps) (simp add: pe_def Let_def)
    with "1.prems"(2) have part: "list_all (uc_space U) (substr t position pe)"
      and rest: "paragraphs_from U t (pe + 2) stop = []"
      by (simp_all add: Let_def strip_by_Nil_iff split: if_splits)
    have later: "list_all (uc_space U) (substr t (pe + 2) stop)"
      using "1.IH" [OF True pe_def refl refl refl "1.prems"(1) rest] .
    show ?thesis
    proof (cases "find_sub [10, 10] (substr t position stop)")
      case None
      with part show ?thesis by (simp add: pe_def)
    next
      case (Some k)
      from find_sub_Some [OF Some] have k: "k + 2 \<le> min stop (length t) - position"
        "take 2 (drop k (substr t position stop)) = [10, 10]" by (simp_all add: numeral_2_eq_2)
      have pe: "pe = position + k" using Some by (simp add: pe_def)
      have bounds: "pe + 2 \<le> stop" using k(1) True pe by simp
      have "substr t pe (pe + 2) = [10, 10]"
      proof -
        have "drop k (substr t position stop) = substr t pe stop" by (simp add: substr_def pe add.commute)
        with k(2) have "take 2 (substr t pe stop) = [10, 10]" by simp
        moreover have "take 2 (substr t pe stop) = substr t pe (pe + 2)"
          using bounds by (simp add: substr_def take_drop min_def)
        ultimately show ?thesis by simp
      qed
      with "1.prems"(1) have "list_all (uc_space U) (substr t pe (pe + 2))" by simp
      from list_all_substr_split [OF _ _ this later] bounds have "list_all (uc_space U) (substr t pe stop)" by simp
      from list_all_substr_split [OF _ _ part this] bounds pe show ?thesis by simp
    qed
  qed (simp add: substr_def)
qed

lemma filter_blank: "list_all p xs \<Longrightarrow> filter (\<lambda>c. \<not> p c) xs = []"
  by (simp add: list_all_iff)

text \<open>The interface between the segmenter and what works on its sections.\<close>

locale tiling_sections =
  fixes sections_of :: "parsed \<Rightarrow> text_section list result" and lawful :: bool
  assumes tiled: "lawful \<Longrightarrow> \<exists>secs. sections_of T = Inr secs \<and> tiles (map sc_bounds secs) 0 (length (pd_text T))"
begin

lemma sections_tiled: "lawful \<Longrightarrow> sections_of T = Inr secs \<Longrightarrow> tiles (map sc_bounds secs) 0 (length (pd_text T))"
  using tiled [of T] by auto

lemma anchored:
  assumes "lawful" "sections_of T = Inr secs" "sorted (map mk_offset (page_markers T))"
  obtains a where "anchor U T secs = Inr a"
  using anchor_ok [OF sections_tiled [OF assms(1,2)] assms(3), of U] by blast

lemma chunked_text:
  assumes "lawful" "sections_of T = Inr secs" "uc_space U 10"
    and bounds: "map (\<lambda>s. (sec_start s, sec_end s)) spans = map sc_bounds secs"
    and "chunk U sha doc_id P (pd_text T) spans cites tokens = Some (Inr rows)"
  shows "filter (\<lambda>c. \<not> uc_space U c) (concat (map (\<lambda>r. substr (pd_text T) (ck_char_start r) (ck_char_end r)) rows)) =
    filter (\<lambda>c. \<not> uc_space U c) (pd_text T)"
proof -
  let ?t = "pd_text T" and ?ink = "filter (\<lambda>c. \<not> uc_space U c)"
  let ?text = "\<lambda>r. substr ?t (ck_char_start r) (ck_char_end r)"
  from chunk_sections [OF assms(5)] obtain rss where rss: "rows = concat rss"
    "list_all2 (section_chunked U ?t tokens (pl_chunk_maximum P) cites) spans rss" by blast
  have one: "?ink (concat (map ?text rs)) = ?ink (substr ?t (sec_start sec) (sec_end sec))"
    if "section_chunked U ?t tokens (pl_chunk_maximum P) cites sec rs" for sec rs
  proof (cases "paragraphs U ?t (sec_start sec) (sec_end sec) = []")
    case True
    with that have "rs = []" by (simp add: section_chunked_def)
    moreover from True paragraphs_from_blank [OF assms(3)] have
      "list_all (uc_space U) (substr ?t (sec_start sec) (sec_end sec))" by (simp add: paragraphs_def)
    ultimately show ?thesis using filter_blank [of "uc_space U"] by simp
  next
    case False
    with that have "tiles (map row_span rs) (sec_start sec) (sec_end sec)"
      by (auto simp: section_chunked_def parts_ok_def)
    from tiles_text [OF this, of ?t] show ?thesis by (simp add: row_span_def comp_def)
  qed
  have "?ink (concat (map ?text (concat rss))) = ?ink (concat (map (\<lambda>s. substr ?t (sec_start s) (sec_end s)) spans))"
    using rss(2) by (induction rule: list_all2_induct) (simp_all add: one)
  also have "concat (map (\<lambda>s. substr ?t (sec_start s) (sec_end s)) spans) =
      concat (map (\<lambda>x. substr ?t (fst x) (snd x)) (map (\<lambda>s. (sec_start s, sec_end s)) spans))"
    by (simp add: comp_def)
  also have "\<dots> = ?t" using tiles_text [OF sections_tiled [OF assms(1,2)], of ?t] unfolding bounds by simp
  finally show ?thesis using rss(1) by simp
qed

end

lemma segment_tiled:
  "iterates order \<Longrightarrow> \<exists>secs. segment order U T opinion_type per_curiam column = Inr secs \<and>
     tiles (map sc_bounds secs) 0 (length (pd_text T))"
  using segment_tiles [of order U T] by blast

interpretation segmented: tiling_sections "\<lambda>T. segment order U T opinion_type per_curiam column" "iterates order"
  for order U opinion_type per_curiam column
  by unfold_locales (rule segment_tiled)

section \<open>The rows of a walk\<close>

lemma filed_Inr_iff [simp]: "filed class r = Inr x \<longleftrightarrow> r = Inr x"
  by (simp add: filed_def split: sum.splits)

lemma filed_Inl_iff [simp]: "filed class r = Inl e \<longleftrightarrow> e = class \<and> (\<exists>d. r = Inl d)"
  by (auto simp: filed_def split: sum.splits)

lemma section_row_select [simp]:
  "ns_char_start (section_row doc_id ids (n, s)) = sc_char_start s" "ns_char_end (section_row doc_id ids (n, s)) = sc_char_end s"
  "ns_ordinal (section_row doc_id ids (n, s)) = n" "ns_section_id (section_row doc_id ids (n, s)) = ids ! n"
  "ns_parent_section_id (section_row doc_id ids (n, s)) = map_option ((!) ids) (sc_parent s)"
  by (simp_all add: section_row_def)

lemma section_rows_Inr:
  assumes "section_rows sha doc_id pipeline segmented = Inr (rows, secs)"
  obtains ids where "segmented = Inr secs" "rows = map (section_row doc_id ids) (enumerate 0 secs)" "length ids = length secs"
    "\<forall>s \<in> set secs. case sc_parent s of None \<Rightarrow> True | Some p \<Rightarrow> p < length ids"
proof -
  from assms obtain ids where ids: "segmented = Inr secs" "rows = map (section_row doc_id ids) (enumerate 0 secs)"
    "map (\<lambda>s. section_id_of sha doc_id pipeline (sc_char_start s) (sc_char_end s)) secs = map Inr ids"
    "\<not> list_ex (\<lambda>s. case sc_parent s of None \<Rightarrow> False | Some p \<Rightarrow> length ids \<le> p) secs"
    by (auto simp: section_rows_def bind_result_Inr_iff collect_results_Inr_iff split: if_splits)
  moreover from ids(3) have "length ids = length secs" using map_eq_imp_length_eq by force
  moreover have "\<forall>s \<in> set secs. case sc_parent s of None \<Rightarrow> True | Some p \<Rightarrow> p < length ids"
    using ids(4) by (auto simp: list_ex_iff split: option.splits)
  ultimately show thesis using that by blast
qed

lemma section_rows_bounds:
  "map (\<lambda>r. (ns_char_start r, ns_char_end r)) (map (section_row doc_id ids) (enumerate n secs)) = map sc_bounds secs"
  by (induction secs arbitrary: n) (simp_all add: sc_bounds_def)

text \<open>The stages of a walk that returned its rows.\<close>

lemma whole_walk_Inr:
  assumes "whole_walk D doc_id ty pc column T = Some (Inr W)"
  obtains secs where
    "section_rows (dp_sha D) doc_id (dp_version D)
       (segment (dp_order D) (dp_ucd D) T (Some ty) pc (ulit column)) = Inr (wk_sections W, secs)"
    "citation_rows D doc_id (pd_text T) (wk_sections W) = Inr (wk_citations W)"
    "signal_rows D doc_id (pd_text T) (wk_sections W) (wk_citations W) = Inr (wk_signals W)"
    "chunk_rows D doc_id (pd_text T) (wk_sections W) (wk_citations W) = Some (Inr (wk_chunks W))"
  using assms by (fastforce simp: whole_walk_def Let_def map_result_Inr_iff split: sum.splits prod.splits)

lemma signals_cite:
  assumes "signals U sha G doc_id t sections rows = Inr out" "r \<in> set out"
  shows "sg_citation_id r \<in> ci_citation_id ` set rows"
proof -
  let ?case_rows = "case_rows_of rows"
  from assms(1) obtain rss where rss: "out = concat rss"
    "map (row_signals U sha G doc_id t (by_section_id sections) rows ?case_rows) [0..<length ?case_rows] = map Inr rss"
    by (auto simp: signals_def Let_def map_result_Inr_iff collect_results_Inr_iff)
  from assms(2) rss(1) obtain rs where rs: "rs \<in> set rss" "r \<in> set rs" by auto
  with rss(2) have "Inr rs \<in> set (map (row_signals U sha G doc_id t (by_section_id sections) rows ?case_rows)
      [0..<length ?case_rows])" by simp
  then obtain i where i: "i < length ?case_rows"
    "row_signals U sha G doc_id t (by_section_id sections) rows ?case_rows i = Inr rs" by auto
  obtain b where "case first_eligible U (tg_rules G) t ?case_rows i b of None \<Rightarrow> rs = []
    | Some x \<Rightarrow> \<exists>r. rs = [r] \<and> signal_row sha (tg_courts G) (tg_citing G) doc_id (by_section_id sections)
        (?case_rows ! i) (fst b) x = Inr r" by (rule row_signals_cases [OF i(2)]) (rule that)
  with rs(2) obtain x where "signal_row sha (tg_courts G) (tg_citing G) doc_id (by_section_id sections)
      (?case_rows ! i) (fst b) x = Inr r" by (cases "first_eligible U (tg_rules G) t ?case_rows i b") auto
  from signal_row_fields [OF this] have "sg_citation_id r = ci_citation_id (?case_rows ! i)" by blast
  moreover have "?case_rows ! i \<in> set rows" using nth_mem [OF i(1)] by (auto simp: case_rows_of_def)
  ultimately show ?thesis by blast
qed

section \<open>Where a walk can fail\<close>

lemma parent_of_less: "parent_of secs k = Some p \<Longrightarrow> p < length secs"
  by (auto simp: parent_of_def find_Some_iff)

lemma resolve_from_parent:
  "s \<in> set (resolve_from U secs marks ss) \<Longrightarrow> list_all (\<lambda>s. sc_parent s = None) ss \<Longrightarrow> sc_parent s = Some p \<Longrightarrow>
     p < length secs"
proof (induction ss arbitrary: marks)
  case (Cons x ss)
  let ?key = "label_key U (sc_label x)"
  show ?case
  proof (cases "sc_section_type x \<noteq> ''footnote'' \<or> sc_label x = None \<or> sc_label x = Some [] \<or> map_of marks ?key = None")
    case True
    then have "resolve_from U secs marks (x # ss) = x # resolve_from U secs marks ss" by (auto simp: Let_def)
    with Cons show ?thesis by auto
  next
    case False
    then obtain off where off: "map_of marks ?key = Some off" by auto
    have cond: "\<not> (sc_section_type x \<noteq> ''footnote'' \<or> sc_label x = None \<or> sc_label x = Some [])" using False by simp
    have "resolve_from U secs marks (x # ss) =
        x\<lparr>sc_ref_offset := Some off, sc_parent := parent_of secs off\<rparr> # resolve_from U secs (remove1 (?key, off) marks) ss"
      unfolding resolve_from.simps Let_def off if_not_P [OF cond] by (simp only: option.case)
    with Cons.prems(1) consider "s = x\<lparr>sc_ref_offset := Some off, sc_parent := parent_of secs off\<rparr>"
      | "s \<in> set (resolve_from U secs (remove1 (?key, off) marks) ss)" by auto
    then show ?thesis
    proof cases
      case 1
      with Cons.prems(3) parent_of_less show ?thesis by simp
    next
      case 2
      from Cons.IH [OF this] Cons.prems show ?thesis by simp
    qed
  qed
qed simp

lemma segment_parents:
  assumes "iterates order" "segment order U T opinion_type per_curiam column = Inr secs" "s \<in> set secs" "sc_parent s = Some p"
  shows "p < length secs"
proof -
  from segment_ok [OF assms(1)] obtain first where
    first: "segment order U T opinion_type per_curiam column = Inr (resolve_from U first (footnote_marks U T first) first)"
    "list_all (\<lambda>s. sc_parent s = None) first" by (metis (no_types, lifting) list.pred_mono_strong)
  have "map sc_bounds (resolve_from U first (footnote_marks U T first) first) = map sc_bounds first"
    using arg_cong [OF resolve_from_bounds, of "map fst"] by (simp add: o_def)
  then have "length secs = length first" using first(1) assms(2) map_eq_imp_length_eq by force
  with resolve_from_parent [of s U first _ first p] first assms(2-4) show ?thesis by auto
qed

lemma scalar_decimal: "list_all is_scalar (decimal k)"
  using decimal_digits [of k] by (auto simp: list_all_iff digit_char_def is_scalar_def)

lemma scalar_joined: "list_all (list_all is_scalar) parts \<Longrightarrow> list_all is_scalar (joined parts)"
  unfolding joined_def
proof (induction parts)
  case (Cons p ps)
  have "is_scalar 10" by (simp add: is_scalar_def)
  with Cons show ?case by (cases ps) auto
qed simp

lemma encoded: "list_all is_scalar s \<Longrightarrow> \<exists>bs. utf8_encode s = Inr bs"
  by (simp add: utf8_encode_def)

lemma collect_succeeds: "\<forall>x \<in> set xs. \<exists>y. f x = Inr y \<Longrightarrow> \<exists>ys. collect_results (map f xs) = Inr ys"
  unfolding collect_results_Inr_iff
proof (induction xs)
  case (Cons x xs)
  then obtain y ys where "f x = Inr y" "map f xs = map Inr ys" by auto
  then have "map f (x # xs) = map Inr (y # ys)" by simp
  then show ?case by blast
qed simp

lemma section_rows_succeed:
  assumes "segmented = Inr secs" "list_all is_scalar doc_id" "list_all is_scalar pipeline"
    and "\<forall>s \<in> set secs. \<forall>p. sc_parent s = Some p \<longrightarrow> p < length secs"
  shows "\<exists>rows. section_rows sha doc_id pipeline segmented = Inr (rows, secs)"
proof -
  let ?f = "\<lambda>s. section_id_of sha doc_id pipeline (sc_char_start s) (sc_char_end s)"
  have "\<exists>k. ?f s = Inr k" for s
    using encoded [OF scalar_joined] assms(2,3) scalar_decimal by (simp add: section_id_of_def map_result_Inr_iff)
  with collect_succeeds [of secs ?f] obtain ids where ids: "collect_results (map ?f secs) = Inr ids" by blast
  then have "length ids = length secs" unfolding collect_results_Inr_iff by (metis length_map)
  with assms(4) have "\<not> list_ex (\<lambda>s. case sc_parent s of None \<Rightarrow> False | Some p \<Rightarrow> length ids \<le> p) secs"
    by (fastforce simp: list_ex_iff split: option.splits)
  with ids show ?thesis by (simp add: section_rows_def assms(1))
qed

lemma anchor_scheme:
  assumes "tiles (map sc_bounds secs) 0 (length (pd_text T))" "sorted (map mk_offset (page_markers T))"
    and "anchor U T secs = Inr a" "r \<in> set (ag_anchors a)"
  shows "an_kind r = ''reporter_page'' \<and> (\<exists>m \<in> set (page_markers T). row_scheme r = scheme_of m)"
proof -
  from anchor_ok [OF assms(1,2), of U] obtain b found where b: "anchor U T secs = Inr b"
    "list_all2 (region_rows T) (regions secs) found" "mset (ag_anchors b) = mset (concat found)" by blast
  with assms(3,4) mset_eq_setD [OF b(3)] obtain rs where rs: "rs \<in> set found" "r \<in> set rs" by auto
  with list_all2_mem [OF b(2)] obtain rg where "region_rows T rg rs" by blast
  with rs(2) have "row_of_turns T (region_turns T rg (row_scheme r)) r" by (simp add: region_rows_def)
  then obtain m where "m \<in> set (region_turns T rg (row_scheme r))" "r = page_row T m (an_char_start r) (an_char_end r)"
    unfolding row_of_turns_def by fastforce
  then have "scheme_of m = row_scheme r" "m \<in> set (page_markers T)" "an_kind r = ''reporter_page''"
    by (auto simp: region_turns_def scheme_turns_def page_row_def dest: arg_cong [of r _ an_kind])
  then show ?thesis by metis
qed

lemma scheme_scalar: "\<forall>(k, v) \<in> set (mk_attrs m). list_all is_scalar v \<Longrightarrow> list_all is_scalar (scheme_of m)"
proof -
  assume attrs: "\<forall>(k, v) \<in> set (mk_attrs m). list_all is_scalar v"
  have "list_all is_scalar v" if "dict_get (mk_attrs m) name = Some v" for name v
    using that attrs by (fastforce simp: dict_get_def dest: map_of_SomeD)
  moreover have "list_all is_scalar (ulit ''1'')" by (simp add: ulit_def is_scalar_def)
  ultimately show ?thesis by (auto simp: scheme_of_def find_Some_iff split: option.splits)
qed

lemma anchor_rows_succeed:
  assumes "tiles (map sc_bounds secs) 0 (length (pd_text T))" "sorted (map mk_offset (page_markers T))"
    and "list_all is_scalar doc_id" "list_all is_scalar pipeline"
    and "\<forall>m \<in> set (page_markers T). \<forall>(k, v) \<in> set (mk_attrs m). list_all is_scalar v"
  shows "\<exists>x. anchor_rows U sha doc_id pipeline T secs = Inr x"
proof -
  from anchor_ok [OF assms(1,2), of U] obtain a where a: "anchor U T secs = Inr a" by blast
  have "\<exists>y. anchor_row sha doc_id pipeline r = Inr y" if r: "r \<in> set (ag_anchors a)" for r
  proof -
    from anchor_scheme [OF assms(1,2) a r] assms(5) scheme_scalar have "list_all is_scalar (row_scheme r)" "an_kind r = ''reporter_page''"
      by auto
    moreover have "list_all is_scalar (ulit ''reporter_page'')" by (simp add: ulit_def is_scalar_def)
    ultimately have "list_all is_scalar (joined [doc_id, pipeline, ulit (an_kind r), row_scheme r,
        decimal (an_char_start r), decimal (an_char_end r)])"
      using assms(3,4) scalar_decimal by (intro scalar_joined) simp
    from encoded [OF this] show ?thesis by (auto simp: anchor_row_def anchor_id_of_def map_result_Inr_iff)
  qed
  then obtain rows where "collect_results (map (anchor_row sha doc_id pipeline) (ag_anchors a)) = Inr rows"
    using collect_succeeds [of "ag_anchors a" "anchor_row sha doc_id pipeline"] by blast
  with a show ?thesis by (simp add: anchor_rows_def)
qed

lemma row_section_by_id:
  assumes "r \<in> set rows"
  shows "by_section_id (map row_section rows) (ns_section_id r) \<noteq> None"
proof -
  have "ns_section_id r \<in> fst ` set (rev (map (\<lambda>s. (sec_id s, s)) (map row_section rows)))"
    using assms by (simp add: image_image row_section_def)
  then show ?thesis unfolding by_section_id_def map_of_eq_None_iff by blast
qed

lemma signals_succeed:
  assumes "\<forall>c \<in> set cites. ci_section_id c \<in> ns_section_id ` set rows \<and> list_all is_scalar (ci_citation_id c)"
  shows "\<exists>out. signals U sha G doc_id t (map row_section rows) cites = Inr out"
proof -
  let ?by_id = "by_section_id (map row_section rows)" and ?case_rows = "case_rows_of cites"
  have "\<exists>rs. row_signals U sha G doc_id t ?by_id cites ?case_rows i = Inr rs" if i: "i < length ?case_rows" for i
  proof -
    let ?c = "?case_rows ! i"
    have "?c \<in> set cites" using nth_mem [OF i] by (auto simp: case_rows_of_def)
    with assms have c: "ci_section_id ?c \<in> ns_section_id ` set rows" "list_all is_scalar (ci_citation_id ?c)" by auto
    from c(1) row_section_by_id obtain s where s: "?by_id (ci_section_id ?c) = Some s" by force
    from c(2) have "list_all is_scalar (ci_citation_id ?c @ [10] @ ulit ''pattern'' @ [10] @ ulit PATTERN_SET_ID)"
      by (simp add: PATTERN_SET_ID_def ulit_def is_scalar_def)
    from encoded [OF this] have "\<exists>k. signal_id_of sha ?c = Inr k" by (auto simp: signal_id_of_def)
    with s have "\<exists>r. signal_row sha (tg_courts G) (tg_citing G) doc_id ?by_id ?c first x = Inr r" for first x
      by (auto simp: signal_row_def effective_section_def)
    moreover from s obtain b where "row_sentence U G t ?by_id cites ?c = Some b" by (simp add: row_sentence_def)
    ultimately show ?thesis by (auto simp: row_signals_def split: option.splits) (metis map_result.simps(2))
  qed
  then have "\<forall>i \<in> set [0..<length ?case_rows]. \<exists>rs. row_signals U sha G doc_id t ?by_id cites ?case_rows i = Inr rs" by simp
  from collect_succeeds [OF this] obtain rss where
    "collect_results (map (row_signals U sha G doc_id t ?by_id cites ?case_rows) [0..<length ?case_rows]) = Inr rss" by blast
  then show ?thesis by (simp add: signals_def Let_def)
qed

text \<open>The sections of a walk and the ink of its chunks.\<close>

lemma walk_text:
  assumes "whole_walk D doc_id ty pc column T = Some (Inr W)" "iterates (dp_order D)" "uc_space (dp_ucd D) 10"
  shows "tiles (map (\<lambda>r. (ns_char_start r, ns_char_end r)) (wk_sections W)) 0 (length (pd_text T)) \<and>
    filter (\<lambda>c. \<not> uc_space (dp_ucd D) c)
      (concat (map (\<lambda>r. substr (pd_text T) (ck_char_start r) (ck_char_end r)) (wk_chunks W))) =
    filter (\<lambda>c. \<not> uc_space (dp_ucd D) c) (pd_text T)"
proof -
  from whole_walk_Inr [OF assms(1)] obtain secs where
    secs: "section_rows (dp_sha D) doc_id (dp_version D)
       (segment (dp_order D) (dp_ucd D) T (Some ty) pc (ulit column)) = Inr (wk_sections W, secs)"
    and chunked: "chunk_rows D doc_id (pd_text T) (wk_sections W) (wk_citations W) = Some (Inr (wk_chunks W))" .
  from section_rows_Inr [OF secs] obtain ids where ids:
    "segment (dp_order D) (dp_ucd D) T (Some ty) pc (ulit column) = Inr secs"
    "wk_sections W = map (section_row doc_id ids) (enumerate 0 secs)" by blast
  have bounds: "map (\<lambda>r. (ns_char_start r, ns_char_end r)) (wk_sections W) = map sc_bounds secs"
    unfolding ids(2) by (rule section_rows_bounds)
  have same: "map (\<lambda>s. (sec_start s, sec_end s)) (map row_span_of (wk_sections W)) = map sc_bounds secs"
    unfolding bounds [symmetric] by (simp add: row_span_of_def comp_def)
  from chunked have "chunk (dp_ucd D) (dp_sha D) doc_id (dp_pipeline D) (pd_text T) (map row_span_of (wk_sections W))
      (spans_of (wk_citations W)) (dp_tokens D) = Some (Inr (wk_chunks W))" by (auto simp: chunk_rows_def)
  from segmented.chunked_text [OF assms(2) ids(1) assms(3) same this] segmented.sections_tiled [OF assms(2) ids(1)]
  show ?thesis unfolding bounds by blast
qed

section \<open>Properties\<close>

text \<open>C31: the sections of a walk tile the text, and its chunks together carry every character that is not white
  space, in order and once.\<close>

theorem walk_keeps_text:
  assumes "whole_walk D doc_id ty pc column T = Some (Inr W)" "iterates (dp_order D)" "uc_space (dp_ucd D) 10"
  shows "tiles (map (\<lambda>r. (ns_char_start r, ns_char_end r)) (wk_sections W)) 0 (length (pd_text T)) \<and>
    filter (\<lambda>c. \<not> uc_space (dp_ucd D) c)
      (concat (map (\<lambda>r. substr (pd_text T) (ck_char_start r) (ck_char_end r)) (wk_chunks W))) =
    filter (\<lambda>c. \<not> uc_space (dp_ucd D) c) (pd_text T)"
  by (rule walk_text [OF assms])

text \<open>C32: the rows of a walk refer to rows of the same walk: a section's parent is a section, each citation and
  each chunk names a section of the walk with its type, and each signal names a citation of the walk.\<close>

theorem walk_references_close:
  assumes "whole_walk D doc_id ty pc column T = Some (Inr W)"
  shows "(\<forall>s \<in> set (wk_sections W). case ns_parent_section_id s of None \<Rightarrow> True
      | Some p \<Rightarrow> p \<in> ns_section_id ` set (wk_sections W)) \<and>
    (\<forall>c \<in> set (wk_citations W). \<exists>s \<in> set (wk_sections W). ci_section_id c = ns_section_id s \<and>
      ci_section_type c = ulit (ns_section_type s) \<and>
      int (ns_char_start s) \<le> ci_char_start c \<and> ci_char_start c < int (ns_char_end s)) \<and>
    (\<forall>k \<in> set (wk_chunks W). \<exists>s \<in> set (wk_sections W). ck_section_id k = ns_section_id s \<and>
      ck_section_type k = ulit (ns_section_type s)) \<and>
    (\<forall>g \<in> set (wk_signals W). sg_citation_id g \<in> ci_citation_id ` set (wk_citations W))"
proof -
  from whole_walk_Inr [OF assms] obtain secs where
    secs: "section_rows (dp_sha D) doc_id (dp_version D)
       (segment (dp_order D) (dp_ucd D) T (Some ty) pc (ulit column)) = Inr (wk_sections W, secs)"
    and cited: "citation_rows D doc_id (pd_text T) (wk_sections W) = Inr (wk_citations W)"
    and signalled: "signal_rows D doc_id (pd_text T) (wk_sections W) (wk_citations W) = Inr (wk_signals W)"
    and chunked: "chunk_rows D doc_id (pd_text T) (wk_sections W) (wk_citations W) = Some (Inr (wk_chunks W))" .
  from section_rows_Inr [OF secs] obtain ids where ids: "wk_sections W = map (section_row doc_id ids) (enumerate 0 secs)"
    "length ids = length secs" "\<forall>s \<in> set secs. case sc_parent s of None \<Rightarrow> True | Some p \<Rightarrow> p < length ids" by blast
  have "map ns_section_id (wk_sections W) = ids"
    using ids(2) by (intro nth_equalityI) (simp_all add: ids(1) nth_enumerate_eq)
  then have all_ids: "ns_section_id ` set (wk_sections W) = set ids" by (metis list.set_map)
  have "case ns_parent_section_id s of None \<Rightarrow> True | Some p \<Rightarrow> p \<in> set ids" if "s \<in> set (wk_sections W)" for s
  proof -
    from that obtain n x where x: "s = section_row doc_id ids (n, x)" "x \<in> set secs"
      by (auto simp: ids(1) in_set_enumerate_eq)
    with ids(3) have "case sc_parent x of None \<Rightarrow> True | Some p \<Rightarrow> p < length ids" by blast
    with x(1) show ?thesis by (cases "sc_parent x") simp_all
  qed
  moreover have "\<exists>s \<in> set (wk_sections W). ci_section_id c = ns_section_id s \<and> ci_section_type c = ulit (ns_section_type s) \<and>
      int (ns_char_start s) \<le> ci_char_start c \<and> ci_char_start c < int (ns_char_end s)" if "c \<in> set (wk_citations W)" for c
  proof -
    from cited obtain found where "edges (dp_ucd D) (dp_punctuation D) (dp_sha D) (dp_resolve D) doc_id (dp_version D)
        (pd_text T) (map row_span_of (wk_sections W)) found (dp_extract D (pd_text T)) = Inr (wk_citations W)"
      by (auto simp: citation_rows_def bind_result_Inr_iff)
    from edges_row_section(1) [OF this that] show ?thesis by (auto simp: row_span_of_def inside_def)
  qed
  moreover have "\<exists>s \<in> set (wk_sections W). ck_section_id k = ns_section_id s \<and> ck_section_type k = ulit (ns_section_type s)"
    if "k \<in> set (wk_chunks W)" for k
  proof -
    from chunked have "chunk (dp_ucd D) (dp_sha D) doc_id (dp_pipeline D) (pd_text T) (map row_span_of (wk_sections W))
      (spans_of (wk_citations W)) (dp_tokens D) = Some (Inr (wk_chunks W))" by (auto simp: chunk_rows_def)
    from chunk_row [OF this that] obtain sec where "sec \<in> set (map row_span_of (wk_sections W))"
      "ck_section_id k = sec_id sec" "ck_section_type k = sec_type sec" .
    then show ?thesis by (auto simp: row_span_of_def)
  qed
  moreover have "sg_citation_id g \<in> ci_citation_id ` set (wk_citations W)" if "g \<in> set (wk_signals W)" for g
    using signals_cite [OF _ that] signalled by (auto simp: signal_rows_def)
  ultimately show ?thesis unfolding all_ids by blast
qed

text \<open>C33: a walk always returns; over locators in text order, and text that can be encoded, it fails only where
  reading the citations or chunking does, and never in a stage that asserts.\<close>

theorem walk_fails_only:
  assumes "iterates (dp_order D)" "sorted (map mk_offset (page_markers T))"
    and "list_all is_scalar doc_id" "list_all is_scalar (dp_version D)" "\<forall>b. list_all is_scalar (dp_sha D b)"
    and "\<forall>m \<in> set (page_markers T). \<forall>(k, v) \<in> set (mk_attrs m). list_all is_scalar v"
  shows "case whole_walk D doc_id ty pc column T of None \<Rightarrow> False
    | Some (Inl e) \<Rightarrow> e \<in> {''citations'', ''chunker''} | Some (Inr W) \<Rightarrow> True"
proof -
  from segment_tiles [OF assms(1)] obtain secs where
    secs: "segment (dp_order D) (dp_ucd D) T (Some ty) pc (ulit column) = Inr secs"
    and tiled: "tiles (map sc_bounds secs) 0 (length (pd_text T))" by blast
  from section_rows_succeed [OF secs assms(3,4)] segment_parents [OF assms(1) secs] obtain rows where
    rows: "section_rows (dp_sha D) doc_id (dp_version D)
      (segment (dp_order D) (dp_ucd D) T (Some ty) pc (ulit column)) = Inr (rows, secs)" by blast
  from anchor_rows_succeed [OF tiled assms(2-4,6)] obtain anchors checked disagreeing where
    anchors: "anchor_rows (dp_ucd D) (dp_sha D) doc_id (dp_version D) T secs = Inr (anchors, checked, disagreeing)"
    by (metis prod.exhaust)
  have cites: "\<exists>sigs. signal_rows D doc_id (pd_text T) rows cites = Inr sigs"
    if "citation_rows D doc_id (pd_text T) rows = Inr cites" for cites
  proof -
    from that obtain found where edges: "edges (dp_ucd D) (dp_punctuation D) (dp_sha D) (dp_resolve D) doc_id (dp_version D)
        (pd_text T) (map row_span_of rows) found (dp_extract D (pd_text T)) = Inr cites"
      by (auto simp: citation_rows_def bind_result_Inr_iff)
    have "ci_section_id c \<in> ns_section_id ` set rows \<and> list_all is_scalar (ci_citation_id c)" if "c \<in> set cites" for c
      using edges_row_section [OF edges that] assms(5) by (auto simp: row_span_of_def)
    with signals_succeed show ?thesis by (simp add: signal_rows_def)
  qed
  define r where "r cites = the (chunk_rows D doc_id (pd_text T) rows cites)" for cites
  have "chunk_rows D doc_id (pd_text T) rows cites \<noteq> None" for cites
    using chunk_from_returns [of "dp_ucd D" "dp_sha D" doc_id "dp_pipeline D" "pd_text T" "spans_of cites" "dp_tokens D" "[]"
        "map row_span_of rows"] by (auto simp: chunk_rows_def chunk_def)
  then have r: "chunk_rows D doc_id (pd_text T) rows cites = Some (r cites)" for cites by (simp add: r_def)
  show ?thesis
  proof (cases "citation_rows D doc_id (pd_text T) rows")
    case (Inl e)
    then have "e = ''citations''" by (simp add: citation_rows_def)
    with Inl show ?thesis by (simp add: whole_walk_def rows anchors)
  next
    case (Inr cs)
    from cites [OF Inr] obtain sigs where "signal_rows D doc_id (pd_text T) rows cs = Inr sigs" by blast
    with Inr have "whole_walk D doc_id ty pc column T = Some (map_result (\<lambda>chunks. \<lparr>wk_sections = rows, wk_anchors = anchors,
        wk_checked = checked, wk_disagreeing = disagreeing, wk_citations = cs, wk_signals = sigs, wk_chunks = chunks\<rparr>) (r cs))"
      by (simp add: whole_walk_def rows anchors r)
    moreover have "r cs = Inl e \<Longrightarrow> e = ''chunker''" for e using r [of cs] by (auto simp: chunk_rows_def)
    ultimately show ?thesis by (cases "r cs") auto
  qed
qed

text \<open>The witnesses walk one sentence that cites a case, with a page turn.\<close>

definition small_pass :: document_pass where
  "small_pass = \<lparr>dp_order = sorted_list_of_set, dp_ucd = ascii_ucd, dp_sha = (\<lambda>_. []),
     dp_find = (\<lambda>_. Inr [\<lparr>fc_start = 13, fc_end = 19, fc_form = ulit ''full'', fc_kind = ulit ''case'', fc_resource = Some 0,
        fc_volume = Some (ulit ''1''), fc_reporter = Some (ulit ''F.''), fc_page = Some (ulit ''2''),
        fc_reporter_cite = Some (ulit ''1 F. 2''), fc_pincite = None\<rparr>]),
     dp_extract = (\<lambda>_. []), dp_resolve = (\<lambda>_. Some 7), dp_punctuation = (\<lambda>c. c = 46), dp_treating = small_treating,
     dp_tokens = length, dp_pipeline = small_pipeline\<rparr>"

definition small_source :: parsed where
  "small_source = \<lparr>pd_text = small_text, pd_markers =
     [\<lparr>mk_kind = ''page'', mk_label = ulit ''9'', mk_offset = 3, mk_attrs = []\<rparr>], pd_blocks = []\<rparr>"

lemma small_walk:
  obtains W where "whole_walk small_pass (ulit ''d'') (ulit ''010combined'') False ''html'' small_source = Some (Inr W)"
proof -
  have "case whole_walk small_pass (ulit ''d'') (ulit ''010combined'') False ''html'' small_source of
      Some (Inr W) \<Rightarrow> True | _ \<Rightarrow> False" by code_simp
  with that show thesis by (auto split: option.splits sum.splits)
qed

theorem walk_keeps_text_witness:
  "\<exists>W. whole_walk small_pass (ulit ''d'') (ulit ''010combined'') False ''html'' small_source = Some (Inr W) \<and>
     tiles (map (\<lambda>r. (ns_char_start r, ns_char_end r)) (wk_sections W)) 0 20"
proof -
  obtain W where W: "whole_walk small_pass (ulit ''d'') (ulit ''010combined'') False ''html'' small_source = Some (Inr W)"
    by (rule small_walk)
  have "iterates (dp_order small_pass)" "uc_space (dp_ucd small_pass) 10" "length (pd_text small_source) = 20"
    using iterates_ascending by (simp_all add: small_pass_def ascii_ucd_def small_source_def small_text_def)
  with walk_keeps_text [OF W] W show ?thesis by auto
qed

theorem walk_references_close_witness:
  "\<exists>W. whole_walk small_pass (ulit ''d'') (ulit ''010combined'') False ''html'' small_source = Some (Inr W) \<and>
     (\<forall>g \<in> set (wk_signals W). sg_citation_id g \<in> ci_citation_id ` set (wk_citations W))"
proof -
  obtain W where W: "whole_walk small_pass (ulit ''d'') (ulit ''010combined'') False ''html'' small_source = Some (Inr W)"
    by (rule small_walk)
  with walk_references_close [OF W] show ?thesis by blast
qed

theorem walk_fails_only_witness:
  "case whole_walk small_pass (ulit ''d'') (ulit ''010combined'') False ''html'' small_source of
     None \<Rightarrow> False | Some (Inl e) \<Rightarrow> e \<in> {''citations'', ''chunker''} | Some (Inr W) \<Rightarrow> True"
proof (rule walk_fails_only)
  show "iterates (dp_order small_pass)" using iterates_ascending by (simp add: small_pass_def)
  show "list_all is_scalar (ulit ''d'')" by (simp add: ulit_def is_scalar_def)
  show "list_all is_scalar (dp_version small_pass)" by (simp add: small_pass_def small_pipeline_def ulit_def is_scalar_def)
qed (simp_all add: small_pass_def small_source_def page_markers_def)

definition split_letter :: element where
  "split_letter = Element (Some (ulit ''div'')) [] (Some [108, 772])
     [(page_turn ''*12'', Some [803]), (page_turn ''*13'', Some (ulit '' two.''))]"

text \<open>Two page locators inside one combining sequence come out of the reader in the wrong order, and anchoring
  the sections of that text then fails its assertion.\<close>

theorem locators_out_of_order:
  "case walk_source ascii_ucd (reader_of split_letter) ''html'' (ulit ''<div>'') of
     Inl e \<Rightarrow> False
   | Inr T \<Rightarrow> map mk_offset (page_markers T) = [2, 1] \<and>
       whole_walk small_pass (ulit ''d'') (ulit ''010combined'') False ''html'' T = Some (Inl ''anchors'')"
  by code_simp

end
