(* ===== verification/Worker_Ingest.thy ===== *)
theory Worker_Ingest
  imports Worker_Document Py_Effects
begin

text \<open>
  The ingest of one court's staged opinions in \<open>gideon/worker/caselaw.py\<close>, over the record's tables as its SQL
  statements change them. A transaction is a list of statements that runs whole or not at all; which transactions
  the database refuses beyond its keys, and which writes the object store refuses, are parameters. Time stamps
  are kept only as whether they are set.
\<close>

section \<open>The record's tables\<close>

record new_document =
  nd_doc_id :: ustr
  nd_profile :: string
  nd_source :: ustr
  nd_source_snapshot :: ustr
  nd_text_source :: "string option"

record new_opinion =
  no_opinion_id :: int
  no_doc_id :: ustr
  no_court :: ustr
  no_cluster_id :: int
  no_docket :: "ustr option"
  no_decided_date :: ustr
  no_decided_date_is_approximate :: bool
  no_precedential :: string
  no_precedential_raw :: ustr
  no_reporter_cites :: "ustr list"
  no_opinion_type :: ustr
  no_case_name :: "ustr option"
  no_per_curiam :: "bool option"

record document =
  do_new :: new_document
  do_status :: string
  do_attempts :: nat
  do_sha256 :: "ustr option"
  do_canonical :: "ustr option"
  do_failure_reason :: "string option"
  do_ingested :: bool
  do_anchored :: bool
  do_cited :: bool
  do_treated_set :: "string option"
  do_treated_at :: bool
  do_treated_pipeline :: "ustr option"

record database =
  db_documents :: "ustr \<Rightarrow> document option"
  db_opinions :: "new_opinion list"
  db_sections :: "(ustr \<times> ustr \<times> new_section) list"  \<comment> \<open>document, pipeline, row\<close>
  db_anchors :: "(ustr \<times> ustr \<times> new_anchor) list"
  db_citations :: "(ustr \<times> ustr \<times> new_citation) list"
  db_signals :: "(ustr \<times> ustr \<times> new_signal) list"
  db_chunks :: "(ustr \<times> new_chunk) list"

datatype statement =
    Begin_document new_document
  | Begin_opinion new_opinion
  | Set_name ustr ustr
  | Set_flag ustr bool
  | Retry ustr
  | Give_back ustr
  | Finish_ready ustr ustr ustr ustr  \<comment> \<open>document, pipeline, digest, canonical digest\<close>
  | Finish_failed ustr string "ustr option"
  | Insert_section ustr ustr new_section
  | Insert_anchor ustr ustr new_anchor
  | Mark_anchored ustr
  | Insert_citation ustr ustr new_citation
  | Mark_cited ustr
  | Insert_signal ustr ustr new_signal
  | Insert_chunk ustr new_chunk
  | Mark_treated ustr ustr

definition update_document :: "ustr \<Rightarrow> (document \<Rightarrow> document) \<Rightarrow> database \<Rightarrow> database" where
  "update_document k f b =
     b\<lparr>db_documents := (\<lambda>d. if d = k then map_option f (db_documents b k) else db_documents b d)\<rparr>"

definition update_opinion :: "ustr \<Rightarrow> (new_opinion \<Rightarrow> new_opinion) \<Rightarrow> database \<Rightarrow> database" where
  "update_opinion k f b = b\<lparr>db_opinions := map (\<lambda>n. if no_doc_id n = k then f n else n) (db_opinions b)\<rparr>"

definition begun :: "new_document \<Rightarrow> document" where
  "begun n = \<lparr>do_new = n, do_status = ''processing'', do_attempts = 1, do_sha256 = None, do_canonical = None,
     do_failure_reason = None, do_ingested = False, do_anchored = False, do_cited = False, do_treated_set = None,
     do_treated_at = False, do_treated_pipeline = None\<rparr>"

definition finished_ready :: "ustr \<Rightarrow> ustr \<Rightarrow> ustr \<Rightarrow> document \<Rightarrow> document" where
  "finished_ready pipeline digest canonical d =
     d\<lparr>do_status := ''ready'', do_sha256 := Some digest, do_canonical := Some canonical, do_ingested := True,
       do_anchored := True, do_cited := True, do_treated_set := Some PATTERN_SET_ID, do_treated_at := True,
       do_treated_pipeline := Some pipeline\<rparr>"

definition finished_failed :: "string \<Rightarrow> ustr option \<Rightarrow> document \<Rightarrow> document" where
  "finished_failed reason digest d =
     d\<lparr>do_status := ''failed'', do_failure_reason := Some reason, do_sha256 := digest, do_ingested := True\<rparr>"

definition mark_treated :: "ustr \<Rightarrow> document \<Rightarrow> document" where
  "mark_treated pipeline d =
     d\<lparr>do_treated_set := Some PATTERN_SET_ID, do_treated_at := True, do_treated_pipeline := Some pipeline\<rparr>"

text \<open>One statement; \<open>None\<close> where a key of the documents or the opinions is taken already.\<close>

primrec exec :: "statement \<Rightarrow> database \<Rightarrow> database option" where
  "exec (Begin_document n) b =
     (if db_documents b (nd_doc_id n) \<noteq> None then None
      else Some (b\<lparr>db_documents := (db_documents b)(nd_doc_id n := Some (begun n))\<rparr>))"
| "exec (Begin_opinion n) b =
     (if list_ex (\<lambda>x. no_opinion_id x = no_opinion_id n \<or> no_doc_id x = no_doc_id n) (db_opinions b) then None
      else Some (b\<lparr>db_opinions := db_opinions b @ [n]\<rparr>))"
| "exec (Set_name k name) b = Some (update_opinion k (\<lambda>n. n\<lparr>no_case_name := Some name\<rparr>) b)"
| "exec (Set_flag k flag) b = Some (update_opinion k (\<lambda>n. n\<lparr>no_per_curiam := Some flag\<rparr>) b)"
| "exec (Retry k) b = Some (update_document k (\<lambda>d. d\<lparr>do_attempts := do_attempts d + 1\<rparr>) b)"
| "exec (Give_back k) b = Some (update_document k (\<lambda>d. d\<lparr>do_attempts := do_attempts d - 1\<rparr>) b)"
| "exec (Finish_ready k pipeline digest canonical) b = Some (update_document k (finished_ready pipeline digest canonical) b)"
| "exec (Finish_failed k reason digest) b = Some (update_document k (finished_failed reason digest) b)"
| "exec (Insert_section k p r) b = Some (b\<lparr>db_sections := db_sections b @ [(k, p, r)]\<rparr>)"
| "exec (Insert_anchor k p r) b = Some (b\<lparr>db_anchors := db_anchors b @ [(k, p, r)]\<rparr>)"
| "exec (Mark_anchored k) b = Some (update_document k (\<lambda>d. d\<lparr>do_anchored := True\<rparr>) b)"
| "exec (Insert_citation k p r) b = Some (b\<lparr>db_citations := db_citations b @ [(k, p, r)]\<rparr>)"
| "exec (Mark_cited k) b = Some (update_document k (\<lambda>d. d\<lparr>do_cited := True\<rparr>) b)"
| "exec (Insert_signal k p r) b = Some
     (if list_ex (\<lambda>(_, _, s). sg_citation_id s = sg_citation_id r \<and> sg_signal_source s = sg_signal_source r \<and>
          sg_pattern_set s = sg_pattern_set r) (db_signals b)
      then b else b\<lparr>db_signals := db_signals b @ [(k, p, r)]\<rparr>)"
| "exec (Insert_chunk k r) b = Some (b\<lparr>db_chunks := db_chunks b @ [(k, r)]\<rparr>)"
| "exec (Mark_treated k p) b = Some (update_document k (mark_treated p) b)"

primrec exec_all :: "statement list \<Rightarrow> database \<Rightarrow> database option" where
  "exec_all [] b = Some b"
| "exec_all (x # xs) b = Option.bind (exec x b) (exec_all xs)"

section \<open>Statements of the rows\<close>

definition section_statements :: "ustr \<Rightarrow> ustr \<Rightarrow> new_section list \<Rightarrow> statement list" where
  "section_statements k p rows =
     map (Insert_section k p) (sort_key (\<lambda>r. ns_parent_section_id r \<noteq> None) rows)"

definition anchor_statements :: "ustr \<Rightarrow> ustr \<Rightarrow> new_anchor list \<Rightarrow> statement list" where
  "anchor_statements k p rows = map (Insert_anchor k p) rows"

definition citation_statements :: "ustr \<Rightarrow> ustr \<Rightarrow> new_citation list \<Rightarrow> statement list" where
  "citation_statements k p rows = map (Insert_citation k p) rows"

definition signal_statements :: "ustr \<Rightarrow> ustr \<Rightarrow> new_signal list \<Rightarrow> statement list" where
  "signal_statements k p rows = map (Insert_signal k p) rows"

definition chunk_statements :: "ustr \<Rightarrow> new_chunk list \<Rightarrow> statement list" where
  "chunk_statements k rows = map (Insert_chunk k) rows"

definition finish_ready_statements :: "ustr \<Rightarrow> ustr \<Rightarrow> ustr \<Rightarrow> ustr \<Rightarrow> walk_rows \<Rightarrow> statement list" where
  "finish_ready_statements k p digest canonical W =
     Finish_ready k p digest canonical # section_statements k p (wk_sections W) @ anchor_statements k p (wk_anchors W) @
     citation_statements k p (wk_citations W) @ signal_statements k p (wk_signals W) @ chunk_statements k (wk_chunks W)"

definition write_walk_statements :: "ustr \<Rightarrow> ustr \<Rightarrow> walk_rows \<Rightarrow> statement list" where
  "write_walk_statements k p W =
     section_statements k p (wk_sections W) @ anchor_statements k p (wk_anchors W) @
     citation_statements k p (wk_citations W) @ signal_statements k p (wk_signals W) @ chunk_statements k (wk_chunks W) @
     [Mark_anchored k, Mark_cited k, Mark_treated k p]"

section \<open>What a court's opinions are known as\<close>

record present_row =
  pr_doc_id :: ustr
  pr_status :: string
  pr_attempts :: nat
  pr_text_source :: "string option"
  pr_sha256 :: "ustr option"
  pr_canonical :: "ustr option"
  pr_sectioned :: bool
  pr_anchored :: bool
  pr_cited :: bool
  pr_treated_under :: "string option"
  pr_treated_pipeline :: "ustr option"
  pr_chunked :: bool
  pr_named :: bool
  pr_flagged :: bool

definition treated_at :: "present_row \<Rightarrow> ustr \<Rightarrow> bool" where
  "treated_at p pipeline \<longleftrightarrow> pr_treated_under p = Some PATTERN_SET_ID \<and> pr_treated_pipeline p = Some pipeline"

definition present_of :: "database \<Rightarrow> ustr \<Rightarrow> new_opinion \<Rightarrow> document \<Rightarrow> present_row" where
  "present_of b pipeline n d =
     \<lparr>pr_doc_id = no_doc_id n, pr_status = do_status d, pr_attempts = do_attempts d,
      pr_text_source = nd_text_source (do_new d), pr_sha256 = do_sha256 d, pr_canonical = do_canonical d,
      pr_sectioned = list_ex (\<lambda>(k, p, _). k = no_doc_id n \<and> p = pipeline) (db_sections b),
      pr_anchored = do_anchored d, pr_cited = do_cited d, pr_treated_under = do_treated_set d,
      pr_treated_pipeline = do_treated_pipeline d,
      pr_chunked = list_ex (\<lambda>(k, c). k = no_doc_id n \<and> ck_pipeline c = pipeline) (db_chunks b),
      pr_named = (no_case_name n \<noteq> None), pr_flagged = (no_per_curiam n \<noteq> None)\<rparr>"

definition present :: "database \<Rightarrow> ustr \<Rightarrow> ustr \<Rightarrow> ustr \<Rightarrow> ustr \<Rightarrow> int \<Rightarrow> present_row option" where
  "present b source snapshot court pipeline i =
     (case find (\<lambda>n. no_opinion_id n = i \<and> no_court n = court) (db_opinions b) of
        None \<Rightarrow> None
      | Some n \<Rightarrow>
          (case db_documents b (no_doc_id n) of
             None \<Rightarrow> None
           | Some d \<Rightarrow> if nd_source (do_new d) = source \<and> nd_source_snapshot (do_new d) = snapshot
                        then Some (present_of b pipeline n d) else None))"

section \<open>The job's state\<close>

record progress =
  pg_seen :: nat
  pg_present :: nat
  pg_ready :: nat
  pg_failed :: nat
  pg_retried :: nat
  pg_interrupted :: nat
  pg_sectioned :: nat
  pg_anchored :: nat
  pg_pgmap_checked :: nat
  pg_pgmap_disagreeing :: nat
  pg_cited :: nat
  pg_treated :: nat
  pg_signalled :: nat
  pg_chunked :: nat
  pg_named :: nat
  pg_flagged :: nat
  pg_error :: string

record job =
  jb_db :: database
  jb_store :: "ustr \<Rightarrow> bytes option"
  jb_progress :: progress

type_synonym 'a step = "(job, 'a) prog"

record cluster =
  cl_docket_id :: int
  cl_decided_date :: ustr
  cl_approximate :: bool
  cl_precedential_raw :: ustr
  cl_case_name :: ustr

record docket =
  dk_number :: "ustr option"
  dk_court :: ustr

text \<open>What a job is given besides its state: the pass, the reader of source columns, what the database and the
  object store refuse, and the tables of the staged court.\<close>

record ingest_env =
  ie_pass :: document_pass
  ie_reader :: reader
  ie_refuses :: "statement list \<Rightarrow> database \<Rightarrow> bool"
  ie_store_refuses :: "ustr \<Rightarrow> bool"
  ie_source :: ustr
  ie_snapshot :: ustr
  ie_court :: ustr
  ie_clusters :: "int \<Rightarrow> cluster option"
  ie_dockets :: "int \<Rightarrow> docket option"
  ie_reporter_cites :: "int \<Rightarrow> ustr list"

abbreviation ie_pipeline :: "ingest_env \<Rightarrow> ustr" where
  "ie_pipeline E \<equiv> dp_version (ie_pass E)"

definition transact :: "ingest_env \<Rightarrow> statement list \<Rightarrow> unit step" where
  "transact E stmts j =
     (case (if ie_refuses E stmts (jb_db j) then None else exec_all stmts (jb_db j)) of
        None \<Rightarrow> Some (j, Inl ''database'')
      | Some b \<Rightarrow> Some (j\<lparr>jb_db := b\<rparr>, Inr ()))"

definition tick :: "(progress \<Rightarrow> progress) \<Rightarrow> unit step" where
  "tick f = assign (\<lambda>j. j\<lparr>jb_progress := f (jb_progress j)\<rparr>)"

section \<open>The object store\<close>

definition put_text :: "ingest_env \<Rightarrow> ustr \<Rightarrow> ustr step" where
  "put_text E t j =
     (case utf8_encode t of
        Inl e \<Rightarrow> Some (j, Inl e)
      | Inr b \<Rightarrow>
          let name = dp_sha (ie_pass E) b
          in if ie_store_refuses E name then Some (j, Inl ''store'')
             else case jb_store j name of
               Some old \<Rightarrow> Some (j, if length old = length b then Inr name else Inl ''store'')
             | None \<Rightarrow> Some (j\<lparr>jb_store := (jb_store j)(name := Some b)\<rparr>, Inr name))"

definition get_bytes :: "ingest_env \<Rightarrow> ustr \<Rightarrow> bytes step" where
  "get_bytes E name j =
     Some (j, if ie_store_refuses E name then Inl ''store''
              else case jb_store j name of
                None \<Rightarrow> Inl ''store''
              | Some b \<Rightarrow> if dp_sha (ie_pass E) b = name then Inr b else Inl ''store'')"

section \<open>One opinion's parse\<close>

text \<open>\<open>walk_step\<close> is the walk of a text as a step that leaves the state alone.\<close>

definition walk_step :: "ingest_env \<Rightarrow> ustr \<Rightarrow> ustr \<Rightarrow> bool \<Rightarrow> string \<Rightarrow> parsed \<Rightarrow> walk_rows step" where
  "walk_step E doc_id opinion_type per_curiam column T j =
     map_option (Pair j) (whole_walk (ie_pass E) doc_id opinion_type per_curiam column T)"

definition finish_failed :: "ingest_env \<Rightarrow> ustr \<Rightarrow> string \<Rightarrow> ustr option \<Rightarrow> unit step" where
  "finish_failed E doc_id reason original =
     bindp (transact E [Finish_failed doc_id reason original]) (\<lambda>_. tick (\<lambda>p. p\<lparr>pg_failed := pg_failed p + 1\<rparr>))"

definition count_walk :: "walk_rows \<Rightarrow> progress \<Rightarrow> progress" where
  "count_walk W p =
     p\<lparr>pg_anchored := pg_anchored p + 1, pg_pgmap_checked := pg_pgmap_checked p + wk_checked W,
       pg_pgmap_disagreeing := pg_pgmap_disagreeing p + wk_disagreeing W, pg_cited := pg_cited p + 1,
       pg_treated := pg_treated p + 1, pg_signalled := pg_signalled p + length (wk_signals W),
       pg_chunked := pg_chunked p + 1\<rparr>"

text \<open>The failures of reading a source that are an outcome of the opinion; any other is filed as unparseable.\<close>

definition READ_FAILURES :: "string list" where
  "READ_FAILURES = [''empty'', ''unparseable'', ''illegible'']"

definition parse_opinion ::
    "ingest_env \<Rightarrow> ustr \<Rightarrow> (string \<times> ustr) option \<Rightarrow> ustr \<Rightarrow> bool \<Rightarrow> unit step" where
  "parse_opinion E doc_id choice opinion_type per_curiam =
     (case choice of
        None \<Rightarrow> finish_failed E doc_id ''no-text'' None
      | Some (column, raw) \<Rightarrow>
          bindp (put_text E raw) (\<lambda>original.
            case canonical_text (dp_ucd (ie_pass E)) (ie_reader E) column raw of
              Inl e \<Rightarrow>
                if e \<in> set READ_FAILURES then finish_failed E doc_id e (Some original)
                else bindp (tick (\<lambda>p. p\<lparr>pg_error := e\<rparr>)) (\<lambda>_. finish_failed E doc_id ''unparseable'' (Some original))
            | Inr T \<Rightarrow>
                bindp (walk_step E doc_id opinion_type per_curiam column T) (\<lambda>W.
                bindp (put_text E (pd_text T)) (\<lambda>canonical.
                bindp (transact E (finish_ready_statements doc_id (ie_pipeline E) original canonical W)) (\<lambda>_.
                  tick (\<lambda>p. count_walk W (p\<lparr>pg_ready := pg_ready p + 1\<rparr>)))))))"

section \<open>Completing a document that is ready\<close>

definition read_original :: "ingest_env \<Rightarrow> present_row \<Rightarrow> (string \<times> parsed) step" where
  "read_original E p =
     (case (pr_sha256 p, pr_text_source p) of
        (Some digest, Some column) \<Rightarrow>
          bindp (get_bytes E digest) (\<lambda>b.
            lift_result (case bind_result (utf8_decode b) (walk_source (dp_ucd (ie_pass E)) (ie_reader E) column) of
               Inl e \<Rightarrow> Inl ''text-mismatch''
             | Inr T \<Rightarrow> bind_result (utf8_encode (pd_text T)) (\<lambda>c.
                 if Some (dp_sha (ie_pass E) c) \<noteq> pr_canonical p then Inl ''text-mismatch'' else Inr (column, T))))
      | _ \<Rightarrow> raise ''text-mismatch'')"

definition recorded_sections :: "ustr \<Rightarrow> ustr \<Rightarrow> database \<Rightarrow> new_section list" where
  "recorded_sections k p b =
     sort_key ns_ordinal (map (snd \<circ> snd) (filter (\<lambda>(d, q, _). d = k \<and> q = p) (db_sections b)))"

definition recorded_citations :: "ustr \<Rightarrow> ustr \<Rightarrow> database \<Rightarrow> new_citation list" where
  "recorded_citations k p b =
     sort_key ci_ordinal (map (snd \<circ> snd) (filter (\<lambda>(d, q, _). d = k \<and> q = p) (db_citations b)))"

text \<open>Reads fail as a transaction does; \<open>[]\<close> is the transaction of a read.\<close>

definition read_rows :: "ingest_env \<Rightarrow> (database \<Rightarrow> 'a) \<Rightarrow> 'a step" where
  "read_rows E f = bindp (transact E []) (\<lambda>_. fetch (\<lambda>j. f (jb_db j)))"

text \<open>The rows still missing, over the recorded sections: citations, signals and chunks.\<close>

definition missing_rows ::
    "ingest_env \<Rightarrow> present_row \<Rightarrow> ustr \<Rightarrow> (new_citation list \<times> new_signal list \<times> new_chunk list) step" where
  "missing_rows E p t =
     bindp (read_rows E (recorded_sections (pr_doc_id p) (ie_pipeline E))) (\<lambda>rows.
     bindp (if pr_cited p then read_rows E (recorded_citations (pr_doc_id p) (ie_pipeline E))
            else lift_result (citation_rows (ie_pass E) (pr_doc_id p) t rows)) (\<lambda>cites.
     bindp (if treated_at p (ie_pipeline E) then ret []
            else lift_result (signal_rows (ie_pass E) (pr_doc_id p) t rows cites)) (\<lambda>sigs.
     bindp (if pr_chunked p then ret []
            else (\<lambda>j. map_option (Pair j) (chunk_rows (ie_pass E) (pr_doc_id p) t rows cites))) (\<lambda>chunks.
       ret (cites, sigs, chunks)))))"

definition write_missing ::
    "ingest_env \<Rightarrow> present_row \<Rightarrow> new_citation list \<times> new_signal list \<times> new_chunk list \<Rightarrow> unit step" where
  "write_missing E p rows =
     (case rows of (cites, sigs, chunks) \<Rightarrow>
        let k = pr_doc_id p; v = ie_pipeline E
        in bindp (when_p (\<not> pr_cited p)
             (bindp (transact E (citation_statements k v cites @ [Mark_cited k])) (\<lambda>_.
                tick (\<lambda>q. q\<lparr>pg_cited := pg_cited q + 1\<rparr>)))) (\<lambda>_.
           bindp (when_p (\<not> treated_at p v)
             (bindp (transact E (signal_statements k v sigs @ [Mark_treated k v])) (\<lambda>_.
                tick (\<lambda>q. q\<lparr>pg_treated := pg_treated q + 1, pg_signalled := pg_signalled q + length sigs\<rparr>)))) (\<lambda>_.
           when_p (\<not> pr_chunked p)
             (bindp (transact E (chunk_statements k chunks)) (\<lambda>_.
                tick (\<lambda>q. q\<lparr>pg_chunked := pg_chunked q + 1\<rparr>))))))"

definition anchor_step ::
    "ingest_env \<Rightarrow> ustr \<Rightarrow> ustr \<Rightarrow> bool \<Rightarrow> string \<Rightarrow> parsed \<Rightarrow> (new_anchor list \<times> nat \<times> nat) step" where
  "anchor_step E k opinion_type per_curiam column T =
     (let D = ie_pass E
      in lift_result (bind_result
           (section_rows (dp_sha D) k (dp_version D)
              (segment (dp_order D) (dp_ucd D) T (Some opinion_type) per_curiam (ulit column)))
           (\<lambda>(rows, secs). anchor_rows (dp_ucd D) (dp_sha D) k (dp_version D) T secs)))"

definition backfill :: "ingest_env \<Rightarrow> present_row \<Rightarrow> ustr \<Rightarrow> bool \<Rightarrow> unit step" where
  "backfill E p opinion_type per_curiam =
     (let k = pr_doc_id p; v = ie_pipeline E
      in case pr_canonical p of
           None \<Rightarrow> raise ''text-mismatch''
         | Some canonical \<Rightarrow>
             if \<not> pr_sectioned p then
               bindp (read_original E p) (\<lambda>(column, T).
               bindp (walk_step E k opinion_type per_curiam column T) (\<lambda>W.
               bindp (transact E (write_walk_statements k v W)) (\<lambda>_.
                 tick (\<lambda>q. count_walk W (q\<lparr>pg_sectioned := pg_sectioned q + 1\<rparr>)))))
             else if pr_anchored p then
               bindp (get_bytes E canonical) (\<lambda>b.
               bindp (lift_result (case utf8_decode b of Inl e \<Rightarrow> Inl ''text-mismatch'' | Inr t \<Rightarrow> Inr t)) (\<lambda>t.
               bindp (missing_rows E p t) (write_missing E p)))
             else
               bindp (read_original E p) (\<lambda>(column, T).
               bindp (anchor_step E k opinion_type per_curiam column T) (\<lambda>(anchors, checked, disagreeing).
               bindp (missing_rows E p (pd_text T)) (\<lambda>rows.
               bindp (transact E (anchor_statements k v anchors @ [Mark_anchored k])) (\<lambda>_.
               bindp (tick (\<lambda>q. q\<lparr>pg_anchored := pg_anchored q + 1, pg_pgmap_checked := pg_pgmap_checked q + checked,
                   pg_pgmap_disagreeing := pg_pgmap_disagreeing q + disagreeing\<rparr>)) (\<lambda>_.
                 write_missing E p rows))))))"

section \<open>One staged row\<close>

definition MAX_ATTEMPTS :: nat where "MAX_ATTEMPTS = 2"

definition GIVEN_BACK :: "string list" where
  "GIVEN_BACK = [''store'', ''database'', ''local'', ''segmenter'', ''anchors'', ''citations'', ''treatment'', ''chunker'']"

text \<open>\<open>int(value)\<close> of a positive integer of ASCII digits; more digits than the interpreter reads are malformed too.\<close>

definition MAX_INT_DIGITS :: nat where "MAX_INT_DIGITS = 4300"

definition positive_integer :: "ustr \<Rightarrow> int result" where
  "positive_integer v =
     (if v = [] \<or> \<not> list_all (\<lambda>c. 48 \<le> c \<and> c \<le> 57) v \<or> MAX_INT_DIGITS < length v then Inl ''malformed''
      else let n = fold (\<lambda>c n. 10 * n + int (c - 48)) v 0 in if n < 1 then Inl ''malformed'' else Inr n)"

record staged_row =
  sr_id :: ustr
  sr_cluster_id :: ustr
  sr_type :: ustr
  sr_per_curiam :: ustr
  sr_texts :: "string \<Rightarrow> ustr"

definition precedential_of :: "ustr \<Rightarrow> string" where
  "precedential_of raw =
     (if raw = ulit ''Published'' then ''published'' else if raw = ulit ''Unpublished'' then ''unpublished''
      else ''unknown'')"

definition document_id :: "ingest_env \<Rightarrow> int \<Rightarrow> ustr result" where
  "document_id E opinion_id =
     map_result (dp_sha (ie_pass E))
       (utf8_encode (ulit ''caselaw'' @ [10] @ int_decimal opinion_id @ [10] @ ie_snapshot E))"

text \<open>The document and opinion an opinion without one begins with.\<close>

definition begin_statements ::
    "ingest_env \<Rightarrow> int \<Rightarrow> int \<Rightarrow> ustr \<Rightarrow> bool \<Rightarrow> (string \<times> ustr) option \<Rightarrow> (ustr \<times> statement list) result" where
  "begin_statements E opinion_id cluster_id opinion_type per_curiam choice =
     (case ie_clusters E cluster_id of
        None \<Rightarrow> Inl ''stage-mismatch''
      | Some cl \<Rightarrow>
          (case ie_dockets E (cl_docket_id cl) of
             None \<Rightarrow> Inl ''stage-mismatch''
           | Some dk \<Rightarrow>
               if dk_court dk \<noteq> ie_court E then Inl ''stage-mismatch''
               else map_result (\<lambda>k. (k,
                 [Begin_document \<lparr>nd_doc_id = k, nd_profile = ''caselaw'', nd_source = ie_source E,
                    nd_source_snapshot = ie_snapshot E, nd_text_source = map_option fst choice\<rparr>,
                  Begin_opinion \<lparr>no_opinion_id = opinion_id, no_doc_id = k, no_court = ie_court E,
                    no_cluster_id = cluster_id, no_docket = dk_number dk, no_decided_date = cl_decided_date cl,
                    no_decided_date_is_approximate = cl_approximate cl,
                    no_precedential = precedential_of (cl_precedential_raw cl),
                    no_precedential_raw = cl_precedential_raw cl,
                    no_reporter_cites = ie_reporter_cites E cluster_id, no_opinion_type = opinion_type,
                    no_case_name = Some (cl_case_name cl), no_per_curiam = Some per_curiam\<rparr>]))
                 (document_id E opinion_id)))"

definition complete :: "present_row \<Rightarrow> ustr \<Rightarrow> bool" where
  "complete p v \<longleftrightarrow> pr_sectioned p \<and> pr_anchored p \<and> pr_cited p \<and> treated_at p v \<and> pr_chunked p"

definition suppressed :: "unit step \<Rightarrow> unit step" where  \<comment> \<open>\<open>suppress(CaselawFailure, psycopg.Error)\<close>\<close>
  "suppressed m = catch m (\<lambda>_. skip)"

text \<open>A parse under way: a refusal of the job gives the attempt back before it is raised again.\<close>

definition attempted :: "ingest_env \<Rightarrow> ustr \<Rightarrow> unit step \<Rightarrow> unit step" where
  "attempted E k m =
     catch m (\<lambda>e. if e \<in> set GIVEN_BACK then bindp (suppressed (transact E [Give_back k])) (\<lambda>_. raise e) else raise e)"

definition named_and_flagged :: "ingest_env \<Rightarrow> present_row option \<Rightarrow> int \<Rightarrow> bool \<Rightarrow> unit step" where
  "named_and_flagged E previous cluster_id per_curiam =
     (case previous of
        None \<Rightarrow> skip
      | Some p \<Rightarrow>
          if pr_status p \<noteq> ''ready'' then skip
          else bindp (when_p (\<not> pr_named p)
            (case ie_clusters E cluster_id of
               None \<Rightarrow> raise ''stage-mismatch''
             | Some cl \<Rightarrow> bindp (transact E [Set_name (pr_doc_id p) (cl_case_name cl)]) (\<lambda>_.
                 tick (\<lambda>q. q\<lparr>pg_named := pg_named q + 1\<rparr>)))) (\<lambda>_.
            when_p (\<not> pr_flagged p)
              (bindp (transact E [Set_flag (pr_doc_id p) per_curiam]) (\<lambda>_.
                 tick (\<lambda>q. q\<lparr>pg_flagged := pg_flagged q + 1\<rparr>)))))"

definition process_opinion ::
    "ingest_env \<Rightarrow> present_row option \<Rightarrow> int \<Rightarrow> int \<Rightarrow> ustr \<Rightarrow> bool \<Rightarrow> (string \<times> ustr) option \<Rightarrow> unit step" where
  "process_opinion E previous opinion_id cluster_id opinion_type per_curiam choice =
     bindp (named_and_flagged E previous cluster_id per_curiam) (\<lambda>_.
       case previous of
         None \<Rightarrow>
           bindp (lift_result (begin_statements E opinion_id cluster_id opinion_type per_curiam choice)) (\<lambda>(k, stmts).
           bindp (transact E stmts) (\<lambda>_. attempted E k (parse_opinion E k choice opinion_type per_curiam)))
       | Some p \<Rightarrow>
           if pr_status p = ''ready'' \<and> \<not> complete p (ie_pipeline E) then backfill E p opinion_type per_curiam
           else if pr_status p \<noteq> ''processing'' then tick (\<lambda>q. q\<lparr>pg_present := pg_present q + 1\<rparr>)
           else if MAX_ATTEMPTS \<le> pr_attempts p then
             bindp (finish_failed E (pr_doc_id p) ''interrupted'' None) (\<lambda>_.
               tick (\<lambda>q. q\<lparr>pg_interrupted := pg_interrupted q + 1\<rparr>))
           else
             bindp (transact E [Retry (pr_doc_id p)]) (\<lambda>_.
             attempted E (pr_doc_id p)
               (bindp (tick (\<lambda>q. q\<lparr>pg_retried := pg_retried q + 1\<rparr>)) (\<lambda>_.
                  parse_opinion E (pr_doc_id p) choice opinion_type per_curiam))))"

definition process_row :: "ingest_env \<Rightarrow> (int \<Rightarrow> present_row option) \<Rightarrow> staged_row \<Rightarrow> unit step" where
  "process_row E known r =
     bindp (tick (\<lambda>q. q\<lparr>pg_seen := pg_seen q + 1\<rparr>)) (\<lambda>_.
     bindp (lift_result (positive_integer (sr_id r))) (\<lambda>opinion_id.
     bindp (lift_result (positive_integer (sr_cluster_id r))) (\<lambda>cluster_id.
     if sr_per_curiam r \<notin> {ulit ''t'', ulit ''f''} then raise ''malformed''
     else process_opinion E (known opinion_id) opinion_id cluster_id (sr_type r) (sr_per_curiam r = ulit ''t'')
       (choose_source (dp_ucd (ie_pass E)) (\<lambda>name. Some (sr_texts r name))))))"

primrec process_rows :: "ingest_env \<Rightarrow> (int \<Rightarrow> present_row option) \<Rightarrow> staged_row list \<Rightarrow> unit step" where
  "process_rows E known [] = skip"
| "process_rows E known (r # rs) = bindp (process_row E known r) (\<lambda>_. process_rows E known rs)"

text \<open>The opinions of a court, at most \<open>limit\<close> of them; what is known of them is read once, before the first.\<close>

definition ingest_rows :: "ingest_env \<Rightarrow> nat option \<Rightarrow> staged_row list \<Rightarrow> unit step" where
  "ingest_rows E limit rows =
     bindp (read_rows E (\<lambda>b. present b (ie_source E) (ie_snapshot E) (ie_court E) (ie_pipeline E))) (\<lambda>known.
       process_rows E known (case limit of None \<Rightarrow> rows | Some n \<Rightarrow> take n rows))"

section \<open>What the statements of a document change\<close>

lemma exec_all_append: "exec_all (xs @ ys) b = Option.bind (exec_all xs b) (exec_all ys)"
proof (induction xs arbitrary: b)
  case (Cons x xs)
  then show ?case by (cases "exec x b") simp_all
qed simp

lemma exec_inserts:
  "exec_all (map (Insert_section k p) ss) b = Some (b\<lparr>db_sections := db_sections b @ map (\<lambda>r. (k, p, r)) ss\<rparr>)"
  "exec_all (map (Insert_anchor k p) as) b = Some (b\<lparr>db_anchors := db_anchors b @ map (\<lambda>r. (k, p, r)) as\<rparr>)"
  "exec_all (map (Insert_citation k p) cs) b = Some (b\<lparr>db_citations := db_citations b @ map (\<lambda>r. (k, p, r)) cs\<rparr>)"
  "exec_all (map (Insert_chunk k) ks) b = Some (b\<lparr>db_chunks := db_chunks b @ map (Pair k) ks\<rparr>)"
  by (induction ss arbitrary: b) (simp_all, induction as arbitrary: b, simp_all, induction cs arbitrary: b, simp_all,
    induction ks arbitrary: b, simp_all)

lemma exec_signals: "\<exists>gs. exec_all (map (Insert_signal k p) rs) b = Some (b\<lparr>db_signals := gs\<rparr>)"
proof (induction rs arbitrary: b)
  case (Cons r rs)
  obtain x where x: "exec (Insert_signal k p r) b = Some (b\<lparr>db_signals := x\<rparr>)"
    by (cases "list_ex (\<lambda>(_, _, s). sg_citation_id s = sg_citation_id r \<and> sg_signal_source s = sg_signal_source r \<and>
          sg_pattern_set s = sg_pattern_set r) (db_signals b)") (auto intro: that [of "db_signals b"] that)
  from Cons.IH [of "b\<lparr>db_signals := x\<rparr>"] x show ?case by auto
next
  case Nil
  show ?case by (cases b) auto
qed

lemma exec_updates [simp]:
  "db_documents (update_document k f b) = (db_documents b)(k := map_option f (db_documents b k))"
  "db_opinions (update_document k f b) = db_opinions b" "db_sections (update_document k f b) = db_sections b"
  "db_citations (update_document k f b) = db_citations b" "db_chunks (update_document k f b) = db_chunks b"
  "db_documents (update_opinion k g b) = db_documents b" "db_sections (update_opinion k g b) = db_sections b"
  "db_opinions (update_opinion k g b) = map (\<lambda>n. if no_doc_id n = k then g n else n) (db_opinions b)"
  "db_citations (update_opinion k g b) = db_citations b" "db_chunks (update_opinion k g b) = db_chunks b"
  by (auto simp: update_document_def update_opinion_def fun_eq_iff)

text \<open>What the ready statements and the whole walk's statements leave of a document.\<close>

lemma finish_ready_effect:
  assumes "exec_all (finish_ready_statements k p digest canonical W) b = Some b'"
  shows "db_documents b' = (db_documents b)(k := map_option (finished_ready p digest canonical) (db_documents b k)) \<and>
    db_opinions b' = db_opinions b \<and>
    db_sections b' = db_sections b @ map (\<lambda>r. (k, p, r)) (sort_key (\<lambda>r. ns_parent_section_id r \<noteq> None) (wk_sections W)) \<and>
    db_chunks b' = db_chunks b @ map (Pair k) (wk_chunks W) \<and>
    db_citations b' = db_citations b @ map (\<lambda>r. (k, p, r)) (wk_citations W)"
proof -
  obtain gs where "exec_all (map (Insert_signal k p) (wk_signals W))
      ((update_document k (finished_ready p digest canonical) b)
        \<lparr>db_sections := db_sections b @ map (\<lambda>r. (k, p, r)) (sort_key (\<lambda>r. ns_parent_section_id r \<noteq> None) (wk_sections W)),
         db_anchors := db_anchors (update_document k (finished_ready p digest canonical) b) @ map (\<lambda>r. (k, p, r)) (wk_anchors W),
         db_citations := db_citations b @ map (\<lambda>r. (k, p, r)) (wk_citations W)\<rparr>) =
    Some ((update_document k (finished_ready p digest canonical) b)
        \<lparr>db_sections := db_sections b @ map (\<lambda>r. (k, p, r)) (sort_key (\<lambda>r. ns_parent_section_id r \<noteq> None) (wk_sections W)),
         db_anchors := db_anchors (update_document k (finished_ready p digest canonical) b) @ map (\<lambda>r. (k, p, r)) (wk_anchors W),
         db_citations := db_citations b @ map (\<lambda>r. (k, p, r)) (wk_citations W), db_signals := gs\<rparr>)"
    using exec_signals by fastforce
  with assms show ?thesis
    by (auto simp: finish_ready_statements_def section_statements_def anchor_statements_def citation_statements_def
        signal_statements_def chunk_statements_def exec_all_append exec_inserts)
qed

lemma write_walk_effect:
  assumes "exec_all (write_walk_statements k p W) b = Some b'"
  shows "db_documents b' = (db_documents b)(k := map_option (\<lambda>d. mark_treated p (d\<lparr>do_anchored := True, do_cited := True\<rparr>)) (db_documents b k)) \<and>
    db_opinions b' = db_opinions b \<and>
    db_sections b' = db_sections b @ map (\<lambda>r. (k, p, r)) (sort_key (\<lambda>r. ns_parent_section_id r \<noteq> None) (wk_sections W)) \<and>
    db_chunks b' = db_chunks b @ map (Pair k) (wk_chunks W) \<and>
    db_citations b' = db_citations b @ map (\<lambda>r. (k, p, r)) (wk_citations W)"
proof -
  obtain gs where "exec_all (map (Insert_signal k p) (wk_signals W))
      (b\<lparr>db_sections := db_sections b @ map (\<lambda>r. (k, p, r)) (sort_key (\<lambda>r. ns_parent_section_id r \<noteq> None) (wk_sections W)),
         db_anchors := db_anchors b @ map (\<lambda>r. (k, p, r)) (wk_anchors W),
         db_citations := db_citations b @ map (\<lambda>r. (k, p, r)) (wk_citations W)\<rparr>) =
    Some (b\<lparr>db_sections := db_sections b @ map (\<lambda>r. (k, p, r)) (sort_key (\<lambda>r. ns_parent_section_id r \<noteq> None) (wk_sections W)),
         db_anchors := db_anchors b @ map (\<lambda>r. (k, p, r)) (wk_anchors W),
         db_citations := db_citations b @ map (\<lambda>r. (k, p, r)) (wk_citations W), db_signals := gs\<rparr>)"
    using exec_signals by fastforce
  with assms show ?thesis
    by (auto simp: write_walk_statements_def section_statements_def anchor_statements_def citation_statements_def
        signal_statements_def chunk_statements_def exec_all_append exec_inserts option.map_comp comp_def)
qed

section \<open>The rows of a walk are there\<close>

lemma new_rows_pipeline:
  "new_rows (new_row sha k P t sec tokens) n sps = Inr added \<Longrightarrow> \<forall>r \<in> set added. ck_pipeline r = pl_version P"
proof (induction sps arbitrary: n added)
  case (Cons sp sps)
  then show ?case by (auto simp: bind_result_Inr_iff map_result_Inr_iff new_row_def Let_def)
qed simp

lemma chunk_from_pipeline:
  "chunk_from U sha k P t cites tokens rows0 secs = Some (Inr rows) \<Longrightarrow> \<forall>r \<in> set rows0. ck_pipeline r = pl_version P \<Longrightarrow>
     \<forall>r \<in> set rows. ck_pipeline r = pl_version P"
proof (induction secs arbitrary: rows0)
  case (Cons sec secs)
  from Cons.prems(1) obtain us where us: "units U t tokens (pl_chunk_maximum P) cites sec = Inr us"
    by (cases "units U t tokens (pl_chunk_maximum P) cites sec") auto
  show ?case
  proof (cases "us = []")
    case True
    with Cons us show ?thesis by simp
  next
    case False
    with Cons.prems(1) us obtain g where g: "groups t us P tokens = Some g"
      by (cases "groups t us P tokens") auto
    with Cons.prems(1) us False obtain gs where gs: "g = Inr gs" by (cases g) auto
    with Cons.prems(1) us False g obtain added where
      added: "new_rows (new_row sha k P t sec tokens) (length rows0) (map (group_span us) gs) = Inr added"
      and later: "chunk_from U sha k P t cites tokens (rows0 @ added) secs = Some (Inr rows)"
      by (auto split: sum.splits)
    show ?thesis using new_rows_pipeline [OF added] Cons.prems(2) by (intro Cons.IH [OF later]) auto
  qed
qed simp

definition walked :: "ingest_env \<Rightarrow> ustr \<Rightarrow> walk_rows \<Rightarrow> bool" where
  "walked E k W \<longleftrightarrow> (\<exists>ty pc column raw T. walk_source (dp_ucd (ie_pass E)) (ie_reader E) column raw = Inr T \<and>
     whole_walk (ie_pass E) k ty pc column T = Some (Inr W))"

text \<open>What the theorems ask of the collaborators: sets are iterated, and the newline is white space.\<close>

definition sound_env :: "ingest_env \<Rightarrow> bool" where
  "sound_env E \<longleftrightarrow> iterates (dp_order (ie_pass E)) \<and> uc_space (dp_ucd (ie_pass E)) 10"

lemma walked_rows:
  assumes "walked E k W" and "sound_env E"
  shows "wk_sections W \<noteq> [] \<and> wk_chunks W \<noteq> [] \<and> (\<forall>c \<in> set (wk_chunks W). ck_pipeline c = ie_pipeline E)"
proof -
  let ?U = "dp_ucd (ie_pass E)"
  from assms(1) obtain ty pc column raw T where
    T: "walk_source ?U (ie_reader E) column raw = Inr T" "whole_walk (ie_pass E) k ty pc column T = Some (Inr W)"
    unfolding walked_def by blast
  from walk_source_returns [of ?U "ie_reader E" column raw] T(1) have blank: "strip ?U (pd_text T) \<noteq> []" by simp
  note kept = walk_text [OF T(2) conjunct1 [OF assms(2) [unfolded sound_env_def]] conjunct2 [OF assms(2) [unfolded sound_env_def]]]
  from blank have "\<not> list_all (uc_space ?U) (pd_text T)" by (simp add: strip_def strip_by_Nil_iff)
  then have ink: "filter (\<lambda>c. \<not> uc_space ?U c) (pd_text T) \<noteq> []" by (auto simp: filter_empty_conv list_all_iff)
  with kept have "wk_chunks W \<noteq> []" by auto
  moreover from ink have "pd_text T \<noteq> []" by auto
  with kept have "wk_sections W \<noteq> []" by auto
  moreover from whole_walk_Inr [OF T(2)] obtain secs where
    "chunk_rows (ie_pass E) k (pd_text T) (wk_sections W) (wk_citations W) = Some (Inr (wk_chunks W))" by blast
  then have chunked: "chunk_from ?U (dp_sha (ie_pass E)) k (dp_pipeline (ie_pass E)) (pd_text T) (spans_of (wk_citations W))
      (dp_tokens (ie_pass E)) [] (map row_span_of (wk_sections W)) = Some (Inr (wk_chunks W))"
    by (auto simp: chunk_rows_def chunk_def)
  have "\<forall>c \<in> set (wk_chunks W). ck_pipeline c = ie_pipeline E"
    by (rule chunk_from_pipeline [OF chunked]) simp
  ultimately show ?thesis by blast
qed

end
