(* ===== verification/Worker_Record.thy ===== *)
theory Worker_Record
  imports Worker_Ingest
begin

text \<open>
  What an ingest does to the record, as a state machine. Each transaction of \<open>gideon/worker/caselaw.py\<close> is a
  step with the state it may run on; a run of the job is shown to be a sequence of those steps, and the facts about
  the record are invariants of the steps.
\<close>

section \<open>The steps\<close>

definition in_status :: "database \<Rightarrow> ustr \<Rightarrow> string \<Rightarrow> bool" where
  "in_status b k status \<longleftrightarrow> map_option do_status (db_documents b k) = Some status"

definition attempts_of :: "database \<Rightarrow> ustr \<Rightarrow> nat" where
  "attempts_of b k = (case db_documents b k of None \<Rightarrow> 0 | Some d \<Rightarrow> do_attempts d)"

definition is_cited :: "database \<Rightarrow> ustr \<Rightarrow> bool" where
  "is_cited b k \<longleftrightarrow> (case db_documents b k of None \<Rightarrow> False | Some d \<Rightarrow> do_cited d)"

definition FAILURES :: "string list" where  \<comment> \<open>the reasons the documents table admits\<close>
  "FAILURES = [''no-text'', ''unparseable'', ''empty'', ''illegible'', ''interrupted'']"

text \<open>A digest is the hash of some bytes; a column is one of the staged text columns.\<close>

definition hashed :: "ingest_env \<Rightarrow> ustr \<Rightarrow> bool" where
  "hashed E x \<longleftrightarrow> x \<in> range (dp_sha (ie_pass E))"

definition column_chosen :: "(string \<times> ustr) option \<Rightarrow> bool" where
  "column_chosen choice \<longleftrightarrow> (case choice of None \<Rightarrow> True | Some (column, _) \<Rightarrow> column \<in> set TEXT_SOURCES)"

inductive record_step :: "ingest_env \<Rightarrow> database \<Rightarrow> database \<Rightarrow> bool" for E :: ingest_env where
  begins: "begin_statements E i c ty pc choice = Inr (k, stmts) \<Longrightarrow> column_chosen choice \<Longrightarrow> exec_all stmts b = Some b' \<Longrightarrow> record_step E b b'"
| retries: "in_status b k ''processing'' \<Longrightarrow> attempts_of b k < MAX_ATTEMPTS \<Longrightarrow>
    exec_all [Retry k] b = Some b' \<Longrightarrow> record_step E b b'"
| gives_back: "in_status b k ''processing'' \<Longrightarrow> exec_all [Give_back k] b = Some b' \<Longrightarrow> record_step E b b'"
| fails: "in_status b k ''processing'' \<Longrightarrow> reason \<in> set FAILURES \<Longrightarrow>
    (case digest of None \<Rightarrow> True | Some x \<Rightarrow> hashed E x) \<Longrightarrow> exec_all [Finish_failed k reason digest] b = Some b' \<Longrightarrow> record_step E b b'"
| readies: "in_status b k ''processing'' \<Longrightarrow> walked E k W \<Longrightarrow> hashed E digest \<Longrightarrow> hashed E canonical \<Longrightarrow>
    exec_all (finish_ready_statements k (ie_pipeline E) digest canonical W) b = Some b' \<Longrightarrow> record_step E b b'"
| names: "in_status b k ''ready'' \<Longrightarrow> exec_all [Set_name k name] b = Some b' \<Longrightarrow> record_step E b b'"
| flags: "in_status b k ''ready'' \<Longrightarrow> exec_all [Set_flag k flag] b = Some b' \<Longrightarrow> record_step E b b'"
| walks: "in_status b k ''ready'' \<Longrightarrow> walked E k W \<Longrightarrow>
    exec_all (write_walk_statements k (ie_pipeline E) W) b = Some b' \<Longrightarrow> record_step E b b'"
| anchors: "in_status b k ''ready'' \<Longrightarrow>
    exec_all (anchor_statements k (ie_pipeline E) as @ [Mark_anchored k]) b = Some b' \<Longrightarrow> record_step E b b'"
| cites: "in_status b k ''ready'' \<Longrightarrow>
    exec_all (citation_statements k (ie_pipeline E) cs @ [Mark_cited k]) b = Some b' \<Longrightarrow> record_step E b b'"
| treats: "in_status b k ''ready'' \<Longrightarrow> is_cited b k \<Longrightarrow>
    exec_all (signal_statements k (ie_pipeline E) gs @ [Mark_treated k (ie_pipeline E)]) b = Some b' \<Longrightarrow> record_step E b b'"
| chunks: "in_status b k ''ready'' \<Longrightarrow> exec_all (chunk_statements k ks) b = Some b' \<Longrightarrow> record_step E b b'"

abbreviation record_steps :: "ingest_env \<Rightarrow> database \<Rightarrow> database \<Rightarrow> bool" where
  "record_steps E \<equiv> (record_step E)\<^sup>*\<^sup>*"

section \<open>What one statement does to a document\<close>

text \<open>The document a statement is about, and everything the record holds of one.\<close>

primrec statement_doc :: "statement \<Rightarrow> ustr" where
  "statement_doc (Begin_document n) = nd_doc_id n"
| "statement_doc (Begin_opinion n) = no_doc_id n"
| "statement_doc (Set_name k _) = k"
| "statement_doc (Set_flag k _) = k"
| "statement_doc (Retry k) = k"
| "statement_doc (Give_back k) = k"
| "statement_doc (Finish_ready k _ _ _) = k"
| "statement_doc (Finish_failed k _ _) = k"
| "statement_doc (Insert_section k _ _) = k"
| "statement_doc (Insert_anchor k _ _) = k"
| "statement_doc (Mark_anchored k) = k"
| "statement_doc (Insert_citation k _ _) = k"
| "statement_doc (Mark_cited k) = k"
| "statement_doc (Insert_signal k _ _) = k"
| "statement_doc (Insert_chunk k _) = k"
| "statement_doc (Mark_treated k _) = k"

record doc_view =
  dv_document :: "document option"
  dv_opinions :: "new_opinion list"
  dv_sections :: "(ustr \<times> ustr \<times> new_section) list"
  dv_anchors :: "(ustr \<times> ustr \<times> new_anchor) list"
  dv_citations :: "(ustr \<times> ustr \<times> new_citation) list"
  dv_signals :: "(ustr \<times> ustr \<times> new_signal) list"
  dv_chunks :: "(ustr \<times> new_chunk) list"

definition doc_view :: "database \<Rightarrow> ustr \<Rightarrow> doc_view" where
  "doc_view b k = \<lparr>dv_document = db_documents b k, dv_opinions = filter (\<lambda>n. no_doc_id n = k) (db_opinions b),
     dv_sections = filter (\<lambda>r. fst r = k) (db_sections b), dv_anchors = filter (\<lambda>r. fst r = k) (db_anchors b),
     dv_citations = filter (\<lambda>r. fst r = k) (db_citations b), dv_signals = filter (\<lambda>r. fst r = k) (db_signals b),
     dv_chunks = filter (\<lambda>r. fst r = k) (db_chunks b)\<rparr>"

lemma filter_map_unchanged:
  "(\<And>x. p (g x) \<longleftrightarrow> p x) \<Longrightarrow> (\<And>x. p x \<Longrightarrow> g x = x) \<Longrightarrow> filter p (map g xs) = filter p xs"
  by (induction xs) auto

lemma opinions_frame:
  assumes "k' \<noteq> k" "\<And>n. no_doc_id (f n) = no_doc_id n"
  shows "filter (\<lambda>n. no_doc_id n = k) (db_opinions (update_opinion k' f b)) = filter (\<lambda>n. no_doc_id n = k) (db_opinions b)"
  unfolding exec_updates by (rule filter_map_unchanged) (use assms in auto)

lemma exec_frame:
  assumes "exec x b = Some b'" "statement_doc x \<noteq> k"
  shows "doc_view b' k = doc_view b k"
proof (cases x)
  case (Set_name k' name)
  with assms have b': "b' = update_opinion k' (\<lambda>n. n\<lparr>no_case_name := Some name\<rparr>) b" "k' \<noteq> k" by auto
  from opinions_frame [OF b'(2), of "\<lambda>n. n\<lparr>no_case_name := Some name\<rparr>"] show ?thesis
    unfolding b'(1) by (simp add: doc_view_def update_opinion_def)
next
  case (Set_flag k' flag)
  with assms have b': "b' = update_opinion k' (\<lambda>n. n\<lparr>no_per_curiam := Some flag\<rparr>) b" "k' \<noteq> k" by auto
  from opinions_frame [OF b'(2), of "\<lambda>n. n\<lparr>no_per_curiam := Some flag\<rparr>"] show ?thesis
    unfolding b'(1) by (simp add: doc_view_def update_opinion_def)
qed (use assms in \<open>auto simp: doc_view_def update_document_def split: if_splits\<close>)

lemma exec_all_frame:
  "exec_all xs b = Some b' \<Longrightarrow> \<forall>x \<in> set xs. statement_doc x \<noteq> k \<Longrightarrow> doc_view b' k = doc_view b k"
proof (induction xs arbitrary: b)
  case (Cons x xs)
  then show ?case by (auto simp: Option.bind_eq_Some_conv) (metis exec_frame)
qed simp

section \<open>What a step of the job does to the record\<close>

text \<open>\<open>leads E k P m Q X\<close>: from a record of \<open>P\<close>, \<open>m\<close> takes the record through steps, leaves every document but
  \<open>k\<close> alone, and ends in \<open>Q\<close> of what it returned or, where it raised, in \<open>X\<close>.\<close>

definition leads :: "ingest_env \<Rightarrow> ustr \<Rightarrow> (database \<Rightarrow> bool) \<Rightarrow> 'a step \<Rightarrow> ('a \<Rightarrow> database \<Rightarrow> bool) \<Rightarrow>
    (database \<Rightarrow> bool) \<Rightarrow> bool" where
  "leads E k P m Q X \<longleftrightarrow> (\<forall>j j' r. P (jb_db j) \<longrightarrow> m j = Some (j', r) \<longrightarrow>
     record_steps E (jb_db j) (jb_db j') \<and> (\<forall>k'. k' \<noteq> k \<longrightarrow> doc_view (jb_db j') k' = doc_view (jb_db j) k') \<and>
     (case r of Inr x \<Rightarrow> Q x (jb_db j') | Inl _ \<Rightarrow> X (jb_db j')))"

lemma leadsI:
  "(\<And>j j' r. P (jb_db j) \<Longrightarrow> m j = Some (j', r) \<Longrightarrow> record_steps E (jb_db j) (jb_db j') \<and>
      (\<forall>k'. k' \<noteq> k \<longrightarrow> doc_view (jb_db j') k' = doc_view (jb_db j) k') \<and>
      (case r of Inr x \<Rightarrow> Q x (jb_db j') | Inl _ \<Rightarrow> X (jb_db j'))) \<Longrightarrow> leads E k P m Q X"
  by (simp add: leads_def)

lemma leadsD:
  assumes "leads E k P m Q X" "P (jb_db j)" "m j = Some (j', r)"
  shows "record_steps E (jb_db j) (jb_db j')"
    and "\<And>k'. k' \<noteq> k \<Longrightarrow> doc_view (jb_db j') k' = doc_view (jb_db j) k'"
    and "\<And>x. r = Inr x \<Longrightarrow> Q x (jb_db j')" and "\<And>e. r = Inl e \<Longrightarrow> X (jb_db j')"
  using assms by (force simp: leads_def)+

lemma leads_bindp:
  assumes "leads E k P m R X" "\<And>x. leads E k (R x) (f x) Q X"
  shows "leads E k P (bindp m f) Q X"
proof (rule leadsI)
  fix j j' r assume P: "P (jb_db j)" and run: "bindp m f j = Some (j', r)"
  then consider e where "m j = Some (j', Inl e)" "r = Inl e" | j1 x where "m j = Some (j1, Inr x)" "f x j1 = Some (j', r)"
    unfolding bindp_Some_iff by blast
  then show "record_steps E (jb_db j) (jb_db j') \<and> (\<forall>k'. k' \<noteq> k \<longrightarrow> doc_view (jb_db j') k' = doc_view (jb_db j) k') \<and>
      (case r of Inr x \<Rightarrow> Q x (jb_db j') | Inl _ \<Rightarrow> X (jb_db j'))"
  proof cases
    case 1
    from leadsD [OF assms(1) P 1(1)] 1(2) show ?thesis by simp
  next
    case 2
    note first = leadsD [OF assms(1) P 2(1)]
    note second = leadsD [OF assms(2) first(3) [OF refl] 2(2)]
    from first(1) second(1) have "record_steps E (jb_db j) (jb_db j')" by (rule rtranclp_trans)
    with first(2) second(2-4) show ?thesis by (cases r) auto
  qed
qed

lemma leads_still:
  assumes "\<And>j j' r. m j = Some (j', r) \<Longrightarrow> jb_db j' = jb_db j" "\<And>b. P b \<Longrightarrow> X b"
    and "\<And>j j' x. P (jb_db j) \<Longrightarrow> m j = Some (j', Inr x) \<Longrightarrow> Q x (jb_db j)"
  shows "leads E k P m Q X"
proof (rule leadsI)
  fix j j' r assume P: "P (jb_db j)" and run: "m j = Some (j', r)"
  have "case r of Inr x \<Rightarrow> Q x (jb_db j) | Inl _ \<Rightarrow> X (jb_db j)"
  proof (cases r)
    case (Inl e)
    with assms(2) [OF P] show ?thesis by simp
  next
    case (Inr x)
    with assms(3) [OF P, of j' x] run show ?thesis by simp
  qed
  then show "record_steps E (jb_db j) (jb_db j') \<and> (\<forall>k'. k' \<noteq> k \<longrightarrow> doc_view (jb_db j') k' = doc_view (jb_db j) k') \<and>
      (case r of Inr x \<Rightarrow> Q x (jb_db j') | Inl _ \<Rightarrow> X (jb_db j'))"
    unfolding assms(1) [OF run] by simp
qed

lemma leads_weaken:
  assumes "leads E k P m Q X" "\<And>b. P' b \<Longrightarrow> P b" "\<And>x b. Q x b \<Longrightarrow> Q' x b" "\<And>b. X b \<Longrightarrow> X' b"
  shows "leads E k P' m Q' X'"
proof (rule leadsI)
  fix j j' r assume P: "P' (jb_db j)" and run: "m j = Some (j', r)"
  note facts = leadsD [OF assms(1) assms(2) [OF P] run]
  from facts(3,4) assms(3,4) have "case r of Inr x \<Rightarrow> Q' x (jb_db j') | Inl _ \<Rightarrow> X' (jb_db j')" by (cases r) auto
  with facts(1,2) show "record_steps E (jb_db j) (jb_db j') \<and>
      (\<forall>k'. k' \<noteq> k \<longrightarrow> doc_view (jb_db j') k' = doc_view (jb_db j) k') \<and>
      (case r of Inr x \<Rightarrow> Q' x (jb_db j') | Inl _ \<Rightarrow> X' (jb_db j'))" by blast
qed

lemma transact_Some:
  assumes "transact E stmts j = Some (j', r)"
  shows "r = Inl ''database'' \<and> j' = j \<or> (\<exists>b. exec_all stmts (jb_db j) = Some b \<and> j' = j\<lparr>jb_db := b\<rparr> \<and> r = Inr ())"
  using assms unfolding transact_def by (auto split: option.splits if_splits)

lemma leads_transact:
  assumes "\<And>b b'. P b \<Longrightarrow> exec_all stmts b = Some b' \<Longrightarrow> record_step E b b' \<and> Q () b'"
    and "\<forall>x \<in> set stmts. statement_doc x = k" "\<And>b. P b \<Longrightarrow> X b"
  shows "leads E k P (transact E stmts) Q X"
proof (rule leadsI)
  fix j j' r assume P: "P (jb_db j)" and run: "transact E stmts j = Some (j', r)"
  from transact_Some [OF run] show "record_steps E (jb_db j) (jb_db j') \<and>
      (\<forall>k'. k' \<noteq> k \<longrightarrow> doc_view (jb_db j') k' = doc_view (jb_db j) k') \<and>
      (case r of Inr x \<Rightarrow> Q x (jb_db j') | Inl _ \<Rightarrow> X (jb_db j'))"
  proof (elim disjE exE conjE)
    assume "r = Inl ''database''" "j' = j"
    with P assms(3) show ?thesis by simp
  next
    fix b assume b: "exec_all stmts (jb_db j) = Some b" "j' = j\<lparr>jb_db := b\<rparr>" "r = Inr ()"
    from assms(2) have "doc_view b k' = doc_view (jb_db j) k'" if "k' \<noteq> k" for k'
      using that by (intro exec_all_frame [OF b(1)]) auto
    with assms(1) [OF P b(1)] b(2,3) show ?thesis by (simp add: r_into_rtranclp)
  qed
qed

lemma leads_ret: "(\<And>b. P b \<Longrightarrow> Q x b) \<Longrightarrow> leads E k P (ret x) Q X"
  by (auto simp: leads_def ret_def)

lemma leads_raise: "(\<And>b. P b \<Longrightarrow> X b) \<Longrightarrow> leads E k P (raise e) Q X"
  by (auto simp: leads_def raise_def)

lemma leads_tick: "(\<And>b. P b \<Longrightarrow> Q () b) \<Longrightarrow> leads E k P (tick f) Q X"
  by (auto simp: leads_def tick_def assign_def)

lemma leads_skip: "(\<And>b. P b \<Longrightarrow> Q () b) \<Longrightarrow> leads E k P skip Q X"
  unfolding skip_def by (rule leads_ret)

lemma leads_when: "(c \<Longrightarrow> leads E k P m Q X) \<Longrightarrow> (\<And>b. \<not> c \<Longrightarrow> P b \<Longrightarrow> Q () b) \<Longrightarrow> leads E k P (when_p c m) Q X"
  unfolding when_p_def by (auto intro: leads_skip)

lemma lift_result_simps: "lift_result (Inr x) = ret x" "lift_result (Inl e) = raise e"
  by (simp_all add: fun_eq_iff lift_result_def ret_def raise_def)

lemma leads_lift: "(\<And>b. P b \<Longrightarrow> X b) \<Longrightarrow> (\<And>x b. r = Inr x \<Longrightarrow> P b \<Longrightarrow> Q x b) \<Longrightarrow> leads E k P (lift_result r) Q X"
  by (auto simp: leads_def lift_result_def split: sum.splits)

lemma leads_put: "(\<And>b. P b \<Longrightarrow> X b) \<Longrightarrow> (\<And>x b. P b \<Longrightarrow> hashed E x \<Longrightarrow> Q x b) \<Longrightarrow> leads E k P (put_text E t) Q X"
  by (rule leads_still) (auto simp: put_text_def Let_def hashed_def split: sum.splits if_splits option.splits)

lemma leads_get: "(\<And>b. P b \<Longrightarrow> X b) \<Longrightarrow> (\<And>x b. P b \<Longrightarrow> n = dp_sha (ie_pass E) x \<Longrightarrow> Q x b) \<Longrightarrow> leads E k P (get_bytes E n) Q X"
  by (rule leads_still) (auto simp: get_bytes_def split: sum.splits if_splits option.splits)

lemma leads_walk_step:
  "(\<And>b. P b \<Longrightarrow> X b) \<Longrightarrow> (\<And>W b. whole_walk (ie_pass E) d ty pc column T = Some (Inr W) \<Longrightarrow> P b \<Longrightarrow> Q W b) \<Longrightarrow>
     leads E k P (walk_step E d ty pc column T) Q X"
  by (rule leads_still) (auto simp: walk_step_def)

lemma leads_given: "(c \<Longrightarrow> leads E k P m Q X) \<Longrightarrow> leads E k (\<lambda>b. P b \<and> c) m Q X"
  by (cases c) (simp_all add: leads_def)

text \<open>What follows a write to the store may use that its name is a hash.\<close>

lemma leads_hashed:
  assumes "\<And>b. P b \<Longrightarrow> X b" "\<And>x. hashed E x \<Longrightarrow> leads E k P (f x) Q X"
  shows "leads E k P (bindp (put_text E t) f) Q X"
proof (rule leads_bindp)
  show "leads E k P (put_text E t) (\<lambda>x b. P b \<and> hashed E x) X" by (rule leads_put) (simp_all add: assms(1))
  show "leads E k (\<lambda>b. P b \<and> hashed E x) (f x) Q X" for x by (rule leads_given [OF assms(2)])
qed

section \<open>The life of a document\<close>

text \<open>Where one document may go: it is begun, each of its attempts ends in a refusal that gives the attempt back or in
  an outcome, and a ready document is only ever completed.\<close>

inductive document_step :: "ingest_env \<Rightarrow> ustr \<Rightarrow> document option \<Rightarrow> document option \<Rightarrow> bool" for E k where
  born: "nd_doc_id n = k \<Longrightarrow> hashed E k \<Longrightarrow> nd_profile n = ''caselaw'' \<Longrightarrow>
    (case nd_text_source n of None \<Rightarrow> True | Some column \<Rightarrow> column \<in> set TEXT_SOURCES) \<Longrightarrow>
    document_step E k None (Some (begun n))"
| stays: "document_step E k d d"
| tried: "do_status d = ''processing'' \<Longrightarrow> do_attempts d < MAX_ATTEMPTS \<Longrightarrow>
    document_step E k (Some d) (Some (d\<lparr>do_attempts := do_attempts d + 1\<rparr>))"
| untried: "do_status d = ''processing'' \<Longrightarrow> document_step E k (Some d) (Some (d\<lparr>do_attempts := do_attempts d - 1\<rparr>))"
| failed: "do_status d = ''processing'' \<Longrightarrow> reason \<in> set FAILURES \<Longrightarrow>
    (case digest of None \<Rightarrow> True | Some x \<Rightarrow> hashed E x) \<Longrightarrow>
    document_step E k (Some d) (Some (finished_failed reason digest d))"
| readied: "do_status d = ''processing'' \<Longrightarrow> hashed E digest \<Longrightarrow> hashed E canonical \<Longrightarrow>
    document_step E k (Some d) (Some (finished_ready (ie_pipeline E) digest canonical d))"
| anchored: "do_status d = ''ready'' \<Longrightarrow> document_step E k (Some d) (Some (d\<lparr>do_anchored := True\<rparr>))"
| cited: "do_status d = ''ready'' \<Longrightarrow> document_step E k (Some d) (Some (d\<lparr>do_cited := True\<rparr>))"
| treated: "do_status d = ''ready'' \<Longrightarrow> do_cited d \<Longrightarrow>
    document_step E k (Some d) (Some (mark_treated (ie_pipeline E) d))"
| walked_again: "do_status d = ''ready'' \<Longrightarrow>
    document_step E k (Some d) (Some (mark_treated (ie_pipeline E) (d\<lparr>do_anchored := True, do_cited := True\<rparr>)))"

inductive_cases document_step_Some: "document_step E k (Some d) x"

lemma in_statusE:
  assumes "in_status b k s"
  obtains d where "db_documents b k = Some d" "do_status d = s"
  using assms by (auto simp: in_status_def)

lemma begin_statements_Inr:
  assumes "begin_statements E i c ty pc choice = Inr (k, stmts)"
  obtains n p where "stmts = [Begin_document n, Begin_opinion p]" "nd_doc_id n = k" "no_doc_id p = k" "no_opinion_id p = i"
    "nd_profile n = ''caselaw''" "no_court p = ie_court E" "nd_source n = ie_source E" "nd_source_snapshot n = ie_snapshot E"
    "hashed E k" "nd_text_source n = map_option fst choice"
proof -
  from assms obtain cl dk where found: "ie_clusters E c = Some cl" "ie_dockets E (cl_docket_id cl) = Some dk"
    "dk_court dk = ie_court E" by (auto simp: begin_statements_def split: option.splits if_splits)
  from assms found have k: "document_id E i = Inr k" by (auto simp: begin_statements_def map_result_Inr_iff)
  then have hash: "hashed E k" by (auto simp: document_id_def map_result_Inr_iff hashed_def)
  have stmts: "begin_statements E i c ty pc choice = Inr (k, [Begin_document n, Begin_opinion p]) \<Longrightarrow> stmts = [Begin_document n, Begin_opinion p]"
    for n p using assms by simp
  show thesis by (rule that [OF stmts], simp add: begin_statements_def found k) (simp_all add: hash)
qed

lemma begin_effect:
  assumes "begin_statements E i c ty pc choice = Inr (k, stmts)" "exec_all stmts b = Some b'"
  obtains n p where "db_documents b k = None" "b' = b\<lparr>db_documents := (db_documents b)(k := Some (begun n)), db_opinions := db_opinions b @ [p]\<rparr>"
    "nd_doc_id n = k" "nd_profile n = ''caselaw''" "no_doc_id p = k" "no_opinion_id p = i" "i \<notin> no_opinion_id ` set (db_opinions b)"
    "k \<notin> no_doc_id ` set (db_opinions b)" "hashed E k" "nd_text_source n = map_option fst choice"
    "no_court p = ie_court E" "nd_source n = ie_source E" "nd_source_snapshot n = ie_snapshot E"
proof -
  from begin_statements_Inr [OF assms(1)] obtain n p where np: "stmts = [Begin_document n, Begin_opinion p]" "nd_doc_id n = k"
    "no_doc_id p = k" "no_opinion_id p = i" "nd_profile n = ''caselaw''" "no_court p = ie_court E" "nd_source n = ie_source E"
    "nd_source_snapshot n = ie_snapshot E" "hashed E k" "nd_text_source n = map_option fst choice" .
  from assms(2) have run: "exec_all [Begin_document n, Begin_opinion p] b = Some b'" unfolding np(1) .
  have free: "db_documents b k = None"
  proof (rule ccontr)
    assume "db_documents b k \<noteq> None"
    with run np(2) show False by simp
  qed
  let ?b = "b\<lparr>db_documents := (db_documents b)(k := Some (begun n))\<rparr>"
  from run free np(2) have second: "exec (Begin_opinion p) ?b = Some b'" by (simp add: Option.bind_eq_Some_conv)
  have new: "\<not> list_ex (\<lambda>x. no_opinion_id x = i \<or> no_doc_id x = k) (db_opinions b)"
  proof
    assume "list_ex (\<lambda>x. no_opinion_id x = i \<or> no_doc_id x = k) (db_opinions b)"
    with second np(3,4) show False by simp
  qed
  with second np(3,4) have "b' = ?b\<lparr>db_opinions := db_opinions b @ [p]\<rparr>" by simp
  with free new np show thesis by (intro that) (auto simp: list_ex_iff)
qed

lemma signals_then:
  "exec_all (signal_statements k p gs @ stmts) b = Some b' \<Longrightarrow> \<exists>xs. exec_all stmts (b\<lparr>db_signals := xs\<rparr>) = Some b'"
  using exec_signals [of k p gs b] by (auto simp: signal_statements_def exec_all_append)

lemma update_document_at: "db_documents b k = Some d \<Longrightarrow> db_documents (update_document k f b) = (db_documents b)(k := Some (f d))"
  by simp

text \<open>The documents before and after a step.\<close>

lemma one_document:
  "document_step E k (D k) (Some d') \<Longrightarrow> D' = D(k := Some d') \<Longrightarrow>
     \<exists>k. document_step E k (D k) (D' k) \<and> D' = D(k := D' k)"
  by (intro exI [of _ k]) simp

lemma no_document: "D' = D \<Longrightarrow> \<exists>k. document_step E k (D k) (D' k) \<and> D' = D(k := D' k)"
  by (auto intro: document_step.stays)

lemma record_step_documents:
  assumes "record_step E b b'"
  shows "\<exists>k. document_step E k (db_documents b k) (db_documents b' k) \<and>
    db_documents b' = (db_documents b)(k := db_documents b' k)"
  using assms
proof cases
  case (begins i c ty pc choice k stmts)
  obtain n p where n: "db_documents b k = None"
    "b' = b\<lparr>db_documents := (db_documents b)(k := Some (begun n)), db_opinions := db_opinions b @ [p]\<rparr>"
    "nd_doc_id n = k" "nd_profile n = ''caselaw''" "hashed E k" "nd_text_source n = map_option fst choice"
    by (rule begin_effect [OF begins(1,3)])
  have "case nd_text_source n of None \<Rightarrow> True | Some column \<Rightarrow> column \<in> set TEXT_SOURCES"
    unfolding n(6) using begins(2) by (auto simp: column_chosen_def split: option.splits)
  from document_step.born [OF n(3,5,4) this] have "document_step E k (db_documents b k) (Some (begun n))" unfolding n(1) .
  then show ?thesis by (rule one_document) (simp add: n(2) fun_eq_iff)
next
  case (retries k)
  from retries(1) obtain d where d: "db_documents b k = Some d" "do_status d = ''processing''" by (rule in_statusE)
  with retries(2) have "do_attempts d < MAX_ATTEMPTS" by (simp add: attempts_of_def)
  with d have "document_step E k (db_documents b k) (Some (d\<lparr>do_attempts := do_attempts d + 1\<rparr>))"
    by (simp only: document_step.tried)
  then show ?thesis by (rule one_document) (use d retries(3) in auto)
next
  case (gives_back k)
  from gives_back(1) obtain d where d: "db_documents b k = Some d" "do_status d = ''processing''" by (rule in_statusE)
  then have "document_step E k (db_documents b k) (Some (d\<lparr>do_attempts := do_attempts d - 1\<rparr>))"
    by (simp only: document_step.untried)
  then show ?thesis by (rule one_document) (use d gives_back(2) in auto)
next
  case (fails k reason digest)
  from fails(1) obtain d where d: "db_documents b k = Some d" "do_status d = ''processing''" by (rule in_statusE)
  with fails(2,3) have "document_step E k (db_documents b k) (Some (finished_failed reason digest d))"
    by (simp only: document_step.failed)
  then show ?thesis by (rule one_document) (use d fails(4) in auto)
next
  case (readies k W digest canonical)
  from readies(1) obtain d where d: "db_documents b k = Some d" "do_status d = ''processing''" by (rule in_statusE)
  with readies(3,4) have "document_step E k (db_documents b k) (Some (finished_ready (ie_pipeline E) digest canonical d))"
    by (simp only: document_step.readied)
  then show ?thesis by (rule one_document) (use d finish_ready_effect [OF readies(5)] in auto)
next
  case (names k name)
  show ?thesis by (rule no_document) (use names(2) in auto)
next
  case (flags k flag)
  show ?thesis by (rule no_document) (use flags(2) in auto)
next
  case (walks k W)
  from walks(1) obtain d where d: "db_documents b k = Some d" "do_status d = ''ready''" by (rule in_statusE)
  then have "document_step E k (db_documents b k)
      (Some (mark_treated (ie_pipeline E) (d\<lparr>do_anchored := True, do_cited := True\<rparr>)))"
    by (simp only: document_step.walked_again)
  then show ?thesis by (rule one_document) (use d write_walk_effect [OF walks(3)] in auto)
next
  case (anchors k as)
  from anchors(1) obtain d where d: "db_documents b k = Some d" "do_status d = ''ready''" by (rule in_statusE)
  then have "document_step E k (db_documents b k) (Some (d\<lparr>do_anchored := True\<rparr>))"
    by (simp only: document_step.anchored)
  then show ?thesis
    by (rule one_document) (use d anchors(2) in \<open>auto simp: anchor_statements_def exec_all_append exec_inserts\<close>)
next
  case (cites k cs)
  from cites(1) obtain d where d: "db_documents b k = Some d" "do_status d = ''ready''" by (rule in_statusE)
  then have "document_step E k (db_documents b k) (Some (d\<lparr>do_cited := True\<rparr>))"
    by (simp only: document_step.cited)
  then show ?thesis
    by (rule one_document) (use d cites(2) in \<open>auto simp: citation_statements_def exec_all_append exec_inserts\<close>)
next
  case (treats k gs)
  from treats(1) obtain d where d: "db_documents b k = Some d" "do_status d = ''ready''" by (rule in_statusE)
  with treats(2) have "do_cited d" by (simp add: is_cited_def)
  with d have "document_step E k (db_documents b k)
      (Some (mark_treated (ie_pipeline E) d))"
    by (simp only: document_step.treated)
  then show ?thesis by (rule one_document) (use d signals_then [OF treats(3)] in auto)
next
  case (chunks k ks)
  show ?thesis by (rule no_document) (use chunks(2) in \<open>auto simp: chunk_statements_def exec_inserts\<close>)
qed

lemma record_step_document:
  assumes "record_step E b b'"
  shows "document_step E k (db_documents b k) (db_documents b' k)"
proof -
  from record_step_documents [OF assms] obtain k' where k': "document_step E k' (db_documents b k') (db_documents b' k')"
    "db_documents b' = (db_documents b)(k' := db_documents b' k')" by blast
  show ?thesis
  proof (cases "k = k'")
    case True
    with k' show ?thesis by simp
  next
    case False
    with k'(2) have "db_documents b' k = db_documents b k" by (metis fun_upd_apply)
    then show ?thesis by (simp add: document_step.stays)
  qed
qed

section \<open>What the documents table checks\<close>

text \<open>The CHECKs of the table \<open>documents\<close>: those of 0010, with the reasons of 0029; the marks of 0012 and 0013; and
  the treatment mark of 0028, which replaced that of 0014. The two patterns are those of the SQL.\<close>

definition hex_digest :: "ustr \<Rightarrow> bool" where
  "hex_digest x \<longleftrightarrow> length x = 64 \<and> list_all (\<lambda>c. 48 \<le> c \<and> c \<le> 57 \<or> 97 \<le> c \<and> c \<le> 102) x"

definition number_run :: regex where "number_run = Many 1 (Cls False [CRange 48 57])"

definition VERSION_PATTERN :: regex where
  "VERSION_PATTERN = seqs [number_run, lit ''.'', number_run, lit ''.'', number_run]"

definition version_shaped :: "ustr \<Rightarrow> bool" where
  "version_shaped v \<longleftrightarrow> re_fullmatch ascii_ucd False VERSION_PATTERN v \<noteq> None"

definition null_or :: "('a \<Rightarrow> bool) \<Rightarrow> 'a option \<Rightarrow> bool" where
  "null_or p x \<longleftrightarrow> (case x of None \<Rightarrow> True | Some y \<Rightarrow> p y)"

definition treatment_mark :: "document \<Rightarrow> bool" where
  "treatment_mark d \<longleftrightarrow>
     do_treated_set d = None \<and> \<not> do_treated_at d \<and> do_treated_pipeline d = None \<or>
     do_treated_set d \<noteq> None \<and> do_treated_at d \<and> do_treated_pipeline d \<noteq> None \<and> do_cited d"

definition document_checks :: "document \<Rightarrow> bool" where
  "document_checks d \<longleftrightarrow>
     hex_digest (nd_doc_id (do_new d)) \<and>
     nd_profile (do_new d) \<in> {''caselaw'', ''authority'', ''matter''} \<and>
     null_or hex_digest (do_sha256 d) \<and>
     null_or hex_digest (do_canonical d) \<and>
     null_or (\<lambda>column. column \<in> {''xml_harvard'', ''html_columbia'', ''html_lawbox'', ''html_anon_2020'', ''html'',
       ''plain_text''}) (nd_text_source (do_new d)) \<and>
     do_status d \<in> {''processing'', ''ready'', ''failed'', ''withdrawn''} \<and>
     null_or (\<lambda>reason. reason \<in> {''no-text'', ''unparseable'', ''empty'', ''illegible'', ''interrupted''})
       (do_failure_reason d) \<and>
     do_attempts d \<le> 2 \<and>
     (do_status d \<noteq> ''ready'' \<or> (do_sha256 d \<noteq> None \<and> do_canonical d \<noteq> None)) \<and>
     (do_status d = ''ready'' \<or> do_canonical d = None) \<and>
     ((do_status d = ''failed'') = (do_failure_reason d \<noteq> None)) \<and>
     (do_status d \<noteq> ''processing'' \<or> do_sha256 d = None) \<and>
     ((do_status d = ''processing'') = (\<not> do_ingested d)) \<and>
     (\<not> do_anchored d \<or> do_status d = ''ready'') \<and>
     (\<not> do_cited d \<or> do_status d = ''ready'') \<and>
     null_or version_shaped (do_treated_pipeline d) \<and>
     treatment_mark d"

text \<open>What the patterns ask of the collaborators: the hash's name is 64 hexadecimal digits, and the pipeline's version
  is three numbers, as \<open>hashlib\<close> and the pipeline's configuration have them.\<close>

definition names_well :: "ingest_env \<Rightarrow> bool" where
  "names_well E \<longleftrightarrow> (\<forall>b. hex_digest (dp_sha (ie_pass E) b)) \<and> version_shaped (ie_pipeline E)"

lemma hashed_hex: "names_well E \<Longrightarrow> hashed E x \<Longrightarrow> hex_digest x"
  by (auto simp: names_well_def hashed_def)

lemma null_or_simps [simp]: "null_or p None" "null_or p (Some x) \<longleftrightarrow> p x"
  by (simp_all add: null_or_def)

lemma document_step_checks:
  assumes "document_step E k x y" "names_well E" "\<And>d. x = Some d \<Longrightarrow> document_checks d \<and> nd_doc_id (do_new d) = k"
    and "y = Some d'"
  shows "document_checks d' \<and> nd_doc_id (do_new d') = k"
  using assms(1)
proof cases
  case (born n)
  from born(6) have "null_or (\<lambda>column. column \<in> {''xml_harvard'', ''html_columbia'', ''html_lawbox'', ''html_anon_2020'', ''html'',
       ''plain_text''}) (nd_text_source n)"
    unfolding TEXT_SOURCES_def null_or_def list.set .
  with born hashed_hex [OF assms(2)] assms(4) show ?thesis
    by (simp add: document_checks_def begun_def treatment_mark_def)
next
  case stays
  with assms(3,4) show ?thesis by simp
next
  case (tried d)
  with assms(4) have d': "d' = d\<lparr>do_attempts := do_attempts d + 1\<rparr>" by simp
  from tried(3,4) assms(3) [OF tried(1)] show ?thesis by (auto simp: d' document_checks_def treatment_mark_def MAX_ATTEMPTS_def)
next
  case (untried d)
  with assms(4) have d': "d' = d\<lparr>do_attempts := do_attempts d - 1\<rparr>" by simp
  from untried(3) assms(3) [OF untried(1)] show ?thesis by (auto simp: d' document_checks_def treatment_mark_def)
next
  case (failed d reason digest)
  with assms(4) have d': "d' = finished_failed reason digest d" by simp
  from failed(5) have "null_or hex_digest digest" by (cases digest) (simp_all add: hashed_hex [OF assms(2)])
  with failed(3,4) assms(3) [OF failed(1)] show ?thesis
    by (auto simp: d' document_checks_def treatment_mark_def finished_failed_def FAILURES_def)
next
  case (readied d digest canonical)
  with assms(4) have d': "d' = finished_ready (ie_pipeline E) digest canonical d" by simp
  from readied(4,5) have "hex_digest digest" "hex_digest canonical" by (simp_all add: hashed_hex [OF assms(2)])
  with readied(3) assms(3) [OF readied(1)] assms(2) show ?thesis
    by (auto simp: d' document_checks_def treatment_mark_def finished_ready_def names_well_def)
next
  case (anchored d)
  with assms(4) have d': "d' = d\<lparr>do_anchored := True\<rparr>" by simp
  from anchored(3) assms(3) [OF anchored(1)] show ?thesis by (auto simp: d' document_checks_def treatment_mark_def)
next
  case (cited d)
  with assms(4) have d': "d' = d\<lparr>do_cited := True\<rparr>" by simp
  from cited(3) assms(3) [OF cited(1)] show ?thesis by (auto simp: d' document_checks_def treatment_mark_def)
next
  case (treated d)
  with assms(4) have d': "d' = mark_treated (ie_pipeline E) d" by simp
  from treated(3,4) assms(3) [OF treated(1)] assms(2) show ?thesis
    by (auto simp: d' document_checks_def treatment_mark_def mark_treated_def names_well_def)
next
  case (walked_again d)
  with assms(4) have d': "d' = mark_treated (ie_pipeline E) (d\<lparr>do_anchored := True, do_cited := True\<rparr>)" by simp
  from walked_again(3) assms(3) [OF walked_again(1)] assms(2) show ?thesis
    by (auto simp: d' document_checks_def treatment_mark_def mark_treated_def names_well_def)
qed

text \<open>An outcome is final: a failed document is never touched again, and a ready one keeps its digests, what it was
  begun as, and the passes it has completed.\<close>

definition outlives :: "document \<Rightarrow> document \<Rightarrow> bool" where
  "outlives d d' \<longleftrightarrow> do_status d' = do_status d \<and> do_new d' = do_new d \<and> do_sha256 d' = do_sha256 d \<and>
     do_canonical d' = do_canonical d \<and> do_failure_reason d' = do_failure_reason d \<and> do_attempts d' = do_attempts d \<and>
     do_ingested d' = do_ingested d \<and> do_anchored d \<le> do_anchored d' \<and> do_cited d \<le> do_cited d' \<and>
     (do_treated_set d' = do_treated_set d \<and> do_treated_pipeline d' = do_treated_pipeline d \<or>
      do_treated_set d' = Some PATTERN_SET_ID)"

lemma document_step_final:
  "document_step E k (Some d) y \<Longrightarrow> do_status d \<notin> {''processing'', ''ready''} \<Longrightarrow> y = Some d"
  by (erule document_step_Some) auto

lemma document_step_ready:
  "document_step E k (Some d) y \<Longrightarrow> do_status d = ''ready'' \<Longrightarrow> \<exists>d'. y = Some d' \<and> outlives d d' \<and>
     (do_treated_set d' = do_treated_set d \<and> do_treated_pipeline d' = do_treated_pipeline d \<or>
      do_treated_set d' = Some PATTERN_SET_ID \<and> do_treated_pipeline d' = Some (ie_pipeline E))"
  by (erule document_step_Some) (auto simp: outlives_def mark_treated_def)

section \<open>What the steps keep\<close>

definition keyed :: "database \<Rightarrow> bool" where
  "keyed b \<longleftrightarrow> distinct (map no_opinion_id (db_opinions b)) \<and> distinct (map no_doc_id (db_opinions b)) \<and>
     (\<forall>n \<in> set (db_opinions b). db_documents b (no_doc_id n) \<noteq> None)"

definition well_kept :: "database \<Rightarrow> bool" where
  "well_kept b \<longleftrightarrow> keyed b \<and> (\<forall>k d. db_documents b k = Some d \<longrightarrow> document_checks d \<and> nd_doc_id (do_new d) = k)"

lemma exec_opinions:
  "exec x b = Some b' \<Longrightarrow> \<forall>n. x \<noteq> Begin_opinion n \<Longrightarrow>
     map no_opinion_id (db_opinions b') = map no_opinion_id (db_opinions b) \<and> map no_doc_id (db_opinions b') = map no_doc_id (db_opinions b) \<and>
     map no_court (db_opinions b') = map no_court (db_opinions b)"
  by (cases x) (auto simp: update_opinion_def update_document_def split: if_splits)

lemma exec_all_opinions:
  "exec_all xs b = Some b' \<Longrightarrow> \<forall>n. Begin_opinion n \<notin> set xs \<Longrightarrow>
     map no_opinion_id (db_opinions b') = map no_opinion_id (db_opinions b) \<and> map no_doc_id (db_opinions b') = map no_doc_id (db_opinions b) \<and>
     map no_court (db_opinions b') = map no_court (db_opinions b)"
proof (induction xs arbitrary: b)
  case (Cons x xs)
  from Cons.prems(1) obtain b1 where b1: "exec x b = Some b1" "exec_all xs b1 = Some b'" by (auto simp: Option.bind_eq_Some_conv)
  from exec_opinions [OF b1(1)] Cons.IH [OF b1(2)] Cons.prems(2) show ?case by auto
qed simp

lemmas statement_lists = section_statements_def anchor_statements_def citation_statements_def signal_statements_def
  chunk_statements_def finish_ready_statements_def write_walk_statements_def

text \<open>A step is a beginning or leaves the opinions' keys alone.\<close>

lemma record_step_opinions:
  assumes "record_step E b b'"
  obtains "map no_opinion_id (db_opinions b') = map no_opinion_id (db_opinions b)" "map no_doc_id (db_opinions b') = map no_doc_id (db_opinions b)"
  | i k n p where "db_documents b k = None" "db_documents b' = (db_documents b)(k := Some (begun n))" "db_opinions b' = db_opinions b @ [p]"
    "no_doc_id p = k" "no_opinion_id p = i" "i \<notin> no_opinion_id ` set (db_opinions b)" "k \<notin> no_doc_id ` set (db_opinions b)"
  using assms
proof cases
  case (begins i c ty pc choice k stmts)
  obtain n p where n: "db_documents b k = None" "no_doc_id p = k" "no_opinion_id p = i"
    "b' = b\<lparr>db_documents := (db_documents b)(k := Some (begun n)), db_opinions := db_opinions b @ [p]\<rparr>"
    "i \<notin> no_opinion_id ` set (db_opinions b)" "k \<notin> no_doc_id ` set (db_opinions b)" by (rule begin_effect [OF begins(1,3)])
  show thesis by (rule that(2) [OF n(1) _ _ n(2,3,5,6)]) (simp_all add: n(4))
qed (rule that(1); drule exec_all_opinions; force simp: statement_lists)+

lemma document_step_there: "document_step E k x y \<Longrightarrow> x \<noteq> None \<Longrightarrow> y \<noteq> None"
  by (induction rule: document_step.induct) auto

lemma record_step_keyed:
  assumes "record_step E b b'" "keyed b"
  shows "keyed b'"
proof -
  have grown: "db_documents b k \<noteq> None \<Longrightarrow> db_documents b' k \<noteq> None" for k
    using document_step_there [OF record_step_document [OF assms(1), of k]] .
  show ?thesis
  proof (rule record_step_opinions [OF assms(1)])
    assume same: "map no_opinion_id (db_opinions b') = map no_opinion_id (db_opinions b)"
      "map no_doc_id (db_opinions b') = map no_doc_id (db_opinions b)"
    then have "no_doc_id ` set (db_opinions b') = no_doc_id ` set (db_opinions b)" by (metis list.set_map)
    with assms(2) grown have "db_documents b' (no_doc_id n) \<noteq> None" if "n \<in> set (db_opinions b')" for n
      using that unfolding keyed_def by (metis (no_types, lifting) imageE imageI)
    with assms(2) same show ?thesis by (simp add: keyed_def)
  next
    fix i k n p
    assume new: "db_documents b k = None" "db_documents b' = (db_documents b)(k := Some (begun n))" "db_opinions b' = db_opinions b @ [p]"
      "no_doc_id p = k" "no_opinion_id p = i" "i \<notin> no_opinion_id ` set (db_opinions b)" "k \<notin> no_doc_id ` set (db_opinions b)"
    with assms(2) grown show ?thesis by (auto simp: keyed_def)
  qed
qed

lemma record_step_kept:
  assumes "record_step E b b'" "names_well E" "well_kept b"
  shows "well_kept b'"
proof -
  have "document_checks d \<and> nd_doc_id (do_new d) = k" if "db_documents b' k = Some d" for k d
    using document_step_checks [OF record_step_document [OF assms(1), of k] assms(2) _ that] assms(3) by (simp add: well_kept_def)
  with record_step_keyed [OF assms(1)] assms(3) show ?thesis by (simp add: well_kept_def)
qed

lemma record_steps_kept: "record_steps E b b' \<Longrightarrow> names_well E \<Longrightarrow> well_kept b \<Longrightarrow> well_kept b'"
  by (induction rule: rtranclp_induct) (auto intro: record_step_kept)

lemma record_steps_keyed: "record_steps E b b' \<Longrightarrow> keyed b \<Longrightarrow> keyed b'"
  by (induction rule: rtranclp_induct) (auto intro: record_step_keyed)

lemma outlives_refl: "outlives d d"
  by (simp add: outlives_def)

lemma outlives_trans: "outlives d d' \<Longrightarrow> outlives d' d'' \<Longrightarrow> outlives d d''"
  by (auto simp: outlives_def)

lemma record_steps_final:
  "record_steps E b b' \<Longrightarrow> db_documents b k = Some d \<Longrightarrow> do_status d \<notin> {''processing'', ''ready''} \<Longrightarrow>
     db_documents b' k = Some d"
proof (induction rule: rtranclp_induct)
  case (step y z)
  with document_step_final record_step_document [OF step.hyps(2), of k] show ?case by metis
qed

lemma record_steps_ready:
  "record_steps E b b' \<Longrightarrow> db_documents b k = Some d \<Longrightarrow> do_status d = ''ready'' \<Longrightarrow>
     \<exists>d'. db_documents b' k = Some d' \<and> outlives d d' \<and>
       (do_treated_set d = Some PATTERN_SET_ID \<and> do_treated_pipeline d = Some (ie_pipeline E) \<longrightarrow>
        do_treated_pipeline d' = Some (ie_pipeline E))"
proof (induction rule: rtranclp_induct)
  case base
  then show ?case by (auto intro: outlives_refl)
next
  case (step y z)
  then obtain d1 where d1: "db_documents y k = Some d1" "outlives d d1"
    "do_treated_set d = Some PATTERN_SET_ID \<and> do_treated_pipeline d = Some (ie_pipeline E) \<longrightarrow> do_treated_pipeline d1 = Some (ie_pipeline E)"
    by blast
  from d1(2) step.prems(2) have "do_status d1 = ''ready''" by (simp add: outlives_def)
  from document_step_ready [OF record_step_document [OF step.hyps(2), of k, unfolded d1(1)] this] obtain d2 where
    d2: "db_documents z k = Some d2" "outlives d1 d2" "do_treated_set d2 = do_treated_set d1 \<and> do_treated_pipeline d2 = do_treated_pipeline d1 \<or>
      do_treated_set d2 = Some PATTERN_SET_ID \<and> do_treated_pipeline d2 = Some (ie_pipeline E)" by blast
  with d1(3) outlives_trans [OF d1(2) d2(2)] show ?case by auto
qed

text \<open>Rows are only ever added.\<close>

lemma exec_grows:
  "exec x b = Some b' \<Longrightarrow> set (db_sections b) \<subseteq> set (db_sections b') \<and> set (db_chunks b) \<subseteq> set (db_chunks b') \<and>
     set (db_anchors b) \<subseteq> set (db_anchors b') \<and> set (db_citations b) \<subseteq> set (db_citations b') \<and> set (db_signals b) \<subseteq> set (db_signals b')"
  by (cases x) (auto simp: update_opinion_def update_document_def split: if_splits)

lemma exec_all_grows:
  "exec_all xs b = Some b' \<Longrightarrow> set (db_sections b) \<subseteq> set (db_sections b') \<and> set (db_chunks b) \<subseteq> set (db_chunks b') \<and>
     set (db_anchors b) \<subseteq> set (db_anchors b') \<and> set (db_citations b) \<subseteq> set (db_citations b') \<and> set (db_signals b) \<subseteq> set (db_signals b')"
proof (induction xs arbitrary: b)
  case (Cons x xs)
  from Cons.prems obtain b1 where b1: "exec x b = Some b1" "exec_all xs b1 = Some b'" by (auto simp: Option.bind_eq_Some_conv)
  from exec_grows [OF b1(1)] Cons.IH [OF b1(2)] show ?case by blast
qed simp

lemma record_step_exec: "record_step E b b' \<Longrightarrow> \<exists>xs. exec_all xs b = Some b'"
  by (erule record_step.cases) blast+

lemma record_steps_grow:
  "record_steps E b b' \<Longrightarrow> set (db_sections b) \<subseteq> set (db_sections b') \<and> set (db_chunks b) \<subseteq> set (db_chunks b') \<and>
     set (db_anchors b) \<subseteq> set (db_anchors b') \<and> set (db_citations b) \<subseteq> set (db_citations b') \<and> set (db_signals b) \<subseteq> set (db_signals b')"
proof (induction rule: rtranclp_induct)
  case (step y z)
  from record_step_exec [OF step.hyps(2)] obtain xs where "exec_all xs y = Some z" ..
  from exec_all_grows [OF this] step.IH show ?case by blast
qed simp

section \<open>An opinion that is accounted for\<close>

text \<open>A document is settled when it has an outcome other than ready, or is ready with every pass done at the pipeline:
  sectioned, anchored, cited, treated and chunked, as \<open>complete\<close> has it.\<close>

definition sectioned_at :: "database \<Rightarrow> ustr \<Rightarrow> ustr \<Rightarrow> bool" where
  "sectioned_at b v k \<longleftrightarrow> list_ex (\<lambda>(d, p, _). d = k \<and> p = v) (db_sections b)"

definition chunked_at :: "database \<Rightarrow> ustr \<Rightarrow> ustr \<Rightarrow> bool" where
  "chunked_at b v k \<longleftrightarrow> list_ex (\<lambda>(d, c). d = k \<and> ck_pipeline c = v) (db_chunks b)"

definition settled_doc :: "database \<Rightarrow> ustr \<Rightarrow> ustr \<Rightarrow> bool" where
  "settled_doc b v k \<longleftrightarrow> (case db_documents b k of
     None \<Rightarrow> False
   | Some d \<Rightarrow> if do_status d = ''ready'' then do_anchored d \<and> do_cited d \<and>
         do_treated_set d = Some PATTERN_SET_ID \<and> do_treated_pipeline d = Some v \<and> sectioned_at b v k \<and> chunked_at b v k
       else do_status d \<noteq> ''processing'')"

lemma sectioned_grows: "record_steps E b b' \<Longrightarrow> sectioned_at b v k \<Longrightarrow> sectioned_at b' v k"
  using record_steps_grow unfolding sectioned_at_def list_ex_iff by fast

lemma chunked_grows: "record_steps E b b' \<Longrightarrow> chunked_at b v k \<Longrightarrow> chunked_at b' v k"
  using record_steps_grow unfolding chunked_at_def list_ex_iff by fast

lemma settled_stays:
  assumes "record_steps E b b'" "settled_doc b (ie_pipeline E) k"
  shows "settled_doc b' (ie_pipeline E) k"
proof -
  from assms(2) obtain d where d: "db_documents b k = Some d" by (auto simp: settled_doc_def split: option.splits)
  show ?thesis
  proof (cases "do_status d = ''ready''")
    case False
    with assms(2) d have "do_status d \<notin> {''processing'', ''ready''}" by (simp add: settled_doc_def)
    with record_steps_final [OF assms(1) d] False show ?thesis by (simp add: settled_doc_def)
  next
    case True
    with assms(2) d have ready: "do_status d = ''ready''" "do_anchored d" "do_cited d" "do_treated_set d = Some PATTERN_SET_ID"
      "do_treated_pipeline d = Some (ie_pipeline E)" "sectioned_at b (ie_pipeline E) k" "chunked_at b (ie_pipeline E) k"
      by (simp_all add: settled_doc_def)
    from record_steps_ready [OF assms(1) d ready(1)] ready(4,5) obtain d' where d': "db_documents b' k = Some d'" "outlives d d'"
      "do_treated_pipeline d' = Some (ie_pipeline E)" by auto
    with ready sectioned_grows [OF assms(1) ready(6)] chunked_grows [OF assms(1) ready(7)] show ?thesis
      by (auto simp: settled_doc_def outlives_def)
  qed
qed

section \<open>Parsing one opinion\<close>

lemma leads_finish_failed:
  assumes "reason \<in> set FAILURES" "case digest of None \<Rightarrow> True | Some x \<Rightarrow> hashed E x"
  shows "leads E k (\<lambda>b. in_status b k ''processing'') (finish_failed E k reason digest) (\<lambda>_ b. settled_doc b v k)
    (\<lambda>b. in_status b k ''processing'')"
  unfolding finish_failed_def
proof (rule leads_bindp)
  show "leads E k (\<lambda>b. in_status b k ''processing'') (transact E [Finish_failed k reason digest]) (\<lambda>_ b. settled_doc b v k)
      (\<lambda>b. in_status b k ''processing'')"
  proof (rule leads_transact)
    fix b b' assume b: "in_status b k ''processing''" "exec_all [Finish_failed k reason digest] b = Some b'"
    then have "in_status b' k ''failed''" by (auto simp: in_status_def finished_failed_def)
    with record_step.fails [OF b(1) assms b(2)] show "record_step E b b' \<and> settled_doc b' v k"
      by (auto simp: settled_doc_def in_status_def)
  qed simp_all
qed (rule leads_tick)

lemma statement_list_docs:
  "\<forall>x \<in> set (finish_ready_statements k p digest canonical W). statement_doc x = k"
  "\<forall>x \<in> set (write_walk_statements k p W). statement_doc x = k"
  "\<forall>x \<in> set (anchor_statements k p as @ [Mark_anchored k]). statement_doc x = k"
  "\<forall>x \<in> set (citation_statements k p cs @ [Mark_cited k]). statement_doc x = k"
  "\<forall>x \<in> set (signal_statements k p gs @ [Mark_treated k p]). statement_doc x = k"
  "\<forall>x \<in> set (chunk_statements k ks). statement_doc x = k"
  by (auto simp: statement_lists)

text \<open>Where the walk's rows are there, the tables say so.\<close>

lemma walk_recorded:
  assumes "walked E k W" "sound_env E"
    and "db_sections b' = db_sections b @ map (\<lambda>r. (k, ie_pipeline E, r)) (sort_key (\<lambda>r. ns_parent_section_id r \<noteq> None) (wk_sections W))"
    and "db_chunks b' = db_chunks b @ map (Pair k) (wk_chunks W)"
  shows "sectioned_at b' (ie_pipeline E) k" "chunked_at b' (ie_pipeline E) k"
proof -
  from walked_rows [OF assms(1,2)] obtain s c where sc: "s \<in> set (wk_sections W)" "c \<in> set (wk_chunks W)"
    "ck_pipeline c = ie_pipeline E" by (metis list.set_intros(1) neq_Nil_conv)
  from sc(1) have "(k, ie_pipeline E, s) \<in> set (db_sections b')" unfolding assms(3) by simp
  then show "sectioned_at b' (ie_pipeline E) k" by (force simp: sectioned_at_def list_ex_iff)
  from sc(2) have "(k, c) \<in> set (db_chunks b')" unfolding assms(4) by simp
  with sc(3) show "chunked_at b' (ie_pipeline E) k" by (force simp: chunked_at_def list_ex_iff)
qed

lemma walkedI:
  "walk_source (dp_ucd (ie_pass E)) (ie_reader E) column raw = Inr T \<Longrightarrow>
     whole_walk (ie_pass E) k ty pc column T = Some (Inr W) \<Longrightarrow> walked E k W"
  unfolding walked_def by blast

lemma canonical_walked:
  assumes "canonical_text (dp_ucd (ie_pass E)) (ie_reader E) column raw = Inr T"
    and "whole_walk (ie_pass E) k ty pc column T = Some (Inr W)"
  shows "walked E k W"
proof -
  from assms(1) have "walk_source (dp_ucd (ie_pass E)) (ie_reader E) column raw = Inr T"
    by (auto simp: canonical_text_def bind_result_Inr_iff map_result_Inr_iff)
  then show ?thesis using assms(2) by (rule walkedI)
qed

lemma leads_ready:
  assumes "walked E k W" "hashed E digest" "hashed E canonical"
  shows "leads E k (\<lambda>b. in_status b k ''processing'') (transact E (finish_ready_statements k (ie_pipeline E) digest canonical W))
    (\<lambda>_ b. sound_env E \<longrightarrow> settled_doc b (ie_pipeline E) k) (\<lambda>b. in_status b k ''processing'')"
proof (rule leads_transact)
  fix b b' assume b: "in_status b k ''processing''" "exec_all (finish_ready_statements k (ie_pipeline E) digest canonical W) b = Some b'"
  note effect = finish_ready_effect [OF b(2)]
  from b(1) obtain d where "db_documents b k = Some d" by (rule in_statusE)
  with effect have doc: "db_documents b' k = Some (finished_ready (ie_pipeline E) digest canonical d)" by simp
  from effect walk_recorded [OF assms(1), of b' b] have "sound_env E \<Longrightarrow> sectioned_at b' (ie_pipeline E) k \<and> chunked_at b' (ie_pipeline E) k"
    by blast
  then have "sound_env E \<longrightarrow> settled_doc b' (ie_pipeline E) k"
    unfolding settled_doc_def doc by (simp add: finished_ready_def)
  with record_step.readies [OF b(1) assms b(2)] show "record_step E b b' \<and> (sound_env E \<longrightarrow> settled_doc b' (ie_pipeline E) k)" ..
qed (rule statement_list_docs)

lemma leads_parse:
  "leads E k (\<lambda>b. in_status b k ''processing'') (parse_opinion E k choice ty pc)
     (\<lambda>_ b. sound_env E \<longrightarrow> settled_doc b (ie_pipeline E) k) (\<lambda>b. in_status b k ''processing'')"
proof -
  let ?P = "\<lambda>b. in_status b k ''processing''"
  have failing: "leads E k ?P (finish_failed E k reason digest) (\<lambda>_ b. sound_env E \<longrightarrow> settled_doc b (ie_pipeline E) k) ?P"
    if "reason \<in> set FAILURES" "case digest of None \<Rightarrow> True | Some x \<Rightarrow> hashed E x" for reason digest
    by (rule leads_weaken [OF leads_finish_failed [OF that, where v = "ie_pipeline E"]]) simp_all
  show ?thesis
  proof (cases choice)
    case None
    with failing [of "''no-text''" None] show ?thesis by (simp add: parse_opinion_def FAILURES_def)
  next
    case (Some c)
    obtain column raw where c: "c = (column, raw)" by (cases c)
  let ?T = "canonical_text (dp_ucd (ie_pass E)) (ie_reader E) column raw"
  have inner: "leads E k ?P (case ?T of
              Inl e \<Rightarrow>
                if e \<in> set READ_FAILURES then finish_failed E k e (Some original)
                else bindp (tick (\<lambda>p. p\<lparr>pg_error := e\<rparr>)) (\<lambda>_. finish_failed E k ''unparseable'' (Some original))
            | Inr T \<Rightarrow>
                bindp (walk_step E k ty pc column T) (\<lambda>W.
                bindp (put_text E (pd_text T)) (\<lambda>canonical.
                bindp (transact E (finish_ready_statements k (ie_pipeline E) original canonical W)) (\<lambda>_.
                  tick (\<lambda>p. count_walk W (p\<lparr>pg_ready := pg_ready p + 1\<rparr>))))))
      (\<lambda>_ b. sound_env E \<longrightarrow> settled_doc b (ie_pipeline E) k) ?P" if original: "hashed E original" for original
  proof (cases ?T)
    case (Inl e)
    have "leads E k ?P (bindp (tick (\<lambda>p. p\<lparr>pg_error := e\<rparr>)) (\<lambda>_. finish_failed E k ''unparseable'' (Some original)))
        (\<lambda>_ b. sound_env E \<longrightarrow> settled_doc b (ie_pipeline E) k) ?P"
      by (rule leads_bindp [OF leads_tick failing]) (simp_all add: FAILURES_def original)
    moreover have "e \<in> set READ_FAILURES \<Longrightarrow> e \<in> set FAILURES" by (auto simp: READ_FAILURES_def FAILURES_def)
    ultimately show ?thesis using Inl failing original by simp
  next
    case (Inr T)
    have "leads E k ?P (bindp (walk_step E k ty pc column T) (\<lambda>W.
                bindp (put_text E (pd_text T)) (\<lambda>canonical.
                bindp (transact E (finish_ready_statements k (ie_pipeline E) original canonical W)) (\<lambda>_.
                  tick (\<lambda>p. count_walk W (p\<lparr>pg_ready := pg_ready p + 1\<rparr>))))))
      (\<lambda>_ b. sound_env E \<longrightarrow> settled_doc b (ie_pipeline E) k) ?P"
    proof (rule leads_bindp)
      show "leads E k ?P (walk_step E k ty pc column T) (\<lambda>W b. walked E k W \<and> ?P b) ?P"
        by (rule leads_walk_step) (simp_all add: canonical_walked [OF Inr])
    next
      fix W
      show "leads E k (\<lambda>b. walked E k W \<and> ?P b) (bindp (put_text E (pd_text T)) (\<lambda>canonical.
                bindp (transact E (finish_ready_statements k (ie_pipeline E) original canonical W)) (\<lambda>_.
                  tick (\<lambda>p. count_walk W (p\<lparr>pg_ready := pg_ready p + 1\<rparr>)))))
          (\<lambda>_ b. sound_env E \<longrightarrow> settled_doc b (ie_pipeline E) k) ?P"
      proof (cases "walked E k W")
        case True
        have ready: "leads E k ?P (bindp (transact E (finish_ready_statements k (ie_pipeline E) original canonical W)) (\<lambda>_.
              tick (\<lambda>p. count_walk W (p\<lparr>pg_ready := pg_ready p + 1\<rparr>))))
            (\<lambda>_ b. sound_env E \<longrightarrow> settled_doc b (ie_pipeline E) k) ?P" if canonical: "hashed E canonical" for canonical
          by (rule leads_bindp [OF leads_ready [OF True original canonical] leads_tick])
        have "leads E k ?P (bindp (put_text E (pd_text T)) (\<lambda>canonical.
            bindp (transact E (finish_ready_statements k (ie_pipeline E) original canonical W)) (\<lambda>_.
              tick (\<lambda>p. count_walk W (p\<lparr>pg_ready := pg_ready p + 1\<rparr>)))))
            (\<lambda>_ b. sound_env E \<longrightarrow> settled_doc b (ie_pipeline E) k) ?P"
          by (rule leads_hashed [OF _ ready]) simp
        then show ?thesis by (rule leads_weaken) simp_all
      qed (simp add: leads_def)
    qed
    with Inr show ?thesis by simp
  qed
  show ?thesis unfolding parse_opinion_def Some c
    by (simp only: option.case prod.case) (rule leads_hashed [OF _ inner], simp_all)
  qed
qed

section \<open>Completing one opinion\<close>

text \<open>The passes a ready document is known to have: sections, anchors, citations, treatment and chunks.\<close>

definition passes :: "database \<Rightarrow> ustr \<Rightarrow> ustr \<Rightarrow> bool \<Rightarrow> bool \<Rightarrow> bool \<Rightarrow> bool \<Rightarrow> bool \<Rightarrow> bool" where
  "passes b v k s a c t h \<longleftrightarrow> (case db_documents b k of
     None \<Rightarrow> False
   | Some d \<Rightarrow> do_status d = ''ready'' \<and> (s \<longrightarrow> sectioned_at b v k) \<and> (a \<longrightarrow> do_anchored d) \<and> (c \<longrightarrow> do_cited d) \<and>
       (t \<longrightarrow> do_treated_set d = Some PATTERN_SET_ID \<and> do_treated_pipeline d = Some v) \<and> (h \<longrightarrow> chunked_at b v k))"

lemma passes_ready: "passes b v k s a c t h \<Longrightarrow> in_status b k ''ready''"
  by (auto simp: passes_def in_status_def split: option.splits)

lemma passes_settled: "passes b v k True True True True True \<Longrightarrow> settled_doc b v k"
  by (auto simp: passes_def settled_doc_def split: option.splits)

lemma passes_change:
  assumes "passes b v k s a c t h" "db_documents b' = (db_documents b)(k := map_option f (db_documents b k))"
    and "\<And>x. x \<in> set (db_sections b) \<Longrightarrow> x \<in> set (db_sections b')" "\<And>x. x \<in> set (db_chunks b) \<Longrightarrow> x \<in> set (db_chunks b')"
    and "\<And>d. do_status (f d) = do_status d" "s' \<Longrightarrow> s \<or> sectioned_at b' v k" "h' \<Longrightarrow> h \<or> chunked_at b' v k"
    and "\<And>d. a' \<Longrightarrow> (a \<longrightarrow> do_anchored d) \<Longrightarrow> do_anchored (f d)" "\<And>d. c' \<Longrightarrow> (c \<longrightarrow> do_cited d) \<Longrightarrow> do_cited (f d)"
    and "\<And>d. t' \<Longrightarrow> (t \<longrightarrow> do_treated_set d = Some PATTERN_SET_ID \<and> do_treated_pipeline d = Some v) \<Longrightarrow>
      do_treated_set (f d) = Some PATTERN_SET_ID \<and> do_treated_pipeline (f d) = Some v"
  shows "passes b' v k s' a' c' t' h'"
proof -
  from assms(1) obtain d where d: "db_documents b k = Some d" "do_status d = ''ready''" "s \<longrightarrow> sectioned_at b v k"
    "a \<longrightarrow> do_anchored d" "c \<longrightarrow> do_cited d" "h \<longrightarrow> chunked_at b v k"
    "t \<longrightarrow> do_treated_set d = Some PATTERN_SET_ID \<and> do_treated_pipeline d = Some v" by (auto simp: passes_def split: option.splits)
  have "sectioned_at b v k \<Longrightarrow> sectioned_at b' v k" using assms(3) unfolding sectioned_at_def list_ex_iff by blast
  moreover have "chunked_at b v k \<Longrightarrow> chunked_at b' v k" using assms(4) unfolding chunked_at_def list_ex_iff by blast
  ultimately show ?thesis using assms(5-10) d unfolding passes_def assms(2) d(1) by auto
qed

lemma leads_cites:
  "leads E k (\<lambda>b. passes b (ie_pipeline E) k s a c t h)
     (transact E (citation_statements k (ie_pipeline E) cs @ [Mark_cited k]))
     (\<lambda>_ b. passes b (ie_pipeline E) k s a True t h) (\<lambda>_. True)"
proof (rule leads_transact)
  fix b b' assume b: "passes b (ie_pipeline E) k s a c t h" "exec_all (citation_statements k (ie_pipeline E) cs @ [Mark_cited k]) b = Some b'"
  then have new: "db_documents b' = (db_documents b)(k := map_option (\<lambda>d. d\<lparr>do_cited := True\<rparr>) (db_documents b k))"
    "db_sections b' = db_sections b" "db_chunks b' = db_chunks b"
    by (auto simp: citation_statements_def exec_all_append exec_inserts)
  have "passes b' (ie_pipeline E) k s a True t h"
    by (rule passes_change [OF b(1) new(1)]) (auto simp: new(2,3) sectioned_at_def chunked_at_def)
  with record_step.cites [OF passes_ready [OF b(1)] b(2)]
  show "record_step E b b' \<and> passes b' (ie_pipeline E) k s a True t h" ..
qed (rule statement_list_docs, simp)

lemma leads_anchors:
  "leads E k (\<lambda>b. passes b (ie_pipeline E) k s a c t h)
     (transact E (anchor_statements k (ie_pipeline E) as @ [Mark_anchored k]))
     (\<lambda>_ b. passes b (ie_pipeline E) k s True c t h) (\<lambda>_. True)"
proof (rule leads_transact)
  fix b b' assume b: "passes b (ie_pipeline E) k s a c t h" "exec_all (anchor_statements k (ie_pipeline E) as @ [Mark_anchored k]) b = Some b'"
  then have new: "db_documents b' = (db_documents b)(k := map_option (\<lambda>d. d\<lparr>do_anchored := True\<rparr>) (db_documents b k))"
    "db_sections b' = db_sections b" "db_chunks b' = db_chunks b"
    by (auto simp: anchor_statements_def exec_all_append exec_inserts)
  have "passes b' (ie_pipeline E) k s True c t h"
    by (rule passes_change [OF b(1) new(1)]) (auto simp: new(2,3) sectioned_at_def chunked_at_def)
  with record_step.anchors [OF passes_ready [OF b(1)] b(2)]
  show "record_step E b b' \<and> passes b' (ie_pipeline E) k s True c t h" ..
qed (rule statement_list_docs, simp)

lemma leads_treats:
  "leads E k (\<lambda>b. passes b (ie_pipeline E) k s a True t h)
     (transact E (signal_statements k (ie_pipeline E) gs @ [Mark_treated k (ie_pipeline E)]))
     (\<lambda>_ b. passes b (ie_pipeline E) k s a True True h) (\<lambda>_. True)"
proof (rule leads_transact)
  fix b b' assume b: "passes b (ie_pipeline E) k s a True t h"
    "exec_all (signal_statements k (ie_pipeline E) gs @ [Mark_treated k (ie_pipeline E)]) b = Some b'"
  from signals_then [OF b(2)] have new: "db_documents b' = (db_documents b)(k := map_option (mark_treated (ie_pipeline E)) (db_documents b k))"
    "db_sections b' = db_sections b" "db_chunks b' = db_chunks b" by auto
  have "passes b' (ie_pipeline E) k s a True True h"
    by (rule passes_change [OF b(1) new(1)]) (auto simp: new(2,3) sectioned_at_def chunked_at_def mark_treated_def)
  moreover have "is_cited b k" using b(1) by (auto simp: passes_def is_cited_def split: option.splits)
  ultimately show "record_step E b b' \<and> passes b' (ie_pipeline E) k s a True True h"
    using record_step.treats [OF passes_ready [OF b(1)] _ b(2)] by blast
qed (rule statement_list_docs, simp)

lemma leads_chunks:
  assumes "h' \<Longrightarrow> h \<or> (\<exists>c \<in> set ks. ck_pipeline c = ie_pipeline E)"
  shows "leads E k (\<lambda>b. passes b (ie_pipeline E) k s a c t h) (transact E (chunk_statements k ks))
     (\<lambda>_ b. passes b (ie_pipeline E) k s a c t h') (\<lambda>_. True)"
proof (rule leads_transact)
  fix b b' assume b: "passes b (ie_pipeline E) k s a c t h" "exec_all (chunk_statements k ks) b = Some b'"
  then have new: "db_documents b' = db_documents b" "db_sections b' = db_sections b" "db_chunks b' = db_chunks b @ map (Pair k) ks"
    by (auto simp: chunk_statements_def exec_inserts)
  from new(1) have same: "db_documents b' = (db_documents b)(k := map_option (\<lambda>d. d) (db_documents b k))"
    by (simp add: option.map_ident)
  have "(\<exists>c \<in> set ks. ck_pipeline c = ie_pipeline E) \<Longrightarrow> chunked_at b' (ie_pipeline E) k"
    unfolding chunked_at_def new(3) by (auto simp: list_ex_iff)
  with assms have "h' \<Longrightarrow> h \<or> chunked_at b' (ie_pipeline E) k" by blast
  then have "passes b' (ie_pipeline E) k s a c t h'"
    by (intro passes_change [OF b(1) same]) (auto simp: new(2,3) sectioned_at_def)
  with record_step.chunks [OF passes_ready [OF b(1)] b(2)]
  show "record_step E b b' \<and> passes b' (ie_pipeline E) k s a c t h'" ..
qed (rule statement_list_docs, simp)

lemma leads_walks:
  assumes "walked E k W"
  shows "leads E k (\<lambda>b. passes b (ie_pipeline E) k s a c t h)
     (transact E (write_walk_statements k (ie_pipeline E) W))
     (\<lambda>_ b. sound_env E \<longrightarrow> passes b (ie_pipeline E) k True True True True True) (\<lambda>_. True)"
proof (rule leads_transact)
  fix b b' assume b: "passes b (ie_pipeline E) k s a c t h" "exec_all (write_walk_statements k (ie_pipeline E) W) b = Some b'"
  note effect = write_walk_effect [OF b(2)]
  have "passes b' (ie_pipeline E) k True True True True True" if "sound_env E"
    by (rule passes_change [OF b(1) conjunct1 [OF effect]])
      (use walk_recorded [OF assms that, of b' b] effect in \<open>auto simp: mark_treated_def\<close>)
  with record_step.walks [OF passes_ready [OF b(1)] assms b(2)]
  show "record_step E b b' \<and> (sound_env E \<longrightarrow> passes b' (ie_pipeline E) k True True True True True)" by blast
qed (rule statement_list_docs, simp)

text \<open>Writing the missing rows completes the passes; the chunk pass leaves a chunk where one was cut.\<close>

lemma leads_write_missing:
  assumes "pr_doc_id p = k" "g \<Longrightarrow> \<not> pr_chunked p \<Longrightarrow> \<exists>c \<in> set (snd (snd rows)). ck_pipeline c = ie_pipeline E"
  shows "leads E k (\<lambda>b. passes b (ie_pipeline E) k True True (pr_cited p) (treated_at p (ie_pipeline E)) (pr_chunked p))
     (write_missing E p rows) (\<lambda>_ b. g \<longrightarrow> passes b (ie_pipeline E) k True True True True True) (\<lambda>_. True)"
proof -
  obtain cs gs ks where rows: "rows = (cs, gs, ks)" by (cases rows)
  let ?v = "ie_pipeline E" and ?t = "treated_at p (ie_pipeline E)" and ?h = "pr_chunked p"
  have chunks: "leads E k (\<lambda>b. passes b ?v k True True True True ?h) (bindp (transact E (chunk_statements k ks)) (\<lambda>_. tick f))
      (\<lambda>_ b. g \<longrightarrow> passes b ?v k True True True True True) (\<lambda>_. True)" if "\<not> ?h" for f
  proof (rule leads_bindp [OF leads_chunks leads_tick])
    show "g \<Longrightarrow> ?h \<or> (\<exists>c \<in> set ks. ck_pipeline c = ?v)" using assms(2) that by (simp add: rows)
  qed (cases g; simp)
  have three: "leads E k (\<lambda>b. passes b ?v k True True True True ?h) (when_p (\<not> ?h)
      (bindp (transact E (chunk_statements k ks)) (\<lambda>_. tick f))) (\<lambda>_ b. g \<longrightarrow> passes b ?v k True True True True True) (\<lambda>_. True)" for f
    by (rule leads_when [OF chunks]) simp_all
  have two: "leads E k (\<lambda>b. passes b ?v k True True True ?t ?h) (when_p (\<not> ?t)
      (bindp (transact E (signal_statements k ?v gs @ [Mark_treated k ?v])) (\<lambda>_. tick f)))
      (\<lambda>_ b. passes b ?v k True True True True ?h) (\<lambda>_. True)" for f
    by (rule leads_when, rule leads_bindp [OF leads_treats leads_tick]) simp_all
  have one: "leads E k (\<lambda>b. passes b ?v k True True (pr_cited p) ?t ?h) (when_p (\<not> pr_cited p)
      (bindp (transact E (citation_statements k ?v cs @ [Mark_cited k])) (\<lambda>_. tick f)))
      (\<lambda>_ b. passes b ?v k True True True ?t ?h) (\<lambda>_. True)" for f
    by (rule leads_when, rule leads_bindp [OF leads_cites leads_tick]) simp_all
  show ?thesis unfolding write_missing_def rows prod.case Let_def assms(1)
    by (rule leads_bindp [OF one], rule leads_bindp [OF two], rule three)
qed

lemma leads_read:
  "leads E k P (read_rows E f) (\<lambda>x b. P b \<and> x = f b) (\<lambda>_. True)"
proof (rule leadsI)
  fix j j' :: job and r :: "exn + 'a" assume P: "P (jb_db j)" and run: "read_rows E f j = Some (j', r)"
  then have "jb_db j' = jb_db j \<and> (\<forall>x. r = Inr x \<longrightarrow> x = f (jb_db j))"
    unfolding read_rows_def bindp_Some_iff fetch_def by (auto dest!: transact_Some)
  with P show "record_steps E (jb_db j) (jb_db j') \<and> (\<forall>k'. k' \<noteq> k \<longrightarrow> doc_view (jb_db j') k' = doc_view (jb_db j) k') \<and>
      (case r of Inr x \<Rightarrow> P (jb_db j') \<and> x = f (jb_db j') | Inl _ \<Rightarrow> True)" by (cases r) simp_all
qed

text \<open>What a present row says of a document, apart from its name and flag. With \<open>g\<close>, the sections recorded of the
  document at the pipeline hold printed text: for whatever bytes bear its canonical digest, one of them is not blank.\<close>

definition prints :: "document_pass \<Rightarrow> ustr \<Rightarrow> new_section \<Rightarrow> bool" where
  "prints D t s \<longleftrightarrow> paragraphs (dp_ucd D) t (ns_char_start s) (ns_char_end s) \<noteq> []"

definition sections_print :: "ingest_env \<Rightarrow> database \<Rightarrow> ustr \<Rightarrow> bool" where
  "sections_print E b k \<longleftrightarrow> (\<forall>d c t. db_documents b k = Some d \<longrightarrow> do_canonical d = Some (dp_sha (ie_pass E) c) \<longrightarrow>
     utf8_decode c = Inr t \<longrightarrow> sectioned_at b (ie_pipeline E) k \<longrightarrow>
     list_ex (prints (ie_pass E) t) (recorded_sections k (ie_pipeline E) b))"

definition tallies :: "ingest_env \<Rightarrow> bool \<Rightarrow> database \<Rightarrow> present_row \<Rightarrow> bool" where
  "tallies E g b p \<longleftrightarrow> (case db_documents b (pr_doc_id p) of
     None \<Rightarrow> False
   | Some d \<Rightarrow> do_status d = pr_status p \<and> do_attempts d = pr_attempts p \<and> do_canonical d = pr_canonical p \<and>
       (pr_sectioned p \<longrightarrow> sectioned_at b (ie_pipeline E) (pr_doc_id p)) \<and> (pr_anchored p \<longrightarrow> do_anchored d) \<and>
       (pr_cited p \<longrightarrow> do_cited d) \<and>
       (treated_at p (ie_pipeline E) \<longrightarrow> do_treated_set d = Some PATTERN_SET_ID \<and> do_treated_pipeline d = Some (ie_pipeline E)) \<and>
       (pr_chunked p \<longrightarrow> chunked_at b (ie_pipeline E) (pr_doc_id p))) \<and>
     (g \<longrightarrow> sections_print E b (pr_doc_id p))"

lemma tallies_passes:
  "tallies E g b p \<Longrightarrow> pr_status p = ''ready'' \<Longrightarrow>
     passes b (ie_pipeline E) (pr_doc_id p) (pr_sectioned p) (pr_anchored p) (pr_cited p) (treated_at p (ie_pipeline E)) (pr_chunked p)"
  by (auto simp: tallies_def passes_def split: option.splits)

lemma tallies_prints:
  assumes "tallies E g b p" "g" "pr_sectioned p" "pr_canonical p = Some (dp_sha (ie_pass E) c)" "utf8_decode c = Inr t"
  shows "list_ex (prints (ie_pass E) t) (recorded_sections (pr_doc_id p) (ie_pipeline E) b)"
proof -
  from assms(1) obtain d where d: "db_documents b (pr_doc_id p) = Some d" "do_canonical d = pr_canonical p"
    "pr_sectioned p \<longrightarrow> sectioned_at b (ie_pipeline E) (pr_doc_id p)" "g \<longrightarrow> sections_print E b (pr_doc_id p)"
    by (auto simp: tallies_def split: option.splits)
  with assms(2-5) show ?thesis by (simp add: sections_print_def)
qed

text \<open>Chunks are cut where a section prints.\<close>

lemma chunk_rows_some:
  assumes "chunk_rows D k t rows cites = Some (Inr ks)" "list_ex (prints D t) rows"
  shows "\<exists>c \<in> set ks. ck_pipeline c = dp_version D"
proof -
  from assms(1) have chunked: "chunk (dp_ucd D) (dp_sha D) k (dp_pipeline D) t (map row_span_of rows) (spans_of cites)
    (dp_tokens D) = Some (Inr ks)" by (auto simp: chunk_rows_def)
  from chunk_sections [OF this] obtain rss where rss: "ks = concat rss"
    "list_all2 (section_chunked (dp_ucd D) t (dp_tokens D) (pl_chunk_maximum (dp_pipeline D)) (spans_of cites)) (map row_span_of rows) rss"
    by blast
  from assms(2) obtain s where s: "s \<in> set rows" "paragraphs (dp_ucd D) t (ns_char_start s) (ns_char_end s) \<noteq> []"
    by (auto simp: list_ex_iff prints_def)
  from s(1) obtain n where n: "n < length rows" "rows ! n = s" by (auto simp: in_set_conv_nth)
  with list_all2_nthD [OF rss(2), of n] s(2) have "parts_ok (in_size (dp_tokens D) t (pl_chunk_maximum (dp_pipeline D)))
      (legal (spans_of cites)) (map row_span (rss ! n)) (ns_char_start s) (ns_char_end s)" "n < length rss"
    using list_all2_lengthD [OF rss(2)] by (simp_all add: section_chunked_def row_span_of_def)
  moreover have "ns_char_start s < ns_char_end s" by (rule unit_edges(2) [OF s(2)])
  ultimately have "rss ! n \<noteq> []" "rss ! n \<in> set rss" by (auto simp: parts_ok_def)
  then obtain c where "c \<in> set ks" unfolding rss(1) by (metis concat.simps(2) concat_eq_Nil_conv ex_in_conv set_empty)
  moreover have "\<forall>c \<in> set ks. ck_pipeline c = dp_version D"
    by (rule chunk_from_pipeline [OF chunked [unfolded chunk_def]]) simp
  ultimately show ?thesis by blast
qed

text \<open>The rows still missing of a document whose text is at hand.\<close>

definition missing_cut :: "ingest_env \<Rightarrow> bool \<Rightarrow> present_row \<Rightarrow> new_citation list \<times> new_signal list \<times> new_chunk list \<Rightarrow> bool" where
  "missing_cut E g p rows \<longleftrightarrow> (g \<longrightarrow> \<not> pr_chunked p \<longrightarrow> (\<exists>c \<in> set (snd (snd rows)). ck_pipeline c = ie_pipeline E))"

lemma leads_missing_rows:
  assumes "pr_canonical p = Some (dp_sha (ie_pass E) c)" "utf8_decode c = Inr t" "pr_sectioned p"
  shows "leads E k (\<lambda>b. tallies E g b p) (missing_rows E p t) (\<lambda>rows b. tallies E g b p \<and> missing_cut E g p rows) (\<lambda>_. True)"
proof -
  let ?X = "\<lambda>_ :: database. True" and ?P = "\<lambda>b. tallies E g b p" and ?D = "ie_pass E" and ?k = "pr_doc_id p"
  let ?Q = "\<lambda>x b. ?P b \<and> missing_cut E g p x"
  have rows: "leads E k ?P (read_rows E (recorded_sections ?k (ie_pipeline E)))
      (\<lambda>rows b. ?P b \<and> (g \<longrightarrow> list_ex (prints ?D t) rows)) ?X"
    by (rule leads_weaken [OF leads_read [where P = ?P]]) (use tallies_prints [OF _ _ assms(3,1,2)] in auto)
  have chunked: "leads E k ?P (bindp (if pr_chunked p then ret []
        else (\<lambda>j. map_option (Pair j) (chunk_rows ?D ?k t rows cites))) (\<lambda>chunks. ret (cites, sigs, chunks))) ?Q ?X"
    if cut: "g \<longrightarrow> list_ex (prints ?D t) rows" for rows cites sigs
  proof (rule leads_bindp)
    show "leads E k ?P (if pr_chunked p then ret [] else (\<lambda>j. map_option (Pair j) (chunk_rows ?D ?k t rows cites)))
      (\<lambda>ks b. ?P b \<and> missing_cut E g p (cites, sigs, ks)) ?X"
    proof (cases "pr_chunked p")
      case True
      then show ?thesis by (simp add: leads_ret missing_cut_def)
    next
      case False
      have "leads E k ?P (\<lambda>j. map_option (Pair j) (chunk_rows ?D ?k t rows cites)) (\<lambda>ks b. ?P b \<and> missing_cut E g p (cites, sigs, ks)) ?X"
        by (rule leads_still) (use cut chunk_rows_some in \<open>auto simp: missing_cut_def\<close>)
      with False show ?thesis by simp
    qed
  qed (rule leads_ret, simp)
  have treated: "leads E k ?P (if treated_at p (ie_pipeline E) then ret []
      else lift_result (signal_rows (ie_pass E) (pr_doc_id p) t rows cites)) (\<lambda>_. ?P) ?X" for rows cites
    by (simp add: leads_ret leads_lift)
  have cited: "leads E k ?P (if pr_cited p then read_rows E (recorded_citations (pr_doc_id p) (ie_pipeline E))
      else lift_result (citation_rows (ie_pass E) (pr_doc_id p) t rows)) (\<lambda>_. ?P) ?X" for rows
    by (simp add: leads_lift) (intro impI leads_weaken [OF leads_read [where P = ?P]], simp_all)
  show ?thesis unfolding missing_rows_def
    by (rule leads_bindp [OF rows], rule leads_given, rule leads_bindp [OF cited], rule leads_bindp [OF treated], erule chunked)
qed

text \<open>The text of a document read again, and the bytes behind its canonical digest.\<close>

definition read_again :: "ingest_env \<Rightarrow> present_row \<Rightarrow> string \<times> parsed \<Rightarrow> bool" where
  "read_again E p x \<longleftrightarrow> (\<exists>raw. walk_source (dp_ucd (ie_pass E)) (ie_reader E) (fst x) raw = Inr (snd x)) \<and>
     (\<exists>c. pr_canonical p = Some (dp_sha (ie_pass E) c) \<and> utf8_decode c = Inr (pd_text (snd x)))"

lemma leads_read_original: "leads E k P (read_original E p) (\<lambda>x b. P b \<and> read_again E p x) (\<lambda>_. True)"
proof (cases "pr_sha256 p = None \<or> pr_text_source p = None")
  case True
  then have "read_original E p = raise ''text-mismatch''" by (auto simp: read_original_def split: option.splits)
  then show ?thesis by (simp add: leads_raise)
next
  case False
  then obtain digest column where known: "pr_sha256 p = Some digest" "pr_text_source p = Some column" by auto
  have read: "read_again E p x"
    if "(case bind_result (utf8_decode c) (walk_source (dp_ucd (ie_pass E)) (ie_reader E) column) of
               Inl e \<Rightarrow> Inl ''text-mismatch''
             | Inr T \<Rightarrow> bind_result (utf8_encode (pd_text T)) (\<lambda>d.
                 if Some (dp_sha (ie_pass E) d) \<noteq> pr_canonical p then Inl ''text-mismatch'' else Inr (column, T))) = Inr x" for c x
  proof -
    from that obtain T where T: "bind_result (utf8_decode c) (walk_source (dp_ucd (ie_pass E)) (ie_reader E) column) = Inr T"
      "bind_result (utf8_encode (pd_text T)) (\<lambda>d.
         if Some (dp_sha (ie_pass E) d) \<noteq> pr_canonical p then Inl ''text-mismatch'' else Inr (column, T)) = Inr x"
      by (auto split: sum.splits)
    from T(1) obtain raw where raw: "walk_source (dp_ucd (ie_pass E)) (ie_reader E) column raw = Inr T"
      by (auto simp: bind_result_Inr_iff)
    from T(2) obtain d where d: "utf8_encode (pd_text T) = Inr d" "pr_canonical p = Some (dp_sha (ie_pass E) d)" "x = (column, T)"
      by (auto simp: bind_result_Inr_iff split: if_splits)
    from utf8_decode_encode [OF d(1)] d(2,3) raw show ?thesis by (auto simp: read_again_def)
  qed
  show ?thesis unfolding read_original_def known option.case prod.case
  proof (rule leads_bindp)
    show "leads E k P (get_bytes E digest) (\<lambda>_. P) (\<lambda>_. True)" by (rule leads_get) simp_all
  qed (rule leads_lift, simp, simp add: read)
qed

lemma leads_backfill:
  assumes "pr_doc_id p = k" "pr_status p = ''ready''" "g \<Longrightarrow> sound_env E"
  shows "leads E k (\<lambda>b. tallies E g b p) (backfill E p ty pc) (\<lambda>_ b. g \<longrightarrow> settled_doc b (ie_pipeline E) k) (\<lambda>_. True)"
    (is "leads E k ?P _ ?Q ?X")
proof (cases "pr_canonical p")
  case None
  then show ?thesis by (simp add: backfill_def Let_def leads_raise)
next
  case (Some canonical)
  let ?v = "ie_pipeline E"
  have passing: "?P b \<Longrightarrow> passes b ?v k (pr_sectioned p) (pr_anchored p) (pr_cited p) (treated_at p ?v) (pr_chunked p)" for b
    using tallies_passes [OF _ assms(2)] assms(1) by blast
  have writing: "leads E k (\<lambda>b. passes b ?v k True True (pr_cited p) (treated_at p ?v) (pr_chunked p)) (write_missing E p rows) ?Q ?X"
    if "missing_cut E g p rows" for rows
    by (rule leads_weaken [OF leads_write_missing [OF assms(1), of g]]) (use that in \<open>auto simp: missing_cut_def passes_settled\<close>)
  show ?thesis
  proof (cases "pr_sectioned p")
    case False
    have written: "leads E k (\<lambda>b. ?P b \<and> walked E k W) (bindp (transact E (write_walk_statements k ?v W)) (\<lambda>_. tick f)) ?Q ?X"
      for W f
    proof (rule leads_given)
      assume "walked E k W"
      then have "leads E k (\<lambda>b. passes b ?v k (pr_sectioned p) (pr_anchored p) (pr_cited p) (treated_at p ?v) (pr_chunked p))
          (bindp (transact E (write_walk_statements k ?v W)) (\<lambda>_. tick f)) ?Q ?X"
        by (rule leads_bindp [OF leads_walks leads_tick]) (simp add: passes_settled assms(3))
      then show "leads E k ?P (bindp (transact E (write_walk_statements k ?v W)) (\<lambda>_. tick f)) ?Q ?X"
        by (rule leads_weaken) (simp_all add: passing)
    qed
    have walking: "leads E k ?P (walk_step E k ty pc column T) (\<lambda>W b. ?P b \<and> walked E k W) ?X"
      if "read_again E p (column, T)" for column T
      by (rule leads_walk_step) (use that in \<open>auto simp: read_again_def intro: walkedI\<close>)
    have "leads E k (\<lambda>b. ?P b \<and> read_again E p x)
       (case x of (column, T) \<Rightarrow> bindp (walk_step E k ty pc column T) (\<lambda>W.
          bindp (transact E (write_walk_statements k ?v W)) (\<lambda>_.
            tick (\<lambda>q. count_walk W (q\<lparr>pg_sectioned := pg_sectioned q + 1\<rparr>))))) ?Q ?X" for x
      by (rule leads_given, cases x) (simp only: prod.case, rule leads_bindp [OF walking written], simp)
    from leads_bindp [OF leads_read_original this] False show ?thesis
      by (simp add: backfill_def Let_def Some assms(1))
  next
    case sectioned: True
    show ?thesis
    proof (cases "pr_anchored p")
      case True
      have rest: "leads E k ?P (bindp (missing_rows E p t) (write_missing E p)) ?Q ?X"
        if "canonical = dp_sha (ie_pass E) c" "utf8_decode c = Inr t" for c t
      proof (rule leads_bindp [OF leads_missing_rows [OF _ that(2) sectioned]])
        show "pr_canonical p = Some (dp_sha (ie_pass E) c)" by (simp add: Some that(1))
        show "leads E k (\<lambda>b. ?P b \<and> missing_cut E g p rows) (write_missing E p rows) ?Q ?X" for rows
        proof (rule leads_given)
          assume "missing_cut E g p rows"
          from writing [OF this] show "leads E k ?P (write_missing E p rows) ?Q ?X"
            by (rule leads_weaken) (use passing sectioned True in auto)
        qed
      qed
      have decoded: "leads E k (\<lambda>b. ?P b \<and> canonical = dp_sha (ie_pass E) c)
          (bindp (lift_result (case utf8_decode c of Inl e \<Rightarrow> Inl ''text-mismatch'' | Inr t \<Rightarrow> Inr t)) (\<lambda>t.
          bindp (missing_rows E p t) (write_missing E p))) ?Q ?X" for c
      proof (rule leads_given)
        assume c: "canonical = dp_sha (ie_pass E) c"
        show "leads E k ?P (bindp (lift_result (case utf8_decode c of Inl e \<Rightarrow> Inl ''text-mismatch'' | Inr t \<Rightarrow> Inr t)) (\<lambda>t.
          bindp (missing_rows E p t) (write_missing E p))) ?Q ?X"
        proof (cases "utf8_decode c")
          case (Inl e)
          have "leads E k ?P (raise ''text-mismatch'') (\<lambda>_ :: ustr. ?P) ?X" by (rule leads_raise) simp
          show ?thesis unfolding Inl sum.case lift_result_simps by (simp add: bindp_def raise_def leads_def)
        next
          case (Inr t)
          show ?thesis unfolding Inr sum.case lift_result_simps bindp_ret by (rule rest [OF c Inr])
        qed
      qed
      have got: "leads E k ?P (get_bytes E canonical) (\<lambda>c b. ?P b \<and> canonical = dp_sha (ie_pass E) c) ?X"
        by (rule leads_get) simp_all
      show ?thesis unfolding backfill_def Let_def Some option.case assms(1) using sectioned True
        by (simp only: not_True_eq_False if_False if_True) (rule leads_bindp [OF got decoded])
    next
      case False
      have last: "leads E k (\<lambda>b. ?P b \<and> missing_cut E g p rows) (bindp (transact E (anchor_statements k ?v as @ [Mark_anchored k])) (\<lambda>_.
          bindp (tick f) (\<lambda>_. write_missing E p rows))) ?Q ?X" for as f rows
      proof (rule leads_given)
        assume cut: "missing_cut E g p rows"
        have "leads E k (\<lambda>b. passes b ?v k True (pr_anchored p) (pr_cited p) (treated_at p ?v) (pr_chunked p))
          (bindp (transact E (anchor_statements k ?v as @ [Mark_anchored k])) (\<lambda>_. bindp (tick f) (\<lambda>_. write_missing E p rows))) ?Q ?X"
          by (rule leads_bindp [OF leads_anchors], rule leads_bindp [OF leads_tick writing [OF cut]])
        then show "leads E k ?P (bindp (transact E (anchor_statements k ?v as @ [Mark_anchored k])) (\<lambda>_.
          bindp (tick f) (\<lambda>_. write_missing E p rows))) ?Q ?X"
          by (rule leads_weaken) (use passing sectioned in auto)
      qed
      have each: "leads E k ?P (case a of (anchors, checked, disagreeing) \<Rightarrow>
               bindp (missing_rows E p (pd_text T)) (\<lambda>rows.
               bindp (transact E (anchor_statements k ?v anchors @ [Mark_anchored k])) (\<lambda>_.
               bindp (tick (\<lambda>q. q\<lparr>pg_anchored := pg_anchored q + 1, pg_pgmap_checked := pg_pgmap_checked q + checked,
                   pg_pgmap_disagreeing := pg_pgmap_disagreeing q + disagreeing\<rparr>)) (\<lambda>_.
                 write_missing E p rows)))) ?Q ?X" if "read_again E p (column, T)" for a column T
      proof -
        from that obtain c where "pr_canonical p = Some (dp_sha (ie_pass E) c)" "utf8_decode c = Inr (pd_text T)"
          by (auto simp: read_again_def)
        from leads_bindp [OF leads_missing_rows [OF this sectioned] last] show ?thesis by (cases a) simp
      qed
      have anchoring: "leads E k ?P (bindp (anchor_step E k ty pc column T) (\<lambda>(anchors, checked, disagreeing).
               bindp (missing_rows E p (pd_text T)) (\<lambda>rows.
               bindp (transact E (anchor_statements k ?v anchors @ [Mark_anchored k])) (\<lambda>_.
               bindp (tick (\<lambda>q. q\<lparr>pg_anchored := pg_anchored q + 1, pg_pgmap_checked := pg_pgmap_checked q + checked,
                   pg_pgmap_disagreeing := pg_pgmap_disagreeing q + disagreeing\<rparr>)) (\<lambda>_.
                 write_missing E p rows))))) ?Q ?X" if "read_again E p (column, T)" for column T
      proof (rule leads_bindp)
        show "leads E k ?P (anchor_step E k ty pc column T) (\<lambda>_. ?P) ?X"
          unfolding anchor_step_def Let_def by (rule leads_lift) simp_all
      qed (rule each [OF that])
      have "leads E k (\<lambda>b. ?P b \<and> read_again E p x)
        (case x of (column, T) \<Rightarrow> bindp (anchor_step E k ty pc column T) (\<lambda>(anchors, checked, disagreeing).
               bindp (missing_rows E p (pd_text T)) (\<lambda>rows.
               bindp (transact E (anchor_statements k ?v anchors @ [Mark_anchored k])) (\<lambda>_.
               bindp (tick (\<lambda>q. q\<lparr>pg_anchored := pg_anchored q + 1, pg_pgmap_checked := pg_pgmap_checked q + checked,
                   pg_pgmap_disagreeing := pg_pgmap_disagreeing q + disagreeing\<rparr>)) (\<lambda>_.
                 write_missing E p rows))))) ?Q ?X" for x
        by (rule leads_given, cases x) (simp only: prod.case, rule anchoring, simp)
      from leads_bindp [OF leads_read_original this] sectioned False show ?thesis
        by (simp add: backfill_def Let_def Some assms(1))
    qed
  qed
qed

section \<open>One row and the rows of a court\<close>

lemma leads_catch:
  assumes "leads E k P m Q Y" "\<And>e. leads E k Y (h e) Q X"
  shows "leads E k P (catch m h) Q X"
proof (rule leadsI)
  fix j j' r assume P: "P (jb_db j)" and run: "catch m h j = Some (j', r)"
  then consider x where "m j = Some (j', Inr x)" "r = Inr x" | j1 e where "m j = Some (j1, Inl e)" "h e j1 = Some (j', r)"
    unfolding catch_Some_iff by blast
  then show "record_steps E (jb_db j) (jb_db j') \<and> (\<forall>k'. k' \<noteq> k \<longrightarrow> doc_view (jb_db j') k' = doc_view (jb_db j) k') \<and>
      (case r of Inr x \<Rightarrow> Q x (jb_db j') | Inl _ \<Rightarrow> X (jb_db j'))"
  proof cases
    case 1
    from leadsD [OF assms(1) P 1(1)] 1(2) show ?thesis by simp
  next
    case 2
    note first = leadsD [OF assms(1) P 2(1)]
    note second = leadsD [OF assms(2) first(4) [OF refl] 2(2)]
    from first(1) second(1) have "record_steps E (jb_db j) (jb_db j')" by (rule rtranclp_trans)
    with first(2) second(2-4) show ?thesis by (cases r) auto
  qed
qed

lemma leads_stable:
  assumes "leads E k P m Q X" "\<And>b b'. S b \<Longrightarrow> record_steps E b b' \<Longrightarrow> S b'"
  shows "leads E k (\<lambda>b. P b \<and> S b) m (\<lambda>x b. Q x b \<and> S b) X"
proof (rule leadsI)
  fix j j' r assume PS: "P (jb_db j) \<and> S (jb_db j)" and run: "m j = Some (j', r)"
  note facts = leadsD [OF assms(1) conjunct1 [OF PS] run]
  from assms(2) [OF conjunct2 [OF PS] facts(1)] facts show "record_steps E (jb_db j) (jb_db j') \<and>
      (\<forall>k'. k' \<noteq> k \<longrightarrow> doc_view (jb_db j') k' = doc_view (jb_db j) k') \<and>
      (case r of Inr x \<Rightarrow> Q x (jb_db j') \<and> S (jb_db j') | Inl _ \<Rightarrow> X (jb_db j'))" by (cases r) auto
qed

lemma leads_attempted:
  assumes "leads E k (\<lambda>b. in_status b k ''processing'') m Q (\<lambda>b. in_status b k ''processing'')"
  shows "leads E k (\<lambda>b. in_status b k ''processing'') (attempted E k m) Q (\<lambda>_. True)"
  unfolding attempted_def
proof (rule leads_catch [OF assms])
  fix e
  have "leads E k (\<lambda>b. in_status b k ''processing'') (transact E [Give_back k]) (\<lambda>_ _. True) (\<lambda>_. True)"
    by (rule leads_transact) (auto intro: record_step.gives_back)
  then have "leads E k (\<lambda>b. in_status b k ''processing'') (suppressed (transact E [Give_back k])) (\<lambda>_ _. True) (\<lambda>_. True)"
    unfolding suppressed_def by (rule leads_catch) (rule leads_skip, simp)
  then have "leads E k (\<lambda>b. in_status b k ''processing'') (bindp (suppressed (transact E [Give_back k])) (\<lambda>_. raise e)) Q (\<lambda>_. True)"
    by (rule leads_bindp) (rule leads_raise, simp)
  then show "leads E k (\<lambda>b. in_status b k ''processing'')
      (if e \<in> set GIVEN_BACK then bindp (suppressed (transact E [Give_back k])) (\<lambda>_. raise e) else raise e) Q (\<lambda>_. True)"
    by (auto intro: leads_raise)
qed

lemma sectioned_view: "sectioned_at b v k \<longleftrightarrow> list_ex (\<lambda>(_, p, _). p = v) (dv_sections (doc_view b k))"
  by (auto simp: sectioned_at_def doc_view_def list_ex_iff)

lemma chunked_view: "chunked_at b v k \<longleftrightarrow> list_ex (\<lambda>(_, c). ck_pipeline c = v) (dv_chunks (doc_view b k))"
  by (auto simp: chunked_at_def doc_view_def list_ex_iff)

lemma recorded_view:
  "recorded_sections k v b = sort_key ns_ordinal (map (snd \<circ> snd) (filter (\<lambda>(_, q, _). q = v) (dv_sections (doc_view b k))))"
proof -
  have "filter (\<lambda>(d, q, _). d = k \<and> q = v) xs = filter (\<lambda>(_, q, _). q = v) (filter (\<lambda>r. fst r = k) xs)"
    for xs :: "(ustr \<times> ustr \<times> new_section) list" by (induction xs) auto
  then show ?thesis unfolding recorded_sections_def doc_view_def doc_view.simps by (rule arg_cong)
qed

lemma tallies_frame:
  assumes "doc_view b' (pr_doc_id p) = doc_view b (pr_doc_id p)"
  shows "tallies E g b' p \<longleftrightarrow> tallies E g b p"
proof -
  from assms have "db_documents b' (pr_doc_id p) = db_documents b (pr_doc_id p)" by (simp add: doc_view_def)
  then show ?thesis unfolding tallies_def sections_print_def sectioned_view chunked_view recorded_view assms by simp
qed

lemma leads_named:
  assumes "\<And>p. previous = Some p \<Longrightarrow> pr_doc_id p = k"
  shows "leads E k (\<lambda>b. case previous of None \<Rightarrow> P b | Some p \<Rightarrow> tallies E g b p)
    (named_and_flagged E previous c pc) (\<lambda>_ b. case previous of None \<Rightarrow> P b | Some p \<Rightarrow> tallies E g b p) (\<lambda>_. True)"
proof (cases previous)
  case None
  then show ?thesis by (simp add: named_and_flagged_def leads_skip)
next
  case (Some p)
  from assms Some have k: "pr_doc_id p = k" by simp
  let ?P = "\<lambda>b. tallies E g b p"
  show ?thesis
  proof (cases "pr_status p = ''ready''")
    case False
    with Some show ?thesis by (simp add: named_and_flagged_def leads_skip)
  next
    case True
    have ready: "?P b \<Longrightarrow> in_status b k ''ready''" for b
      using tallies_passes [OF _ True] passes_ready k by blast
    have same: "tallies E g (update_opinion k f b) p = tallies E g b p" for f b
      unfolding tallies_def sections_print_def sectioned_at_def chunked_at_def recorded_sections_def exec_updates ..
    have name: "leads E k ?P (transact E [Set_name k n]) (\<lambda>_. ?P) (\<lambda>_. True)" for n
      by (rule leads_transact) (auto simp: same intro: record_step.names [OF ready])
    have flag: "leads E k ?P (transact E [Set_flag k f]) (\<lambda>_. ?P) (\<lambda>_. True)" for f
      by (rule leads_transact) (auto simp: same intro: record_step.flags [OF ready])
    have "leads E k ?P (case ie_clusters E c of None \<Rightarrow> raise ''stage-mismatch''
       | Some cl \<Rightarrow> bindp (transact E [Set_name k (cl_case_name cl)]) (\<lambda>_. tick f)) (\<lambda>_. ?P) (\<lambda>_. True)" for f
      using leads_bindp [OF name leads_tick] by (cases "ie_clusters E c") (simp_all add: leads_raise)
    then have first: "leads E k ?P (when_p w (case ie_clusters E c of None \<Rightarrow> raise ''stage-mismatch''
       | Some cl \<Rightarrow> bindp (transact E [Set_name k (cl_case_name cl)]) (\<lambda>_. tick f))) (\<lambda>_. ?P) (\<lambda>_. True)" for w f
      by (rule leads_when)
    have second: "leads E k ?P (when_p w (bindp (transact E [Set_flag k pc]) (\<lambda>_. tick f))) (\<lambda>_. ?P) (\<lambda>_. True)" for w f
      by (rule leads_when, rule leads_bindp [OF flag leads_tick])
    from True show ?thesis unfolding named_and_flagged_def Some option.case k
      by (simp only: not_True_eq_False if_False simp_thms) (rule leads_bindp [OF first second])
  qed
qed

text \<open>The document a row is about, and the opinion it leaves accounted for.\<close>

definition row_doc :: "ingest_env \<Rightarrow> present_row option \<Rightarrow> int \<Rightarrow> ustr" where
  "row_doc E previous i = (case previous of Some p \<Rightarrow> pr_doc_id p
     | None \<Rightarrow> (case document_id E i of Inl e \<Rightarrow> [] | Inr k \<Rightarrow> k))"

definition has_opinion :: "database \<Rightarrow> int \<Rightarrow> ustr \<Rightarrow> bool" where
  "has_opinion b i k \<longleftrightarrow> list_ex (\<lambda>n. no_opinion_id n = i \<and> no_doc_id n = k) (db_opinions b)"

definition settled_opinion :: "database \<Rightarrow> ustr \<Rightarrow> int \<Rightarrow> bool" where
  "settled_opinion b v i \<longleftrightarrow> list_ex (\<lambda>n. no_opinion_id n = i \<and> settled_doc b v (no_doc_id n)) (db_opinions b)"

lemma zip_two: "(x, y) \<in> set (zip (map f ns) (map g ns)) \<longleftrightarrow> (\<exists>n \<in> set ns. f n = x \<and> g n = y)"
  by (induction ns) auto

lemma has_opinion_zip: "has_opinion b i k \<longleftrightarrow> (i, k) \<in> set (zip (map no_opinion_id (db_opinions b)) (map no_doc_id (db_opinions b)))"
  by (simp add: has_opinion_def zip_two list_ex_iff)

lemma has_opinion_step: "record_step E b b' \<Longrightarrow> has_opinion b i k \<Longrightarrow> has_opinion b' i k"
proof (erule record_step_opinions)
  assume "has_opinion b i k" "map no_opinion_id (db_opinions b') = map no_opinion_id (db_opinions b)"
    "map no_doc_id (db_opinions b') = map no_doc_id (db_opinions b)"
  then show ?thesis by (simp add: has_opinion_zip)
next
  fix p assume "has_opinion b i k" "db_opinions b' = db_opinions b @ [p]"
  then show ?thesis by (simp add: has_opinion_def)
qed

lemma has_opinion_stays: "has_opinion b i k \<Longrightarrow> record_steps E b b' \<Longrightarrow> has_opinion b' i k"
  by (rotate_tac, induction rule: rtranclp_induct) (auto intro: has_opinion_step)

lemma settled_opinionI: "has_opinion b i k \<Longrightarrow> settled_doc b v k \<Longrightarrow> settled_opinion b v i"
  by (auto simp: has_opinion_def settled_opinion_def list_ex_iff)

lemma settled_opinion_stays:
  "record_steps E b b' \<Longrightarrow> settled_opinion b (ie_pipeline E) i \<Longrightarrow> settled_opinion b' (ie_pipeline E) i"
proof -
  assume steps: "record_steps E b b'" and "settled_opinion b (ie_pipeline E) i"
  then obtain k where "has_opinion b i k" "settled_doc b (ie_pipeline E) k"
    by (auto simp: settled_opinion_def has_opinion_def list_ex_iff)
  with has_opinion_stays [OF _ steps] settled_stays [OF steps] show ?thesis by (blast intro: settled_opinionI)
qed

lemma leads_begins:
  assumes "begin_statements E i c ty pc choice = Inr (k, stmts)" "column_chosen choice"
  shows "leads E k (\<lambda>b. b = b0) (transact E stmts)
    (\<lambda>_ b. in_status b k ''processing'' \<and> (db_documents b0 k = None \<and> has_opinion b i k)) (\<lambda>_. True)"
proof (rule leads_transact)
  fix b b' assume b: "b = b0" "exec_all stmts b = Some b'"
  obtain n p where n: "db_documents b k = None" "no_doc_id p = k" "no_opinion_id p = i"
    "b' = b\<lparr>db_documents := (db_documents b)(k := Some (begun n)), db_opinions := db_opinions b @ [p]\<rparr>"
    by (rule begin_effect [OF assms(1) b(2)])
  with b(1) record_step.begins [OF assms b(2)]
  show "record_step E b b' \<and> in_status b' k ''processing'' \<and> db_documents b0 k = None \<and> has_opinion b' i k"
    by (simp add: in_status_def begun_def has_opinion_def)
next
  obtain n p where "stmts = [Begin_document n, Begin_opinion p]" "nd_doc_id n = k" "no_doc_id p = k"
    by (rule begin_statements_Inr [OF assms(1)])
  then show "\<forall>x \<in> set stmts. statement_doc x = k" by simp
qed simp

lemma begin_document_id: "begin_statements E i c ty pc choice = Inr (k, stmts) \<Longrightarrow> document_id E i = Inr k"
  by (auto simp: begin_statements_def map_result_Inr_iff split: option.splits if_splits)

lemma leads_new:
  assumes "column_chosen choice"
  shows "leads E (row_doc E None i) (\<lambda>b. b = b0) (process_opinion E None i c ty pc choice)
     (\<lambda>_ b. (sound_env E \<longrightarrow> settled_opinion b (ie_pipeline E) i) \<and> db_documents b0 (row_doc E None i) = None) (\<lambda>_. True)"
proof (cases "begin_statements E i c ty pc choice")
  case (Inl e)
  then show ?thesis
    by (simp add: process_opinion_def named_and_flagged_def skip_def lift_result_simps leads_raise)
next
  case (Inr x)
  obtain k stmts where x: "x = (k, stmts)" by (cases x)
  note begins = Inr [unfolded x]
  from begin_document_id [OF begins] have k: "row_doc E None i = k" by (simp add: row_doc_def)
  let ?S = "\<lambda>b. db_documents b0 k = None \<and> has_opinion b i k"
  have "leads E k (\<lambda>b. in_status b k ''processing'' \<and> ?S b) (attempted E k (parse_opinion E k choice ty pc))
      (\<lambda>_ b. (sound_env E \<longrightarrow> settled_doc b (ie_pipeline E) k) \<and> ?S b) (\<lambda>_. True)"
  proof (rule leads_stable [where S = ?S, OF leads_attempted [OF leads_parse]])
    fix b b' assume "?S b" "record_steps E b b'"
    then show "?S b'" by (blast intro: has_opinion_stays)
  qed
  then have "leads E k (\<lambda>b. in_status b k ''processing'' \<and> ?S b) (attempted E k (parse_opinion E k choice ty pc))
      (\<lambda>_ b. (sound_env E \<longrightarrow> settled_opinion b (ie_pipeline E) i) \<and> db_documents b0 k = None) (\<lambda>_. True)"
  proof (rule leads_weaken)
    fix x b assume "(sound_env E \<longrightarrow> settled_doc b (ie_pipeline E) k) \<and> ?S b"
    then show "(sound_env E \<longrightarrow> settled_opinion b (ie_pipeline E) i) \<and> db_documents b0 k = None"
      using settled_opinionI [of b i k "ie_pipeline E"] by simp
  qed
  from leads_bindp [OF leads_begins [OF begins assms] this] show ?thesis
    unfolding k by (simp add: process_opinion_def named_and_flagged_def skip_def Inr x lift_result_simps)
qed

lemma tallies_status: "tallies E g b p \<Longrightarrow> in_status b (pr_doc_id p) (pr_status p) \<and> attempts_of b (pr_doc_id p) = pr_attempts p"
  by (auto simp: tallies_def in_status_def attempts_of_def split: option.splits)

lemma tallies_settled:
  "tallies E g b p \<Longrightarrow> pr_status p \<noteq> ''processing'' \<Longrightarrow> \<not> (pr_status p = ''ready'' \<and> \<not> complete p (ie_pipeline E)) \<Longrightarrow> settled_doc b (ie_pipeline E) (pr_doc_id p)"
  by (auto simp: tallies_def settled_doc_def complete_def split: option.splits)

lemma leads_retries:
  assumes "pr_attempts p < MAX_ATTEMPTS" "pr_status p = ''processing''"
  shows "leads E (pr_doc_id p) (\<lambda>b. tallies E g b p) (transact E [Retry (pr_doc_id p)])
    (\<lambda>_ b. in_status b (pr_doc_id p) ''processing'') (\<lambda>_. True)"
proof (rule leads_transact)
  fix b b' assume b: "tallies E g b p" "exec_all [Retry (pr_doc_id p)] b = Some b'"
  from tallies_status [OF b(1)] assms have now: "in_status b (pr_doc_id p) ''processing''" "attempts_of b (pr_doc_id p) < MAX_ATTEMPTS"
    by simp_all
  with b(2) have "in_status b' (pr_doc_id p) ''processing''" by (auto simp: in_status_def)
  with record_step.retries [OF now b(2)] show "record_step E b b' \<and> in_status b' (pr_doc_id p) ''processing''" ..
qed simp_all

lemma leads_known_doc:
  assumes "g \<Longrightarrow> sound_env E"
  shows "leads E (pr_doc_id p) (\<lambda>b. tallies E g b p) (process_opinion E (Some p) i c ty pc choice)
     (\<lambda>_ b. g \<longrightarrow> settled_doc b (ie_pipeline E) (pr_doc_id p)) (\<lambda>_. True)"
proof -
  let ?k = "pr_doc_id p" and ?v = "ie_pipeline E"
  let ?P = "\<lambda>b. tallies E g b p" and ?Q = "\<lambda>_ b. g \<longrightarrow> settled_doc b ?v ?k" and ?X = "\<lambda>_ :: database. True"
  have named: "leads E ?k ?P (named_and_flagged E (Some p) c pc) (\<lambda>_. ?P) ?X"
    using leads_named [of "Some p" ?k E _ g] by simp
  have body: "leads E ?k ?P
      (if pr_status p = ''ready'' \<and> \<not> complete p ?v then backfill E p ty pc
       else if pr_status p \<noteq> ''processing'' then tick f
       else if MAX_ATTEMPTS \<le> pr_attempts p then bindp (finish_failed E ?k ''interrupted'' None) (\<lambda>_. tick g)
       else bindp (transact E [Retry ?k]) (\<lambda>_. attempted E ?k (bindp (tick h) (\<lambda>_. parse_opinion E ?k choice ty pc)))) ?Q ?X" for f g h
  proof -
    consider "pr_status p = ''ready'' \<and> \<not> complete p ?v" | "\<not> (pr_status p = ''ready'' \<and> \<not> complete p ?v)" "pr_status p \<noteq> ''processing''"
      | "pr_status p = ''processing''" "MAX_ATTEMPTS \<le> pr_attempts p" | "pr_status p = ''processing''" "pr_attempts p < MAX_ATTEMPTS"
      by fastforce
    then show ?thesis
    proof cases
      case 1
      have "leads E ?k ?P (backfill E p ty pc) ?Q ?X"
        by (rule leads_weaken [OF leads_backfill [OF refl conjunct1 [OF 1] assms]])
      then show ?thesis unfolding if_P [OF 1] .
    next
      case 2
      have "leads E ?k ?P (tick f) ?Q ?X" by (rule leads_tick) (use tallies_settled 2 in blast)
      then show ?thesis unfolding if_not_P [OF 2(1)] if_P [OF 2(2)] .
    next
      case 3
      have "''interrupted'' \<in> set FAILURES" by (simp add: FAILURES_def)
      from leads_finish_failed [OF this, where digest = None and E = E and k = ?k and v = ?v] have "leads E ?k ?P (finish_failed E ?k ''interrupted'' None) ?Q ?X"
      proof (rule leads_weaken)
        show "in_status b ?k ''processing''" if "?P b" for b using tallies_status [OF that] 3(1) by simp
      qed simp_all
      from leads_bindp [OF this leads_tick] 3 show ?thesis by simp
    next
      case 4
      have "leads E ?k (\<lambda>b. in_status b ?k ''processing'') (bindp (tick h) (\<lambda>_. parse_opinion E ?k choice ty pc))
          (\<lambda>_ b. sound_env E \<longrightarrow> settled_doc b ?v ?k) (\<lambda>b. in_status b ?k ''processing'')"
        by (rule leads_bindp [OF leads_tick leads_parse])
      from leads_attempted [OF this] have "leads E ?k (\<lambda>b. in_status b ?k ''processing'')
          (attempted E ?k (bindp (tick h) (\<lambda>_. parse_opinion E ?k choice ty pc))) ?Q ?X"
        by (rule leads_weaken) (use assms in simp_all)
      from leads_bindp [OF leads_retries this] 4 show ?thesis by simp
    qed
  qed
  show ?thesis unfolding process_opinion_def option.case by (rule leads_bindp [OF named body])
qed

lemma leads_known:
  assumes "g \<Longrightarrow> sound_env E"
  shows "leads E (pr_doc_id p) (\<lambda>b. tallies E g b p \<and> has_opinion b i (pr_doc_id p)) (process_opinion E (Some p) i c ty pc choice)
     (\<lambda>_ b. g \<longrightarrow> settled_opinion b (ie_pipeline E) i) (\<lambda>_. True)"
proof -
  have "leads E (pr_doc_id p) (\<lambda>b. tallies E g b p \<and> has_opinion b i (pr_doc_id p)) (process_opinion E (Some p) i c ty pc choice)
     (\<lambda>_ b. (g \<longrightarrow> settled_doc b (ie_pipeline E) (pr_doc_id p)) \<and> has_opinion b i (pr_doc_id p)) (\<lambda>_. True)"
    by (rule leads_stable [OF leads_known_doc], erule assms, rule has_opinion_stays)
  then show ?thesis by (rule leads_weaken) (use settled_opinionI in blast)+
qed

text \<open>The identifiers the rows carry; where every row's is its own, what is known of one row outlasts the others.\<close>

definition row_ids :: "staged_row list \<Rightarrow> int list" where
  "row_ids rows = concat (map (\<lambda>r. case positive_integer (sr_id r) of Inl e \<Rightarrow> [] | Inr i \<Rightarrow> [i]) rows)"

definition in_hand :: "ingest_env \<Rightarrow> bool \<Rightarrow> (int \<Rightarrow> present_row option) \<Rightarrow> int list \<Rightarrow> database \<Rightarrow> bool" where
  "in_hand E g known ids b \<longleftrightarrow> (\<forall>i \<in> set ids. case known i of None \<Rightarrow> True
     | Some p \<Rightarrow> tallies E g b p \<and> has_opinion b i (pr_doc_id p))"

lemma keyed_docs: "keyed b \<Longrightarrow> has_opinion b i k \<Longrightarrow> has_opinion b i' k \<Longrightarrow> i = i'"
proof -
  assume k: "keyed b" and "has_opinion b i k" "has_opinion b i' k"
  then obtain n n' where n: "n \<in> set (db_opinions b)" "no_opinion_id n = i" "no_doc_id n = k"
    "n' \<in> set (db_opinions b)" "no_opinion_id n' = i'" "no_doc_id n' = k" by (auto simp: has_opinion_def list_ex_iff)
  from k have "inj_on no_doc_id (set (db_opinions b))" by (simp add: keyed_def distinct_map)
  with n have "n = n'" by (simp add: inj_on_def)
  with n show ?thesis by simp
qed

lemma choice_column: "column_chosen (choose_source U row)"
  by (auto simp: column_chosen_def choose_source_def find_Some_iff in_set_conv_nth split: option.splits)

lemma leads_row:
  assumes "positive_integer (sr_id r) = Inr i" "g \<Longrightarrow> sound_env E"
  shows "leads E (row_doc E (known i) i) (\<lambda>b. b = b0 \<and> in_hand E g known [i] b) (process_row E known r)
    (\<lambda>_ b. (g \<longrightarrow> settled_opinion b (ie_pipeline E) i) \<and>
       (known i = None \<longrightarrow> db_documents b0 (row_doc E (known i) i) = None)) (\<lambda>_. True)" (is "leads E ?k ?P _ ?Q ?X")
proof -
  have opinion: "leads E ?k ?P (process_opinion E (known i) i c ty pc choice) ?Q ?X" if "column_chosen choice" for c ty pc choice
  proof (cases "known i")
    case None
    show ?thesis unfolding None by (rule leads_weaken [OF leads_new [OF that]]) (use assms(2) in auto)
  next
    case (Some p)
    have k: "?k = pr_doc_id p" by (simp add: row_doc_def Some)
    show ?thesis unfolding k unfolding Some by (rule leads_weaken [OF leads_known [OF assms(2)]]) (simp_all add: in_hand_def Some)
  qed
  have checked: "leads E ?k ?P (if c then raise e else process_opinion E (known i) i cl ty pc choice) ?Q ?X" if "column_chosen choice" for c e cl ty pc choice
  proof (cases c)
    case True
    show ?thesis unfolding if_P [OF True] by (rule leads_raise) simp
  next
    case False
    show ?thesis unfolding if_not_P [OF False] by (rule opinion [OF that])
  qed
  have "leads E ?k ?P (bindp (lift_result (positive_integer (sr_cluster_id r))) (\<lambda>cluster_id.
        if sr_per_curiam r \<notin> {ulit ''t'', ulit ''f''} then raise ''malformed''
        else process_opinion E (known i) i cluster_id (sr_type r) (sr_per_curiam r = ulit ''t'')
          (choose_source (dp_ucd (ie_pass E)) (\<lambda>name. Some (sr_texts r name))))) ?Q ?X"
    by (rule leads_bindp [OF leads_lift checked [OF choice_column]]) simp_all
  then show ?thesis unfolding process_row_def assms(1) lift_result_simps bindp_ret by (rule leads_bindp [OF leads_tick, rotated]) simp
qed

lemma in_hand_Cons: "in_hand E g known (i # ids) b \<longleftrightarrow> in_hand E g known [i] b \<and> in_hand E g known ids b"
  by (auto simp: in_hand_def)

lemma process_row_malformed:
  assumes "positive_integer (sr_id r) = Inl e" "process_row E known r j = Some (j', x)"
  shows "jb_db j' = jb_db j \<and> x = Inl e"
  using assms(2) by (simp add: process_row_def assms(1) lift_result_simps bindp_def tick_def assign_def raise_def) auto

lemma in_hand_frame:
  assumes "in_hand E g known ids b" "keyed b" "distinct (i # ids)" "in_hand E g known [i] b"
    and "known i = None \<longrightarrow> db_documents b (row_doc E (known i) i) = None"
    and "\<And>k. k \<noteq> row_doc E (known i) i \<Longrightarrow> doc_view b' k = doc_view b k" "record_steps E b b'"
  shows "in_hand E g known ids b'"
  unfolding in_hand_def
proof
  fix i' assume i': "i' \<in> set ids"
  show "case known i' of None \<Rightarrow> True | Some p \<Rightarrow> tallies E g b' p \<and> has_opinion b' i' (pr_doc_id p)"
  proof (cases "known i'")
    case (Some p)
    with assms(1) i' have p: "tallies E g b p" "has_opinion b i' (pr_doc_id p)" by (auto simp: in_hand_def)
    have "pr_doc_id p \<noteq> row_doc E (known i) i"
    proof (cases "known i")
      case None
      with assms(5) p(1) show ?thesis by (auto simp: tallies_def split: option.splits)
    next
      case (Some q)
      with assms(4) have "has_opinion b i (pr_doc_id q)" by (simp add: in_hand_def)
      with keyed_docs [OF assms(2) p(2), of i] assms(3) i' have "pr_doc_id q \<noteq> pr_doc_id p" by (metis distinct.simps(2))
      with Some show ?thesis by (simp add: row_doc_def)
    qed
    from tallies_frame [OF assms(6) [OF this], of E g] p(1) has_opinion_stays [OF p(2) assms(7)] Some
    show ?thesis by simp
  qed simp
qed

lemma process_rows_runs:
  "process_rows E known rows j = Some (j', x) \<Longrightarrow> keyed (jb_db j) \<Longrightarrow> distinct (row_ids rows) \<Longrightarrow>
     in_hand E g known (row_ids rows) (jb_db j) \<Longrightarrow> (g \<Longrightarrow> sound_env E) \<Longrightarrow>
     record_steps E (jb_db j) (jb_db j') \<and>
     (x = Inr () \<longrightarrow> (g \<longrightarrow> (\<forall>i \<in> set (row_ids rows). settled_opinion (jb_db j') (ie_pipeline E) i)) \<and>
       length (row_ids rows) = length rows)"
proof (induction rows arbitrary: j)
  case Nil
  then show ?case by (simp add: skip_def ret_def row_ids_def)
next
  case (Cons r rows)
  from Cons.prems(1) consider e where "process_row E known r j = Some (j', Inl e)" "x = Inl e"
    | j1 where "process_row E known r j = Some (j1, Inr ())" "process_rows E known rows j1 = Some (j', x)"
    unfolding process_rows.simps bindp_Some_iff by auto
  then show ?case
  proof cases
    case 1
    show ?thesis
    proof (cases "positive_integer (sr_id r)")
      case (Inl e')
      from conjunct1 [OF process_row_malformed [OF Inl 1(1)]] 1(2) show ?thesis by simp
    next
      case (Inr i)
      then have ids: "row_ids (r # rows) = i # row_ids rows" by (simp add: row_ids_def)
      have "in_hand E g known [i] (jb_db j)" by (rule conjunct1 [OF iffD1 [OF in_hand_Cons Cons.prems(4) [unfolded ids]]])
      then have "jb_db j = jb_db j \<and> in_hand E g known [i] (jb_db j)" by simp
      from leadsD(1) [OF leads_row [OF Inr Cons.prems(5), where known = known and ?b0.0 = "jb_db j"] this 1(1)] 1(2) show ?thesis by simp
    qed
  next
    case 2
    obtain i where i: "positive_integer (sr_id r) = Inr i"
    proof (cases "positive_integer (sr_id r)")
      case (Inl e)
      from process_row_malformed [OF Inl 2(1)] show ?thesis by simp
    qed (rule that)
    have ids: "row_ids (r # rows) = i # row_ids rows" by (simp add: row_ids_def i)
    note hand = conjunct1 [OF iffD1 [OF in_hand_Cons Cons.prems(4) [unfolded ids]]]
      conjunct2 [OF iffD1 [OF in_hand_Cons Cons.prems(4) [unfolded ids]]]
    from hand(1) have pre: "jb_db j = jb_db j \<and> in_hand E g known [i] (jb_db j)" by simp
    note row = leadsD [OF leads_row [OF i Cons.prems(5), where known = known and ?b0.0 = "jb_db j"] pre 2(1)]
    from row(1,3) have first: "record_steps E (jb_db j) (jb_db j1)"
      "g \<longrightarrow> settled_opinion (jb_db j1) (ie_pipeline E) i"
      "known i = None \<longrightarrow> db_documents (jb_db j) (row_doc E (known i) i) = None" by simp_all
    have "in_hand E g known (row_ids rows) (jb_db j1)"
      by (rule in_hand_frame [OF hand(2) Cons.prems(2) Cons.prems(3) [unfolded ids] hand(1) first(3) row(2) first(1)])
    with Cons.IH [OF 2(2) record_steps_keyed [OF first(1) Cons.prems(2)] _ _ Cons.prems(5)] Cons.prems(3) have later:
      "record_steps E (jb_db j1) (jb_db j')"
      "x = Inr () \<longrightarrow> (g \<longrightarrow> (\<forall>i \<in> set (row_ids rows). settled_opinion (jb_db j') (ie_pipeline E) i)) \<and>
         length (row_ids rows) = length rows" by (simp_all add: ids)
    from rtranclp_trans [OF first(1) later(1)] later(2) settled_opinion_stays [OF later(1)] first(2) show ?thesis
      by (simp add: ids)
  qed
qed

text \<open>What the job reads of a court before its first row.\<close>

lemma present_tallies:
  assumes "present b source snapshot court (ie_pipeline E) i = Some p" "g \<Longrightarrow> sections_print E b (pr_doc_id p)"
  shows "tallies E g b p \<and> has_opinion b i (pr_doc_id p)"
proof -
  from assms(1) obtain n d where n: "find (\<lambda>n. no_opinion_id n = i \<and> no_court n = court) (db_opinions b) = Some n"
    "db_documents b (no_doc_id n) = Some d" "p = present_of b (ie_pipeline E) n d"
    by (auto simp: present_def split: option.splits if_splits)
  from n(1) have "n \<in> set (db_opinions b)" "no_opinion_id n = i" by (auto simp: find_Some_iff)
  with n(2,3) assms(2) show ?thesis
    by (auto simp: tallies_def has_opinion_def list_ex_iff present_of_def sectioned_at_def chunked_at_def treated_at_def)
qed

lemma ingest_rows_runs:
  assumes "ingest_rows E limit rows j = Some (j', x)" "keyed (jb_db j)" "distinct (row_ids rows)"
  shows "record_steps E (jb_db j) (jb_db j')"
    and "x = Inr () \<Longrightarrow> limit = None \<Longrightarrow> sound_env E \<Longrightarrow> (\<forall>k. sections_print E (jb_db j) k) \<Longrightarrow>
      (\<forall>i \<in> set (row_ids rows). settled_opinion (jb_db j') (ie_pipeline E) i) \<and> length (row_ids rows) = length rows"
proof -
  let ?known = "present (jb_db j) (ie_source E) (ie_snapshot E) (ie_court E) (ie_pipeline E)"
  let ?rows = "case limit of None \<Rightarrow> rows | Some n \<Rightarrow> take n rows"
  from assms(1) consider e where "jb_db j' = jb_db j" "x = Inl e"
    | j1 where "jb_db j1 = jb_db j" "process_rows E ?known ?rows j1 = Some (j', x)"
    unfolding ingest_rows_def read_rows_def bindp_Some_iff fetch_def
    by (auto dest!: transact_Some)
  note cases = this
  have "row_ids (take n rows) = take (length (row_ids (take n rows))) (row_ids rows)" for n
    by (metis append_eq_conv_conj append_take_drop_id concat_append map_append row_ids_def)
  then have distinct: "distinct (row_ids ?rows)" using assms(3) by (cases limit) (simp, metis distinct_take option.case(2))
  have hand: "in_hand E g ?known ids (jb_db j)" if "g \<longrightarrow> (\<forall>k. sections_print E (jb_db j) k)" for ids g
    using present_tallies [where g = g] that by (auto simp: in_hand_def split: option.splits)
  from cases show "record_steps E (jb_db j) (jb_db j')"
  proof cases
    case 1
    then show ?thesis by simp
  next
    case 2
    from process_rows_runs [OF 2(2), where g = False] 2(1) assms(2) distinct hand [of False] show ?thesis by simp
  qed
  assume x: "x = Inr ()" "limit = None" "sound_env E" "\<forall>k. sections_print E (jb_db j) k"
  from cases show "(\<forall>i \<in> set (row_ids rows). settled_opinion (jb_db j') (ie_pipeline E) i) \<and> length (row_ids rows) = length rows"
  proof cases
    case 1
    with x show ?thesis by simp
  next
    case 2
    from process_rows_runs [OF 2(2), where g = True] 2(1) assms(2) distinct hand [of True] x show ?thesis by simp
  qed
qed

section \<open>An ingest always returns\<close>

definition returns :: "'a step \<Rightarrow> bool" where
  "returns m \<longleftrightarrow> (\<forall>j. m j \<noteq> None)"

lemma returns_bindp: "returns m \<Longrightarrow> (\<And>x. returns (f x)) \<Longrightarrow> returns (bindp m f)"
  unfolding returns_def bindp_def by (force split: option.splits sum.splits)

lemma returns_catch: "returns m \<Longrightarrow> (\<And>e. returns (h e)) \<Longrightarrow> returns (catch m h)"
  unfolding returns_def catch_def by (force split: option.splits sum.splits)

lemma returns_basic:
  "returns (ret x)" "returns (raise e)" "returns skip" "returns (lift_result r)" "returns (tick f)" "returns (fetch g)"
  by (simp_all add: returns_def ret_def raise_def skip_def lift_result_def tick_def assign_def fetch_def)

lemma returns_transact: "returns (transact E stmts)"
  by (simp add: returns_def transact_def split: option.splits)

lemma returns_store: "returns (put_text E t)" "returns (get_bytes E n)"
  by (auto simp: returns_def put_text_def get_bytes_def Let_def split: sum.splits option.splits)

lemma returns_branches:
  "returns m \<Longrightarrow> returns n \<Longrightarrow> returns (if c then m else n)"
  "returns e \<Longrightarrow> (\<And>x. returns (f x)) \<Longrightarrow> returns (case y of None \<Rightarrow> e | Some x \<Rightarrow> f x)"
  "(\<And>x. returns (g x)) \<Longrightarrow> (\<And>x. returns (h x)) \<Longrightarrow> returns (case z of Inl x \<Rightarrow> g x | Inr x \<Rightarrow> h x)"
  "(\<And>a b. returns (k a b)) \<Longrightarrow> returns (case p of (a, b) \<Rightarrow> k a b)"
  "returns u \<Longrightarrow> returns (when_p d u)"
  by (auto simp: when_p_def returns_basic split: option.splits sum.splits prod.splits)

lemma chunk_rows_returns: "chunk_rows D k t rows cites \<noteq> None"
  using chunk_from_returns [of "dp_ucd D" "dp_sha D" k "dp_pipeline D" t "spans_of cites" "dp_tokens D" "[]" "map row_span_of rows"]
  by (auto simp: chunk_rows_def chunk_def)

lemma returns_chunks: "returns (\<lambda>j. map_option (Pair j) (chunk_rows D k t rows cites))"
  using chunk_rows_returns unfolding returns_def by simp

lemma whole_walk_returns: "whole_walk D k ty pc column T \<noteq> None"
  unfolding whole_walk_def Let_def
  by (simp add: chunk_rows_returns del: not_None_eq split: sum.split prod.split)

lemma returns_walk_step: "returns (walk_step E k ty pc column T)"
  using whole_walk_returns unfolding returns_def walk_step_def by simp

lemmas returns_rules = returns_bindp returns_catch returns_basic returns_transact returns_store returns_branches
  returns_chunks returns_walk_step

lemma returns_parts:
  "returns (read_rows E f)" "returns (finish_failed E k reason digest)" "returns (read_original E p)"
  "returns (anchor_step E k ty pc column T)" "returns (missing_rows E p t)" "returns (write_missing E p rows)"
  "returns (named_and_flagged E previous c pc)"
  unfolding read_rows_def finish_failed_def read_original_def anchor_step_def missing_rows_def write_missing_def
    named_and_flagged_def Let_def
  by (intro returns_rules)+

lemma returns_parse: "returns (parse_opinion E k choice ty pc)"
  unfolding parse_opinion_def by (intro returns_rules returns_parts)

lemma returns_backfill: "returns (backfill E p ty pc)"
  unfolding backfill_def Let_def by (intro returns_rules returns_parts)

lemma returns_attempted: "returns m \<Longrightarrow> returns (attempted E k m)"
  unfolding attempted_def suppressed_def by (intro returns_rules)

lemma returns_process: "returns (process_opinion E previous i c ty pc choice)"
  unfolding process_opinion_def by (intro returns_rules returns_parts returns_attempted returns_parse returns_backfill)

lemma returns_rows: "returns (process_rows E known rows)"
proof (induction rows)
  case (Cons r rows)
  have "returns (process_row E known r)" unfolding process_row_def by (intro returns_rules returns_process)
  with Cons show ?case unfolding process_rows.simps by (intro returns_bindp)
qed (simp add: returns_basic)

lemma ingest_rows_returns: "ingest_rows E limit rows j \<noteq> None"
proof -
  have "returns (ingest_rows E limit rows)" unfolding ingest_rows_def by (intro returns_bindp returns_parts returns_rows)
  then show ?thesis by (simp add: returns_def)
qed

section \<open>A run over what is done, and a run that cannot pass\<close>

definition row_reads :: "staged_row \<Rightarrow> int \<Rightarrow> bool" where
  "row_reads r i \<longleftrightarrow> positive_integer (sr_id r) = Inr i \<and> (\<exists>c. positive_integer (sr_cluster_id r) = Inr c) \<and>
     sr_per_curiam r \<in> {ulit ''t'', ulit ''f''}"

definition finished :: "present_row \<Rightarrow> ustr \<Rightarrow> bool" where
  "finished p v \<longleftrightarrow> pr_status p \<noteq> ''processing'' \<and>
     (pr_status p = ''ready'' \<longrightarrow> complete p v \<and> pr_named p \<and> pr_flagged p)"

definition seen_again :: "nat \<Rightarrow> progress \<Rightarrow> progress" where
  "seen_again n q = q\<lparr>pg_seen := pg_seen q + n, pg_present := pg_present q + n\<rparr>"

lemma named_finished: "finished p v \<Longrightarrow> named_and_flagged E (Some p) c pc = skip"
  by (auto simp: finished_def named_and_flagged_def when_p_def skip_def)

lemma process_row_finished:
  assumes "row_reads r i" "known i = Some p" "finished p (ie_pipeline E)"
  shows "process_row E known r j = Some (j\<lparr>jb_progress := seen_again 1 (jb_progress j)\<rparr>, Inr ())"
proof -
  from assms(1) obtain c where c: "positive_integer (sr_id r) = Inr i" "positive_integer (sr_cluster_id r) = Inr c"
    "\<not> sr_per_curiam r \<notin> {ulit ''t'', ulit ''f''}" by (auto simp: row_reads_def)
  from assms(3) have over: "\<not> (pr_status p = ''ready'' \<and> \<not> complete p (ie_pipeline E))" "pr_status p \<noteq> ''processing''"
    by (auto simp: finished_def)
  have "process_opinion E (Some p) i c ty pc choice = tick (\<lambda>q. q\<lparr>pg_present := pg_present q + 1\<rparr>)" for ty pc choice
    unfolding process_opinion_def named_finished [OF assms(3)] option.case if_not_P [OF over(1)] if_P [OF over(2)]
    by (simp add: skip_def)
  then show ?thesis
    unfolding process_row_def c(1,2) if_not_P [OF c(3)] lift_result_simps bindp_ret assms(2)
    by (simp add: bindp_def tick_def assign_def seen_again_def)
qed

lemma process_rows_finished:
  assumes "\<forall>r \<in> set rows. \<exists>i p. row_reads r i \<and> known i = Some p \<and> finished p (ie_pipeline E)"
  shows "process_rows E known rows j = Some (j\<lparr>jb_progress := seen_again (length rows) (jb_progress j)\<rparr>, Inr ())"
  using assms
proof (induction rows arbitrary: j)
  case (Cons r rows)
  then obtain i p where r: "row_reads r i" "known i = Some p" "finished p (ie_pipeline E)" by auto
  from process_row_finished [where known = known, OF r] Cons show ?case by (simp add: bindp_def seen_again_def)
qed (simp add: skip_def ret_def seen_again_def)

lemma read_rows_accepted: "\<not> ie_refuses E [] (jb_db j) \<Longrightarrow> read_rows E f j = Some (j, Inr (f (jb_db j)))"
  by (simp add: read_rows_def transact_def bindp_def fetch_def)

text \<open>The same record after an attempt and its giving back.\<close>

lemma update_twice: "update_document k f (update_document k g b) = update_document k (\<lambda>d. f (g d)) b"
  unfolding update_document_def by (cases "db_documents b k") (simp_all add: fun_eq_iff)

lemma update_none: "update_document k (\<lambda>d. d) b = b"
proof -
  have "(\<lambda>d. if d = k then map_option (\<lambda>d. d) (db_documents b k) else db_documents b d) = db_documents b"
    by (simp add: fun_eq_iff option.map_ident)
  then show ?thesis unfolding update_document_def by simp
qed

lemma attempt_given_back:
  assumes "exec_all [Retry k] b = Some b1"
  shows "exec_all [Give_back k] b1 = Some b"
proof -
  from assms have "b1 = update_document k (\<lambda>d. d\<lparr>do_attempts := do_attempts d + 1\<rparr>) b" by simp
  then show ?thesis by (simp add: update_twice update_none)
qed

lemma put_text_kept:
  assumes "utf8_encode t = Inr c" "\<not> ie_store_refuses E (dp_sha (ie_pass E) c)"
    and "case jb_store j (dp_sha (ie_pass E) c) of None \<Rightarrow> True | Some old \<Rightarrow> length old = length c"
  obtains j' where "put_text E t j = Some (j', Inr (dp_sha (ie_pass E) c))" "jb_db j' = jb_db j" "jb_progress j' = jb_progress j"
    "case jb_store j' (dp_sha (ie_pass E) c) of None \<Rightarrow> True | Some old \<Rightarrow> length old = length c"
  using assms by (cases "jb_store j (dp_sha (ie_pass E) c)") (auto simp: put_text_def Let_def)

text \<open>A source whose walk a stage refuses: what the job reads, stores and walks of it.\<close>

definition refused_source :: "ingest_env \<Rightarrow> job \<Rightarrow> ustr \<Rightarrow> ustr \<Rightarrow> bool \<Rightarrow> string \<Rightarrow> ustr \<Rightarrow> exn \<Rightarrow> bool" where
  "refused_source E j k ty pc column raw e \<longleftrightarrow>
     (case utf8_encode raw of
        Inl _ \<Rightarrow> False
      | Inr c \<Rightarrow> \<not> ie_store_refuses E (dp_sha (ie_pass E) c) \<and>
          (case jb_store j (dp_sha (ie_pass E) c) of None \<Rightarrow> True | Some old \<Rightarrow> length old = length c)) \<and>
     (case canonical_text (dp_ucd (ie_pass E)) (ie_reader E) column raw of
        Inl _ \<Rightarrow> False
      | Inr T \<Rightarrow> whole_walk (ie_pass E) k ty pc column T = Some (Inl e)) \<and>
     e \<in> set GIVEN_BACK"

lemma parse_refused:
  assumes "refused_source E j k ty pc column raw e"
  obtains j' where "parse_opinion E k (Some (column, raw)) ty pc j = Some (j', Inl e)" "jb_db j' = jb_db j"
    "jb_progress j' = jb_progress j" "refused_source E j' k ty pc column raw e"
proof -
  from assms obtain c T where c: "utf8_encode raw = Inr c" "\<not> ie_store_refuses E (dp_sha (ie_pass E) c)"
    "case jb_store j (dp_sha (ie_pass E) c) of None \<Rightarrow> True | Some old \<Rightarrow> length old = length c"
    and T: "canonical_text (dp_ucd (ie_pass E)) (ie_reader E) column raw = Inr T"
      "whole_walk (ie_pass E) k ty pc column T = Some (Inl e)" and e: "e \<in> set GIVEN_BACK"
    unfolding refused_source_def by (auto split: sum.splits)
  obtain j' where j': "put_text E raw j = Some (j', Inr (dp_sha (ie_pass E) c))" "jb_db j' = jb_db j" "jb_progress j' = jb_progress j"
    "case jb_store j' (dp_sha (ie_pass E) c) of None \<Rightarrow> True | Some old \<Rightarrow> length old = length c"
    by (rule put_text_kept [OF c])
  from j'(1) T have "parse_opinion E k (Some (column, raw)) ty pc j = Some (j', Inl e)"
    by (simp add: parse_opinion_def bindp_def walk_step_def)
  moreover have "refused_source E j' k ty pc column raw e"
    unfolding refused_source_def c(1) T(1) sum.case using c(2) j'(4) T(2) e by blast
  ultimately show thesis using j'(2,3) that by blast
qed

text \<open>What a refused walk leaves of the record: a document already under way is as it was; one begun now stays under way,
  with its opinion and no attempt spent.\<close>

definition held :: "ingest_env \<Rightarrow> present_row option \<Rightarrow> int \<Rightarrow> int \<Rightarrow> staged_row \<Rightarrow> (string \<times> ustr) option \<Rightarrow> database \<Rightarrow>
    (ustr \<times> database) option" where
  "held E previous i c r choice b =
     (case previous of
        Some p \<Rightarrow> if pr_status p = ''processing'' \<and> pr_attempts p < MAX_ATTEMPTS then Some (pr_doc_id p, b) else None
      | None \<Rightarrow>
          (case begin_statements E i c (sr_type r) (sr_per_curiam r = ulit ''t'') choice of
             Inl _ \<Rightarrow> None
           | Inr (k, stmts) \<Rightarrow>
               map_option (\<lambda>b'. (k, update_document k (\<lambda>d. d\<lparr>do_attempts := 0\<rparr>) b')) (exec_all stmts b)))"

lemma begun_given_back:
  assumes "begin_statements E i c ty pc choice = Inr (k, stmts)" "exec_all stmts b = Some b1"
  shows "exec_all [Give_back k] b1 = Some (update_document k (\<lambda>d. d\<lparr>do_attempts := 0\<rparr>) b1)"
proof -
  obtain n p where "b1 = b\<lparr>db_documents := (db_documents b)(k := Some (begun n)), db_opinions := db_opinions b @ [p]\<rparr>"
    by (rule begin_effect [OF assms])
  then show ?thesis by (simp add: update_document_def begun_def fun_eq_iff)
qed

lemma attempted_refused:
  assumes "m j = Some (j', Inl e)" "e \<in> set GIVEN_BACK" "exec_all [Give_back k] (jb_db j') = Some b"
    and "\<And>stmts b. \<not> ie_refuses E stmts b"
  shows "attempted E k m j = Some (j'\<lparr>jb_db := b\<rparr>, Inl e)"
proof -
  have "transact E [Give_back k] j' = Some (j'\<lparr>jb_db := b\<rparr>, Inr ())" using assms(3,4) by (simp add: transact_def)
  with assms(1,2) show ?thesis by (simp add: attempted_def catch_def suppressed_def bindp_def raise_def)
qed

lemma opinion_refused:
  assumes "held E previous i c r (Some (column, raw)) (jb_db j) = Some (k, b)"
    and "refused_source E j k (sr_type r) (sr_per_curiam r = ulit ''t'') column raw e" "\<And>stmts b. \<not> ie_refuses E stmts b"
  obtains j' where "process_opinion E previous i c (sr_type r) (sr_per_curiam r = ulit ''t'') (Some (column, raw)) j = Some (j', Inl e)"
    "jb_db j' = b" "pg_seen (jb_progress j') = pg_seen (jb_progress j)"
    "refused_source E j' k (sr_type r) (sr_per_curiam r = ulit ''t'') column raw e"
proof -
  let ?ty = "sr_type r" and ?pc = "sr_per_curiam r = ulit ''t''"
  from assms(2) have e: "e \<in> set GIVEN_BACK" by (simp add: refused_source_def)
  have source: "refused_source E j2 k ?ty ?pc column raw e" if "jb_store j2 = jb_store j" for j2
    using assms(2) unfolding refused_source_def that .
  have kept: "refused_source E (j3\<lparr>jb_db := b\<rparr>) k ?ty ?pc column raw e" if "refused_source E j3 k ?ty ?pc column raw e" for j3
  proof -
    have same: "jb_store (j3\<lparr>jb_db := b\<rparr>) = jb_store j3" by simp
    show ?thesis using that unfolding refused_source_def same .
  qed
  show thesis
  proof (cases previous)
    case None
    with assms(1) obtain stmts b1 where begins: "begin_statements E i c ?ty ?pc (Some (column, raw)) = Inr (k, stmts)"
      "exec_all stmts (jb_db j) = Some b1" "b = update_document k (\<lambda>d. d\<lparr>do_attempts := 0\<rparr>) b1"
      by (auto simp: held_def split: sum.splits)
    obtain j3 where j3: "parse_opinion E k (Some (column, raw)) ?ty ?pc (j\<lparr>jb_db := b1\<rparr>) = Some (j3, Inl e)"
      "jb_db j3 = jb_db (j\<lparr>jb_db := b1\<rparr>)" "jb_progress j3 = jb_progress (j\<lparr>jb_db := b1\<rparr>)" "refused_source E j3 k ?ty ?pc column raw e"
      by (rule parse_refused [OF source [of "j\<lparr>jb_db := b1\<rparr>"]]) simp_all
    have "exec_all [Give_back k] (jb_db j3) = Some b"
      using begun_given_back [OF begins(1,2)] begins(3) j3(2) by simp
    from attempted_refused [where k = k and m = "parse_opinion E k (Some (column, raw)) ?ty ?pc" and j = "j\<lparr>jb_db := b1\<rparr>", OF j3(1) e this assms(3)] begins(1,2) assms(3) None
    have "process_opinion E previous i c ?ty ?pc (Some (column, raw)) j = Some (j3\<lparr>jb_db := b\<rparr>, Inl e)"
      by (simp add: process_opinion_def named_and_flagged_def skip_def bindp_def ret_def lift_result_simps transact_def)
    with that [of "j3\<lparr>jb_db := b\<rparr>"] j3(3) kept [OF j3(4)] show thesis by simp
  next
    case (Some p)
    with assms(1) have p: "pr_status p = ''processing''" "pr_attempts p < MAX_ATTEMPTS" "pr_doc_id p = k" "b = jb_db j"
      by (simp_all add: held_def split: if_splits)
    obtain b1 where b1: "exec_all [Retry k] (jb_db j) = Some b1" by simp
    define j2 where "j2 = j\<lparr>jb_db := b1, jb_progress := (jb_progress j)\<lparr>pg_retried := pg_retried (jb_progress j) + 1\<rparr>\<rparr>"
    obtain j3 where j3: "parse_opinion E k (Some (column, raw)) ?ty ?pc j2 = Some (j3, Inl e)"
      "jb_db j3 = jb_db j2" "jb_progress j3 = jb_progress j2" "refused_source E j3 k ?ty ?pc column raw e"
      by (rule parse_refused [OF source [of j2]]) (simp_all add: j2_def)
    let ?m = "bindp (tick (\<lambda>q. q\<lparr>pg_retried := pg_retried q + 1\<rparr>)) (\<lambda>_. parse_opinion E k (Some (column, raw)) ?ty ?pc)"
    have run: "?m (j\<lparr>jb_db := b1\<rparr>) = Some (j3, Inl e)"
      using j3(1) by (simp add: bindp_def tick_def assign_def j2_def)
    have "exec_all [Give_back k] (jb_db j3) = Some b" using attempt_given_back [OF b1] j3(2) p(4) by (simp add: j2_def)
    from attempted_refused [where k = k and j = "j\<lparr>jb_db := b1\<rparr>" and m = ?m, OF run e this assms(3)] b1 assms(3) p(1-3) Some
    have "process_opinion E previous i c ?ty ?pc (Some (column, raw)) j = Some (j3\<lparr>jb_db := b\<rparr>, Inl e)"
      by (simp add: process_opinion_def named_and_flagged_def skip_def bindp_def ret_def transact_def)
    with that [of "j3\<lparr>jb_db := b\<rparr>"] j3(3) kept [OF j3(4)] show thesis by (simp add: j2_def)
  qed
qed

text \<open>What the next run reads of a record so left.\<close>

lemma find_first_append: "find P (xs @ ys) = (case find P xs of None \<Rightarrow> find P ys | Some x \<Rightarrow> Some x)"
  by (induction xs) auto

lemma present_held:
  assumes "held E None i c r choice b = Some (k, b')"
  shows "\<exists>p. present b' (ie_source E) (ie_snapshot E) (ie_court E) v i = Some p \<and> held E (Some p) i c r choice b' = Some (k, b')"
    and "present b source snapshot court v i' = Some q \<Longrightarrow> present b' source snapshot court v i' = Some q"
proof -
  from assms obtain stmts b1 where begins: "begin_statements E i c (sr_type r) (sr_per_curiam r = ulit ''t'') choice = Inr (k, stmts)"
    "exec_all stmts b = Some b1" "b' = update_document k (\<lambda>d. d\<lparr>do_attempts := 0\<rparr>) b1"
    by (auto simp: held_def split: sum.splits)
  obtain n p where n: "db_documents b k = None"
    "b1 = b\<lparr>db_documents := (db_documents b)(k := Some (begun n)), db_opinions := db_opinions b @ [p]\<rparr>"
    "no_doc_id p = k" "no_opinion_id p = i" "i \<notin> no_opinion_id ` set (db_opinions b)"
    "no_court p = ie_court E" "nd_source n = ie_source E" "nd_source_snapshot n = ie_snapshot E"
    by (rule begin_effect [OF begins(1,2)])
  have b': "db_opinions b' = db_opinions b @ [p]" "db_documents b' = (db_documents b)(k := Some ((begun n)\<lparr>do_attempts := 0\<rparr>))"
    "db_sections b' = db_sections b" "db_chunks b' = db_chunks b" by (auto simp: begins(3) n(2))
  have "find (\<lambda>x. no_opinion_id x = i \<and> no_court x = ie_court E) (db_opinions b) = None"
    using n(5) by (auto simp: find_None_iff)
  then have "present b' (ie_source E) (ie_snapshot E) (ie_court E) v i = Some (present_of b' v p ((begun n)\<lparr>do_attempts := 0\<rparr>))"
    by (simp add: present_def b'(1,2) find_first_append n(3,4,6-8) begun_def)
  then show "\<exists>p. present b' (ie_source E) (ie_snapshot E) (ie_court E) v i = Some p \<and> held E (Some p) i c r choice b' = Some (k, b')"
    by (simp add: held_def present_of_def begun_def n(3) MAX_ATTEMPTS_def)
  assume "present b source snapshot court v i' = Some q"
  then obtain m d where m: "find (\<lambda>x. no_opinion_id x = i' \<and> no_court x = court) (db_opinions b) = Some m"
    "db_documents b (no_doc_id m) = Some d" "nd_source (do_new d) = source" "nd_source_snapshot (do_new d) = snapshot"
    "q = present_of b v m d" by (auto simp: present_def split: option.splits if_splits)
  from m(2) n(1) have "no_doc_id m \<noteq> k" by auto
  with m show "present b' source snapshot court v i' = Some q"
    by (simp add: present_def b' find_first_append present_of_def)
qed

definition all_finished :: "ingest_env \<Rightarrow> database \<Rightarrow> staged_row list \<Rightarrow> bool" where
  "all_finished E b rows \<longleftrightarrow> (\<forall>r \<in> set rows. \<exists>i p. row_reads r i \<and>
     present b (ie_source E) (ie_snapshot E) (ie_court E) (ie_pipeline E) i = Some p \<and> finished p (ie_pipeline E))"

lemma process_rows_append:
  "process_rows E known (xs @ ys) = bindp (process_rows E known xs) (\<lambda>_. process_rows E known ys)"
proof (induction xs)
  case Nil
  show ?case by (simp add: skip_def)
next
  case (Cons x xs)
  then show ?case by (simp add: bindp_def fun_eq_iff split: option.split sum.split)
qed

lemma row_refused:
  assumes "all_finished E (jb_db j) earlier"
    and "positive_integer (sr_id r) = Inr i" "positive_integer (sr_cluster_id r) = Inr c" "sr_per_curiam r \<in> {ulit ''t'', ulit ''f''}"
    and "choose_source (dp_ucd (ie_pass E)) (\<lambda>name. Some (sr_texts r name)) = Some (column, raw)"
    and "held E (present (jb_db j) (ie_source E) (ie_snapshot E) (ie_court E) (ie_pipeline E) i) i c r (Some (column, raw)) (jb_db j) = Some (k, b)"
    and "refused_source E j k (sr_type r) (sr_per_curiam r = ulit ''t'') column raw e" "\<And>stmts b. \<not> ie_refuses E stmts b"
  obtains j' where "ingest_rows E None (earlier @ r # later) j = Some (j', Inl e)" "jb_db j' = b"
    "pg_seen (jb_progress j') = pg_seen (jb_progress j) + length earlier + 1"
    "refused_source E j' k (sr_type r) (sr_per_curiam r = ulit ''t'') column raw e"
proof -
  let ?known = "present (jb_db j) (ie_source E) (ie_snapshot E) (ie_court E) (ie_pipeline E)"
  define j1 where "j1 = j\<lparr>jb_progress := seen_again (length earlier) (jb_progress j)\<rparr>"
  define j2 where "j2 = j1\<lparr>jb_progress := (jb_progress j1)\<lparr>pg_seen := pg_seen (jb_progress j1) + 1\<rparr>\<rparr>"
  have early: "process_rows E ?known earlier j = Some (j1, Inr ())"
    unfolding j1_def by (rule process_rows_finished) (use assms(1) in \<open>simp add: all_finished_def\<close>)
  have db: "jb_db j2 = jb_db j" "jb_store j2 = jb_store j" by (simp_all add: j1_def j2_def)
  obtain j' where j': "process_opinion E (?known i) i c (sr_type r) (sr_per_curiam r = ulit ''t'') (Some (column, raw)) j2 = Some (j', Inl e)"
    "jb_db j' = b" "pg_seen (jb_progress j') = pg_seen (jb_progress j2)"
    "refused_source E j' k (sr_type r) (sr_per_curiam r = ulit ''t'') column raw e"
  proof (rule opinion_refused)
    show "held E (?known i) i c r (Some (column, raw)) (jb_db j2) = Some (k, b)" unfolding db by (rule assms(6))
    show "refused_source E j2 k (sr_type r) (sr_per_curiam r = ulit ''t'') column raw e"
      using assms(7) unfolding refused_source_def db .
  qed (rule assms(8), rule that)
  have "process_row E ?known r j1 = Some (j', Inl e)"
    using assms(4) j'(1) unfolding process_row_def assms(2,3,5) lift_result_simps bindp_ret
    by (simp add: bindp_def tick_def assign_def j2_def)
  with early have "process_rows E ?known (earlier @ r # later) j = Some (j', Inl e)"
    unfolding process_rows_append process_rows.simps by (simp add: bindp_def)
  then have "ingest_rows E None (earlier @ r # later) j = Some (j', Inl e)"
    by (simp add: ingest_rows_def bindp_def read_rows_accepted [where j = j, OF assms(8)])
  with j'(2-4) show thesis by (intro that [of j']) (simp_all add: j1_def j2_def seen_again_def)
qed

section \<open>Properties\<close>

text \<open>C35: a run over a court takes the record only through its steps, whatever the database and the store refuse and
  wherever the run stops.\<close>

theorem ingest_is_record_steps:
  assumes "ingest_rows E limit rows j = Some (j', x)" "keyed (jb_db j)" "distinct (row_ids rows)"
  shows "record_steps E (jb_db j) (jb_db j')"
  by (rule ingest_rows_runs [OF assms])

text \<open>C36: whatever becomes of a run, every CHECK of the documents table holds of every document it leaves, its own
  included, the treatment mark with its pipeline and the digests with their pattern: they are not left to the database
  to enforce. No opinion shares an identifier or a document with another, and every opinion has its document. The hash
  is taken to name bytes by 64 hexadecimal digits, and the pipeline to be versioned by three numbers.\<close>

theorem ingest_keeps_checks:
  assumes "ingest_rows E limit rows j = Some (j', x)" "well_kept (jb_db j)" "distinct (row_ids rows)" "names_well E"
  shows "well_kept (jb_db j')"
proof -
  from assms(2) have "keyed (jb_db j)" by (simp add: well_kept_def)
  from record_steps_kept [OF ingest_rows_runs(1) [OF assms(1) this assms(3)] assms(4,2)] show ?thesis .
qed

text \<open>C37: an outcome is final: a failed document is left as it was, and a ready one stays ready with its digests and
  the passes it has; rows of its walks are never removed.\<close>

theorem outcomes_are_final:
  assumes "ingest_rows E limit rows j = Some (j', x)" "keyed (jb_db j)" "distinct (row_ids rows)"
    and "db_documents (jb_db j) k = Some d" "do_status d \<noteq> ''processing''"
  shows "(if do_status d = ''ready'' then \<exists>d'. db_documents (jb_db j') k = Some d' \<and> outlives d d'
      else db_documents (jb_db j') k = Some d) \<and>
    set (db_sections (jb_db j)) \<subseteq> set (db_sections (jb_db j')) \<and> set (db_chunks (jb_db j)) \<subseteq> set (db_chunks (jb_db j')) \<and>
    set (db_anchors (jb_db j)) \<subseteq> set (db_anchors (jb_db j')) \<and> set (db_citations (jb_db j)) \<subseteq> set (db_citations (jb_db j')) \<and>
    set (db_signals (jb_db j)) \<subseteq> set (db_signals (jb_db j'))"
proof -
  from ingest_rows_runs(1) [OF assms(1-3)] have steps: "record_steps E (jb_db j) (jb_db j')" .
  show ?thesis
  proof (cases "do_status d = ''ready''")
    case True
    with record_steps_ready [OF steps assms(4)] record_steps_grow [OF steps] show ?thesis by auto
  next
    case False
    with record_steps_final [OF steps assms(4)] assms(5) record_steps_grow [OF steps] show ?thesis by simp
  qed
qed

text \<open>C38: a run returns; where it returns without a refusal it has accounted for every staged opinion: its document
  has an outcome, and a ready one has every pass, sectioned, anchored, cited, treated and chunked, at the job's
  pipeline. The staged identifiers are distinct and the record is keyed. What the record already holds is taken to be as a
  walk leaves it: where a document has sections at the pipeline, one of them prints.\<close>

theorem ingest_accounts:
  assumes "keyed (jb_db j)" "distinct (row_ids rows)" "sound_env E" "\<And>k. sections_print E (jb_db j) k"
  shows "case ingest_rows E None rows j of
      None \<Rightarrow> False
    | Some (j', Inl e) \<Rightarrow> True
    | Some (j', Inr _) \<Rightarrow> length (row_ids rows) = length rows \<and>
        list_all (settled_opinion (jb_db j') (ie_pipeline E)) (row_ids rows)"
proof -
  obtain j' x where run: "ingest_rows E None rows j = Some (j', x)" using ingest_rows_returns [of E None rows j] by auto
  show ?thesis
  proof (cases x)
    case (Inl e)
    with run show ?thesis by simp
  next
    case (Inr u)
    then have "x = Inr ()" by simp
    from ingest_rows_runs(2) [OF run assms(1,2) this refl assms(3)] assms(4) run Inr show ?thesis by (simp add: list_all_iff)
  qed
qed

text \<open>C39: a run over opinions that are all done changes nothing but its counts.\<close>

theorem ingest_again:
  assumes "\<forall>r \<in> set rows. \<exists>i p. row_reads r i \<and>
      present (jb_db j) (ie_source E) (ie_snapshot E) (ie_court E) (ie_pipeline E) i = Some p \<and> finished p (ie_pipeline E)"
    and "\<not> ie_refuses E [] (jb_db j)"
  shows "ingest_rows E None rows j =
    Some (j\<lparr>jb_progress := (jb_progress j)\<lparr>pg_seen := pg_seen (jb_progress j) + length rows,
      pg_present := pg_present (jb_progress j) + length rows\<rparr>\<rparr>, Inr ())"
  using process_rows_finished [OF assms(1), of j]
  by (simp add: ingest_rows_def bindp_def read_rows_accepted [OF assms(2)] seen_again_def)

text \<open>C40: a stage that refuses one opinion's walk blocks its court. After rows that are finished, a run stops at the
  first opinion whose walk is refused: it raises that refusal, reads no later row, and leaves an opinion already under way
  as it was, or a new one begun with no attempt spent; and the next run does the same and leaves the record unchanged,
  so that attempts never run out. The opinion's fields are well formed, and the database refuses nothing.\<close>

theorem refused_walk_blocks_court:
  assumes "all_finished E (jb_db j) earlier"
    and "positive_integer (sr_id r) = Inr i" "positive_integer (sr_cluster_id r) = Inr c" "sr_per_curiam r \<in> {ulit ''t'', ulit ''f''}"
    and "choose_source (dp_ucd (ie_pass E)) (\<lambda>name. Some (sr_texts r name)) = Some (column, raw)"
    and "held E (present (jb_db j) (ie_source E) (ie_snapshot E) (ie_court E) (ie_pipeline E) i) i c r (Some (column, raw)) (jb_db j) = Some (k, b)"
    and "refused_source E j k (sr_type r) (sr_per_curiam r = ulit ''t'') column raw e" "\<And>stmts b. \<not> ie_refuses E stmts b"
  shows "\<exists>j'. ingest_rows E None (earlier @ r # later) j = Some (j', Inl e) \<and> jb_db j' = b \<and>
    pg_seen (jb_progress j') = pg_seen (jb_progress j) + length earlier + 1 \<and>
    (\<exists>j''. ingest_rows E None (earlier @ r # later) j' = Some (j'', Inl e) \<and> jb_db j'' = b)"
proof -
  let ?present = "\<lambda>b. present b (ie_source E) (ie_snapshot E) (ie_court E) (ie_pipeline E)"
  obtain j' where j': "ingest_rows E None (earlier @ r # later) j = Some (j', Inl e)" "jb_db j' = b"
    "pg_seen (jb_progress j') = pg_seen (jb_progress j) + length earlier + 1"
    "refused_source E j' k (sr_type r) (sr_per_curiam r = ulit ''t'') column raw e" by (rule row_refused [OF assms])
  have again: "all_finished E b earlier \<and> held E (?present b i) i c r (Some (column, raw)) b = Some (k, b)"
  proof (cases "?present (jb_db j) i")
    case None
    note begun = present_held [OF assms(6) [unfolded None]]
    from begun(2) assms(1) have "all_finished E b earlier" unfolding all_finished_def by meson
    with begun(1) [of "ie_pipeline E"] show ?thesis by auto
  next
    case (Some p)
    with assms(6) have "b = jb_db j" by (simp add: held_def split: if_splits)
    with assms(1,6) show ?thesis by simp
  qed
  obtain j'' where "ingest_rows E None (earlier @ r # later) j' = Some (j'', Inl e)" "jb_db j'' = b"
    by (rule row_refused [where j = j', unfolded j'(2), OF conjunct1 [OF again] assms(2-5) conjunct2 [OF again] j'(4) assms(8)])
  with j'(1-3) show ?thesis by blast
qed

text \<open>The witnesses ingest a small court, over a store and a record that refuse nothing, with one digest for all bytes.\<close>

definition small_env :: ingest_env where
  "small_env = \<lparr>ie_pass = small_pass\<lparr>dp_sha := \<lambda>_. replicate 64 48, dp_pipeline := small_pipeline\<lparr>pl_version := ulit ''1.0.0''\<rparr>\<rparr>,
     ie_reader = reader_of split_letter, ie_refuses = (\<lambda>_ _. False),
     ie_store_refuses = (\<lambda>_. False), ie_source = ulit ''s'', ie_snapshot = ulit ''2025-01-01'', ie_court = ulit ''c'',
     ie_clusters = (\<lambda>_. Some \<lparr>cl_docket_id = 3, cl_decided_date = ulit ''2024-01-01'', cl_approximate = False,
        cl_precedential_raw = ulit ''Published'', cl_case_name = ulit ''A v. B''\<rparr>),
     ie_dockets = (\<lambda>_. Some \<lparr>dk_number = None, dk_court = ulit ''c''\<rparr>), ie_reporter_cites = (\<lambda>_. [])\<rparr>"

definition no_progress :: progress where
  "no_progress = \<lparr>pg_seen = 0, pg_present = 0, pg_ready = 0, pg_failed = 0, pg_retried = 0, pg_interrupted = 0,
     pg_sectioned = 0, pg_anchored = 0, pg_pgmap_checked = 0, pg_pgmap_disagreeing = 0, pg_cited = 0, pg_treated = 0,
     pg_signalled = 0, pg_chunked = 0, pg_named = 0, pg_flagged = 0, pg_error = []\<rparr>"

definition empty_database :: database where
  "empty_database = \<lparr>db_documents = (\<lambda>_. None), db_opinions = [], db_sections = [], db_anchors = [], db_citations = [],
     db_signals = [], db_chunks = []\<rparr>"

definition job_on :: "database \<Rightarrow> job" where
  "job_on b = \<lparr>jb_db = b, jb_store = (\<lambda>_. None), jb_progress = no_progress\<rparr>"

definition small_staged :: "string \<Rightarrow> ustr \<Rightarrow> staged_row" where
  "small_staged column raw = \<lparr>sr_id = ulit ''7'', sr_cluster_id = ulit ''5'', sr_type = ulit ''010combined'', sr_per_curiam = ulit ''f'',
     sr_texts = (\<lambda>name. if name = column then raw else [])\<rparr>"

definition plain_staged :: staged_row where
  "plain_staged = small_staged ''plain_text'' (ulit '' '')"

lemma plain_run:
  obtains j' where "ingest_rows small_env None [plain_staged] (job_on empty_database) = Some (j', Inr ())"
    "map_option do_status (db_documents (jb_db j') (replicate 64 48)) = Some ''failed''"
proof -
  have run: "case ingest_rows small_env None [plain_staged] (job_on empty_database) of None \<Rightarrow> False
     | Some (j', x) \<Rightarrow> x = Inr () \<and> map_option do_status (db_documents (jb_db j') (replicate 64 48)) = Some ''failed''" by code_simp
  then obtain y where y: "ingest_rows small_env None [plain_staged] (job_on empty_database) = Some y"
    by (cases "ingest_rows small_env None [plain_staged] (job_on empty_database)") simp_all
  obtain j' x where "y = (j', x)" by (cases y)
  with run y show thesis by (intro that [of j']) simp_all
qed

lemma plain_hypotheses:
  "keyed (jb_db (job_on empty_database))" "well_kept (jb_db (job_on empty_database))" "distinct (row_ids [plain_staged])"
  "sound_env small_env" "row_ids [plain_staged] = [7]" "names_well small_env"
proof -
  have "version_shaped (ulit ''1.0.0'')" by code_simp
  then show "names_well small_env"
    by (simp add: names_well_def small_env_def small_pass_def small_pipeline_def hex_digest_def list_all_iff)

  show ids: "row_ids [plain_staged] = [7]" by code_simp
  then show "distinct (row_ids [plain_staged])" by simp
  show "keyed (jb_db (job_on empty_database))" "well_kept (jb_db (job_on empty_database))"
    by (simp_all add: job_on_def empty_database_def keyed_def well_kept_def)
  show "sound_env small_env"
    using iterates_ascending by (simp add: sound_env_def small_env_def small_pass_def ascii_ucd_def)
qed

theorem ingest_is_record_steps_witness:
  "\<exists>j'. ingest_rows small_env None [plain_staged] (job_on empty_database) = Some (j', Inr ()) \<and>
     record_steps small_env empty_database (jb_db j')"
proof -
  obtain j' where run: "ingest_rows small_env None [plain_staged] (job_on empty_database) = Some (j', Inr ())" by (rule plain_run)
  from ingest_is_record_steps [OF run plain_hypotheses(1,3)] run show ?thesis by (auto simp: job_on_def)
qed

theorem ingest_keeps_checks_witness:
  "\<exists>j'. ingest_rows small_env None [plain_staged] (job_on empty_database) = Some (j', Inr ()) \<and> well_kept (jb_db j')"
proof -
  obtain j' where run: "ingest_rows small_env None [plain_staged] (job_on empty_database) = Some (j', Inr ())" by (rule plain_run)
  from ingest_keeps_checks [OF run plain_hypotheses(2,3,6)] run show ?thesis by auto
qed

theorem ingest_accounts_witness:
  "\<exists>j'. ingest_rows small_env None [plain_staged] (job_on empty_database) = Some (j', Inr ()) \<and>
     map_option do_status (db_documents (jb_db j') (replicate 64 48)) = Some ''failed'' \<and>
     settled_opinion (jb_db j') (ulit ''1.0.0'') 7"
proof -
  obtain j' where run: "ingest_rows small_env None [plain_staged] (job_on empty_database) = Some (j', Inr ())"
    "map_option do_status (db_documents (jb_db j') (replicate 64 48)) = Some ''failed''" by (rule plain_run)
  have "ie_pipeline small_env = ulit ''1.0.0''" by (simp add: small_env_def small_pass_def small_pipeline_def)
  moreover have "sections_print small_env (jb_db (job_on empty_database)) k" for k
    by (simp add: sections_print_def job_on_def empty_database_def)
  ultimately show ?thesis using ingest_accounts [OF plain_hypotheses(1,3,4)] run by (auto simp: plain_hypotheses(5))
qed

text \<open>A record of one opinion in a given state.\<close>

definition one_document_in :: "string \<Rightarrow> string option \<Rightarrow> database" where
  "one_document_in status reason = empty_database\<lparr>
     db_documents := (\<lambda>k. if k = [] then Some ((begun \<lparr>nd_doc_id = [], nd_profile = ''caselaw'', nd_source = ulit ''s'',
       nd_source_snapshot = ulit ''2025-01-01'', nd_text_source = None\<rparr>)
         \<lparr>do_status := status, do_failure_reason := reason, do_attempts := 1\<rparr>) else None),
     db_opinions := [\<lparr>no_opinion_id = 7, no_doc_id = [], no_court = ulit ''c'', no_cluster_id = 5, no_docket = None,
       no_decided_date = ulit ''2024-01-01'', no_decided_date_is_approximate = False, no_precedential = ''published'',
       no_precedential_raw = ulit ''Published'', no_reporter_cites = [], no_opinion_type = ulit ''010combined'',
       no_case_name = None, no_per_curiam = None\<rparr>]\<rparr>"

definition letter_staged :: staged_row where
  "letter_staged = (small_staged ''html'' (ulit ''<div>''))\<lparr>sr_id := ulit ''8''\<rparr>"

abbreviation failed_job :: job where "failed_job \<equiv> job_on (one_document_in ''failed'' (Some ''no-text''))"

lemma failed_present:
  obtains p where "present (jb_db failed_job) (ie_source small_env) (ie_snapshot small_env) (ie_court small_env) (ie_pipeline small_env) 7 = Some p"
    "finished p (ie_pipeline small_env)"
proof -
  have "case present (jb_db failed_job) (ie_source small_env) (ie_snapshot small_env) (ie_court small_env) (ie_pipeline small_env) 7 of
      None \<Rightarrow> False | Some p \<Rightarrow> finished p (ie_pipeline small_env)" by code_simp
  then show thesis by (auto split: option.splits intro: that)
qed

lemma staged_reads: "row_reads (small_staged column raw) 7"
proof -
  have "positive_integer (ulit ''7'') = Inr 7" "positive_integer (ulit ''5'') = Inr 5" by code_simp+
  then show ?thesis by (simp add: row_reads_def small_staged_def)
qed

theorem ingest_again_witness:
  "ingest_rows small_env None [plain_staged] failed_job =
     Some (failed_job\<lparr>jb_progress := no_progress\<lparr>pg_seen := 1, pg_present := 1\<rparr>\<rparr>, Inr ())"
proof -
  obtain p where p: "present (jb_db failed_job) (ie_source small_env) (ie_snapshot small_env) (ie_court small_env)
      (ie_pipeline small_env) 7 = Some p" "finished p (ie_pipeline small_env)" by (rule failed_present)
  have rows: "\<forall>r \<in> set [plain_staged]. \<exists>i p. row_reads r i \<and> present (jb_db failed_job) (ie_source small_env) (ie_snapshot small_env)
      (ie_court small_env) (ie_pipeline small_env) i = Some p \<and> finished p (ie_pipeline small_env)"
    using p staged_reads by (auto simp: plain_staged_def)
  have "\<not> ie_refuses small_env [] (jb_db failed_job)" by (simp add: small_env_def)
  from ingest_again [OF rows this] show ?thesis by (simp add: job_on_def no_progress_def)
qed

theorem outcomes_are_final_witness:
  "\<exists>j'. ingest_rows small_env None [plain_staged] failed_job = Some (j', Inr ()) \<and>
     db_documents (jb_db j') [] = db_documents (jb_db failed_job) [] \<and> db_documents (jb_db failed_job) [] \<noteq> None"
proof -
  have "case ingest_rows small_env None [plain_staged] failed_job of None \<Rightarrow> False | Some (j', x) \<Rightarrow> x = Inr ()" by code_simp
  then obtain j' where run: "ingest_rows small_env None [plain_staged] failed_job = Some (j', Inr ())"
    by (auto split: option.splits)
  obtain d where d: "db_documents (jb_db failed_job) [] = Some d" "do_status d = ''failed''"
    by (simp add: job_on_def one_document_in_def)
  then have failed: "do_status d \<noteq> ''processing''" by simp
  have "keyed (jb_db failed_job)" by (simp add: keyed_def job_on_def one_document_in_def empty_database_def)
  from outcomes_are_final [OF run this plain_hypotheses(3) d(1) failed] d(2) run d(1) show ?thesis by auto
qed

theorem refused_walk_blocks_court_witness:
  "\<exists>j'. ingest_rows small_env None [plain_staged, letter_staged, plain_staged] failed_job = Some (j', Inl ''anchors'') \<and>
     pg_seen (jb_progress j') = 2 \<and> length (db_opinions (jb_db j')) = 2"
proof -
  let ?present = "present (jb_db failed_job) (ie_source small_env) (ie_snapshot small_env) (ie_court small_env) (ie_pipeline small_env)"
  let ?column = "''html''" and ?raw = "ulit ''<div>''"
  obtain p where p: "?present 7 = Some p" "finished p (ie_pipeline small_env)" by (rule failed_present)
  have earlier: "all_finished small_env (jb_db failed_job) [plain_staged]"
    using p staged_reads by (auto simp: all_finished_def plain_staged_def)
  have reads: "positive_integer (sr_id letter_staged) = Inr 8" "positive_integer (sr_cluster_id letter_staged) = Inr 5" by code_simp+
  have flag: "sr_per_curiam letter_staged \<in> {ulit ''t'', ulit ''f''}" by (simp add: letter_staged_def small_staged_def)
  have chosen: "choose_source (dp_ucd (ie_pass small_env)) (\<lambda>name. Some (sr_texts letter_staged name)) = Some (?column, ?raw)"
    by code_simp
  have "case held small_env (?present 8) 8 5 letter_staged (Some (?column, ?raw)) (jb_db failed_job) of
      None \<Rightarrow> False | Some (k, b) \<Rightarrow> k = replicate 64 48 \<and> length (db_opinions b) = 2" by code_simp
  then obtain b where b: "held small_env (?present 8) 8 5 letter_staged (Some (?column, ?raw)) (jb_db failed_job) =
      Some (replicate 64 48, b)" "length (db_opinions b) = 2" by (auto split: option.splits)
  have refused: "refused_source small_env failed_job (replicate 64 48) (sr_type letter_staged) (sr_per_curiam letter_staged = ulit ''t'')
      ?column ?raw ''anchors''" by code_simp
  have "\<not> ie_refuses small_env stmts b" for stmts b by (simp add: small_env_def)
  from refused_walk_blocks_court [OF earlier reads flag chosen b(1) refused this, of "[plain_staged]"] b(2)
  show ?thesis by (auto simp: job_on_def no_progress_def)
qed

end
