(* ===== verification/Extraction_Scoring.thy ===== *)
theory Extraction_Scoring
  imports Extraction_Contract Complex_Main
begin

text \<open>
  \<open>gideon/extraction/scoring.py\<close>: precision and recall of an extraction over the active cases of a labelled set.
  A figure is a ratio of counts and is exact here.
\<close>

section \<open>Cases\<close>

definition MIN_PRECISION :: rat where "MIN_PRECISION = 95 / 100"
definition MIN_RECALL :: rat where "MIN_RECALL = 90 / 100"

record label_case =
  cs_id :: ustr
  cs_supersedes :: "ustr option"
  cs_parent :: "ustr option"
  cs_labels :: "ustr list"
  cs_objects :: "exact_object list"

record score_finding =
  fi_case_id :: ustr
  fi_type :: ustr
  fi_start :: int
  fi_end :: int

record score_counts =
  sk_hits :: nat
  sk_false_hits :: nat
  sk_misses :: nat

definition no_counts :: score_counts where
  "no_counts = \<lparr>sk_hits = 0, sk_false_hits = 0, sk_misses = 0\<rparr>"

record scored_type =
  ts_type :: ustr
  ts_hits :: nat
  ts_false_hits :: nat
  ts_misses :: nat
  ts_precision :: "rat option"
  ts_recall :: "rat option"
  ts_gated :: bool
  ts_verdict :: bool

section \<open>The active cases\<close>

text \<open>The ids superseded, and each case's parent; of two cases with one id the later gives the parent.\<close>

definition superseded :: "label_case list \<Rightarrow> ustr list" where
  "superseded cases = List.map_filter cs_supersedes cases"

definition parent_of_case :: "label_case list \<Rightarrow> ustr \<Rightarrow> ustr option" where
  "parent_of_case cases =
     map_of (rev (List.map_filter (\<lambda>c. map_option (Pair (cs_id c)) (cs_parent c)) cases))"

function retired_from :: "label_case list \<Rightarrow> ustr list \<Rightarrow> ustr \<Rightarrow> bool" where
  "retired_from cases seen case_id =
     (if case_id \<in> set (superseded cases) then True
      else if case_id \<in> set seen then False
      else case parent_of_case cases case_id of
             None \<Rightarrow> False
           | Some parent \<Rightarrow> retired_from cases (case_id # seen) parent)"
  by pat_completeness auto
termination
proof (relation "measure (\<lambda>(cases, seen, case_id). card (dom (parent_of_case cases) - set seen))", goal_cases)
  case (2 cases seen case_id parent)
  have "finite (dom (parent_of_case cases))" by (simp add: parent_of_case_def finite_dom_map_of)
  with 2 show ?case by (auto intro!: psubset_card_mono)
qed simp

declare retired_from.simps [simp del]

definition retired :: "label_case list \<Rightarrow> ustr \<Rightarrow> bool" where
  "retired cases case_id = retired_from cases [] case_id"

definition active_cases :: "label_case list list \<Rightarrow> label_case list" where
  "active_cases files = (let cases = concat files in filter (\<lambda>c. \<not> retired cases (cs_id c)) cases)"

section \<open>Hits\<close>

definition is_hit :: "ucd \<Rightarrow> exact_object \<Rightarrow> exact_object \<Rightarrow> bool" where
  "is_hit U label extracted =
     (xo_type label = xo_type extracted \<and> xo_start label = xo_start extracted \<and> xo_end label = xo_end extracted \<and>
      xo_subsections label = xo_subsections extracted \<and> keys_equal U (xo_key label) (xo_key extracted))"

text \<open>The labels of one case in turn, each with whether it was hit, and the objects left unmatched.\<close>

primrec match_labels ::
    "ucd \<Rightarrow> exact_object list \<Rightarrow> exact_object list \<Rightarrow> (exact_object \<times> bool) list \<times> exact_object list" where
  "match_labels U unmatched [] = ([], unmatched)"
| "match_labels U unmatched (label # labels) =
     (case find (is_hit U label) unmatched of
        None \<Rightarrow> (case match_labels U unmatched labels of (matched, rest) \<Rightarrow> ((label, False) # matched, rest))
      | Some hit \<Rightarrow>
          (case match_labels U (remove1 hit unmatched) labels of (matched, rest) \<Rightarrow> ((label, True) # matched, rest)))"

datatype outcome = Hit | Miss | False_hit

definition case_outcomes :: "ucd \<Rightarrow> (ustr \<Rightarrow> exact_object list) \<Rightarrow> label_case \<Rightarrow> (exact_object \<times> outcome) list" where
  "case_outcomes U extracted c =
     (case match_labels U (extracted (cs_id c)) (cs_objects c) of
        (matched, rest) \<Rightarrow> map (\<lambda>(x, hit). (x, if hit then Hit else Miss)) matched @ map (\<lambda>x. (x, False_hit)) rest)"

section \<open>Counts\<close>

type_synonym tally = "(ustr \<times> score_counts) list"

definition tally_of :: "tally \<Rightarrow> ustr \<Rightarrow> score_counts" where
  "tally_of t k = (case map_of t k of None \<Rightarrow> no_counts | Some c \<Rightarrow> c)"

primrec bump :: "outcome \<Rightarrow> score_counts \<Rightarrow> score_counts" where
  "bump Hit c = c\<lparr>sk_hits := sk_hits c + 1\<rparr>"
| "bump Miss c = c\<lparr>sk_misses := sk_misses c + 1\<rparr>"
| "bump False_hit c = c\<lparr>sk_false_hits := sk_false_hits c + 1\<rparr>"

definition put :: "'k \<Rightarrow> 'v \<Rightarrow> ('k \<times> 'v) list \<Rightarrow> ('k \<times> 'v) list" where  \<comment> \<open>\<open>d[k] = v\<close>\<close>
  "put k v d = (if map_of d k = None then d @ [(k, v)] else map (\<lambda>(j, w). (j, if j = k then v else w)) d)"

definition count_outcome :: "exact_object \<times> outcome \<Rightarrow> tally \<Rightarrow> tally" where
  "count_outcome x t = (let k = xo_type (fst x) in put k (bump (snd x) (tally_of t k)) t)"

type_synonym tallies = "tally \<times> (ustr \<times> tally) list"

definition tally_outcome :: "ustr \<Rightarrow> exact_object \<times> outcome \<Rightarrow> tallies \<Rightarrow> tallies" where
  "tally_outcome origin x s =
     (let by_origin = (case map_of (snd s) origin of None \<Rightarrow> [] | Some t \<Rightarrow> t)
      in (count_outcome x (fst s), put origin (count_outcome x by_origin) (snd s)))"

definition finding_of :: "ustr \<Rightarrow> exact_object \<Rightarrow> score_finding" where
  "finding_of case_id x =
     \<lparr>fi_case_id = case_id, fi_type = xo_type x, fi_start = xo_start x, fi_end = xo_end x\<rparr>"

definition findings_of :: "outcome \<Rightarrow> ustr \<Rightarrow> (exact_object \<times> outcome) list \<Rightarrow> score_finding list" where
  "findings_of k case_id xs = map (finding_of case_id \<circ> fst) (filter (\<lambda>x. snd x = k) xs)"

record score_state =
  st_tallies :: tallies
  st_misses :: "score_finding list"
  st_false_hits :: "score_finding list"

definition score_case :: "ucd \<Rightarrow> (ustr \<Rightarrow> exact_object list) \<Rightarrow> label_case \<Rightarrow> score_state \<Rightarrow> score_state result" where
  "score_case U extracted c s =
     (if cs_labels c = [] then Inl ''IndexError''
      else let outcomes = case_outcomes U extracted c
        in Inr \<lparr>st_tallies = fold (tally_outcome (hd (cs_labels c))) outcomes (st_tallies s),
             st_misses = st_misses s @ findings_of Miss (cs_id c) outcomes,
             st_false_hits = st_false_hits s @ findings_of False_hit (cs_id c) outcomes\<rparr>)"

primrec score_cases ::
    "ucd \<Rightarrow> (ustr \<Rightarrow> exact_object list) \<Rightarrow> label_case list \<Rightarrow> score_state \<Rightarrow> score_state result" where
  "score_cases U extracted [] s = Inr s"
| "score_cases U extracted (c # cs) s = bind_result (score_case U extracted c s) (score_cases U extracted cs)"

section \<open>Scores\<close>

definition ratio :: "nat \<Rightarrow> nat \<Rightarrow> rat option" where
  "ratio part whole = (if whole = 0 then None else Some (of_nat part / of_nat whole))"

definition type_score :: "ustr \<Rightarrow> score_counts \<Rightarrow> bool \<Rightarrow> scored_type" where
  "type_score object_type c gated =
     (let precision = ratio (sk_hits c) (sk_hits c + sk_false_hits c);
          recall = ratio (sk_hits c) (sk_hits c + sk_misses c)
      in \<lparr>ts_type = object_type, ts_hits = sk_hits c, ts_false_hits = sk_false_hits c, ts_misses = sk_misses c,
          ts_precision = precision, ts_recall = recall, ts_gated = gated,
          ts_verdict = (\<not> gated \<or> (case (precision, recall) of
             (Some p, Some r) \<Rightarrow> p \<ge> MIN_PRECISION \<and> r \<ge> MIN_RECALL | _ \<Rightarrow> False))\<rparr>)"

definition type_scores :: "tally \<Rightarrow> ustr list \<Rightarrow> scored_type list" where
  "type_scores t landed =
     map (\<lambda>k. type_score k (tally_of t k) (k \<in> set landed))
       (filter (\<lambda>k. map_of t k \<noteq> None \<or> k \<in> set landed) (map ulit OBJECT_TYPES))"

record set_score =
  se_by_type :: "scored_type list"
  se_by_origin :: "(ustr \<times> scored_type list) list"
  se_unlanded :: "(ustr \<times> nat) list"
  se_misses :: "score_finding list"
  se_false_hits :: "score_finding list"
  se_verdict :: bool

definition score :: "ucd \<Rightarrow> label_case list list \<Rightarrow> (ustr \<Rightarrow> exact_object list) \<Rightarrow> ustr list \<Rightarrow> set_score result" where
  "score U files extracted landed =
     map_result (\<lambda>s.
       let totals = fst (st_tallies s); by_type = type_scores totals landed
       in \<lparr>se_by_type = by_type,
           se_by_origin = map (\<lambda>(origin, t). (origin, type_scores t [])) (snd (st_tallies s)),
           se_unlanded = map (\<lambda>(k, c). (k, sk_hits c + sk_misses c))
             (filter (\<lambda>(k, c). k \<notin> set landed \<and> sk_hits c + sk_misses c \<noteq> 0) totals),
           se_misses = st_misses s, se_false_hits = st_false_hits s, se_verdict = list_all ts_verdict by_type\<rparr>)
       (score_cases U extracted (active_cases files) \<lparr>st_tallies = ([], []), st_misses = [], st_false_hits = []\<rparr>)"

section \<open>Retirement is reachability\<close>

definition parent_rel :: "label_case list \<Rightarrow> (ustr \<times> ustr) set" where
  "parent_rel cases = {(x, y). parent_of_case cases x = Some y}"

lemma closed_reach: "(x, y) \<in> (parent_rel cases)\<^sup>* \<Longrightarrow> x \<in> A \<Longrightarrow>
    \<forall>s \<in> A. (case parent_of_case cases s of None \<Rightarrow> True | Some p \<Rightarrow> p \<in> A) \<Longrightarrow> y \<in> A"
  by (induction rule: rtrancl_induct) (auto simp: parent_rel_def split: option.splits)

lemma retired_from_reaches:
  "\<forall>s \<in> set seen. s \<notin> set (superseded cases) \<and>
      (case parent_of_case cases s of None \<Rightarrow> True | Some p \<Rightarrow> p \<in> insert c (set seen)) \<Longrightarrow>
   retired_from cases seen c \<longleftrightarrow> (\<exists>a \<in> set (superseded cases). (c, a) \<in> (parent_rel cases)\<^sup>*)"
proof (induction cases seen c rule: retired_from.induct)
  case (1 cases seen c)
  show ?case
  proof (cases "c \<in> set (superseded cases)")
    case True
    then show ?thesis by (auto simp: retired_from.simps [of cases seen c])
  next
    case live: False
    show ?thesis
    proof (cases "c \<in> set seen")
      case True
      then have absorb: "insert c (set seen) = set seen" by blast
      have "\<forall>s \<in> set seen. (case parent_of_case cases s of None \<Rightarrow> True | Some p \<Rightarrow> p \<in> set seen)"
        using "1.prems" unfolding absorb by blast
      with closed_reach [of c _ cases "set seen"] True "1.prems"
      have "\<not> (\<exists>a \<in> set (superseded cases). (c, a) \<in> (parent_rel cases)\<^sup>*)" by blast
      with live True show ?thesis by (simp add: retired_from.simps [of cases seen c])
    next
      case fresh: False
      show ?thesis
      proof (cases "parent_of_case cases c")
        case None
        then have "(c, a) \<in> (parent_rel cases)\<^sup>* \<Longrightarrow> a = c" for a
          by (auto simp: parent_rel_def elim: converse_rtranclE)
        with live fresh None show ?thesis by (auto simp: retired_from.simps [of cases seen c])
      next
        case (Some p)
        then have "(c, a) \<in> (parent_rel cases)\<^sup>* \<longleftrightarrow> a = c \<or> (p, a) \<in> (parent_rel cases)\<^sup>*" for a
          by (auto simp: parent_rel_def elim: converse_rtranclE intro: converse_rtrancl_into_rtrancl)
        moreover have "retired_from cases (c # seen) p \<longleftrightarrow> (\<exists>a \<in> set (superseded cases). (p, a) \<in> (parent_rel cases)\<^sup>*)"
          using "1.prems" live Some by (intro "1.IH" [OF live fresh Some]) (auto split: option.splits)
        ultimately show ?thesis using live fresh Some by (auto simp: retired_from.simps [of cases seen c])
      qed
    qed
  qed
qed

section \<open>Hits are multiset intersections\<close>

type_synonym hit_key = "ustr \<times> int \<times> int \<times> ustr list \<times> ustr option"

definition hit_class :: "ucd \<Rightarrow> exact_object \<Rightarrow> hit_key" where
  "hit_class U x = (xo_type x, xo_start x, xo_end x, xo_subsections x, map_option (py_casefold U) (xo_key x))"

lemma is_hit_iff: "is_hit U x y \<longleftrightarrow> hit_class U x = hit_class U y"
  by (auto simp: is_hit_def hit_class_def keys_equal_def split: option.splits)

definition classes :: "ucd \<Rightarrow> exact_object list \<Rightarrow> hit_key multiset" where
  "classes U xs = image_mset (hit_class U) (mset xs)"

lemma find_hit:
  "find (is_hit U l) xs = None \<Longrightarrow> hit_class U l \<notin># classes U xs"
  "find (is_hit U l) xs = Some h \<Longrightarrow> h \<in> set xs \<and> hit_class U h = hit_class U l"
proof -
  show "find (is_hit U l) xs = None \<Longrightarrow> hit_class U l \<notin># classes U xs"
    by (auto simp: find_None_iff is_hit_iff classes_def)
  assume "find (is_hit U l) xs = Some h"
  then obtain i where "i < length xs" "is_hit U l (xs ! i)" "h = xs ! i" by (auto simp: find_Some_iff)
  then show "h \<in> set xs \<and> hit_class U h = hit_class U l" by (simp add: is_hit_iff)
qed

lemma classes_remove1: "h \<in> set xs \<Longrightarrow> classes U xs = add_mset (hit_class U h) (classes U (remove1 h xs))"
proof -
  assume "h \<in> set xs"
  then have "mset xs = add_mset h (mset (remove1 h xs))" by simp
  then show ?thesis unfolding classes_def by (metis image_mset_add_mset)
qed

lemma match_labels_classes:
  "map fst (fst (match_labels U xs ls)) = ls \<and>
   length (filter snd (fst (match_labels U xs ls))) = size (classes U ls \<inter># classes U xs) \<and>
   classes U (snd (match_labels U xs ls)) = classes U xs - classes U ls"
proof (induction ls arbitrary: xs)
  case (Cons l ls)
  show ?case
  proof (cases "find (is_hit U l) xs")
    case None
    then have "classes U (l # ls) \<inter># classes U xs = classes U ls \<inter># classes U xs"
      "classes U xs - classes U (l # ls) = classes U xs - classes U ls"
      using find_hit(1) [OF None] by (simp_all add: classes_def inter_add_left1 diff_add_mset_swap)
    with Cons.IH [of xs] None show ?thesis by (cases "match_labels U xs ls") simp
  next
    case (Some h)
    note h = find_hit(2) [OF Some]
    then have "classes U xs = add_mset (hit_class U l) (classes U (remove1 h xs))" using classes_remove1 by metis
    moreover have "classes U (l # ls) = add_mset (hit_class U l) (classes U ls)" by (simp add: classes_def)
    ultimately have "classes U (l # ls) \<inter># classes U xs =
        add_mset (hit_class U l) (classes U ls \<inter># classes U (remove1 h xs))"
      "classes U xs - classes U (l # ls) = classes U (remove1 h xs) - classes U ls" by simp_all
    with Cons.IH [of "remove1 h xs"] Some show ?thesis by (cases "match_labels U (remove1 h xs) ls") simp
  qed
qed (simp add: classes_def)

text \<open>Objects of one type are matched among themselves.\<close>

definition of_type :: "ustr \<Rightarrow> exact_object list \<Rightarrow> exact_object list" where
  "of_type k xs = filter (\<lambda>x. xo_type x = k) xs"

lemma find_of_type: "xo_type l = k \<Longrightarrow> find (is_hit U l) (of_type k xs) = find (is_hit U l) xs"
  by (induction xs) (auto simp: of_type_def is_hit_def)

lemma of_type_remove1: "of_type k (remove1 h xs) = (if xo_type h = k then remove1 h (of_type k xs) else of_type k xs)"
  by (induction xs) (auto simp: of_type_def)

lemma match_labels_of_type:
  "filter (\<lambda>x. xo_type (fst x) = k) (fst (match_labels U xs ls)) = fst (match_labels U (of_type k xs) (of_type k ls)) \<and>
   of_type k (snd (match_labels U xs ls)) = snd (match_labels U (of_type k xs) (of_type k ls))"
proof (induction ls arbitrary: xs)
  case (Cons l ls)
  show ?case
  proof (cases "find (is_hit U l) xs")
    case None
    with Cons.IH [of xs] find_of_type [of l k U xs] show ?thesis by (auto simp: of_type_def split: prod.splits)
  next
    case (Some h)
    then have "xo_type h = xo_type l" using find_hit(2) [OF Some] by (simp add: hit_class_def)
    with Some Cons.IH [of "remove1 h xs"] find_of_type [of l k U xs] of_type_remove1 [of k h xs] show ?thesis
      by (auto simp: of_type_def split: prod.splits)
  qed
qed (simp add: of_type_def)

section \<open>Tallies count outcomes\<close>

lemma map_of_put: "map_of (put k v d) j = (if j = k then Some v else map_of d j)"
proof (cases "map_of d k")
  case (Some w)
  then have "map_of (map (\<lambda>(j, x). (j, if j = k then v else x)) d) k = Some v"
    by (induction d) (auto split: if_splits)
  moreover have "map_of (map (\<lambda>(j, x). (j, if j = k then v else x)) d) j = map_of d j" if "j \<noteq> k"
    using that by (induction d) auto
  ultimately show ?thesis using Some by (simp add: put_def)
qed (auto simp: put_def map_add_def split: option.split)

definition outcomes_of :: "outcome \<Rightarrow> ustr \<Rightarrow> (exact_object \<times> outcome) list \<Rightarrow> nat" where
  "outcomes_of w k xs = length (filter (\<lambda>x. snd x = w \<and> xo_type (fst x) = k) xs)"

lemma tally_of_fold:
  "tally_of (fold count_outcome xs t) k =
     \<lparr>sk_hits = sk_hits (tally_of t k) + outcomes_of Hit k xs,
      sk_false_hits = sk_false_hits (tally_of t k) + outcomes_of False_hit k xs,
      sk_misses = sk_misses (tally_of t k) + outcomes_of Miss k xs\<rparr>"
proof (induction xs arbitrary: t)
  case (Cons x xs)
  have "tally_of (count_outcome x t) k = (if xo_type (fst x) = k then bump (snd x) (tally_of t k) else tally_of t k)"
    by (simp add: tally_of_def count_outcome_def Let_def map_of_put)
  with Cons show ?case by (cases "snd x") (simp_all add: outcomes_of_def)
qed (simp add: outcomes_of_def)

lemma fold_tally_outcome: "fst (fold (tally_outcome origin) xs s) = fold count_outcome xs (fst s)"
  by (induction xs arbitrary: s) (simp_all add: tally_outcome_def Let_def)

lemma score_cases_totals:
  "score_cases U extracted cs s = Inr s1 \<Longrightarrow>
     fst (st_tallies s1) = fold count_outcome (concat (map (case_outcomes U extracted) cs)) (fst (st_tallies s))"
proof (induction cs arbitrary: s)
  case (Cons c cs)
  from Cons.prems obtain s2 where s2: "score_case U extracted c s = Inr s2" "score_cases U extracted cs s2 = Inr s1"
    by (auto simp: bind_result_Inr_iff)
  then have "fst (st_tallies s2) = fold count_outcome (case_outcomes U extracted c) (fst (st_tallies s))"
    by (auto simp: score_case_def Let_def fold_tally_outcome split: if_splits)
  with Cons.IH [OF s2(2)] show ?case by simp
qed simp

text \<open>What the counts of a type stand for, over the cases scored.\<close>

definition labelled :: "label_case list \<Rightarrow> ustr \<Rightarrow> nat" where
  "labelled cs k = sum_list (map (\<lambda>c. length (of_type k (cs_objects c))) cs)"

definition emitted :: "(ustr \<Rightarrow> exact_object list) \<Rightarrow> label_case list \<Rightarrow> ustr \<Rightarrow> nat" where
  "emitted extracted cs k = sum_list (map (\<lambda>c. length (of_type k (extracted (cs_id c)))) cs)"

definition agreed :: "ucd \<Rightarrow> (ustr \<Rightarrow> exact_object list) \<Rightarrow> label_case list \<Rightarrow> ustr \<Rightarrow> nat" where
  "agreed U extracted cs k =
     sum_list (map (\<lambda>c. size (classes U (of_type k (cs_objects c)) \<inter># classes U (of_type k (extracted (cs_id c))))) cs)"

lemma size_classes [simp]: "size (classes U xs) = length xs"
  by (simp add: classes_def)

lemma case_outcomes_counts:
  "outcomes_of Hit k (case_outcomes U extracted c) =
     size (classes U (of_type k (cs_objects c)) \<inter># classes U (of_type k (extracted (cs_id c))))"
  "outcomes_of Hit k (case_outcomes U extracted c) + outcomes_of Miss k (case_outcomes U extracted c) =
     length (of_type k (cs_objects c))"
  "outcomes_of Hit k (case_outcomes U extracted c) + outcomes_of False_hit k (case_outcomes U extracted c) =
     length (of_type k (extracted (cs_id c)))"
proof -
  let ?L = "of_type k (cs_objects c)" and ?X = "of_type k (extracted (cs_id c))"
  obtain matched rest where m: "match_labels U (extracted (cs_id c)) (cs_objects c) = (matched, rest)" by (rule prod.exhaust)
  let ?mk = "filter (\<lambda>x. xo_type (fst x) = k) matched"
  have mk: "?mk = fst (match_labels U ?X ?L)" "of_type k rest = snd (match_labels U ?X ?L)"
    using match_labels_of_type [of k U "extracted (cs_id c)" "cs_objects c"] m by auto
  note all = match_labels_classes [of U ?X ?L, folded mk]
  have hit: "outcomes_of Hit k (case_outcomes U extracted c) = length (filter snd ?mk)"
    "outcomes_of Miss k (case_outcomes U extracted c) = length (filter (\<lambda>x. \<not> snd x) ?mk)"
    "outcomes_of False_hit k (case_outcomes U extracted c) = length (of_type k rest)"
    by (simp_all add: outcomes_of_def case_outcomes_def m filter_map comp_def case_prod_unfold of_type_def conj_commute
      length_filter_map cong: conj_cong if_cong)
  show "outcomes_of Hit k (case_outcomes U extracted c) = size (classes U ?L \<inter># classes U ?X)"
    using all hit(1) by simp
  have "length ?mk = length ?L" using all by (metis length_map)
  with sum_length_filter_compl [of snd ?mk] hit(1,2)
  show "outcomes_of Hit k (case_outcomes U extracted c) + outcomes_of Miss k (case_outcomes U extracted c) = length ?L" by simp
  have "length (of_type k rest) = size (classes U ?X - classes U ?L)" using all by (metis size_classes)
  moreover have "size (classes U ?X) = size (classes U ?X - classes U ?L) + size (classes U ?L \<inter># classes U ?X)"
    by (metis add.commute multiset_inter_commute size_Diff_subset_Int size_mset_mono
        le_add_diff_inverse subset_mset.inf_le1 subset_mset.inf_commute)
  ultimately show "outcomes_of Hit k (case_outcomes U extracted c) + outcomes_of False_hit k (case_outcomes U extracted c) =
      length ?X" using all hit(1,3) by simp
qed

lemma totals_counts:
  assumes "score_cases U extracted cs \<lparr>st_tallies = ([], []), st_misses = [], st_false_hits = []\<rparr> = Inr s"
  defines "c k \<equiv> tally_of (fst (st_tallies s)) k"
  shows "sk_hits (c k) = agreed U extracted cs k" "sk_hits (c k) + sk_misses (c k) = labelled cs k"
    "sk_hits (c k) + sk_false_hits (c k) = emitted extracted cs k"
proof -
  have concat: "outcomes_of w k (concat (map f cs)) = sum_list (map (\<lambda>c. outcomes_of w k (f c)) cs)"
    for w and f :: "label_case \<Rightarrow> (exact_object \<times> outcome) list" and cs
    by (induction cs) (simp_all add: outcomes_of_def)
  have c: "sk_hits (c k) = sum_list (map (\<lambda>x. outcomes_of Hit k (case_outcomes U extracted x)) cs)"
    "sk_misses (c k) = sum_list (map (\<lambda>x. outcomes_of Miss k (case_outcomes U extracted x)) cs)"
    "sk_false_hits (c k) = sum_list (map (\<lambda>x. outcomes_of False_hit k (case_outcomes U extracted x)) cs)"
    unfolding c_def score_cases_totals [OF assms(1)] tally_of_fold concat
    by (simp_all add: tally_of_def no_counts_def)
  show "sk_hits (c k) = agreed U extracted cs k" "sk_hits (c k) + sk_misses (c k) = labelled cs k"
    "sk_hits (c k) + sk_false_hits (c k) = emitted extracted cs k"
    unfolding c agreed_def labelled_def emitted_def sum_list_addf [symmetric] case_outcomes_counts(2,3)
    by (simp_all add: case_outcomes_counts(1))
qed

lemma ratio_bound:
  "(case ratio a n of None \<Rightarrow> False | Some q \<Rightarrow> q \<ge> of_nat m / 100) \<longleftrightarrow> 0 < n \<and> m * n \<le> 100 * a"
proof (cases "n = 0")
  case False
  then have "(of_nat a / of_nat n \<ge> (of_nat m / 100 :: rat)) \<longleftrightarrow> (of_nat (m * n) :: rat) \<le> of_nat (100 * a)"
    by (simp add: field_simps)
  with False show ?thesis unfolding of_nat_le_iff by (simp add: ratio_def)
qed (simp add: ratio_def)

lemma type_verdict:
  "ts_verdict (type_score k c gated) \<longleftrightarrow> (if gated then
     0 < sk_hits c + sk_false_hits c \<and> 95 * (sk_hits c + sk_false_hits c) \<le> 100 * sk_hits c \<and>
     0 < sk_hits c + sk_misses c \<and> 90 * (sk_hits c + sk_misses c) \<le> 100 * sk_hits c else True)"
proof -
  have "ts_verdict (type_score k c gated) \<longleftrightarrow> (if gated then
      (case ratio (sk_hits c) (sk_hits c + sk_false_hits c) of None \<Rightarrow> False | Some q \<Rightarrow> q \<ge> of_nat 95 / 100) \<and>
      (case ratio (sk_hits c) (sk_hits c + sk_misses c) of None \<Rightarrow> False | Some q \<Rightarrow> q \<ge> of_nat 90 / 100) else True)"
    by (auto simp: type_score_def Let_def MIN_PRECISION_def MIN_RECALL_def split: option.split)
  then show ?thesis unfolding ratio_bound by (simp only: conj_assoc)
qed

section \<open>Properties\<close>

text \<open>C28: a case is inactive exactly when it, or a case its chain of parents reaches, is superseded; a chain
  that runs in a circle ends.\<close>

theorem retired_reaches_superseded:
  "retired cases c \<longleftrightarrow> (\<exists>a \<in> set (superseded cases). (c, a) \<in> {(x, y). parent_of_case cases x = Some y}\<^sup>*)"
  using retired_from_reaches [of "[]" cases c] by (simp add: retired_def parent_rel_def)

text \<open>Matching labels one after another finds as many hits as any matching could: the hits of a case are
  the multiset intersection of its labels and its objects, compared by type, offsets, designators and folded
  key, and what is left unmatched is the difference.\<close>

theorem match_labels_best:
  "let (matched, rest) = match_labels U objects labels
   in map fst matched = labels \<and>
      length (filter snd matched) = size (classes U labels \<inter># classes U objects) \<and>
      classes U rest = classes U objects - classes U labels"
  using match_labels_classes [of U objects labels] by (simp add: case_prod_unfold)

text \<open>C29: a set passes exactly when every landed type has labels and objects among the active cases, agrees on
  at least 95 objects of each 100 emitted and 90 of each 100 labelled; a landed type that emits nothing fails.\<close>

theorem score_verdict:
  assumes "score U files extracted landed = Inr s"
  shows "let cs = active_cases files in se_verdict s \<longleftrightarrow> (\<forall>k \<in> set landed. if k \<notin> set (map ulit OBJECT_TYPES) then True else
    0 < emitted extracted cs k \<and> 95 * emitted extracted cs k \<le> 100 * agreed U extracted cs k \<and>
    0 < labelled cs k \<and> 90 * labelled cs k \<le> 100 * agreed U extracted cs k)"
proof -
  define cs where "cs = active_cases files"
  from assms obtain st where st:
    "score_cases U extracted cs \<lparr>st_tallies = ([], []), st_misses = [], st_false_hits = []\<rparr> = Inr st"
    "se_verdict s = list_all ts_verdict (type_scores (fst (st_tallies st)) landed)"
    by (auto simp: score_def map_result_Inr_iff Let_def cs_def)
  have "ts_verdict (type_score k (tally_of (fst (st_tallies st)) k) gated) \<longleftrightarrow> (if gated then
      0 < emitted extracted cs k \<and> 95 * emitted extracted cs k \<le> 100 * agreed U extracted cs k \<and>
      0 < labelled cs k \<and> 90 * labelled cs k \<le> 100 * agreed U extracted cs k else True)" for k gated
    unfolding type_verdict totals_counts(2,3) [OF st(1)] unfolding totals_counts(1) [OF st(1)] ..
  then show ?thesis unfolding st(2) type_scores_def list_all_iff Let_def cs_def by auto
qed

text \<open>The witness scores two cases of one set, the second retired by a third.\<close>

definition small_case :: "string \<Rightarrow> string option \<Rightarrow> label_case" where
  "small_case name over = \<lparr>cs_id = ulit name, cs_supersedes = map_option ulit over, cs_parent = None,
     cs_labels = [ulit ''written''], cs_objects = [small_object ''docket'' 4 ''No. 7'']\<rparr>"

theorem score_verdict_witness:
  "case score ascii_ucd [[small_case ''a'' None, small_case ''b'' None, small_case ''c'' (Some ''b'')]]
     (\<lambda>_. [small_object ''docket'' 4 ''No. 7'']) [ulit ''docket''] of
     Inl e \<Rightarrow> False
   | Inr s \<Rightarrow> se_verdict s"
proof -
  let ?files = "[[small_case ''a'' None, small_case ''b'' None, small_case ''c'' (Some ''b'')]]"
  let ?found = "\<lambda>_ :: ustr. [small_object ''docket'' 4 ''No. 7'']"
  have active: "active_cases ?files = [small_case ''a'' None, small_case ''c'' (Some ''b'')]" by code_simp
  obtain s where s: "score ascii_ucd ?files ?found [ulit ''docket''] = Inr s"
    unfolding score_def active by (auto simp: score_case_def small_case_def Let_def)
  have "0 < emitted ?found (active_cases ?files) (ulit ''docket'')"
    "95 * emitted ?found (active_cases ?files) (ulit ''docket'') \<le> 100 * agreed ascii_ucd ?found (active_cases ?files) (ulit ''docket'')"
    "0 < labelled (active_cases ?files) (ulit ''docket'')"
    "90 * labelled (active_cases ?files) (ulit ''docket'') \<le> 100 * agreed ascii_ucd ?found (active_cases ?files) (ulit ''docket'')"
    unfolding active by (simp_all add: emitted_def labelled_def agreed_def small_case_def of_type_def small_object_def classes_def)
  then have "se_verdict s" unfolding score_verdict [OF s, unfolded Let_def] by simp
  with s show ?thesis by (simp del: append_Cons)
qed

end
