(* ===== verification/Extraction_Grammar.thy ===== *)
theory Extraction_Grammar
  imports Py_Regex Extraction_Contract
begin

text \<open>
  \<open>gideon/extraction/grammar.py\<close>: the bounded expressions of the exact-object families, the candidate each makes
  of a match, and the selection of the objects of a text. Every expression is the source's, written with the
  constructors of \<open>Py_Regex\<close>; all are searched without regard to case except where the source compiles them plainly.
\<close>

section \<open>Parts of the expressions\<close>

definition GRAMMAR_VERSION :: int where "GRAMMAR_VERSION = 2"

definition BARE_SECTION_CUES :: "string list" where
  "BARE_SECTION_CUES = [''under'', ''court'', ''apply'', ''applies'', ''conviction'', ''convictions'']"

definition SPACED :: "citem list" where "SPACED = [CSpace, CChar 160]"

definition DIGIT :: regex where "DIGIT = Cls False [CRange 48 57]"  \<comment> \<open>\<open>[0-9]\<close>\<close>
definition LETTER :: regex where "LETTER = Cls False [CRange 65 90, CRange 97 122]"  \<comment> \<open>\<open>[A-Za-z]\<close>\<close>
definition ALNUM :: regex where "ALNUM = Cls False [CRange 65 90, CRange 97 122, CRange 48 57]"
definition DASH :: regex where "DASH = chars [45, 8211]"  \<comment> \<open>hyphen or en dash\<close>

definition nums :: "nat \<Rightarrow> nat \<Rightarrow> regex" where "nums a b = Rep True a b DIGIT"
definition letts :: "nat \<Rightarrow> nat \<Rightarrow> regex" where "letts a b = Rep True a b LETTER"

definition WS :: regex where "WS = Rep True 1 8 (Cls False SPACED)"
definition OPTIONAL_WS :: regex where "OPTIONAL_WS = Rep True 0 8 (Cls False SPACED)"
definition CODE_GAP :: regex where "CODE_GAP = Rep True 0 3 (Cls False (CChar 46 # SPACED))"

text \<open>Letters of a short form, each with the gap after it.\<close>

definition spelled :: "regex \<Rightarrow> string list \<Rightarrow> regex" where
  "spelled gap parts = seqs (map (\<lambda>p. Seq (lit p) gap) parts)"

definition CODE_TOKEN :: regex where
  "CODE_TOKEN = alts [spelled CODE_GAP [''U'', ''S'', ''C'', ''A''], spelled CODE_GAP [''U'', ''S'', ''C''],
     seqs [spelled CODE_GAP [''U'', ''S''], lit ''Code''],
     seqs [lit ''United'', WS, lit ''States'', WS, lit ''Code'']]"

definition CFR_CODE_TOKEN :: regex where "CFR_CODE_TOKEN = spelled CODE_GAP [''C'', ''F'', ''R'']"

definition GUIDELINE_ID :: regex where
  "GUIDELINE_ID = seqs [DIGIT, LETTER, nums 1 3, lit ''.'', nums 1 3]"

definition GUIDELINE_TOKEN :: regex where "GUIDELINE_TOKEN = spelled CODE_GAP [''U'', ''S'', ''S'', ''G'']"

definition SIGN :: regex where "SIGN = chars [167]"  \<comment> \<open>the section sign\<close>

definition GUIDELINE_MARKER :: regex where
  "GUIDELINE_MARKER = alts [Rep True 1 2 SIGN, lit ''section'', lit ''sec.'']"

definition GUIDELINE_PREFIX :: regex where
  "GUIDELINE_PREFIX = Alt
     (seqs [Alt GUIDELINE_TOKEN (seqs [lit ''Guideline'', WS]), OPTIONAL_WS, optional (seqs [GUIDELINE_MARKER, OPTIONAL_WS])])
     (seqs [GUIDELINE_MARKER, OPTIONAL_WS])"

definition SECTION_ATOM :: regex where "SECTION_ATOM = seqs [nums 1 6, letts 0 2]"
definition SECTION_TOKEN :: regex where "SECTION_TOKEN = seqs [SECTION_ATOM, optional (seqs [DASH, SECTION_ATOM])]"

definition CFR_SECTION_TOKEN :: regex where
  "CFR_SECTION_TOKEN = seqs [nums 1 6, lit ''.'', nums 1 6, optional (seqs [letts 1 2, optional (seqs [DASH, nums 1 6])])]"

definition NUMBER_ONLY :: regex where "NUMBER_ONLY = seqs [nums 3 6, letts 0 2]"
definition SUBSECTION :: regex where "SUBSECTION = seqs [lit ''('', Rep True 1 4 ALNUM, lit '')'']"
definition SUBSECTIONS :: regex where "SUBSECTIONS = Rep True 0 8 SUBSECTION"

definition SECTION_MARKER :: regex where
  "SECTION_MARKER = alts [Rep True 1 2 SIGN, lit ''sections'', lit ''section'', lit ''secs.'', lit ''sec.'']"

definition PLURAL_MARKER :: regex where
  "PLURAL_MARKER = alts [Rep True 2 2 SIGN, lit ''sections'', lit ''secs.'']"

definition LIST_SEPARATOR :: regex where
  "LIST_SEPARATOR = alts [seqs [lit '','', OPTIONAL_WS, alts [lit ''and'', lit ''or'', lit ''&'']],
     lit '','', lit ''and'', lit ''or'', lit ''&'', lit ''through'', lit ''to'']"

definition LEFT_BOUNDARY :: regex where
  "LEFT_BOUNDARY = not_after [CRange 65 90, CRange 97 122, CRange 48 57, CChar 95, CChar 46, CChar 8211, CChar 45]"

definition RIGHT_BOUNDARY :: regex where
  "RIGHT_BOUNDARY = Look False
     (Alt (Cls False [CRange 65 90, CRange 97 122, CRange 48 57, CChar 95, CChar 8211, CChar 45]) (Seq (lit ''.'') ALNUM))"

definition RULE_GAP :: regex where "RULE_GAP = Rep True 0 3 (Cls False (CChar 46 # SPACED))"

definition RULE_NUMBER :: regex where "RULE_NUMBER = seqs [nums 1 4, optional (seqs [lit ''.'', nums 1 2])]"

definition CRIM :: regex where  \<comment> \<open>\<open>Cr(?:im){0,1}\<close> and its gap\<close>
  "CRIM = seqs [lit ''Cr'', optional (lit ''im''), RULE_GAP]"

definition CRIMINAL_SHORT :: regex where
  "CRIMINAL_SHORT = Alt (seqs [spelled RULE_GAP [''Fed'', ''R''], CRIM, spelled RULE_GAP [''P'']])
     (seqs [spelled RULE_GAP [''F'', ''R''], CRIM, spelled RULE_GAP [''P'']])"

definition EVIDENCE_SHORT :: regex where
  "EVIDENCE_SHORT = Alt (spelled RULE_GAP [''Fed'', ''R'', ''Evid'']) (spelled RULE_GAP [''F'', ''R'', ''E''])"

definition APPELLATE_SHORT :: regex where
  "APPELLATE_SHORT = Alt (spelled RULE_GAP [''Fed'', ''R'', ''App'', ''P''])
     (seqs [spelled RULE_GAP [''F'', ''R''],
       Alt (seqs [spelled RULE_GAP [''App''], lit ''P'']) (seqs [spelled RULE_GAP [''A''], lit ''P'']), RULE_GAP])"

definition CIVIL_SHORT :: regex where
  "CIVIL_SHORT = Alt (spelled RULE_GAP [''Fed'', ''R'', ''Civ'', ''P''])
     (seqs [spelled RULE_GAP [''F'', ''R''],
       Alt (seqs [spelled RULE_GAP [''Civ''], lit ''P'']) (seqs [spelled RULE_GAP [''C''], lit ''P'']), RULE_GAP])"

definition words_of :: "string list \<Rightarrow> regex" where  \<comment> \<open>words, white space between each two\<close>
  "words_of ws = (case ws of [] \<Rightarrow> Eps | w # rest \<Rightarrow> seqs (lit w # map (\<lambda>v. Seq WS (lit v)) rest))"

definition federal_rules_of :: "string list \<Rightarrow> regex" where
  "federal_rules_of ws = seqs [lit ''Federal'', WS, lit ''Rule'', optional (lit ''s''), WS, words_of (''of'' # ws)]"

definition CRIMINAL_LONG :: regex where "CRIMINAL_LONG = federal_rules_of [''Criminal'', ''Procedure'']"
definition EVIDENCE_LONG :: regex where "EVIDENCE_LONG = federal_rules_of [''Evidence'']"
definition APPELLATE_LONG :: regex where "APPELLATE_LONG = federal_rules_of [''Appellate'', ''Procedure'']"
definition CIVIL_LONG :: regex where "CIVIL_LONG = federal_rules_of [''Civil'', ''Procedure'']"

definition SCOTUS_SHORT :: regex where
  "SCOTUS_SHORT = seqs [spelled RULE_GAP [''Sup'', ''Ct''], Alt (lit ''R'') (lit ''Rule''), RULE_GAP]"

definition SCOTUS_LONG :: regex where "SCOTUS_LONG = seqs [words_of [''Supreme'', ''Court'', ''Rule''], WS]"

text \<open>The four rule sets: title, path segment, short and long form.\<close>

definition RULE_SETS :: "(string \<times> string \<times> regex \<times> regex) list" where
  "RULE_SETS = [(''18a'', ''Crim'', CRIMINAL_SHORT, CRIMINAL_LONG), (''28a'', ''Civil'', CIVIL_SHORT, CIVIL_LONG),
     (''28a'', ''App'', APPELLATE_SHORT, APPELLATE_LONG), (''28a'', ''Evid'', EVIDENCE_SHORT, EVIDENCE_LONG)]"

definition APPENDIX_TABLE :: "(nat \<times> nat) \<Rightarrow> string option" where
  "APPENDIX_TABLE = map_of [((18, 2), ''pl/91/538''), ((18, 3), ''pl/96/456'')]"

definition ROMAN_ORDINALS :: "ustr \<Rightarrow> nat option" where
  "ROMAN_ORDINALS = map_of (map (\<lambda>(r, n). (ulit r, n))
     [(''I'', 1), (''II'', 2), (''III'', 3), (''IV'', 4), (''V'', 5), (''VI'', 6), (''VII'', 7), (''VIII'', 8), (''IX'', 9),
      (''X'', 10)])"

definition RULE_SET_LONG_SOURCE :: regex where
  "RULE_SET_LONG_SOURCE = alts (map (\<lambda>(_, _, _, long). long) RULE_SETS)"

definition RULE_SET_SOURCE :: regex where
  "RULE_SET_SOURCE = alts (map (\<lambda>(_, _, short, _). short) RULE_SETS @ [RULE_SET_LONG_SOURCE])"

definition RULE_SET_FORMS :: "(string \<times> string \<times> regex) list" where
  "RULE_SET_FORMS = map (\<lambda>(title, segment, short, long). (title, segment, Alt short long)) RULE_SETS"

section \<open>The expressions\<close>

definition TITLE :: regex where "TITLE = Group ''title'' (nums 1 3)"

definition TITLED_SECTION_SOURCE :: regex where
  "TITLED_SECTION_SOURCE = seqs [LEFT_BOUNDARY, TITLE, WS, CODE_TOKEN, WS,
     optional (seqs [Group ''marker'' (alts [SIGN, lit ''section'', lit ''sec.'']), OPTIONAL_WS]),
     Group ''section'' SECTION_TOKEN, Group ''subsections'' SUBSECTIONS, RIGHT_BOUNDARY]"

text \<open>The body of a list of sections, and the whole list.\<close>

definition list_body :: "regex \<Rightarrow> regex" where
  "list_body token = seqs [token, SUBSECTIONS,
     Rep True 0 3 (seqs [OPTIONAL_WS, LIST_SEPARATOR, OPTIONAL_WS, optional (seqs [SECTION_MARKER, OPTIONAL_WS]), token, SUBSECTIONS])]"

definition list_source :: "regex \<Rightarrow> regex \<Rightarrow> regex" where
  "list_source code token = seqs [LEFT_BOUNDARY, TITLE, WS, code, WS, Group ''list_marker'' PLURAL_MARKER, OPTIONAL_WS,
     Group ''body'' (list_body token), RIGHT_BOUNDARY]"

definition LIST_SOURCE :: regex where "LIST_SOURCE = list_source CODE_TOKEN SECTION_TOKEN"

definition CFR_RANGE_TOKEN :: regex where
  "CFR_RANGE_TOKEN = seqs [nums 1 6, lit ''.'', nums 1 6, DASH, nums 1 6, lit ''.'', nums 1 6]"

definition CFR_LIST_SECTION_TOKEN :: regex where
  "CFR_LIST_SECTION_TOKEN = Alt CFR_RANGE_TOKEN CFR_SECTION_TOKEN"

definition CFR_TITLED_SECTION_SOURCE :: regex where
  "CFR_TITLED_SECTION_SOURCE = seqs [LEFT_BOUNDARY, TITLE, WS, CFR_CODE_TOKEN, WS,
     optional (seqs [Group ''marker'' (alts [SIGN, lit ''section'', lit ''sec.'']), OPTIONAL_WS]),
     Group ''section'' CFR_SECTION_TOKEN, Group ''subsections'' SUBSECTIONS, RIGHT_BOUNDARY]"

definition CFR_LIST_SOURCE :: regex where "CFR_LIST_SOURCE = list_source CFR_CODE_TOKEN CFR_LIST_SECTION_TOKEN"

definition BARE_MARKED_SECTION_TOKEN :: regex where
  "BARE_MARKED_SECTION_TOKEN = Alt CFR_SECTION_TOKEN SECTION_TOKEN"

definition BARE_SOURCE :: regex where
  "BARE_SOURCE = alts
     [seqs [LEFT_BOUNDARY, Group ''marker'' SECTION_MARKER, OPTIONAL_WS, Group ''marked_section'' BARE_MARKED_SECTION_TOKEN,
        Group ''marked_subsections'' SUBSECTIONS, RIGHT_BOUNDARY],
      seqs [LEFT_BOUNDARY, Group ''sub_section'' SECTION_TOKEN, Group ''subsections_required'' (Rep True 1 8 SUBSECTION), RIGHT_BOUNDARY],
      seqs [LEFT_BOUNDARY, Group ''cue_number'' NUMBER_ONLY, RIGHT_BOUNDARY]]"

definition GUIDELINE_SOURCE :: regex where
  "GUIDELINE_SOURCE = seqs [LEFT_BOUNDARY, optional (Group ''guideline_prefix'' GUIDELINE_PREFIX),
     Group ''guideline_id'' GUIDELINE_ID, Group ''subsections'' SUBSECTIONS, RIGHT_BOUNDARY]"

definition COURT_RULE_SOURCE :: regex where
  "COURT_RULE_SOURCE = Alt
     (seqs [LEFT_BOUNDARY, Group ''set_form'' RULE_SET_SOURCE, WS, Group ''number'' RULE_NUMBER,
        Group ''subsections'' SUBSECTIONS, RIGHT_BOUNDARY])
     (seqs [LEFT_BOUNDARY, lit ''Rule'', WS, Group ''long_number'' RULE_NUMBER, Group ''long_subsections'' SUBSECTIONS, WS,
        words_of [''of'', ''the''], WS, Group ''long_set'' RULE_SET_LONG_SOURCE, RIGHT_BOUNDARY])"

definition SCOTUS_RULE_SOURCE :: regex where
  "SCOTUS_RULE_SOURCE = alts
     [seqs [LEFT_BOUNDARY, Group ''short_prefix'' SCOTUS_SHORT, Group ''short_number'' RULE_NUMBER,
        Group ''short_subsections'' SUBSECTIONS, RIGHT_BOUNDARY],
      seqs [LEFT_BOUNDARY, Group ''long_prefix'' SCOTUS_LONG, Group ''long_number'' RULE_NUMBER,
        Group ''long_subsections'' SUBSECTIONS, RIGHT_BOUNDARY],
      seqs [LEFT_BOUNDARY, lit ''Rule'', WS, Group ''of_number'' RULE_NUMBER, Group ''of_subsections'' SUBSECTIONS, WS,
        words_of [''of'', ''the'', ''Rules'', ''of'', ''the'', ''Supreme'', ''Court''], RIGHT_BOUNDARY]]"

definition HABEAS_TITLE :: regex where "HABEAS_TITLE = seqs [lit ''225'', chars [52, 53]]"

definition HABEAS_RULE_SOURCE :: regex where
  "HABEAS_RULE_SOURCE = Alt
     (seqs [LEFT_BOUNDARY, lit ''Rule'', WS, Group ''long_number'' RULE_NUMBER, Group ''long_subsections'' SUBSECTIONS, WS,
        words_of [''of'', ''the'', ''Rules'', ''Governing''], WS, Alt (lit ''Section'') SIGN, OPTIONAL_WS,
        Group ''long_title'' HABEAS_TITLE, WS, Alt (lit ''Cases'') (lit ''Proceedings''), RIGHT_BOUNDARY])
     (seqs [LEFT_BOUNDARY, Group ''short_marker'' (Alt SIGN (lit ''Section'')), OPTIONAL_WS, Group ''short_title'' HABEAS_TITLE, WS,
        lit ''Rule'', WS, Group ''short_number'' RULE_NUMBER, Group ''short_subsections'' SUBSECTIONS, RIGHT_BOUNDARY])"

definition HABEAS_UNNAMED_SOURCE :: regex where
  "HABEAS_UNNAMED_SOURCE = seqs [LEFT_BOUNDARY, words_of [''Habeas'', ''Rule''], WS, Group ''number'' RULE_NUMBER,
     Group ''subsections'' SUBSECTIONS, RIGHT_BOUNDARY]"

definition ROMAN :: regex where "ROMAN = Rep True 1 8 (chars [73, 86, 88, 76, 67, 68, 77])"

definition APPENDIX_SOURCE :: regex where
  "APPENDIX_SOURCE = seqs [LEFT_BOUNDARY, TITLE, WS, CODE_TOKEN, WS, lit ''App'', optional (lit ''.''), WS,
     Group ''ordinal'' (Alt (nums 1 3) ROMAN), OPTIONAL_WS, optional (seqs [lit '','', OPTIONAL_WS]),
     Group ''marker'' (alts [SIGN, lit ''section'', lit ''sec.'']), OPTIONAL_WS,
     Group ''section'' SECTION_TOKEN, Group ''subsections'' SUBSECTIONS, RIGHT_BOUNDARY]"

definition DISTRICT_DOCKET_NUMBER :: regex where
  "DISTRICT_DOCKET_NUMBER = seqs [DIGIT, lit '':'', nums 2 2, lit ''-'', letts 2 2, lit ''-'', nums 3 5,
     Rep True 0 3 (seqs [lit ''-'', letts 2 4]), optional (seqs [lit ''-'', nums 1 3])]"

definition DOCKET_MARKER :: regex where
  "DOCKET_MARKER = alts [lit ''No.'', words_of [''Case'', ''No.''], words_of [''Docket'', ''No.''], lit ''Dkt.'']"

definition MARKED_DOCKET_NUMBER :: regex where "MARKED_DOCKET_NUMBER = seqs [nums 2 2, lit ''-'', nums 1 5]"

definition DOCKET_DISTRICT_SOURCE :: regex where
  "DOCKET_DISTRICT_SOURCE = seqs [LEFT_BOUNDARY, Group ''number'' DISTRICT_DOCKET_NUMBER, RIGHT_BOUNDARY]"

definition DOCKET_MARKED_SOURCE :: regex where
  "DOCKET_MARKED_SOURCE = seqs [LEFT_BOUNDARY, DOCKET_MARKER, WS, Group ''number'' MARKED_DOCKET_NUMBER, RIGHT_BOUNDARY]"

definition BARE_RULE_SOURCE :: regex where
  "BARE_RULE_SOURCE = seqs [LEFT_BOUNDARY, lit ''Rule'', WS, Group ''bare_number'' RULE_NUMBER,
     Group ''bare_subsections'' SUBSECTIONS, RIGHT_BOUNDARY]"

section \<open>Captures and contexts\<close>

definition SUBSECTION_CAPTURE :: regex where
  "SUBSECTION_CAPTURE = seqs [lit ''('', Group ''1'' (Rep True 1 4 ALNUM), lit '')'']"

definition member_capture :: "regex \<Rightarrow> regex" where
  "member_capture token = seqs [optional (seqs [SECTION_MARKER, OPTIONAL_WS]), Group ''section'' token, Group ''subsections'' SUBSECTIONS]"

definition LIST_MEMBER_CAPTURE :: regex where "LIST_MEMBER_CAPTURE = member_capture SECTION_TOKEN"
definition CFR_LIST_MEMBER_CAPTURE :: regex where "CFR_LIST_MEMBER_CAPTURE = member_capture CFR_LIST_SECTION_TOKEN"

definition range_capture :: "regex \<Rightarrow> regex" where
  "range_capture number = seqs [Group ''left'' number, Group ''dash'' DASH, Group ''right'' number]"

definition RANGE_CAPTURE :: regex where "RANGE_CAPTURE = range_capture (nums 1 6)"
definition CFR_RANGE_CAPTURE :: regex where "CFR_RANGE_CAPTURE = range_capture (seqs [nums 1 6, lit ''.'', nums 1 6])"

definition WORD_CAPTURE :: regex where
  "WORD_CAPTURE = seqs [LETTER, Rep True 0 31 (Cls False [CRange 65 90, CRange 97 122, CChar 45])]"

definition ANY_WS :: regex where "ANY_WS = Many 0 (Cls False SPACED)"
definition SOME_WS :: regex where "SOME_WS = Many 1 (Cls False SPACED)"

definition RULE_CONTEXT :: regex where
  "RULE_CONTEXT = seqs [not_after [CRange 65 90, CRange 97 122], Alt (lit ''Rule'') RULE_SET_SOURCE, OPTIONAL_WS, LineEnd]"

definition CFR_CONTEXT :: regex where
  "CFR_CONTEXT = seqs [WordB, lit ''c'', optional (lit ''.''), ANY_WS, lit ''f'', optional (lit ''.''), ANY_WS, lit ''r'',
     optional (lit ''.''), ANY_WS, LineEnd]"

definition STATE_CONTEXT :: regex where
  "STATE_CONTEXT = seqs [WordB, letts 2 12, optional (lit ''.''), SOME_WS, lit ''Code'', SOME_WS, lit ''Ann'', optional (lit ''.''),
     ANY_WS, LineEnd]"

definition APPENDIX_CONTEXT :: regex where
  "APPENDIX_CONTEXT = seqs [WordB, lit ''app'', optional (lit ''.''), WS, Alt (nums 1 3) ROMAN, OPTIONAL_WS,
     optional (seqs [lit '','', OPTIONAL_WS]), LineEnd]"

definition PUBLIC_LAW_CONTEXT :: regex where
  "PUBLIC_LAW_CONTEXT = seqs [WordB, lit ''Pub.'', OPTIONAL_WS, lit ''L.'', OPTIONAL_WS, LineEnd]"

definition STATE_CODE_SHAPE :: regex where
  "STATE_CODE_SHAPE = seqs [nums 1 6, lit ''-'', nums 1 6, lit ''-'', nums 1 6, TextEnd]"

definition HABEAS_RULES_CONTEXT :: regex where
  "HABEAS_RULES_CONTEXT = seqs [WordB, words_of [''rules'', ''governing''], WS, optional (seqs [SECTION_MARKER, OPTIONAL_WS]), LineEnd]"

definition HABEAS_RULE_FOLLOWING :: regex where
  "HABEAS_RULE_FOLLOWING = seqs [TextStart, WS, words_of [''of'', ''the'', ''rules'', ''governing''], WS,
     Alt (lit ''section'') SIGN, OPTIONAL_WS, HABEAS_TITLE, WS, Alt (lit ''cases'') (lit ''proceedings''), WordB]"

definition SUPREME_RULE_PREFIX :: regex where
  "SUPREME_RULE_PREFIX = seqs [Alt (seqs [WordB, words_of [''supreme'', ''court'']])
     (seqs [WordB, lit ''sup.'', OPTIONAL_WS, lit ''ct'', optional (lit ''.'')]), OPTIONAL_WS, LineEnd]"

definition WORD_BEFORE :: regex where "WORD_BEFORE = seqs [Group ''1'' WORD_CAPTURE, OPTIONAL_WS, LineEnd]"
definition WORD_AFTER :: regex where "WORD_AFTER = seqs [OPTIONAL_WS, Group ''1'' WORD_CAPTURE]"

definition CUE_WINDOW :: nat where "CUE_WINDOW = 48"

section \<open>Candidates\<close>

record candidate =
  cd_start :: int
  cd_end :: int
  cd_precedence :: nat
  cd_objects :: "exact_object list"

text \<open>\<open>m.group(name)\<close>, and the first truthy one of several; \<open>m.start(name)\<close> and \<open>m.span(name)\<close> of a group that matched.\<close>

definition group_of :: "ustr \<Rightarrow> match \<Rightarrow> string \<Rightarrow> ustr option" where
  "group_of t m name = map_option (\<lambda>(a, b). substr t a b) (span m name)"

primrec first_group :: "ustr \<Rightarrow> match \<Rightarrow> string list \<Rightarrow> ustr" where
  "first_group t m [] = []"
| "first_group t m (name # names) =
     (case group_of t m name of
        Some v \<Rightarrow> if v \<noteq> [] then v else first_group t m names
      | None \<Rightarrow> first_group t m names)"

definition group_start :: "match \<Rightarrow> string \<Rightarrow> nat" where
  "group_start m name = (case span m name of Some (a, _) \<Rightarrow> a | None \<Rightarrow> 0)"

definition group_end :: "match \<Rightarrow> string \<Rightarrow> nat" where
  "group_end m name = (case span m name of Some (_, b) \<Rightarrow> b | None \<Rightarrow> 0)"

definition subsections_of :: "ucd \<Rightarrow> ustr \<Rightarrow> ustr list" where
  "subsections_of U v = map (\<lambda>m. group_text v m ''1'') (re_finditer U False SUBSECTION_CAPTURE v)"

definition object_at ::
    "string \<Rightarrow> ustr \<Rightarrow> nat \<Rightarrow> nat \<Rightarrow> ustr option \<Rightarrow> string \<Rightarrow> ustr list \<Rightarrow> exact_object" where
  "object_at ty t a b key pattern_id subs =
     \<lparr>xo_type = ulit ty, xo_start = int a, xo_end = int b, xo_text = substr t a b, xo_key = key,
      xo_pattern_id = Some (ulit pattern_id), xo_subsections = subs\<rparr>"

definition regulation :: "ucd \<Rightarrow> ustr \<Rightarrow> nat \<Rightarrow> nat \<Rightarrow> ustr \<Rightarrow> ustr \<Rightarrow> string \<Rightarrow> exact_object" where
  "regulation U t a b title sec pid =
     object_at ''regulation'' t a b (Some (ulit ''cfr/'' @ title @ ulit ''/'' @ sec)) pid (subsections_of U (substr t a b))"

definition statute :: "ucd \<Rightarrow> ustr \<Rightarrow> nat \<Rightarrow> nat \<Rightarrow> ustr \<Rightarrow> ustr \<Rightarrow> string \<Rightarrow> exact_object" where
  "statute U t a b title sec pid =
     object_at ''statute'' t a b (Some (ulit ''/us/usc/t'' @ title @ ulit ''/s'' @ sec)) pid (subsections_of U (substr t a b))"

definition bare :: "ucd \<Rightarrow> ustr \<Rightarrow> nat \<Rightarrow> nat \<Rightarrow> string \<Rightarrow> exact_object" where
  "bare U t a b pid = object_at ''bare_section'' t a b None pid (subsections_of U (substr t a b))"

definition guideline :: "ucd \<Rightarrow> ustr \<Rightarrow> nat \<Rightarrow> nat \<Rightarrow> ustr \<Rightarrow> string \<Rightarrow> exact_object" where
  "guideline U t a b gid pid =
     object_at ''guideline'' t a b (Some (ulit ''ussg/'' @ map (uc_upper U) gid)) pid (subsections_of U (substr t a b))"

definition rule_path :: "ucd \<Rightarrow> ustr \<Rightarrow> ustr \<Rightarrow> ustr result" where  \<comment> \<open>\<open>next\<close> of nothing ends a generator by \<open>RuntimeError\<close>\<close>
  "rule_path U rule_set number =
     (case find (\<lambda>(_, _, form). re_fullmatch U True form rule_set \<noteq> None) RULE_SET_FORMS of
        None \<Rightarrow> Inl ''RuntimeError''
      | Some (title, segment, _) \<Rightarrow>
          Inr (ulit ''/us/usc/t'' @ ulit title @ ulit ''/courtRules/'' @ ulit segment @ ulit ''/rule'' @ number))"

definition court_rule :: "ucd \<Rightarrow> ustr \<Rightarrow> nat \<Rightarrow> nat \<Rightarrow> ustr \<Rightarrow> ustr \<Rightarrow> string \<Rightarrow> exact_object result" where
  "court_rule U t a b rule_set number pid =
     map_result (\<lambda>path. object_at ''court_rule'' t a b (Some path) pid (subsections_of U (substr t a b))) (rule_path U rule_set number)"

definition bare_rule :: "ucd \<Rightarrow> ustr \<Rightarrow> nat \<Rightarrow> nat \<Rightarrow> string \<Rightarrow> exact_object" where
  "bare_rule U t a b pid = object_at ''bare_rule'' t a b None pid (subsections_of U (substr t a b))"

definition habeas_rule :: "ucd \<Rightarrow> ustr \<Rightarrow> nat \<Rightarrow> nat \<Rightarrow> ustr \<Rightarrow> ustr \<Rightarrow> string \<Rightarrow> exact_object" where
  "habeas_rule U t a b title number pid =
     object_at ''habeas_rule'' t a b (Some (ulit ''rules/'' @ title @ ulit ''/rule'' @ number)) pid (subsections_of U (substr t a b))"

text \<open>\<open>int(v)\<close> of decimal digits.\<close>

definition int_of_digits :: "ucd \<Rightarrow> ustr \<Rightarrow> nat result" where
  "int_of_digits U v =
     (if v = [] \<or> \<not> list_all (uc_digit U) v then Inl ''ValueError'' else Inr (fold (\<lambda>c n. 10 * n + uc_digit_value U c) v 0))"

definition appendix_ordinal :: "ucd \<Rightarrow> ustr \<Rightarrow> nat option result" where
  "appendix_ordinal U v =
     (if v \<noteq> [] \<and> list_all (uc_digit U) v then map_result Some (int_of_digits U v) else Inr (ROMAN_ORDINALS (map (uc_upper U) v)))"

text \<open>A candidate over the match, of one object.\<close>

definition one_object :: "nat \<Rightarrow> nat \<Rightarrow> nat \<Rightarrow> exact_object \<Rightarrow> candidate" where
  "one_object a b prec x = \<lparr>cd_start = int a, cd_end = int b, cd_precedence = prec, cd_objects = [x]\<rparr>"

definition appendix_candidate :: "ucd \<Rightarrow> ustr \<Rightarrow> match \<Rightarrow> string \<Rightarrow> nat \<Rightarrow> candidate option result" where
  "appendix_candidate U t m pid prec =
     bind_result (appendix_ordinal U (group_text t m ''ordinal'')) (\<lambda>ordinal.
     bind_result (case ordinal of
         None \<Rightarrow> Inr None
       | Some n \<Rightarrow> if n = 0 then Inr None
           else map_result (\<lambda>title. APPENDIX_TABLE (title, n)) (int_of_digits U (group_text t m ''title''))) (\<lambda>path.
     Inr (case path of
         None \<Rightarrow> None
       | Some p \<Rightarrow> Some (one_object (m_start m) (m_end m) prec
           (object_at ''appendix_statute'' t (m_start m) (m_end m)
             (Some (ulit ''/us/usc/t'' @ group_text t m ''title'' @ ulit ''a/'' @ ulit p @ ulit ''/s'' @ group_text t m ''section''))
             pid (subsections_of U (substr t (m_start m) (m_end m))))))))"

definition docket_object :: "ustr \<Rightarrow> nat \<Rightarrow> nat \<Rightarrow> string \<Rightarrow> exact_object" where
  "docket_object t a b pid = object_at ''docket'' t a b None pid []"

definition district_docket_candidate :: "ucd \<Rightarrow> ustr \<Rightarrow> match \<Rightarrow> string \<Rightarrow> nat \<Rightarrow> candidate option result" where
  "district_docket_candidate U t m pid prec =
     (let a = group_start m ''number''; b = group_end m ''number''
      in Inr (Some (one_object a b prec (docket_object t a b pid))))"

definition prefix_of :: "ustr \<Rightarrow> nat \<Rightarrow> nat \<Rightarrow> ustr" where  \<comment> \<open>\<open>text[max(0, start - n) : start]\<close>\<close>
  "prefix_of t n a = substr t (a - n) a"

definition marked_docket_candidate :: "ucd \<Rightarrow> ustr \<Rightarrow> match \<Rightarrow> string \<Rightarrow> nat \<Rightarrow> candidate option result" where
  "marked_docket_candidate U t m pid prec =
     (if re_search U True PUBLIC_LAW_CONTEXT (prefix_of t CUE_WINDOW (m_start m)) \<noteq> None then Inr None
      else let a = group_start m ''number''; b = group_end m ''number''
           in Inr (Some (one_object a b prec (docket_object t a b pid))))"

definition range_parts :: "ucd \<Rightarrow> regex \<Rightarrow> ustr \<Rightarrow> (ustr \<times> ustr \<times> nat) option" where
  "range_parts U capture sec =
     map_option (\<lambda>m. (group_text sec m ''left'', group_text sec m ''right'', group_start m ''dash'')) (re_fullmatch U False capture sec)"

definition titled_candidate :: "ucd \<Rightarrow> ustr \<Rightarrow> match \<Rightarrow> string \<Rightarrow> nat \<Rightarrow> candidate option result" where
  "titled_candidate U t m pid prec = Inr (Some (one_object (m_start m) (m_end m) prec
     (statute U t (m_start m) (m_end m) (group_text t m ''title'') (group_text t m ''section'') pid)))"

definition regulation_candidate :: "ucd \<Rightarrow> ustr \<Rightarrow> match \<Rightarrow> string \<Rightarrow> nat \<Rightarrow> candidate option result" where
  "regulation_candidate U t m pid prec = Inr (Some (one_object (m_start m) (m_end m) prec
     (regulation U t (m_start m) (m_end m) (group_text t m ''title'') (group_text t m ''section'') pid)))"

text \<open>The objects of one member of a list, a range giving its two ends.\<close>

definition member_objects ::
    "ucd \<Rightarrow> ustr \<Rightarrow> regex \<Rightarrow> (nat \<Rightarrow> nat \<Rightarrow> ustr \<Rightarrow> exact_object) \<Rightarrow> nat \<Rightarrow> ustr \<Rightarrow> nat \<Rightarrow> match \<Rightarrow> exact_object list" where
  "member_objects U t range_rx build body_start body object_start member =
     (let sec = group_text body member ''section'';
          member_start = body_start + group_start member ''section'';
          member_end = body_start + m_end member
      in case range_parts U range_rx sec of
           None \<Rightarrow> [build object_start member_end sec]
         | Some (left, right, dash_offset) \<Rightarrow>
             let dash_start = member_start + dash_offset
             in [build object_start dash_start left, build (dash_start + 1) member_end right])"

definition list_candidate_common ::
    "ucd \<Rightarrow> ustr \<Rightarrow> match \<Rightarrow> nat \<Rightarrow> regex \<Rightarrow> regex \<Rightarrow> (ustr \<Rightarrow> nat \<Rightarrow> nat \<Rightarrow> ustr \<Rightarrow> exact_object) \<Rightarrow> candidate option" where
  "list_candidate_common U t m prec member_rx range_rx build =
     (let title = group_text t m ''title''; body = group_text t m ''body''; body_start = group_start m ''body''
      in case re_finditer U True member_rx body of
           [] \<Rightarrow> None
         | first # rest \<Rightarrow> Some \<lparr>cd_start = int (m_start m), cd_end = int (m_end m), cd_precedence = prec,
             cd_objects = member_objects U t range_rx (build title) body_start body (m_start m) first @
               concat (map (\<lambda>x. member_objects U t range_rx (build title) body_start body (body_start + m_start x) x) rest)\<rparr>)"

definition list_candidate :: "ucd \<Rightarrow> ustr \<Rightarrow> match \<Rightarrow> string \<Rightarrow> nat \<Rightarrow> candidate option result" where
  "list_candidate U t m pid prec =
     Inr (list_candidate_common U t m prec LIST_MEMBER_CAPTURE RANGE_CAPTURE (\<lambda>title a b sec. statute U t a b title sec pid))"

definition cfr_list_candidate :: "ucd \<Rightarrow> ustr \<Rightarrow> match \<Rightarrow> string \<Rightarrow> nat \<Rightarrow> candidate option result" where
  "cfr_list_candidate U t m pid prec =
     Inr (list_candidate_common U t m prec CFR_LIST_MEMBER_CAPTURE CFR_RANGE_CAPTURE (\<lambda>title a b sec. regulation U t a b title sec pid))"

definition guideline_candidate :: "ucd \<Rightarrow> ustr \<Rightarrow> match \<Rightarrow> string \<Rightarrow> nat \<Rightarrow> candidate option result" where
  "guideline_candidate U t m pid prec =
     (let a = (if group_of t m ''guideline_prefix'' \<noteq> None then group_start m ''guideline_prefix'' else group_start m ''guideline_id'')
      in Inr (Some (one_object a (m_end m) prec (guideline U t a (m_end m) (group_text t m ''guideline_id'') pid))))"

definition court_rule_candidate :: "ucd \<Rightarrow> ustr \<Rightarrow> match \<Rightarrow> string \<Rightarrow> nat \<Rightarrow> candidate option result" where
  "court_rule_candidate U t m pid prec =
     map_result (\<lambda>x. Some (one_object (m_start m) (m_end m) prec x))
       (court_rule U t (m_start m) (m_end m) (first_group t m [''set_form'', ''long_set'']) (first_group t m [''number'', ''long_number'']) pid)"

text \<open>\<open>number.partition(".")\<close>.\<close>

definition partition_dot :: "ustr \<Rightarrow> ustr \<times> ustr option" where
  "partition_dot v = (takeWhile (\<lambda>c. c \<noteq> 46) v,
     if 46 \<in> set v then Some (drop (Suc (length (takeWhile (\<lambda>c. c \<noteq> 46) v))) v) else None)"

definition scotus_rule :: "ucd \<Rightarrow> ustr \<Rightarrow> nat \<Rightarrow> nat \<Rightarrow> ustr \<Rightarrow> ustr \<Rightarrow> string \<Rightarrow> exact_object" where
  "scotus_rule U t a b number parenthesized pid =
     (let (rule_number, paragraph) = partition_dot number
      in object_at ''scotus_rule'' t a b (Some (ulit ''rules/scotus/rule'' @ rule_number)) pid
           ((case paragraph of None \<Rightarrow> [] | Some p \<Rightarrow> [p]) @ subsections_of U parenthesized))"

definition scotus_rule_candidate :: "ucd \<Rightarrow> ustr \<Rightarrow> match \<Rightarrow> string \<Rightarrow> nat \<Rightarrow> candidate option result" where
  "scotus_rule_candidate U t m pid prec = Inr (Some (one_object (m_start m) (m_end m) prec
     (scotus_rule U t (m_start m) (m_end m) (first_group t m [''short_number'', ''long_number'', ''of_number''])
       (first_group t m [''short_subsections'', ''long_subsections'', ''of_subsections'']) pid)))"

definition habeas_rule_candidate :: "ucd \<Rightarrow> ustr \<Rightarrow> match \<Rightarrow> string \<Rightarrow> nat \<Rightarrow> candidate option result" where
  "habeas_rule_candidate U t m pid prec = Inr (Some (one_object (m_start m) (m_end m) prec
     (habeas_rule U t (m_start m) (m_end m) (first_group t m [''long_title'', ''short_title''])
       (first_group t m [''long_number'', ''short_number'']) pid)))"

definition habeas_unnamed_candidate :: "ucd \<Rightarrow> ustr \<Rightarrow> match \<Rightarrow> string \<Rightarrow> nat \<Rightarrow> candidate option result" where
  "habeas_unnamed_candidate U t m pid prec =
     Inr (Some (one_object (m_start m) (m_end m) prec (bare_rule U t (m_start m) (m_end m) pid)))"

definition bare_rule_candidate :: "ucd \<Rightarrow> ustr \<Rightarrow> match \<Rightarrow> string \<Rightarrow> nat \<Rightarrow> candidate option result" where
  "bare_rule_candidate U t m pid prec =
     (if re_search U True SUPREME_RULE_PREFIX (prefix_of t CUE_WINDOW (m_start m)) \<noteq> None \<or>
         re_match U True HABEAS_RULE_FOLLOWING (substr t (m_end m) (m_end m + CUE_WINDOW)) \<noteq> None then Inr None
      else Inr (Some (one_object (m_start m) (m_end m) prec (bare_rule U t (m_start m) (m_end m) pid))))"

section \<open>A section without a title\<close>

definition casefolded :: "ucd \<Rightarrow> ustr \<Rightarrow> ustr" where
  "casefolded U v = concat (map (uc_casefold U) v)"

definition word_before :: "ucd \<Rightarrow> ustr \<Rightarrow> nat \<Rightarrow> ustr option" where
  "word_before U t a = (let v = prefix_of t CUE_WINDOW a
     in map_option (\<lambda>m. casefolded U (group_text v m ''1'')) (re_search U False WORD_BEFORE v))"

definition word_after :: "ucd \<Rightarrow> ustr \<Rightarrow> nat \<Rightarrow> ustr option" where
  "word_after U t b = (let v = substr t b (b + CUE_WINDOW)
     in map_option (\<lambda>m. casefolded U (group_text v m ''1'')) (re_match U False WORD_AFTER v))"

definition is_cue :: "ustr option \<Rightarrow> bool" where
  "is_cue w = (case w of None \<Rightarrow> False | Some v \<Rightarrow> v \<in> set (map ulit BARE_SECTION_CUES))"

definition has_bare_cue :: "ucd \<Rightarrow> ustr \<Rightarrow> nat \<Rightarrow> nat \<Rightarrow> bool" where
  "has_bare_cue U t a b =
     (let following = is_cue (word_after U t b)
      in case int_of_digits U (substr t a b) of
           Inr n \<Rightarrow> if 1900 \<le> n \<and> n < 2100 then following else following \<or> is_cue (word_before U t a)
         | Inl e \<Rightarrow> following \<or> is_cue (word_before U t a))"

definition declined_bare :: "ucd \<Rightarrow> ustr \<Rightarrow> nat \<Rightarrow> nat \<Rightarrow> bool" where
  "declined_bare U t a b =
     (list_ex (\<lambda>r. re_search U True r (prefix_of t 96 a) \<noteq> None)
        [RULE_CONTEXT, CFR_CONTEXT, STATE_CONTEXT, APPENDIX_CONTEXT, HABEAS_RULES_CONTEXT] \<or>
      re_fullmatch U False STATE_CODE_SHAPE (substr t a b) \<noteq> None)"

definition PLURAL_FORMS :: "ustr list" where
  "PLURAL_FORMS = [replicate 2 167, ulit ''sections'', ulit ''secs.'']"

definition bare_ranges :: "ucd \<Rightarrow> ustr \<Rightarrow> match \<Rightarrow> nat option" where  \<comment> \<open>where the dash of a plural range stands\<close>
  "bare_ranges U t m =
     (case (group_of t m ''marker'', group_of t m ''marked_section'') of
        (Some marker, Some sec) \<Rightarrow>
          if marker \<noteq> [] \<and> sec \<noteq> [] \<and> casefolded U marker \<in> set PLURAL_FORMS
          then map_option (\<lambda>(_, _, dash). group_start m ''marked_section'' + dash) (range_parts U RANGE_CAPTURE sec)
          else None
      | _ \<Rightarrow> None)"

definition bare_candidate :: "ucd \<Rightarrow> ustr \<Rightarrow> match \<Rightarrow> string \<Rightarrow> nat \<Rightarrow> candidate option result" where
  "bare_candidate U t m pid prec =
     (let cue = (group_of t m ''marked_section'' = None \<and> group_of t m ''sub_section'' = None);
          a = (if group_of t m ''marked_section'' \<noteq> None then m_start m
               else if group_of t m ''sub_section'' \<noteq> None then group_start m ''sub_section'' else group_start m ''cue_number'');
          b = (if cue then group_end m ''cue_number'' else m_end m)
      in if cue \<and> \<not> has_bare_cue U t a b then Inr None
         else if declined_bare U t a b then Inr None
         else Inr (Some (case bare_ranges U t m of
                Some dash \<Rightarrow> \<lparr>cd_start = int a, cd_end = int b, cd_precedence = prec,
                  cd_objects = [bare U t a dash pid, bare U t (dash + 1) b pid]\<rparr>
              | None \<Rightarrow> one_object a b prec (bare U t a b pid))))"

section \<open>The registry and the extraction\<close>

type_synonym builder = "ucd \<Rightarrow> ustr \<Rightarrow> match \<Rightarrow> string \<Rightarrow> nat \<Rightarrow> candidate option result"

record grammar_pattern =
  gp_id :: string
  gp_expression :: regex
  gp_type :: string
  gp_builder :: builder

definition PATTERN_REGISTRY :: "grammar_pattern list" where
  "PATTERN_REGISTRY =
     [\<lparr>gp_id = ''usc/titled-section@1'', gp_expression = TITLED_SECTION_SOURCE, gp_type = ''statute'', gp_builder = titled_candidate\<rparr>,
      \<lparr>gp_id = ''usc/titled-list-member@1'', gp_expression = LIST_SOURCE, gp_type = ''statute'', gp_builder = list_candidate\<rparr>,
      \<lparr>gp_id = ''cfr/titled-section@1'', gp_expression = CFR_TITLED_SECTION_SOURCE, gp_type = ''regulation'', gp_builder = regulation_candidate\<rparr>,
      \<lparr>gp_id = ''cfr/titled-list-member@1'', gp_expression = CFR_LIST_SOURCE, gp_type = ''regulation'', gp_builder = cfr_list_candidate\<rparr>,
      \<lparr>gp_id = ''usc/appendix-section@1'', gp_expression = APPENDIX_SOURCE, gp_type = ''appendix_statute'', gp_builder = appendix_candidate\<rparr>,
      \<lparr>gp_id = ''ussg/id@1'', gp_expression = GUIDELINE_SOURCE, gp_type = ''guideline'', gp_builder = guideline_candidate\<rparr>,
      \<lparr>gp_id = ''rules/set-and-number@1'', gp_expression = COURT_RULE_SOURCE, gp_type = ''court_rule'', gp_builder = court_rule_candidate\<rparr>,
      \<lparr>gp_id = ''rules/scotus-number@1'', gp_expression = SCOTUS_RULE_SOURCE, gp_type = ''scotus_rule'', gp_builder = scotus_rule_candidate\<rparr>,
      \<lparr>gp_id = ''rules/habeas-set-and-number@1'', gp_expression = HABEAS_RULE_SOURCE, gp_type = ''habeas_rule'', gp_builder = habeas_rule_candidate\<rparr>,
      \<lparr>gp_id = ''rules/habeas-unnamed-set@1'', gp_expression = HABEAS_UNNAMED_SOURCE, gp_type = ''bare_rule'', gp_builder = habeas_unnamed_candidate\<rparr>,
      \<lparr>gp_id = ''rules/bare-number@1'', gp_expression = BARE_RULE_SOURCE, gp_type = ''bare_rule'', gp_builder = bare_rule_candidate\<rparr>,
      \<lparr>gp_id = ''docket/district@1'', gp_expression = DOCKET_DISTRICT_SOURCE, gp_type = ''docket'', gp_builder = district_docket_candidate\<rparr>,
      \<lparr>gp_id = ''docket/marked-number@1'', gp_expression = DOCKET_MARKED_SOURCE, gp_type = ''docket'', gp_builder = marked_docket_candidate\<rparr>,
      \<lparr>gp_id = ''usc/bare-section@2'', gp_expression = BARE_SOURCE, gp_type = ''bare_section'', gp_builder = bare_candidate\<rparr>]"

definition registry_types :: "string list" where
  "registry_types = rev (remdups (rev (map gp_type PATTERN_REGISTRY)))"

definition pattern_candidates :: "ucd \<Rightarrow> ustr \<Rightarrow> nat \<Rightarrow> grammar_pattern \<Rightarrow> candidate option result list" where
  "pattern_candidates U t prec p =
     map (\<lambda>m. gp_builder p U t m (gp_id p) prec) (re_finditer U True (gp_expression p) t)"

definition candidates :: "ucd \<Rightarrow> ustr \<Rightarrow> candidate list result" where
  "candidates U t =
     map_result (\<lambda>cs. map the (filter (\<lambda>c. c \<noteq> None) cs))
       (collect_results (concat (map (\<lambda>(prec, p). pattern_candidates U t prec p) (enumerate 0 PATTERN_REGISTRY))))"

definition clashes :: "exact_object list \<Rightarrow> candidate \<Rightarrow> bool" where
  "clashes kept c = list_ex (\<lambda>x. list_ex (\<lambda>y. overlapping (xo_span x) (xo_span y)) (cd_objects c)) kept"

primrec take_candidates :: "exact_object list \<Rightarrow> candidate list \<Rightarrow> exact_object list" where
  "take_candidates kept [] = kept"
| "take_candidates kept (c # cs) =
     (if clashes kept c then take_candidates kept cs else take_candidates (kept @ cd_objects c) cs)"

definition candidate_key :: "candidate \<Rightarrow> int \<times> nat \<times> int" where
  "candidate_key c = (cd_start c, cd_precedence c, - (cd_end c - cd_start c))"

definition extract_objects :: "ucd \<Rightarrow> ustr \<Rightarrow> exact_object list result" where
  "extract_objects U t = map_result (\<lambda>cs. sort_key xo_start (take_candidates [] (sort_key candidate_key cs))) (candidates U t)"

end
