(* ===== verification/Py_Regex_Groups.thy ===== *)
theory Py_Regex_Groups
  imports Py_Regex
begin

text \<open>
  What a match says of its groups, read off the expression: the least width of a match, the groups that surely
  take part, that every span of a group lies inside the match and was read by the group's own body, and that an
  expression without look-around reads the same in the piece it matched as in the whole string.
\<close>

section \<open>The least width of a match\<close>

primrec min_width :: "regex \<Rightarrow> nat" where
  "min_width Eps = 0"
| "min_width (Cls neg items) = 1"
| "min_width (Seq r q) = min_width r + min_width q"
| "min_width (Alt r q) = min (min_width r) (min_width q)"
| "min_width (Rep greedy lo hi r) = lo * min_width r"
| "min_width (Many lo r) = lo * min_width r"
| "min_width (Lazy lo r) = lo * min_width r"
| "min_width (Look positive r) = 0"
| "min_width (Behind positive w r) = 0"
| "min_width WordB = 0"
| "min_width TextStart = 0"
| "min_width TextEnd = 0"
| "min_width LineEnd = 0"
| "min_width LineStart = 0"
| "min_width LineStop = 0"
| "min_width (CaseI r) = min_width r"
| "min_width (Group name r) = min_width r"

lemma repeats_min:
  assumes "\<And>i c j d. (j, d) \<in> set (f i c) \<Longrightarrow> i + w \<le> j"
  shows "(j, d) \<in> set (repeats f g lo i c hi) \<Longrightarrow> i + lo * w \<le> j"
proof (induction hi arbitrary: i lo c)
  case (Suc hi)
  from Suc.prems consider "lo = 0" "j = i"
    | k e where "(k, e) \<in> set (f i c)" "(j, d) \<in> set (repeats f g (lo - 1) k e hi)"
    by (auto simp: Let_def split: if_splits)
  then show ?case
  proof cases
    case 2
    from assms [OF 2(1)] Suc.IH [OF 2(2)] have "i + w + (lo - 1) * w \<le> j" by simp
    moreover have "lo * w \<le> w + (lo - 1) * w" by (cases lo) auto
    ultimately show ?thesis by simp
  qed simp
qed (simp split: if_splits)

lemma rmatch_min_width: "(j, d) \<in> set (rmatch r U ic s i c) \<Longrightarrow> i + min_width r \<le> j"
proof (induction r arbitrary: ic i j c d)
  case (Seq r q)
  from Seq.prems obtain k e where "(k, e) \<in> set (rmatch r U ic s i c)" "(j, d) \<in> set (rmatch q U ic s k e)" by auto
  with Seq.IH show ?case by fastforce
next
  case (Alt r q)
  then show ?case by fastforce
next
  case (Rep g lo hi r)
  from repeats_min [where f = "rmatch r U ic s", OF Rep.IH] Rep.prems show ?case by simp
next
  case (Many lo r)
  from repeats_min [where f = "rmatch r U ic s", OF Many.IH] Many.prems show ?case by simp
next
  case (Lazy lo r)
  from repeats_min [where f = "rmatch r U ic s", OF Lazy.IH] Lazy.prems show ?case by simp
next
  case (Look p r)
  then show ?case by (simp split: list.splits if_splits prod.splits)
next
  case (Group name r)
  then show ?case by auto
qed (simp_all split: if_splits)

lemma is_match_min_width: "is_match U ic r s m \<Longrightarrow> m_start m + min_width r \<le> m_end m"
  unfolding is_match_def using rmatch_min_width by blast

section \<open>The groups of a match\<close>

text \<open>The bodies an expression's groups have; an expression is \<open>plain\<close> when no group stands in a look-around and no
  case flag is turned on inside.\<close>

primrec group_bodies :: "regex \<Rightarrow> (string \<times> regex) list" where
  "group_bodies Eps = []"
| "group_bodies (Cls neg items) = []"
| "group_bodies (Seq r q) = group_bodies r @ group_bodies q"
| "group_bodies (Alt r q) = group_bodies r @ group_bodies q"
| "group_bodies (Rep greedy lo hi r) = group_bodies r"
| "group_bodies (Many lo r) = group_bodies r"
| "group_bodies (Lazy lo r) = group_bodies r"
| "group_bodies (Look positive r) = group_bodies r"
| "group_bodies (Behind positive w r) = group_bodies r"
| "group_bodies WordB = []"
| "group_bodies TextStart = []"
| "group_bodies TextEnd = []"
| "group_bodies LineEnd = []"
| "group_bodies LineStart = []"
| "group_bodies LineStop = []"
| "group_bodies (CaseI r) = group_bodies r"
| "group_bodies (Group name r) = (name, r) # group_bodies r"

primrec plain :: "regex \<Rightarrow> bool" where
  "plain Eps = True"
| "plain (Cls neg items) = True"
| "plain (Seq r q) = (plain r \<and> plain q)"
| "plain (Alt r q) = (plain r \<and> plain q)"
| "plain (Rep greedy lo hi r) = plain r"
| "plain (Many lo r) = plain r"
| "plain (Lazy lo r) = plain r"
| "plain (Look positive r) = (\<not> positive)"
| "plain (Behind positive w r) = True"
| "plain WordB = True"
| "plain TextStart = True"
| "plain TextEnd = True"
| "plain LineEnd = True"
| "plain LineStart = True"
| "plain LineStop = True"
| "plain (CaseI r) = False"
| "plain (Group name r) = plain r"

text \<open>The groups \<open>e\<close> a match from \<open>i\<close> to \<open>j\<close> may add.\<close>

fun group_read :: "regex \<Rightarrow> ucd \<Rightarrow> bool \<Rightarrow> ustr \<Rightarrow> nat \<Rightarrow> nat \<Rightarrow> string \<times> nat \<times> nat \<Rightarrow> bool" where
  "group_read r U ic s i j (name, a, b) \<longleftrightarrow> i \<le> a \<and> a \<le> b \<and> b \<le> j \<and>
     (\<exists>q c' d'. (name, q) \<in> set (group_bodies r) \<and> reads q U ic s a b c' d')"

definition read_groups :: "regex \<Rightarrow> ucd \<Rightarrow> bool \<Rightarrow> ustr \<Rightarrow> nat \<Rightarrow> nat \<Rightarrow> caps \<Rightarrow> bool" where
  "read_groups r U ic s i j e \<longleftrightarrow> (\<forall>x \<in> set e. group_read r U ic s i j x)"

lemma read_groups_Nil [simp]: "read_groups r U ic s i j []"
  by (simp add: read_groups_def)

lemma read_groups_append [simp]:
  "read_groups r U ic s i j (e @ e') \<longleftrightarrow> read_groups r U ic s i j e \<and> read_groups r U ic s i j e'"
  by (auto simp: read_groups_def)

lemma read_groups_wider:
  "read_groups r U ic s i j e \<Longrightarrow> set (group_bodies r) \<subseteq> set (group_bodies q) \<Longrightarrow> i' \<le> i \<Longrightarrow> j \<le> j' \<Longrightarrow>
     read_groups q U ic s i' j' e"
  unfolding read_groups_def by (clarsimp, metis group_read.simps le_trans subsetD)

lemma read_groups_same: "group_bodies r = group_bodies q \<Longrightarrow> read_groups r U ic s i j e = read_groups q U ic s i j e"
  using read_groups_wider [of r U ic s i j e q i j] read_groups_wider [of q U ic s i j e r i j] by auto

lemma read_groups_loops [simp]:
  "read_groups (Rep g lo hi r) U ic s i j e = read_groups r U ic s i j e"
  "read_groups (Many lo r) U ic s i j e = read_groups r U ic s i j e"
  "read_groups (Lazy lo r) U ic s i j e = read_groups r U ic s i j e"
  by (rule read_groups_same, simp)+

lemma repeats_groups:
  assumes f: "\<And>i c j d. (j, d) \<in> set (f i c) \<Longrightarrow> i \<le> n \<Longrightarrow> i \<le> j \<and> j \<le> n \<and> (\<exists>e. d = e @ c \<and> read_groups r U ic s i j e)"
  shows "(j, d) \<in> set (repeats f g lo i c hi) \<Longrightarrow> i \<le> n \<Longrightarrow> i \<le> j \<and> j \<le> n \<and> (\<exists>e. d = e @ c \<and> read_groups r U ic s i j e)"
proof (induction hi arbitrary: i lo c)
  case 0
  then show ?case by (simp split: if_splits)
next
  case (Suc hi)
  from Suc.prems(1) consider "j = i" "d = c"
    | k e where "(k, e) \<in> set (f i c)" "(j, d) \<in> set (repeats f g (lo - 1) k e hi)"
    by (auto simp: Let_def split: if_splits)
  then show ?case
  proof cases
    case 1
    with Suc.prems(2) show ?thesis by simp
  next
    case 2
    from f [OF 2(1) Suc.prems(2)] obtain e1 where k: "i \<le> k" "k \<le> n" "e = e1 @ c" "read_groups r U ic s i k e1" by blast
    from Suc.IH [OF 2(2) k(2)] obtain e2 where j: "k \<le> j" "j \<le> n" "d = e2 @ e" "read_groups r U ic s k j e2" by blast
    have "read_groups r U ic s i j (e2 @ e1)"
      using read_groups_wider [OF k(4), of r i j] read_groups_wider [OF j(4), of r i j] k(1) j(1) by simp
    with k j show ?thesis by (intro conjI exI [of _ "e2 @ e1"]) simp_all
  qed
qed

lemma rmatch_groups:
  "(j, d) \<in> set (rmatch r U ic s i c) \<Longrightarrow> plain r \<Longrightarrow> i \<le> length s \<Longrightarrow>
     i \<le> j \<and> j \<le> length s \<and> (\<exists>e. d = e @ c \<and> read_groups r U ic s i j e)"
proof (induction r arbitrary: i j c d)
  case (Seq r q)
  from Seq.prems obtain k e where k: "(k, e) \<in> set (rmatch r U ic s i c)" and j: "(j, d) \<in> set (rmatch q U ic s k e)" by auto
  from Seq.IH(1) [OF k] Seq.prems obtain e1 where r: "i \<le> k" "k \<le> length s" "e = e1 @ c" "read_groups r U ic s i k e1" by auto
  from Seq.IH(2) [OF j] Seq.prems r(2) obtain e2 where q: "k \<le> j" "j \<le> length s" "d = e2 @ e" "read_groups q U ic s k j e2"
    by auto
  have "read_groups (Seq r q) U ic s i j (e2 @ e1)"
    using read_groups_wider [OF r(4), of "Seq r q" i j] read_groups_wider [OF q(4), of "Seq r q" i j] r(1) q(1) by simp
  with r q show ?case by (intro conjI exI [of _ "e2 @ e1"]) simp_all
next
  case (Alt r q)
  from Alt.prems(1) consider "(j, d) \<in> set (rmatch r U ic s i c)" | "(j, d) \<in> set (rmatch q U ic s i c)" by auto
  then show ?case
  proof cases
    case 1
    from Alt.IH(1) [OF 1] Alt.prems show ?thesis using read_groups_wider [of r U ic s i j _ "Alt r q" i j] by auto
  next
    case 2
    from Alt.IH(2) [OF 2] Alt.prems show ?thesis using read_groups_wider [of q U ic s i j _ "Alt r q" i j] by auto
  qed
next
  case (Rep g lo hi r)
  from repeats_groups [where f = "rmatch r U ic s" and n = "length s" and r = r, OF Rep.IH] Rep.prems
  show ?case by simp
next
  case (Many lo r)
  from repeats_groups [where f = "rmatch r U ic s" and n = "length s" and r = r, OF Many.IH] Many.prems
  show ?case by simp
next
  case (Lazy lo r)
  from repeats_groups [where f = "rmatch r U ic s" and n = "length s" and r = r, OF Lazy.IH] Lazy.prems
  show ?case by simp
next
  case (Look p r)
  then show ?case by (simp split: list.splits)
next
  case (Group name r)
  from Group.prems(1) obtain d' where d: "d = (name, i, j) # d'" and r: "(j, d') \<in> set (rmatch r U ic s i c)" by auto
  from Group.IH [OF r] Group.prems obtain e where e: "i \<le> j" "j \<le> length s" "d' = e @ c" "read_groups r U ic s i j e" by auto
  have "read_groups (Group name r) U ic s i j ((name, i, j) # e)"
    using read_groups_wider [OF e(4), of "Group name r" i j] e(1) r by (auto simp: read_groups_def reads_def subset_insertI)
  with d e show ?case by (intro conjI exI [of _ "(name, i, j) # e"]) simp_all
qed (simp_all split: if_splits)

text \<open>The groups at least one of which every match sets.\<close>

primrec sure :: "string list \<Rightarrow> regex \<Rightarrow> bool" where
  "sure names Eps = False"
| "sure names (Cls neg items) = False"
| "sure names (Seq r q) = (sure names r \<or> sure names q)"
| "sure names (Alt r q) = (sure names r \<and> sure names q)"
| "sure names (Rep greedy lo hi r) = (0 < lo \<and> sure names r)"
| "sure names (Many lo r) = (0 < lo \<and> sure names r)"
| "sure names (Lazy lo r) = (0 < lo \<and> sure names r)"
| "sure names (Look positive r) = False"
| "sure names (Behind positive w r) = False"
| "sure names WordB = False"
| "sure names TextStart = False"
| "sure names TextEnd = False"
| "sure names LineEnd = False"
| "sure names LineStart = False"
| "sure names LineStop = False"
| "sure names (CaseI r) = sure names r"
| "sure names (Group name r) = (name \<in> set names \<or> sure names r)"

definition has_one :: "string list \<Rightarrow> caps \<Rightarrow> bool" where
  "has_one names d \<longleftrightarrow> (\<exists>x \<in> set d. fst x \<in> set names)"

lemma repeats_keep:
  assumes f: "\<And>i c j d. (j, d) \<in> set (f i c) \<Longrightarrow> P c \<Longrightarrow> P d"
  shows "(j, d) \<in> set (repeats f g lo i c hi) \<Longrightarrow> P c \<Longrightarrow> P d"
proof (induction hi arbitrary: i lo c)
  case (Suc hi)
  then show ?case by (auto simp: Let_def dest: f split: if_splits)
qed (simp split: if_splits)

lemma rmatch_keep: "(j, d) \<in> set (rmatch r U ic s i c) \<Longrightarrow> has_one names c \<Longrightarrow> has_one names d"
proof (induction r arbitrary: ic i j c d)
  case (Rep g lo hi r)
  from repeats_keep [where f = "rmatch r U ic s" and P = "has_one names", OF Rep.IH] Rep.prems show ?case by simp
next
  case (Many lo r)
  from repeats_keep [where f = "rmatch r U ic s" and P = "has_one names", OF Many.IH] Many.prems show ?case by simp
next
  case (Lazy lo r)
  from repeats_keep [where f = "rmatch r U ic s" and P = "has_one names", OF Lazy.IH] Lazy.prems show ?case by simp
next
  case (Look p r)
  show ?case
  proof (cases "rmatch r U ic s i c")
    case (Cons x xs)
    then have x: "(fst x, snd x) \<in> set (rmatch r U ic s i c)" by simp
    from Look.IH [OF x Look.prems(2)] Look.prems Cons show ?thesis by (auto split: if_splits prod.splits)
  qed (use Look.prems in \<open>simp split: if_splits\<close>)
next
  case (Group name r)
  then show ?case by (fastforce simp: has_one_def)
qed (fastforce split: if_splits)+

lemma repeats_sure:
  assumes f: "\<And>i c j d. (j, d) \<in> set (f i c) \<Longrightarrow> P d"
    and keep: "\<And>i c j d. (j, d) \<in> set (f i c) \<Longrightarrow> P c \<Longrightarrow> P d"
  shows "(j, d) \<in> set (repeats f g lo i c hi) \<Longrightarrow> 0 < lo \<Longrightarrow> P d"
proof (cases hi)
  case (Suc h)
  assume "(j, d) \<in> set (repeats f g lo i c hi)" "0 < lo"
  with Suc obtain k e where k: "(k, e) \<in> set (f i c)" and j: "(j, d) \<in> set (repeats f g (lo - 1) k e h)"
    by (auto simp: Let_def)
  show "P d" by (rule repeats_keep [where P = P, OF keep j f [OF k]])
qed simp

lemma rmatch_sure: "(j, d) \<in> set (rmatch r U ic s i c) \<Longrightarrow> sure names r \<Longrightarrow> has_one names d"
proof (induction r arbitrary: ic i j c d)
  case (Seq r q)
  from Seq.prems obtain k e where k: "(k, e) \<in> set (rmatch r U ic s i c)" and j: "(j, d) \<in> set (rmatch q U ic s k e)" by auto
  from Seq.prems(2) consider "sure names r" | "sure names q" by auto
  then show ?case
  proof cases
    case 1
    from rmatch_keep [OF j Seq.IH(1) [OF k 1]] show ?thesis .
  next
    case 2
    from Seq.IH(2) [OF j 2] show ?thesis .
  qed
next
  case (Rep g lo hi r)
  from Rep.prems have lo: "0 < lo" and r: "sure names r" and j: "(j, d) \<in> set (repeats (rmatch r U ic s) g lo i c hi)" by simp_all
  show ?case by (rule repeats_sure [where P = "has_one names", OF Rep.IH [OF _ r] rmatch_keep j lo])
next
  case (Many lo r)
  from Many.prems have lo: "0 < lo" and r: "sure names r"
    and j: "(j, d) \<in> set (repeats (rmatch r U ic s) True lo i c (lo + (length s - i)))" by simp_all
  show ?case by (rule repeats_sure [where P = "has_one names", OF Many.IH [OF _ r] rmatch_keep j lo])
next
  case (Lazy lo r)
  from Lazy.prems have lo: "0 < lo" and r: "sure names r"
    and j: "(j, d) \<in> set (repeats (rmatch r U ic s) False lo i c (lo + (length s - i)))" by simp_all
  show ?case by (rule repeats_sure [where P = "has_one names", OF Lazy.IH [OF _ r] rmatch_keep j lo])
next
  case (CaseI r)
  from CaseI.IH CaseI.prems show ?case by simp
next
  case (Group name r)
  then show ?case by (fastforce simp: has_one_def)
qed auto

text \<open>What this says of the spans of a match.\<close>

lemma match_span:
  assumes m: "is_match U ic r s m" and r: "plain r" and sp: "span m name = Some (a, b)"
  shows "m_start m \<le> a \<and> a \<le> b \<and> b \<le> m_end m \<and> (\<exists>q c' d'. (name, q) \<in> set (group_bodies r) \<and> reads q U ic s a b c' d')"
proof -
  from m have j: "(m_end m, m_caps m) \<in> set (rmatch r U ic s (m_start m) [])" and le: "m_start m \<le> length s"
    by (auto simp: is_match_def)
  from rmatch_groups [OF j r le] have "read_groups r U ic s (m_start m) (m_end m) (m_caps m)" by auto
  moreover from sp have "(name, a, b) \<in> set (m_caps m)" unfolding span_def by (rule map_of_SomeD)
  ultimately show ?thesis unfolding read_groups_def by fastforce
qed

lemma match_span_width:
  assumes "is_match U ic r s m" "plain r" "span m name = Some (a, b)"
    and w: "list_all (\<lambda>(n, q). n \<noteq> name \<or> w \<le> min_width q) (group_bodies r)"
  shows "m_start m \<le> a \<and> a + w \<le> b \<and> b \<le> m_end m"
proof -
  from match_span [OF assms(1,2,3)] obtain q c' d' where s: "m_start m \<le> a" "b \<le> m_end m"
    and q: "(name, q) \<in> set (group_bodies r)" "reads q U ic s a b c' d'" by blast
  from w q(1) have "w \<le> min_width q" by (auto simp: list_all_iff)
  moreover from q(2) have "a + min_width q \<le> b" unfolding reads_def by (rule rmatch_min_width)
  ultimately show ?thesis using s by simp
qed

lemma match_sure:
  assumes "is_match U ic r s m" "sure names r"
  shows "\<exists>name \<in> set names. span m name \<noteq> None"
proof -
  from assms(1) have j: "(m_end m, m_caps m) \<in> set (rmatch r U ic s (m_start m) [])" by (simp add: is_match_def)
  from rmatch_sure [OF j assms(2)] obtain x where x: "x \<in> set (m_caps m)" "fst x \<in> set names" by (auto simp: has_one_def)
  then have "map_of (m_caps m) (fst x) \<noteq> None" by (metis map_of_eq_None_iff image_eqI)
  with x(2) show ?thesis unfolding span_def by blast
qed

lemma match_sure1: "is_match U ic r s m \<Longrightarrow> sure [name] r \<Longrightarrow> \<exists>a b. span m name = Some (a, b)"
  using match_sure by fastforce

section \<open>The same match in the piece it read\<close>

primrec bounded :: "regex \<Rightarrow> bool" where
  "bounded Eps = True"
| "bounded (Cls neg items) = True"
| "bounded (Seq r q) = (bounded r \<and> bounded q)"
| "bounded (Alt r q) = (bounded r \<and> bounded q)"
| "bounded (Rep greedy lo hi r) = bounded r"
| "bounded (Many lo r) = False"
| "bounded (Lazy lo r) = False"
| "bounded (Look positive r) = False"
| "bounded (Behind positive w r) = False"
| "bounded WordB = False"
| "bounded TextStart = False"
| "bounded TextEnd = False"
| "bounded LineEnd = False"
| "bounded LineStart = False"
| "bounded LineStop = False"
| "bounded (CaseI r) = False"
| "bounded (Group name r) = False"

lemma bounded_plain: "bounded r \<Longrightarrow> plain r \<and> group_bodies r = []"
  by (induction r) auto

lemma rmatch_bounded_caps:
  assumes "(j, d) \<in> set (rmatch r U ic s i c)" "bounded r" "i \<le> length s"
  shows "d = c \<and> i \<le> j \<and> j \<le> length s"
proof -
  from bounded_plain [OF assms(2)] rmatch_groups [OF assms(1)] assms(3) obtain e
    where "i \<le> j" "j \<le> length s" "d = e @ c" "read_groups r U ic s i j e" by blast
  moreover from this have "e = []" using bounded_plain [OF assms(2)] by (cases e) (auto simp: read_groups_def)
  ultimately show ?thesis by simp
qed

lemma repeats_piece:
  assumes f: "\<And>i c j d. (j, d) \<in> set (f i c) \<Longrightarrow> i \<le> n \<Longrightarrow> d = c \<and> i \<le> j \<and> j \<le> n"
    and h: "\<And>i c j d c'. (j, d) \<in> set (f i c) \<Longrightarrow> a \<le> i \<Longrightarrow> i \<le> n \<Longrightarrow> j \<le> b \<Longrightarrow> (j - a, c') \<in> set (h (i - a) c')"
  shows "(j, d) \<in> set (repeats f g lo i c hi) \<Longrightarrow> a \<le> i \<Longrightarrow> i \<le> n \<Longrightarrow> j \<le> b \<Longrightarrow>
     d = c \<and> i \<le> j \<and> j \<le> n \<and> (j - a, c') \<in> set (repeats h g lo (i - a) c' hi)"
proof (induction hi arbitrary: i lo c)
  case 0
  then show ?case by (simp split: if_splits)
next
  case (Suc hi)
  from Suc.prems(1) consider "j = i" "d = c" "lo = 0"
    | k e where "(k, e) \<in> set (f i c)" "(j, d) \<in> set (repeats f g (lo - 1) k e hi)"
    by (auto simp: Let_def split: if_splits)
  then show ?case
  proof cases
    case 1
    with Suc.prems show ?thesis unfolding set_repeats_Suc by simp
  next
    case 2
    from f [OF 2(1) Suc.prems(3)] have k: "e = c" "i \<le> k" "k \<le> n" by auto
    from Suc.IH [OF 2(2)] k Suc.prems have r: "d = c" "k \<le> j" "j \<le> n" "(j - a, c') \<in> set (repeats h g (lo - 1) (k - a) c' hi)"
      by auto
    from h [OF 2(1) Suc.prems(2,3), of c'] r(2) Suc.prems(4) have "(k - a, c') \<in> set (h (i - a) c')" by simp
    with r k show ?thesis unfolding set_repeats_Suc by fastforce
  qed
qed

lemma rmatch_piece:
  "(j, d) \<in> set (rmatch r U ic s i c) \<Longrightarrow> bounded r \<Longrightarrow> a \<le> i \<Longrightarrow> i \<le> length s \<Longrightarrow> j \<le> b \<Longrightarrow>
     (j - a, c') \<in> set (rmatch r U ic (substr s a b) (i - a) c')"
proof (induction r arbitrary: i j c d c')
  case (Cls neg items)
  then have "j = Suc i" "i < length s" "class_match U ic neg items (s ! i)" by (auto split: if_splits)
  with Cls.prems show ?case by (auto simp: substr_def Suc_diff_le)
next
  case (Seq r q)
  from Seq.prems obtain k e where k: "(k, e) \<in> set (rmatch r U ic s i c)" and j: "(j, d) \<in> set (rmatch q U ic s k e)" by auto
  from rmatch_bounded_caps [OF k] Seq.prems have b: "i \<le> k" "k \<le> length s" by auto
  from rmatch_bounded_caps [OF j] Seq.prems b have jb: "k \<le> j" by auto
  from Seq.IH(1) [OF k, of c'] Seq.prems jb have "(k - a, c') \<in> set (rmatch r U ic (substr s a b) (i - a) c')" by simp
  moreover from Seq.IH(2) [OF j, of c'] Seq.prems b have "(j - a, c') \<in> set (rmatch q U ic (substr s a b) (k - a) c')" by simp
  ultimately show ?case by auto
next
  case (Rep g lo hi r)
  have f: "d = c \<and> i \<le> j \<and> j \<le> length s" if "(j, d) \<in> set (rmatch r U ic s i c)" "i \<le> length s" for i c j d
    using rmatch_bounded_caps [OF that(1) _ that(2)] Rep.prems(2) by simp
  have h: "(j - a, c') \<in> set (rmatch r U ic (substr s a b) (i - a) c')"
    if "(j, d) \<in> set (rmatch r U ic s i c)" "a \<le> i" "i \<le> length s" "j \<le> b" for i c j d c'
    using Rep.IH [OF that(1) _ that(2,3,4)] Rep.prems(2) by simp
  from Rep.prems repeats_piece [where f = "rmatch r U ic s" and h = "rmatch r U ic (substr s a b)" and n = "length s", OF f h]
  show ?case by simp
qed (auto split: if_splits)

text \<open>A group whose body is bounded reads text the body matches by itself.\<close>

lemma bounded_fullmatch:
  assumes "reads q U ic s a b c d" "bounded q" "a \<le> length s"
  shows "re_fullmatch U ic q (substr s a b) \<noteq> None"
proof -
  from rmatch_bounded_caps assms have ab: "a \<le> b" "b \<le> length s" unfolding reads_def by blast+
  from rmatch_piece [of b d q U ic s a c a b "[]"] assms have "reads q U ic (substr s a b) 0 (b - a) [] []"
    unfolding reads_def by simp
  moreover have "b - a = length (substr s a b)" using ab by simp
  ultimately show ?thesis unfolding fullmatch_iff_reads by metis
qed

section \<open>The combinators\<close>

lemma bounded_facts [simp]: "bounded r \<Longrightarrow> plain r" "bounded r \<Longrightarrow> group_bodies r = []" "bounded r \<Longrightarrow> \<not> sure names r"
  by (induction r) auto

lemma bounded_rx_chars [simp]: "bounded (rx_chars s)"
  by (induction s) (simp_all add: rx_chars_def)

lemma min_width_rx_chars [simp]: "min_width (rx_chars s) = length s"
  by (induction s) (simp_all add: rx_chars_def)

lemma bounded_lit [simp]: "bounded (lit s)"
  by (simp add: lit_def)

lemma min_width_lit [simp]: "min_width (lit s) = length s"
  by (simp add: lit_def)

lemma bounded_seqs [simp]: "bounded (seqs rs) \<longleftrightarrow> list_all bounded rs"
  by (induction rs) (simp_all add: seqs_def)

lemma plain_seqs [simp]: "plain (seqs rs) \<longleftrightarrow> list_all plain rs"
  by (induction rs) (simp_all add: seqs_def)

lemma group_bodies_seqs [simp]: "group_bodies (seqs rs) = concat (map group_bodies rs)"
  by (induction rs) (simp_all add: seqs_def)

lemma sure_seqs [simp]: "sure names (seqs rs) \<longleftrightarrow> list_ex (sure names) rs"
  by (induction rs) (simp_all add: seqs_def)

lemma min_width_seqs [simp]: "min_width (seqs rs) = sum_list (map min_width rs)"
  by (induction rs) (simp_all add: seqs_def)

lemma bounded_alts [simp]: "bounded (alts rs) \<longleftrightarrow> list_all bounded rs"
  by (induction rs rule: induct_list012) auto

lemma plain_alts [simp]: "plain (alts rs) \<longleftrightarrow> list_all plain rs"
  by (induction rs rule: induct_list012) auto

lemma group_bodies_alts [simp]: "group_bodies (alts rs) = concat (map group_bodies rs)"
  by (induction rs rule: induct_list012) auto

lemma sure_alts [simp]: "sure names (alts rs) \<longleftrightarrow> rs \<noteq> [] \<and> list_all (sure names) rs"
  by (induction rs rule: induct_list012) auto

lemma width_alts: "list_all (\<lambda>r. w \<le> min_width r) rs \<Longrightarrow> w \<le> 1 \<Longrightarrow> w \<le> min_width (alts rs)"
  by (induction rs rule: induct_list012) auto

lemma combinator_facts [simp]:
  "bounded (optional r) = bounded r" "plain (optional r) = plain r" "group_bodies (optional r) = group_bodies r"
  "sure names (optional r) = False" "min_width (optional r) = 0"
  "bounded (chars cs)" "min_width (chars cs) = 1"
  "plain (not_after items)" "group_bodies (not_after items) = []" "sure names (not_after items) = False"
  "min_width (not_after items) = 0"
  by (simp_all add: optional_def chars_def not_after_def)

end
