(* ===== verification/Extraction_Objects.thy ===== *)
theory Extraction_Objects
  imports Extraction_Grammar Py_Regex_Groups
begin

text \<open>
  The objects the grammar of \<open>gideon/extraction/grammar.py\<close> finds keep the contract of
  \<open>gideon/extraction/contract.py\<close> on every text: what each candidate builder makes of a match of its expression, the
  selection of candidates, and the whole extraction.
\<close>

section \<open>Objects that keep the contract\<close>

definition sound_object :: "string \<Rightarrow> ustr \<Rightarrow> exact_object \<Rightarrow> bool" where
  "sound_object ty t x \<longleftrightarrow> span_violations t [x] = [] \<and> key_violations [x] = [] \<and> xo_type x = ulit ty"

lemma sound_object_at:
  assumes "a < b" "b \<le> length t" and "ty \<in> set OBJECT_TYPES" and "ty \<in> set KEYED_TYPES \<longleftrightarrow> key \<noteq> None"
  shows "sound_object ty t (object_at ty t a b key pid subs)"
  using assms by (auto simp: sound_object_def span_violations_def key_violations_def object_at_def)

lemma types_of_registry:
  "list_all (\<lambda>ty. ty \<in> set OBJECT_TYPES)
     [''statute'', ''guideline'', ''court_rule'', ''bare_section'', ''bare_rule'', ''regulation'', ''appendix_statute'',
      ''habeas_rule'', ''scotus_rule'', ''docket'']"
  "list_all (\<lambda>ty. ty \<in> set KEYED_TYPES)
     [''statute'', ''guideline'', ''court_rule'', ''regulation'', ''appendix_statute'', ''habeas_rule'', ''scotus_rule'']"
  "list_all (\<lambda>ty. ty \<notin> set KEYED_TYPES) [''bare_section'', ''bare_rule'', ''docket'']"
  by code_simp+

lemmas object_types = types_of_registry [simplified]

lemma xo_span_object_at [simp]: "xo_span (object_at ty t a b key pid subs) = (int a, int b)"
  by (simp add: xo_span_def object_at_def)

lemma sound_objects:
  assumes "a < b" "b \<le> length t"
  shows "sound_object ''statute'' t (statute U t a b title sec pid)"
    and "sound_object ''regulation'' t (regulation U t a b title sec pid)"
    and "sound_object ''bare_section'' t (bare U t a b pid)"
    and "sound_object ''guideline'' t (guideline U t a b gid pid)"
    and "sound_object ''bare_rule'' t (bare_rule U t a b pid)"
    and "sound_object ''habeas_rule'' t (habeas_rule U t a b title number pid)"
    and "sound_object ''docket'' t (docket_object t a b pid)"
    and "sound_object ''scotus_rule'' t (scotus_rule U t a b number subs pid)"
    and "court_rule U t a b rule_set number pid = Inr x \<Longrightarrow> sound_object ''court_rule'' t x"
  using assms sound_object_at [of a b t] object_types
  by (auto simp: statute_def regulation_def bare_def guideline_def bare_rule_def habeas_rule_def docket_object_def
      scotus_rule_def court_rule_def map_result_Inr_iff split: prod.split)

section \<open>Candidates that keep it\<close>

definition sound_candidate :: "string \<Rightarrow> ustr \<Rightarrow> candidate \<Rightarrow> bool" where
  "sound_candidate ty t c \<longleftrightarrow>
     cd_objects c \<noteq> [] \<and> list_all (sound_object ty t) (cd_objects c) \<and> all_apart xo_span (cd_objects c)"

lemma sound_one_object: "sound_object ty t x \<Longrightarrow> sound_candidate ty t (one_object a b prec x)"
  by (simp add: sound_candidate_def one_object_def all_apart_def)

text \<open>What the expressions say of their matches, read off their parts.\<close>

lemmas part_defs =
  DIGIT_def LETTER_def ALNUM_def DASH_def nums_def letts_def WS_def OPTIONAL_WS_def CODE_GAP_def RULE_GAP_def SIGN_def
  spelled_def words_of_def federal_rules_of_def

lemma spelled_facts [simp]:
  "bounded gap \<Longrightarrow> bounded (spelled gap parts)" "min_width (spelled gap parts) = sum_list (map (\<lambda>p. length p + min_width gap) parts)"
  by (simp_all add: spelled_def list_all_iff o_def)

lemma small_parts [simp]:
  "bounded DIGIT" "bounded LETTER" "bounded ALNUM" "bounded DASH" "bounded (nums a b)" "bounded (letts a b)" "bounded WS"
  "bounded OPTIONAL_WS" "bounded CODE_GAP" "bounded RULE_GAP" "bounded SIGN" "bounded (words_of ws)"
  "min_width DIGIT = 1" "min_width LETTER = 1" "min_width ALNUM = 1" "min_width DASH = 1" "min_width (nums a b) = a"
  "min_width (letts a b) = a" "min_width WS = 1" "min_width SIGN = 1" "min_width OPTIONAL_WS = 0" "min_width CODE_GAP = 0"
  "min_width RULE_GAP = 0"
  by (simp_all add: DIGIT_def LETTER_def ALNUM_def DASH_def nums_def letts_def WS_def OPTIONAL_WS_def CODE_GAP_def
      RULE_GAP_def SIGN_def words_of_def list_all_iff split: list.split)

lemma bounded_parts [simp]:
  "bounded CODE_TOKEN" "bounded CFR_CODE_TOKEN" "bounded GUIDELINE_ID" "bounded GUIDELINE_MARKER" "bounded GUIDELINE_TOKEN"
  "bounded SECTION_ATOM" "bounded CFR_SECTION_TOKEN" "bounded NUMBER_ONLY" "bounded SUBSECTION" "bounded SECTION_MARKER"
  "bounded PLURAL_MARKER" "bounded LIST_SEPARATOR" "bounded RULE_NUMBER" "bounded CRIM" "bounded EVIDENCE_SHORT"
  "bounded APPELLATE_SHORT" "bounded CIVIL_SHORT" "bounded (federal_rules_of ws)" "bounded SCOTUS_SHORT" "bounded SCOTUS_LONG"
  "bounded CFR_RANGE_TOKEN" "bounded HABEAS_TITLE" "bounded ROMAN" "bounded DISTRICT_DOCKET_NUMBER" "bounded DOCKET_MARKER"
  "bounded MARKED_DOCKET_NUMBER"
  by (simp_all add: CODE_TOKEN_def CFR_CODE_TOKEN_def GUIDELINE_ID_def GUIDELINE_MARKER_def GUIDELINE_TOKEN_def SECTION_ATOM_def
      CFR_SECTION_TOKEN_def NUMBER_ONLY_def SUBSECTION_def SECTION_MARKER_def PLURAL_MARKER_def LIST_SEPARATOR_def
      RULE_NUMBER_def CRIM_def EVIDENCE_SHORT_def APPELLATE_SHORT_def CIVIL_SHORT_def federal_rules_of_def SCOTUS_SHORT_def
      SCOTUS_LONG_def CFR_RANGE_TOKEN_def HABEAS_TITLE_def ROMAN_def DISTRICT_DOCKET_NUMBER_def DOCKET_MARKER_def
      MARKED_DOCKET_NUMBER_def)

lemma bounded_tokens [simp]:
  "bounded GUIDELINE_PREFIX" "bounded SECTION_TOKEN" "bounded SUBSECTIONS" "bounded CRIMINAL_SHORT" "bounded CFR_LIST_SECTION_TOKEN"
  "bounded BARE_MARKED_SECTION_TOKEN" "bounded RULE_SET_LONG_SOURCE" "bounded RULE_SET_SOURCE"
  "bounded token \<Longrightarrow> bounded (list_body token)"
  by (simp_all add: GUIDELINE_PREFIX_def SECTION_TOKEN_def SUBSECTIONS_def CRIMINAL_SHORT_def CFR_LIST_SECTION_TOKEN_def
      BARE_MARKED_SECTION_TOKEN_def RULE_SET_LONG_SOURCE_def RULE_SET_SOURCE_def RULE_SETS_def list_body_def
      CRIMINAL_LONG_def EVIDENCE_LONG_def APPELLATE_LONG_def CIVIL_LONG_def)

lemma token_widths [simp]:
  "min_width SECTION_ATOM = 1" "min_width SECTION_TOKEN = 1" "min_width CFR_SECTION_TOKEN = 3" "min_width NUMBER_ONLY = 3"
  "min_width SUBSECTION = 3" "min_width GUIDELINE_ID = 5" "min_width RULE_NUMBER = 1" "min_width BARE_MARKED_SECTION_TOKEN = 1"
  "min_width MARKED_DOCKET_NUMBER = 4" "min_width DISTRICT_DOCKET_NUMBER = 11" "min_width CFR_RANGE_TOKEN = 7"
  "min_width CFR_LIST_SECTION_TOKEN = 3" "min_width (list_body token) = min_width token" "min_width SUBSECTIONS = 0"
  by (simp_all add: SECTION_ATOM_def SECTION_TOKEN_def CFR_SECTION_TOKEN_def NUMBER_ONLY_def SUBSECTION_def GUIDELINE_ID_def
      RULE_NUMBER_def BARE_MARKED_SECTION_TOKEN_def MARKED_DOCKET_NUMBER_def DISTRICT_DOCKET_NUMBER_def CFR_RANGE_TOKEN_def
      CFR_LIST_SECTION_TOKEN_def list_body_def SUBSECTIONS_def)

lemma rule_set_width: "1 \<le> min_width RULE_SET_SOURCE" "1 \<le> min_width RULE_SET_LONG_SOURCE" "1 \<le> min_width GUIDELINE_PREFIX"
  by (auto simp: RULE_SET_SOURCE_def RULE_SET_LONG_SOURCE_def RULE_SETS_def CRIMINAL_LONG_def EVIDENCE_LONG_def APPELLATE_LONG_def
      CIVIL_LONG_def federal_rules_of_def CRIMINAL_SHORT_def EVIDENCE_SHORT_def APPELLATE_SHORT_def CIVIL_SHORT_def
      GUIDELINE_PREFIX_def GUIDELINE_MARKER_def GUIDELINE_TOKEN_def)

lemma boundary_facts [simp]:
  "plain LEFT_BOUNDARY" "group_bodies LEFT_BOUNDARY = []" "sure names LEFT_BOUNDARY = False" "min_width LEFT_BOUNDARY = 0"
  "plain RIGHT_BOUNDARY" "group_bodies RIGHT_BOUNDARY = []" "sure names RIGHT_BOUNDARY = False" "min_width RIGHT_BOUNDARY = 0"
  by (simp_all add: LEFT_BOUNDARY_def RIGHT_BOUNDARY_def)

lemmas source_defs =
  TITLE_def TITLED_SECTION_SOURCE_def LIST_SOURCE_def list_source_def CFR_TITLED_SECTION_SOURCE_def CFR_LIST_SOURCE_def APPENDIX_SOURCE_def
  GUIDELINE_SOURCE_def COURT_RULE_SOURCE_def SCOTUS_RULE_SOURCE_def HABEAS_RULE_SOURCE_def HABEAS_UNNAMED_SOURCE_def
  BARE_RULE_SOURCE_def DOCKET_DISTRICT_SOURCE_def DOCKET_MARKED_SOURCE_def BARE_SOURCE_def LIST_MEMBER_CAPTURE_def
  CFR_LIST_MEMBER_CAPTURE_def member_capture_def

lemma registry_expressions:
  "list_all (\<lambda>r. 0 < min_width r \<and> plain r)
     [TITLED_SECTION_SOURCE, LIST_SOURCE, CFR_TITLED_SECTION_SOURCE, CFR_LIST_SOURCE, APPENDIX_SOURCE, GUIDELINE_SOURCE,
      COURT_RULE_SOURCE, SCOTUS_RULE_SOURCE, HABEAS_RULE_SOURCE, HABEAS_UNNAMED_SOURCE, BARE_RULE_SOURCE,
      DOCKET_DISTRICT_SOURCE, DOCKET_MARKED_SOURCE, BARE_SOURCE, LIST_MEMBER_CAPTURE, CFR_LIST_MEMBER_CAPTURE]"
  by (simp add: source_defs)

lemmas wide_plain = registry_expressions [simplified]

lemma registry_sure:
  "sure [''guideline_id''] GUIDELINE_SOURCE" "sure [''number''] DOCKET_DISTRICT_SOURCE" "sure [''number''] DOCKET_MARKED_SOURCE"
  "sure [''marked_section'', ''sub_section'', ''cue_number''] BARE_SOURCE" "sure [''body''] LIST_SOURCE"
  "sure [''body''] CFR_LIST_SOURCE" "sure [''section''] LIST_MEMBER_CAPTURE" "sure [''section''] CFR_LIST_MEMBER_CAPTURE"
  "sure [''set_form'', ''long_set''] COURT_RULE_SOURCE" "sure [''title''] APPENDIX_SOURCE" "sure [''ordinal''] APPENDIX_SOURCE"
  by (simp_all add: source_defs)

definition WIDE_GROUPS :: "string list" where
  "WIDE_GROUPS = [''guideline_id'', ''guideline_prefix'', ''number'', ''marked_section'', ''sub_section'', ''cue_number'',
     ''body'', ''section'', ''set_form'', ''long_set'']"

definition wide_groups :: "regex \<Rightarrow> bool" where
  "wide_groups r \<longleftrightarrow> list_all (\<lambda>(n, q). n \<notin> set WIDE_GROUPS \<or> 1 \<le> min_width q) (group_bodies r)"

lemma registry_groups_wide:
  "wide_groups LIST_SOURCE" "wide_groups CFR_LIST_SOURCE" "wide_groups GUIDELINE_SOURCE" "wide_groups COURT_RULE_SOURCE"
  "wide_groups DOCKET_DISTRICT_SOURCE" "wide_groups DOCKET_MARKED_SOURCE" "wide_groups BARE_SOURCE"
  "wide_groups LIST_MEMBER_CAPTURE" "wide_groups CFR_LIST_MEMBER_CAPTURE"
  using rule_set_width by (simp_all add: wide_groups_def source_defs WIDE_GROUPS_def)

lemma match_bounds:
  assumes "is_match U ic r t m" "0 < min_width r"
  shows "m_start m < m_end m \<and> m_end m \<le> length t"
  using is_match_min_width [OF assms(1)] assms by (simp add: is_match_def)

lemma wide_span:
  assumes "is_match U ic r t m" "plain r" "wide_groups r" "span m name = Some (a, b)" "name \<in> set WIDE_GROUPS"
  shows "m_start m \<le> a \<and> a < b \<and> b \<le> m_end m"
proof -
  have "list_all (\<lambda>(n, q). n \<noteq> name \<or> 1 \<le> min_width q) (group_bodies r)"
    using assms(3,5) by (auto simp: wide_groups_def list_all_iff)
  from match_span_width [OF assms(1,2,4) this] show ?thesis by simp
qed

section \<open>Every builder makes sound candidates\<close>

definition builds_sound :: "grammar_pattern \<Rightarrow> bool" where
  "builds_sound p \<longleftrightarrow> (\<forall>U t m pid prec c. is_match U True (gp_expression p) t m \<longrightarrow>
     gp_builder p U t m pid prec = Inr (Some c) \<longrightarrow> sound_candidate (gp_type p) t c)"

lemma whole_match_builders:
  assumes "is_match U True r t m" "0 < min_width r"
  shows "titled_candidate U t m pid prec = Inr (Some c) \<Longrightarrow> sound_candidate ''statute'' t c"
    and "regulation_candidate U t m pid prec = Inr (Some c) \<Longrightarrow> sound_candidate ''regulation'' t c"
    and "court_rule_candidate U t m pid prec = Inr (Some c) \<Longrightarrow> sound_candidate ''court_rule'' t c"
    and "scotus_rule_candidate U t m pid prec = Inr (Some c) \<Longrightarrow> sound_candidate ''scotus_rule'' t c"
    and "habeas_rule_candidate U t m pid prec = Inr (Some c) \<Longrightarrow> sound_candidate ''habeas_rule'' t c"
    and "habeas_unnamed_candidate U t m pid prec = Inr (Some c) \<Longrightarrow> sound_candidate ''bare_rule'' t c"
    and "bare_rule_candidate U t m pid prec = Inr (Some c) \<Longrightarrow> sound_candidate ''bare_rule'' t c"
  using match_bounds [OF assms]
  by (auto simp: titled_candidate_def regulation_candidate_def court_rule_candidate_def scotus_rule_candidate_def
      habeas_rule_candidate_def habeas_unnamed_candidate_def bare_rule_candidate_def map_result_Inr_iff
      intro!: sound_one_object intro: sound_objects split: if_splits)

lemma appendix_sound:
  assumes "is_match U True APPENDIX_SOURCE t m" "appendix_candidate U t m pid prec = Inr (Some c)"
  shows "sound_candidate ''appendix_statute'' t c"
proof -
  have b: "m_start m < m_end m" "m_end m \<le> length t" using match_bounds [OF assms(1)] wide_plain by auto
  from assms(2) obtain p where
    "c = one_object (m_start m) (m_end m) prec
       (object_at ''appendix_statute'' t (m_start m) (m_end m)
         (Some (ulit ''/us/usc/t'' @ group_text t m ''title'' @ ulit ''a/'' @ ulit p @ ulit ''/s'' @ group_text t m ''section''))
         pid (subsections_of U (substr t (m_start m) (m_end m))))"
    by (auto simp: appendix_candidate_def bind_result_Inr_iff split: option.splits)
  then show ?thesis using b object_types by (auto intro!: sound_one_object sound_object_at)
qed

lemma docket_sound:
  assumes "is_match U True r t m" "plain r" "wide_groups r" "sure [''number''] r"
  shows "district_docket_candidate U t m pid prec = Inr (Some c) \<Longrightarrow> sound_candidate ''docket'' t c"
    and "marked_docket_candidate U t m pid prec = Inr (Some c) \<Longrightarrow> sound_candidate ''docket'' t c"
proof -
  from match_sure1 [OF assms(1,4)] obtain a b where s: "span m ''number'' = Some (a, b)" by blast
  from wide_span [OF assms(1-3) s] assms(1) have "a < b" "b \<le> length t" by (auto simp: WIDE_GROUPS_def is_match_def)
  then have "sound_candidate ''docket'' t (one_object a b prec (docket_object t a b pid))" for prec pid
    by (intro sound_one_object sound_objects)
  with s show "district_docket_candidate U t m pid prec = Inr (Some c) \<Longrightarrow> sound_candidate ''docket'' t c"
    and "marked_docket_candidate U t m pid prec = Inr (Some c) \<Longrightarrow> sound_candidate ''docket'' t c"
    by (auto simp: district_docket_candidate_def marked_docket_candidate_def group_start_def group_end_def Let_def
        split: if_splits)
qed

lemma guideline_sound:
  assumes m: "is_match U True GUIDELINE_SOURCE t m" and c: "guideline_candidate U t m pid prec = Inr (Some c)"
  shows "sound_candidate ''guideline'' t c"
proof -
  let ?a = "if group_of t m ''guideline_prefix'' \<noteq> None then group_start m ''guideline_prefix'' else group_start m ''guideline_id''"
  have p: "plain GUIDELINE_SOURCE" using wide_plain by simp
  from match_sure1 [OF m registry_sure(1)] obtain a b where s: "span m ''guideline_id'' = Some (a, b)" by blast
  have i: "a < b" "b \<le> m_end m"
    using wide_span [OF m p registry_groups_wide(3) s] by (auto simp: WIDE_GROUPS_def)
  have "?a < m_end m"
  proof (cases "span m ''guideline_prefix''")
    case None
    with s i show ?thesis by (simp add: group_of_def group_start_def)
  next
    case (Some x)
    then obtain a' b' where x: "span m ''guideline_prefix'' = Some (a', b')" by (cases x) auto
    from wide_span [OF m p registry_groups_wide(3) x] show ?thesis using x
      by (auto simp: group_of_def group_start_def WIDE_GROUPS_def)
  qed
  moreover have "m_end m \<le> length t" using m by (simp add: is_match_def)
  ultimately have "sound_candidate ''guideline'' t (one_object ?a (m_end m) prec (guideline U t ?a (m_end m) (group_text t m ''guideline_id'') pid))"
    by (intro sound_one_object sound_objects)
  with c show ?thesis by (simp add: guideline_candidate_def Let_def)
qed

text \<open>A range is a number, a dash and a number.\<close>

lemma range_parts_bounds:
  assumes "range_parts U (range_capture number) sec = Some (left, right, d)" "bounded number" "0 < min_width number"
  shows "0 < d \<and> d + 1 < length sec"
proof -
  from assms(1) obtain m where m: "re_fullmatch U False (range_capture number) sec = Some m"
    and d: "d = group_start m ''dash''" by (auto simp: range_parts_def)
  have j: "(length sec, m_caps m) \<in> set (rmatch (range_capture number) U False sec 0 [])"
    using m by (auto simp: re_fullmatch_def split: list.splits dest!: filter_head_in)
  then obtain k1 k2 c1 c2 c3 where r:
    "(k1, c1) \<in> set (rmatch number U False sec 0 [])"
    "(k2, c2) \<in> set (rmatch DASH U False sec k1 ((''left'', 0, k1) # c1))"
    "(length sec, c3) \<in> set (rmatch number U False sec k2 ((''dash'', k1, k2) # c2))"
    "m_caps m = (''right'', k2, length sec) # c3"
    by (auto simp: range_capture_def seqs_def)
  from rmatch_bounded_caps [OF r(1) assms(2)] rmatch_min_width [OF r(1)] assms(3) have k1: "0 < k1" "k1 \<le> length sec" by auto
  from rmatch_bounded_caps [OF r(2) _ k1(2)] rmatch_min_width [OF r(2)] have k2: "k1 < k2" "k2 \<le> length sec" by auto
  from rmatch_bounded_caps [OF r(3) assms(2) k2(2)] rmatch_min_width [OF r(3)] assms(3)
  have k3: "k2 < length sec" "c3 = (''dash'', k1, k2) # c2" by auto
  have "group_start m ''dash'' = k1" by (simp add: group_start_def span_def r(4) k3(2))
  with d k1 k2 k3 show ?thesis by simp
qed

lemma ranges_bounds:
  "range_parts U RANGE_CAPTURE sec = Some (left, right, d) \<Longrightarrow> 0 < d \<and> d + 1 < length sec"
  "range_parts U CFR_RANGE_CAPTURE sec = Some (left, right, d) \<Longrightarrow> 0 < d \<and> d + 1 < length sec"
  unfolding RANGE_CAPTURE_def CFR_RANGE_CAPTURE_def by (erule range_parts_bounds; simp)+

section \<open>Lists\<close>

definition objects_within :: "string \<Rightarrow> ustr \<Rightarrow> nat \<Rightarrow> nat \<Rightarrow> exact_object list \<Rightarrow> bool" where
  "objects_within ty t a b xs \<longleftrightarrow> xs \<noteq> [] \<and> list_all (sound_object ty t) xs \<and> all_apart xo_span xs \<and>
     (\<forall>x \<in> set xs. int a \<le> xo_start x \<and> xo_end x \<le> int b)"

lemma objects_within_one:
  "sound_object ty t x \<Longrightarrow> xo_span x = (int c, int d) \<Longrightarrow> a \<le> c \<Longrightarrow> d \<le> b \<Longrightarrow> objects_within ty t a b [x]"
  by (simp add: objects_within_def all_apart_def xo_span_def)

lemma objects_within_append:
  "objects_within ty t a b xs \<Longrightarrow> objects_within ty t c d ys \<Longrightarrow> b \<le> c \<Longrightarrow> a \<le> b \<Longrightarrow> c \<le> d \<Longrightarrow> objects_within ty t a d (xs @ ys)"
  unfolding objects_within_def all_apart_def sorted_wrt_append overlapping_def xo_span_def by fastforce

lemma objects_within_wider: "objects_within ty t a b xs \<Longrightarrow> a' \<le> a \<Longrightarrow> b \<le> b' \<Longrightarrow> objects_within ty t a' b' xs"
  unfolding objects_within_def by fastforce

lemma objects_within_sound: "objects_within ty t a b xs \<Longrightarrow> cd_objects c = xs \<Longrightarrow> sound_candidate ty t c"
  by (simp add: objects_within_def sound_candidate_def)

definition object_maker :: "string \<Rightarrow> ustr \<Rightarrow> (nat \<Rightarrow> nat \<Rightarrow> ustr \<Rightarrow> exact_object) \<Rightarrow> bool" where
  "object_maker ty t build \<longleftrightarrow> (\<forall>a b sec. xo_span (build a b sec) = (int a, int b) \<and>
     (a < b \<longrightarrow> b \<le> length t \<longrightarrow> sound_object ty t (build a b sec)))"

lemma object_makers:
  "object_maker ''statute'' t (\<lambda>a b sec. statute U t a b title sec pid)"
  "object_maker ''regulation'' t (\<lambda>a b sec. regulation U t a b title sec pid)"
  unfolding object_maker_def using sound_objects by (auto simp: statute_def regulation_def)

lemma made_within:
  assumes "object_maker ty t build" "c < d" "d \<le> length t" "a \<le> c" "d \<le> b"
  shows "objects_within ty t a b [build c d sec]"
  using assms by (intro objects_within_one [of _ _ _ c d]) (auto simp: object_maker_def)

lemma member_objects_within:
  assumes m: "is_match U True rx body member" "plain rx" "wide_groups rx" "sure [''section''] rx"
    and range: "\<And>sec left right d. range_parts U range_rx sec = Some (left, right, d) \<Longrightarrow> 0 < d \<and> d + 1 < length sec"
    and build: "object_maker ty t build"
    and pos: "object_start \<le> body_start + m_start member" "body_start + length body \<le> length t"
  shows "objects_within ty t object_start (body_start + m_end member)
    (member_objects U t range_rx build body_start body object_start member)"
proof -
  from match_sure1 [OF m(1,4)] obtain a b where s: "span member ''section'' = Some (a, b)" by blast
  have ab: "m_start member \<le> a" "a < b" "b \<le> m_end member"
    using wide_span [OF m(1-3) s] by (auto simp: WIDE_GROUPS_def)
  have e: "m_end member \<le> length body" using m(1) by (simp add: is_match_def)
  have sec: "group_text body member ''section'' = substr body a b" "group_start member ''section'' = a"
    using s by (simp_all add: group_text_def group_start_def)
  show ?thesis
  proof (cases "range_parts U range_rx (substr body a b)")
    case None
    have "objects_within ty t object_start (body_start + m_end member) [build object_start (body_start + m_end member) (substr body a b)]"
      using ab e pos by (intro made_within [OF build]) simp_all
    then show ?thesis using None by (simp add: member_objects_def sec)
  next
    case (Some x)
    then obtain l r d where x: "range_parts U range_rx (substr body a b) = Some (l, r, d)" by (cases x) auto
    have "length (substr body a b) = b - a" using ab e by simp
    with range [OF x] have d: "0 < d" "a + d + 1 < b" by linarith+
    have left: "objects_within ty t object_start (body_start + a + d) [build object_start (body_start + a + d) l]"
      using ab e pos d by (intro made_within [OF build]) simp_all
    have right: "objects_within ty t (body_start + a + d + 1) (body_start + m_end member)
        [build (body_start + a + d + 1) (body_start + m_end member) r]"
      using ab e pos d by (intro made_within [OF build]) simp_all
    have "objects_within ty t object_start (body_start + m_end member)
        ([build object_start (body_start + a + d) l] @ [build (body_start + a + d + 1) (body_start + m_end member) r])"
      using ab e pos d by (intro objects_within_append [OF left right]) simp_all
    then show ?thesis using x by (simp add: member_objects_def sec Let_def add.assoc)
  qed
qed

lemma members_within:
  assumes "\<And>x. x \<in> set xs \<Longrightarrow> objects_within ty t (lo x) (hi x) (objs x)" and "\<And>x. x \<in> set xs \<Longrightarrow> lo x \<le> hi x \<and> hi x \<le> b"
    and "sorted_wrt (\<lambda>x y. hi x \<le> lo y) (x # xs)" and "objects_within ty t a (hi x) first" "a \<le> hi x" "hi x \<le> b"
  shows "objects_within ty t a b (first @ concat (map objs xs))"
  using assms
proof (induction xs arbitrary: x first)
  case Nil
  then show ?case using objects_within_wider by fastforce
next
  case (Cons y ys)
  have "objects_within ty t a (hi y) (first @ objs y)"
    using Cons.prems by (intro objects_within_append [of ty t a "hi x" first "lo y" "hi y"]) auto
  moreover have "a \<le> hi y" using Cons.prems(2) [of y] Cons.prems(3,5) by auto
  moreover have "sorted_wrt (\<lambda>x y. hi x \<le> lo y) (y # ys)" using Cons.prems(3) by simp
  ultimately have "objects_within ty t a b ((first @ objs y) @ concat (map objs ys))"
    using Cons.prems(1,2) by (intro Cons.IH [of y]) auto
  then show ?case by simp
qed

lemma list_sound:
  assumes m: "is_match U True r t m" "plain r" "wide_groups r" "sure [''body''] r"
    and rx: "plain rx" "wide_groups rx" "sure [''section''] rx"
    and range: "\<And>sec left right d. range_parts U range_rx sec = Some (left, right, d) \<Longrightarrow> 0 < d \<and> d + 1 < length sec"
    and build: "\<And>title. object_maker ty t (build title)"
    and c: "list_candidate_common U t m prec rx range_rx build = Some c"
  shows "sound_candidate ty t c"
proof -
  from match_sure1 [OF m(1,4)] obtain a b where s: "span m ''body'' = Some (a, b)" by blast
  have ab: "m_start m \<le> a" "a < b" "b \<le> m_end m" using wide_span [OF m(1-3) s] by (auto simp: WIDE_GROUPS_def)
  have e: "m_end m \<le> length t" using m(1) by (simp add: is_match_def)
  let ?body = "substr t a b"
  let ?build = "build (group_text t m ''title'')"
  let ?objs = "\<lambda>start x. member_objects U t range_rx ?build a ?body start x"
  have body: "a + length ?body = b" using ab e by simp
  have g: "group_text t m ''body'' = ?body" "group_start m ''body'' = a" using s by (simp_all add: group_text_def group_start_def)
  from c obtain x xs where it: "re_finditer U True rx ?body = x # xs"
    and objs: "cd_objects c = ?objs (m_start m) x @ concat (map (\<lambda>x. ?objs (a + m_start x) x) xs)"
    by (auto simp: list_candidate_common_def g Let_def split: list.splits)
  have ok: "is_match U True rx ?body y" if "y \<in> set (x # xs)" for y using re_finditer_inD [of y U True rx ?body] it that by simp
  have le: "a + m_start y \<le> a + m_end y \<and> a + m_end y \<le> b" if "y \<in> set (x # xs)" for y
  proof -
    from ok [OF that] have "m_start y \<le> m_end y" "m_end y \<le> length ?body" by (simp_all add: is_match_def)
    with body show ?thesis by linarith
  qed
  have w: "objects_within ty t start (a + m_end y) (?objs start y)"
    if "y \<in> set (x # xs)" "start \<le> a + m_start y" for y start
    using body ab e by (intro member_objects_within [OF ok [OF that(1)] rx range build that(2)]) simp_all
  have "sorted_wrt (\<lambda>x y. m_end x \<le> m_start y) (x # xs)" using finditer_ordered [of U True rx ?body False 0] it
    by (simp add: re_finditer_def)
  then have "sorted_wrt (\<lambda>x y. a + m_end x \<le> a + m_start y) (x # xs)" by simp
  then have "objects_within ty t (m_start m) b (?objs (m_start m) x @ concat (map (\<lambda>x. ?objs (a + m_start x) x) xs))"
    using w le ab by (intro members_within [of xs ty t "\<lambda>x. a + m_start x" "\<lambda>x. a + m_end x" _ b x]) (auto intro: le_trans)
  from objects_within_sound [OF this objs] show ?thesis .
qed

lemma list_plain: "plain LIST_SOURCE" "plain CFR_LIST_SOURCE" "plain LIST_MEMBER_CAPTURE" "plain CFR_LIST_MEMBER_CAPTURE"
  by (simp_all add: wide_plain)

lemma list_candidate_sound:
  assumes "is_match U True LIST_SOURCE t m" "list_candidate U t m pid prec = Inr (Some c)"
  shows "sound_candidate ''statute'' t c"
proof -
  have c: "list_candidate_common U t m prec LIST_MEMBER_CAPTURE RANGE_CAPTURE (\<lambda>title a b sec. statute U t a b title sec pid) = Some c"
    using assms(2) by (simp add: list_candidate_def)
  show ?thesis
  proof (rule list_sound [OF assms(1) list_plain(1) registry_groups_wide(1) registry_sure(5) list_plain(3)
        registry_groups_wide(8) registry_sure(7) _ _ c])
    show "object_maker ''statute'' t (\<lambda>a b sec. statute U t a b title sec pid)" for title by (rule object_makers(1))
    show "0 < d \<and> d + 1 < length sec" if "range_parts U RANGE_CAPTURE sec = Some (left, right, d)" for sec left right d
      using that by (rule ranges_bounds(1))
  qed
qed

lemma cfr_list_candidate_sound:
  assumes "is_match U True CFR_LIST_SOURCE t m" "cfr_list_candidate U t m pid prec = Inr (Some c)"
  shows "sound_candidate ''regulation'' t c"
proof -
  have c: "list_candidate_common U t m prec CFR_LIST_MEMBER_CAPTURE CFR_RANGE_CAPTURE
      (\<lambda>title a b sec. regulation U t a b title sec pid) = Some c"
    using assms(2) by (simp add: cfr_list_candidate_def)
  show ?thesis
  proof (rule list_sound [OF assms(1) list_plain(2) registry_groups_wide(2) registry_sure(6) list_plain(4)
        registry_groups_wide(9) registry_sure(8) _ _ c])
    show "object_maker ''regulation'' t (\<lambda>a b sec. regulation U t a b title sec pid)" for title by (rule object_makers(2))
    show "0 < d \<and> d + 1 < length sec" if "range_parts U CFR_RANGE_CAPTURE sec = Some (left, right, d)" for sec left right d
      using that by (rule ranges_bounds(2))
  qed
qed

section \<open>Sections without a title\<close>

lemma bare_rangesE:
  assumes "bare_ranges U t m = Some dash"
  obtains a e l q n where "span m ''marked_section'' = Some (a, e)"
    "range_parts U RANGE_CAPTURE (substr t a e) = Some (l, q, n)" "dash = a + n"
proof -
  obtain marker sec where g: "group_of t m ''marker'' = Some marker" "group_of t m ''marked_section'' = Some sec"
    using assms unfolding bare_ranges_def by (cases "group_of t m ''marker''"; cases "group_of t m ''marked_section''") simp_all
  from g(2) obtain a e where s: "span m ''marked_section'' = Some (a, e)" "sec = substr t a e"
    by (auto simp: group_of_def)
  from assms have "map_option (\<lambda>(_, _, dash). group_start m ''marked_section'' + dash) (range_parts U RANGE_CAPTURE sec) = Some dash"
    unfolding bare_ranges_def g by (simp split: if_splits)
  then obtain l q n where "range_parts U RANGE_CAPTURE sec = Some (l, q, n)" "dash = group_start m ''marked_section'' + n" by auto
  with s show thesis by (intro that) (simp_all add: group_start_def)
qed

lemma bare_sound:
  assumes m: "is_match U True BARE_SOURCE t m" and c: "bare_candidate U t m pid prec = Inr (Some c)"
  shows "sound_candidate ''bare_section'' t c"
proof -
  have r: "plain BARE_SOURCE" "wide_groups BARE_SOURCE" using wide_plain registry_groups_wide by simp_all
  have b: "m_start m < m_end m" "m_end m \<le> length t" using match_bounds [OF m] wide_plain by simp_all
  have inside: "m_start m \<le> x \<and> x < y \<and> y \<le> m_end m"
    if "span m name = Some (x, y)" "name \<in> set WIDE_GROUPS" for name x y
    by (rule wide_span [OF m r that])
  have named: "''marked_section'' \<in> set WIDE_GROUPS" "''sub_section'' \<in> set WIDE_GROUPS" "''cue_number'' \<in> set WIDE_GROUPS"
    by (simp_all add: WIDE_GROUPS_def)
  from match_sure [OF m registry_sure(4)]
  have one: "span m ''marked_section'' \<noteq> None \<or> span m ''sub_section'' \<noteq> None \<or> span m ''cue_number'' \<noteq> None" by simp
  define cue where "cue = (group_of t m ''marked_section'' = None \<and> group_of t m ''sub_section'' = None)"
  define x where "x = (if group_of t m ''marked_section'' \<noteq> None then m_start m
    else if group_of t m ''sub_section'' \<noteq> None then group_start m ''sub_section'' else group_start m ''cue_number'')"
  define y where "y = (if cue then group_end m ''cue_number'' else m_end m)"
  note defs = x_def y_def cue_def group_of_def group_start_def group_end_def
  consider (marked) p where "span m ''marked_section'' = Some p"
    | (sub) p q where "span m ''marked_section'' = None" "span m ''sub_section'' = Some (p, q)"
    | (cued) p q where "span m ''marked_section'' = None" "span m ''sub_section'' = None" "span m ''cue_number'' = Some (p, q)"
    using one by (metis not_None_eq surj_pair)
  then have "x < y \<and> y \<le> m_end m"
  proof cases
    case marked
    then show ?thesis using b(1) by (simp add: defs)
  next
    case sub
    then show ?thesis using inside [OF sub(2) named(2)] by (simp add: defs)
  next
    case cued
    then show ?thesis using inside [OF cued(3) named(3)] by (simp add: defs)
  qed
  then have xy: "x < y" "y \<le> length t" using b by simp_all
  from c have objs: "cd_objects c = (case bare_ranges U t m of Some dash \<Rightarrow> [bare U t x dash pid, bare U t (dash + 1) y pid]
      | None \<Rightarrow> [bare U t x y pid])"
    unfolding bare_candidate_def Let_def cue_def [symmetric] x_def [symmetric] y_def [symmetric]
    by (auto simp: one_object_def split: if_splits option.splits)
  show ?thesis
  proof (cases "bare_ranges U t m")
    case None
    with objs sound_objects(3) [OF xy] show ?thesis by (simp add: sound_candidate_def all_apart_def)
  next
    case (Some dash)
    then obtain a e l q n where s: "span m ''marked_section'' = Some (a, e)"
      and p: "range_parts U RANGE_CAPTURE (substr t a e) = Some (l, q, n)" and d: "dash = a + n"
      by (rule bare_rangesE)
    from ranges_bounds(1) [OF p] d have n: "dash = a + n" "0 < n" "n + 1 < e - a" by (auto simp: min_def split: if_splits)
    from s have "x = m_start m" "y = m_end m" by (simp_all add: x_def y_def cue_def group_of_def)
    with inside [OF s named(1)] n have w: "x < dash" "dash + 1 < y" by auto
    have "sound_object ''bare_section'' t (bare U t x dash pid)" "sound_object ''bare_section'' t (bare U t (dash + 1) y pid)"
      using w xy by (intro sound_objects(3); simp)+
    then show ?thesis using objs Some w by (simp add: sound_candidate_def all_apart_def bare_def overlapping_def)
  qed
qed

lemma builders_sound:
  "is_match U True TITLED_SECTION_SOURCE t m \<Longrightarrow> titled_candidate U t m pid prec = Inr (Some c) \<Longrightarrow> sound_candidate ''statute'' t c"
  "is_match U True CFR_TITLED_SECTION_SOURCE t m \<Longrightarrow> regulation_candidate U t m pid prec = Inr (Some c) \<Longrightarrow>
     sound_candidate ''regulation'' t c"
  "is_match U True COURT_RULE_SOURCE t m \<Longrightarrow> court_rule_candidate U t m pid prec = Inr (Some c) \<Longrightarrow>
     sound_candidate ''court_rule'' t c"
  "is_match U True SCOTUS_RULE_SOURCE t m \<Longrightarrow> scotus_rule_candidate U t m pid prec = Inr (Some c) \<Longrightarrow>
     sound_candidate ''scotus_rule'' t c"
  "is_match U True HABEAS_RULE_SOURCE t m \<Longrightarrow> habeas_rule_candidate U t m pid prec = Inr (Some c) \<Longrightarrow>
     sound_candidate ''habeas_rule'' t c"
  "is_match U True HABEAS_UNNAMED_SOURCE t m \<Longrightarrow> habeas_unnamed_candidate U t m pid prec = Inr (Some c) \<Longrightarrow>
     sound_candidate ''bare_rule'' t c"
  "is_match U True BARE_RULE_SOURCE t m \<Longrightarrow> bare_rule_candidate U t m pid prec = Inr (Some c) \<Longrightarrow>
     sound_candidate ''bare_rule'' t c"
  "is_match U True DOCKET_DISTRICT_SOURCE t m \<Longrightarrow> district_docket_candidate U t m pid prec = Inr (Some c) \<Longrightarrow>
     sound_candidate ''docket'' t c"
  "is_match U True DOCKET_MARKED_SOURCE t m \<Longrightarrow> marked_docket_candidate U t m pid prec = Inr (Some c) \<Longrightarrow>
     sound_candidate ''docket'' t c"
  by (erule whole_match_builders, simp add: wide_plain, assumption)+
    (erule docket_sound [OF _ _ registry_groups_wide(5) registry_sure(2)], simp add: wide_plain, assumption,
     erule docket_sound [OF _ _ registry_groups_wide(6) registry_sure(3)], simp add: wide_plain, assumption)

lemma registry_builds_sound: "list_all builds_sound PATTERN_REGISTRY"
  unfolding PATTERN_REGISTRY_def list.pred_inject builds_sound_def grammar_pattern.simps
  by (intro conjI allI impI list.pred_inject(1))
    (rule builders_sound appendix_sound guideline_sound list_candidate_sound cfr_list_candidate_sound bare_sound; assumption)+

section \<open>Every builder answers\<close>

definition decimal_digits :: "ucd \<Rightarrow> bool" where  \<comment> \<open>what the class \<open>[0-9]\<close> reads without case is a decimal digit\<close>
  "decimal_digits U \<longleftrightarrow> (\<forall>c. item_match U True c (CRange 48 57) \<longrightarrow> uc_digit U c)"

definition answers :: "grammar_pattern \<Rightarrow> bool" where
  "answers p \<longleftrightarrow> (\<forall>U t m pid prec. decimal_digits U \<longrightarrow> is_match U True (gp_expression p) t m \<longrightarrow>
     (\<exists>c. gp_builder p U t m pid prec = Inr c))"

lemma fullmatch_Alt: "re_fullmatch U ic (Alt r q) s \<noteq> None \<longleftrightarrow> re_fullmatch U ic r s \<noteq> None \<or> re_fullmatch U ic q s \<noteq> None"
  unfolding fullmatch_iff_reads reads_Alt by blast

lemma fullmatch_alts: "rs \<noteq> [] \<Longrightarrow> re_fullmatch U ic (alts rs) s \<noteq> None \<longleftrightarrow> (\<exists>r \<in> set rs. re_fullmatch U ic r s \<noteq> None)"
proof (induction rs rule: induct_list012)
  case (3 r q rs)
  then show ?case by (simp only: alts.simps list.case fullmatch_Alt) simp
qed simp_all

lemma rule_set_form:
  assumes "re_fullmatch U True RULE_SET_SOURCE v \<noteq> None \<or> re_fullmatch U True RULE_SET_LONG_SOURCE v \<noteq> None"
  shows "\<exists>path. rule_path U v number = Inr path"
proof -
  have long: "\<exists>x \<in> set RULE_SETS. re_fullmatch U True (snd (snd (snd x))) v \<noteq> None"
    if "re_fullmatch U True RULE_SET_LONG_SOURCE v \<noteq> None"
    using that unfolding RULE_SET_LONG_SOURCE_def by (subst (asm) fullmatch_alts) (auto simp: RULE_SETS_def)
  have "\<exists>x \<in> set RULE_SETS. re_fullmatch U True (fst (snd (snd x))) v \<noteq> None \<or> re_fullmatch U True (snd (snd (snd x))) v \<noteq> None"
    using assms
  proof
    assume "re_fullmatch U True RULE_SET_SOURCE v \<noteq> None"
    then consider x where "x \<in> set RULE_SETS" "re_fullmatch U True (fst (snd (snd x))) v \<noteq> None"
      | "re_fullmatch U True RULE_SET_LONG_SOURCE v \<noteq> None"
      unfolding RULE_SET_SOURCE_def by (subst (asm) fullmatch_alts) auto
    then show ?thesis using long by cases blast+
  qed (use long in blast)
  then obtain x where "x \<in> set RULE_SETS"
    and "re_fullmatch U True (Alt (fst (snd (snd x))) (snd (snd (snd x)))) v \<noteq> None" unfolding fullmatch_Alt by blast
  then have "\<exists>y \<in> set RULE_SET_FORMS. re_fullmatch U True (snd (snd y)) v \<noteq> None"
    unfolding RULE_SET_FORMS_def by (auto intro!: bexI [of _ x] split: prod.splits)
  then obtain y where "find (\<lambda>(_, _, form). re_fullmatch U True form v \<noteq> None) RULE_SET_FORMS = Some y"
    by (cases "find (\<lambda>(_, _, form). re_fullmatch U True form v \<noteq> None) RULE_SET_FORMS")
      (auto simp: find_None_iff split: prod.splits)
  then show ?thesis by (cases y) (simp add: rule_path_def)
qed

lemma court_answers:
  assumes m: "is_match U True COURT_RULE_SOURCE t m"
  shows "\<exists>c. court_rule_candidate U t m pid prec = Inr c"
proof -
  have p: "plain COURT_RULE_SOURCE" by (simp add: wide_plain)
  have bodies: "(name, q) \<in> set (group_bodies COURT_RULE_SOURCE) \<Longrightarrow> name \<in> {''set_form'', ''long_set''} \<Longrightarrow>
      q = RULE_SET_SOURCE \<or> q = RULE_SET_LONG_SOURCE" for name q
    by (auto simp: COURT_RULE_SOURCE_def)
  have form: "re_fullmatch U True RULE_SET_SOURCE (substr t a b) \<noteq> None \<or> re_fullmatch U True RULE_SET_LONG_SOURCE (substr t a b) \<noteq> None"
      "substr t a b \<noteq> []"
    if s: "span m name = Some (a, b)" and n: "name \<in> {''set_form'', ''long_set''}" for name a b
  proof -
    from match_span [OF m p s] m obtain q c d where q: "(name, q) \<in> set (group_bodies COURT_RULE_SOURCE)"
      "reads q U True t a b c d" and a: "a \<le> length t" by (auto simp: is_match_def)
    from bodies [OF q(1) n] bounded_fullmatch [OF q(2) _ a]
    show "re_fullmatch U True RULE_SET_SOURCE (substr t a b) \<noteq> None \<or> re_fullmatch U True RULE_SET_LONG_SOURCE (substr t a b) \<noteq> None"
      by auto
    have "name \<in> set WIDE_GROUPS" using n by (auto simp: WIDE_GROUPS_def)
    from wide_span [OF m p registry_groups_wide(4) s this] m show "substr t a b \<noteq> []"
      by (auto simp: is_match_def simp flip: length_greater_0_conv)
  qed
  have "span m ''set_form'' \<noteq> None \<or> span m ''long_set'' \<noteq> None" using match_sure [OF m registry_sure(9)] by simp
  then consider a b where "span m ''set_form'' = Some (a, b)"
    | a b where "span m ''set_form'' = None" "span m ''long_set'' = Some (a, b)" by (metis not_None_eq surj_pair)
  then obtain v where v: "first_group t m [''set_form'', ''long_set''] = v"
    and f: "re_fullmatch U True RULE_SET_SOURCE v \<noteq> None \<or> re_fullmatch U True RULE_SET_LONG_SOURCE v \<noteq> None"
  proof cases
    case 1
    have "first_group t m [''set_form'', ''long_set''] = substr t a b" using 1 form(2) [OF 1] by (simp add: group_of_def)
    then show thesis using form(1) [OF 1] by (intro that) simp_all
  next
    case 2
    have "first_group t m [''set_form'', ''long_set''] = substr t a b" using 2 form(2) [OF 2(2)] by (simp add: group_of_def)
    then show thesis using form(1) [OF 2(2)] by (intro that) simp_all
  qed
  obtain path where path: "rule_path U v (first_group t m [''number'', ''long_number'']) = Inr path" using rule_set_form [OF f] by blast
  show ?thesis unfolding court_rule_candidate_def court_rule_def v path by simp
qed

lemma appendix_answers:
  assumes m: "is_match U True APPENDIX_SOURCE t m" and U: "decimal_digits U"
  shows "\<exists>c. appendix_candidate U t m pid prec = Inr c"
proof -
  have p: "plain APPENDIX_SOURCE" by (simp add: wide_plain)
  from match_sure1 [OF m registry_sure(10)] obtain a b where s: "span m ''title'' = Some (a, b)" by blast
  have bodies: "(''title'', q) \<in> set (group_bodies APPENDIX_SOURCE) \<Longrightarrow> q = nums 1 3" for q
    by (auto simp: APPENDIX_SOURCE_def TITLE_def)
  from match_span [OF m p s] obtain q c d where q: "(''title'', q) \<in> set (group_bodies APPENDIX_SOURCE)"
    "reads q U True t a b c d" by blast
  have "reads (Rep True 1 3 (Cls False [CRange 48 57])) U True t a b c d"
    using q(2) unfolding bodies [OF q(1)] nums_def DIGIT_def .
  from reads_Rep_class_only [OF this] obtain n where n: "b = a + n" "1 \<le> n" and
    d: "\<forall>k < n. a + k < length t \<and> class_match U True False [CRange 48 57] (t ! (a + k))" by blast
  have b: "b \<le> length t" using m match_span [OF m p s] by (auto simp: is_match_def)
  have "uc_digit U (substr t a b ! k)" if "k < n" for k
  proof -
    from d that have "item_match U True (t ! (a + k)) (CRange 48 57)" by (auto simp: class_match_def)
    with U that b n show ?thesis by (auto simp: decimal_digits_def substr_def)
  qed
  then have "list_all (uc_digit U) (substr t a b)" using b n by (simp add: list_all_length)
  moreover have "substr t a b \<noteq> []" using b n by (auto simp flip: length_greater_0_conv)
  moreover have "group_text t m ''title'' = substr t a b" using s by (simp add: group_text_def)
  ultimately obtain title where title: "int_of_digits U (group_text t m ''title'') = Inr title" by (auto simp: int_of_digits_def)
  have "\<exists>ordinal. appendix_ordinal U (group_text t m ''ordinal'') = Inr ordinal"
    by (simp add: appendix_ordinal_def int_of_digits_def)
  then obtain ordinal where "appendix_ordinal U (group_text t m ''ordinal'') = Inr ordinal" ..
  then show ?thesis by (auto simp: appendix_candidate_def title split: option.split)
qed

lemma other_answers:
  "\<exists>c. titled_candidate U t m pid prec = Inr c" "\<exists>c. regulation_candidate U t m pid prec = Inr c"
  "\<exists>c. list_candidate U t m pid prec = Inr c" "\<exists>c. cfr_list_candidate U t m pid prec = Inr c"
  "\<exists>c. guideline_candidate U t m pid prec = Inr c" "\<exists>c. scotus_rule_candidate U t m pid prec = Inr c"
  "\<exists>c. habeas_rule_candidate U t m pid prec = Inr c" "\<exists>c. habeas_unnamed_candidate U t m pid prec = Inr c"
  "\<exists>c. bare_rule_candidate U t m pid prec = Inr c" "\<exists>c. district_docket_candidate U t m pid prec = Inr c"
  "\<exists>c. marked_docket_candidate U t m pid prec = Inr c" "\<exists>c. bare_candidate U t m pid prec = Inr c"
  by (simp_all add: titled_candidate_def regulation_candidate_def list_candidate_def cfr_list_candidate_def guideline_candidate_def
      Let_def scotus_rule_candidate_def habeas_rule_candidate_def habeas_unnamed_candidate_def bare_rule_candidate_def
      district_docket_candidate_def marked_docket_candidate_def bare_candidate_def)

lemma registry_answers: "list_all answers PATTERN_REGISTRY"
  unfolding PATTERN_REGISTRY_def list.pred_inject answers_def grammar_pattern.simps
  by (intro conjI allI impI list.pred_inject(1)) (rule other_answers court_answers appendix_answers; assumption?)+

section \<open>The selection\<close>

lemma pattern_candidatesE:
  assumes "r \<in> set (concat (map (\<lambda>(prec, p). pattern_candidates U t prec p) (enumerate 0 PATTERN_REGISTRY)))"
  obtains p prec m where "p \<in> set PATTERN_REGISTRY" "is_match U True (gp_expression p) t m" "r = gp_builder p U t m (gp_id p) prec"
proof -
  from assms obtain prec p where p: "(prec, p) \<in> set (enumerate 0 PATTERN_REGISTRY)" and r: "r \<in> set (pattern_candidates U t prec p)"
    by auto
  have "p \<in> set PATTERN_REGISTRY" using p by (auto simp: in_set_enumerate_eq)
  moreover from r obtain m where "m \<in> set (re_finditer U True (gp_expression p) t)" "r = gp_builder p U t m (gp_id p) prec"
    by (auto simp: pattern_candidates_def)
  ultimately show thesis using that [of p m prec] re_finditer_inD by metis
qed

lemma all_right: "(\<And>r. r \<in> set rs \<Longrightarrow> \<exists>c. r = Inr c) \<Longrightarrow> \<exists>xs. rs = map Inr xs"
proof (induction rs)
  case (Cons r rs)
  then obtain c xs where "r = Inr c" "rs = map Inr xs" by (metis list.set_intros)
  then show ?case by (intro exI [of _ "c # xs"]) simp
qed simp

lemma candidates_return:
  assumes "decimal_digits U"
  shows "\<exists>cs. candidates U t = Inr cs"
proof -
  let ?rs = "concat (map (\<lambda>(prec, p). pattern_candidates U t prec p) (enumerate 0 PATTERN_REGISTRY))"
  have "\<exists>c. r = Inr c" if "r \<in> set ?rs" for r
  proof -
    from that obtain p prec m where "p \<in> set PATTERN_REGISTRY" "is_match U True (gp_expression p) t m"
      "r = gp_builder p U t m (gp_id p) prec" by (rule pattern_candidatesE)
    with registry_answers assms show ?thesis by (auto simp: list_all_iff answers_def)
  qed
  then have "\<exists>xs. ?rs = map Inr xs" by (rule all_right)
  then obtain xs where "collect_results ?rs = Inr xs" unfolding collect_results_Inr_iff [symmetric] by blast
  then show ?thesis by (simp add: candidates_def)
qed

lemma candidates_sound:
  assumes "candidates U t = Inr cs" "c \<in> set cs"
  shows "\<exists>p \<in> set PATTERN_REGISTRY. sound_candidate (gp_type p) t c"
proof -
  let ?rs = "concat (map (\<lambda>(prec, p). pattern_candidates U t prec p) (enumerate 0 PATTERN_REGISTRY))"
  from assms(1) obtain xs where xs: "collect_results ?rs = Inr xs" and cs: "cs = map the (filter (\<lambda>c. c \<noteq> None) xs)"
    unfolding candidates_def map_result_Inr_iff by blast
  from xs have "?rs = map Inr xs" unfolding collect_results_Inr_iff .
  moreover from cs assms(2) have "Some c \<in> set xs" by auto
  ultimately have "Inr (Some c) \<in> set ?rs" by simp
  then obtain p prec m where p: "p \<in> set PATTERN_REGISTRY" "is_match U True (gp_expression p) t m"
    "Inr (Some c) = gp_builder p U t m (gp_id p) prec" by (rule pattern_candidatesE)
  then have "sound_candidate (gp_type p) t c" using registry_builds_sound unfolding list_all_iff builds_sound_def by metis
  with p(1) show ?thesis by blast
qed

lemma take_candidates_sets:
  "set kept \<subseteq> set (take_candidates kept cs) \<and>
     set (take_candidates kept cs) \<subseteq> set kept \<union> (\<Union>c \<in> set cs. set (cd_objects c))"
proof (induction cs arbitrary: kept)
  case (Cons c cs)
  from Cons.IH [of kept] Cons.IH [of "kept @ cd_objects c"] show ?case by auto
qed simp

lemma clashes_iff: "clashes kept c \<longleftrightarrow> (\<exists>x \<in> set kept. \<exists>y \<in> set (cd_objects c). overlapping (xo_span x) (xo_span y))"
  by (simp add: clashes_def list_ex_iff)

lemma take_candidates_apart:
  "all_apart xo_span kept \<Longrightarrow> \<forall>c \<in> set cs. all_apart xo_span (cd_objects c) \<Longrightarrow> all_apart xo_span (take_candidates kept cs)"
proof (induction cs arbitrary: kept)
  case (Cons c cs)
  show ?case
  proof (cases "clashes kept c")
    case True
    with Cons show ?thesis by simp
  next
    case False
    then have "all_apart xo_span (kept @ cd_objects c)" using Cons.prems
      by (auto simp: all_apart_def sorted_wrt_append clashes_iff)
    from Cons.IH [OF this] False Cons.prems show ?thesis by simp
  qed
qed simp

text \<open>A candidate is taken whole, or an object of one taken before it stands in its way.\<close>

lemma take_candidates_choice:
  "sorted_wrt le cs \<Longrightarrow> c \<in> set cs \<Longrightarrow>
     set (cd_objects c) \<subseteq> set (take_candidates kept cs) \<or> clashes kept c \<or>
     (\<exists>k \<in> set cs. le k c \<and> set (cd_objects k) \<subseteq> set (take_candidates kept cs) \<and> clashes (cd_objects k) c)"
proof (induction cs arbitrary: kept)
  case (Cons k cs)
  show ?case
  proof (cases "clashes kept k")
    case True
    with Cons.IH [of kept] Cons.prems show ?thesis by auto
  next
    case False
    then have step: "take_candidates kept (k # cs) = take_candidates (kept @ cd_objects k) cs" by simp
    have taken: "set (cd_objects k) \<subseteq> set (take_candidates kept (k # cs))"
      unfolding step using take_candidates_sets [of "kept @ cd_objects k" cs] by auto
    show ?thesis
    proof (cases "c \<in> set cs")
      case False
      with Cons.prems(2) taken show ?thesis by auto
    next
      case c: True
      have split: "clashes (kept @ cd_objects k) c \<longleftrightarrow> clashes kept c \<or> clashes (cd_objects k) c" by (auto simp: clashes_iff)
      from Cons.IH [of "kept @ cd_objects k"] Cons.prems(1) c
      have "set (cd_objects c) \<subseteq> set (take_candidates kept (k # cs)) \<or> clashes kept c \<or> clashes (cd_objects k) c \<or>
          (\<exists>j \<in> set cs. le j c \<and> set (cd_objects j) \<subseteq> set (take_candidates kept (k # cs)) \<and> clashes (cd_objects j) c)"
        unfolding step split by auto
      moreover have "le k c" using Cons.prems(1) c by simp
      ultimately show ?thesis using taken by auto
    qed
  qed
qed simp

section \<open>Properties\<close>

lemma extraction_steps:
  assumes "decimal_digits U"
  obtains cs where "candidates U t = Inr cs"
    and "extract_objects U t = Inr (sort_key xo_start (take_candidates [] (sort_key candidate_key cs)))"
    and "\<And>c. c \<in> set cs \<Longrightarrow> \<exists>p \<in> set PATTERN_REGISTRY. sound_candidate (gp_type p) t c"
  using candidates_return [OF assms, of t] candidates_sound by (fastforce simp: extract_objects_def)

lemma registry_types_set: "set registry_types = set (map gp_type PATTERN_REGISTRY)"
  by (simp add: registry_types_def)

lemma taken_sound:
  assumes "\<And>c. c \<in> set cs \<Longrightarrow> \<exists>p \<in> set PATTERN_REGISTRY. sound_candidate (gp_type p) t c" "x \<in> set (take_candidates [] cs)"
  shows "\<exists>ty \<in> set registry_types. sound_object ty t x"
proof -
  from assms(2) take_candidates_sets [of "[]" cs] obtain c where c: "c \<in> set cs" "x \<in> set (cd_objects c)" by auto
  from assms(1) [OF c(1)] obtain p where "p \<in> set PATTERN_REGISTRY" "sound_candidate (gp_type p) t c" by blast
  with c(2) show ?thesis unfolding registry_types_set by (auto simp: sound_candidate_def list_all_iff)
qed

lemma sound_objects_keep:
  assumes "\<And>x. x \<in> set xs \<Longrightarrow> \<exists>ty \<in> set types. sound_object ty t x"
  shows "span_violations t xs = [] \<and> key_violations xs = [] \<and> set (map xo_type xs) \<subseteq> set (map ulit types) \<and>
    (\<forall>x \<in> set xs. xo_start x < xo_end x)"
proof -
  have "\<forall>x \<in> set xs. span_violations t [x] = [] \<and> key_violations [x] = [] \<and> xo_type x \<in> set (map ulit types)"
    using assms unfolding sound_object_def by fastforce
  then show ?thesis by (induction xs) (auto simp: span_violations_def key_violations_def split: if_splits)
qed

text \<open>On every text the extraction returns, and what it returns keeps the contract of the exact objects by the contract's
  own checks: every span lies in the text, is not empty and reads the object's text; the objects stand in order and no
  two overlap; exactly the keyed types carry a key; and every type is one the registry declares, none of them a type left to
  the other extractor.\<close>

lemma extraction_sound:
  assumes "decimal_digits U"
  shows "\<exists>xs. extract_objects U t = Inr xs \<and> span_violations t xs = [] \<and> ordering_violations xs = [] \<and> key_violations xs = [] \<and>
    set (map xo_type xs) \<subseteq> set (map ulit registry_types) \<and> set registry_types \<inter> set EYECITE_TYPES = {}"
proof -
  obtain cs where "candidates U t = Inr cs" and ex: "extract_objects U t = Inr (sort_key xo_start (take_candidates [] (sort_key candidate_key cs)))"
    and sound: "\<And>c. c \<in> set cs \<Longrightarrow> \<exists>p \<in> set PATTERN_REGISTRY. sound_candidate (gp_type p) t c"
    by (rule extraction_steps [OF assms, of t]) (rule that)
  let ?taken = "take_candidates [] (sort_key candidate_key cs)"
  let ?xs = "sort_key xo_start ?taken"
  have each: "\<exists>ty \<in> set registry_types. sound_object ty t x" if "x \<in> set ?xs" for x
    using taken_sound [of "sort_key candidate_key cs" t x] sound that by simp
  have "all_apart xo_span ?taken"
  proof (rule take_candidates_apart)
    show "\<forall>c \<in> set (sort_key candidate_key cs). all_apart xo_span (cd_objects c)"
      using sound unfolding sound_candidate_def set_sort by blast
  qed (simp add: all_apart_def)
  then have apart: "all_apart xo_span ?xs" by (rule all_apart_perm) simp
  note keep = sound_objects_keep [OF each]
  then have "ordering_violations ?xs = []" unfolding ordering_violations_def by (intro ordered_apart apart) simp_all
  moreover have "set registry_types \<inter> set EYECITE_TYPES = {}"
    unfolding registry_types_set PATTERN_REGISTRY_def EYECITE_TYPES_def by simp
  ultimately show ?thesis using ex keep by blast
qed

lemma ascii_decimal_digits: "decimal_digits ascii_ucd"
  by (auto simp: decimal_digits_def ascii_ucd_def)

definition sample_citation :: ustr where
  "sample_citation = ulit ''see 18 U.S.C. '' @ [167, 167] @ ulit '' 922(g) and 924''"

text \<open>The candidates of a text are taken by start, precedence of the pattern and length: the objects returned are the
  candidates' own, and a candidate whose objects are not all returned was passed over because an object of a candidate that comes
  first and was taken overlaps one of its objects.\<close>

lemma extraction_takes_first:
  assumes "decimal_digits U"
  shows "\<exists>cs xs. candidates U t = Inr cs \<and> extract_objects U t = Inr xs \<and> set xs \<subseteq> \<Union> (set (map (set \<circ> cd_objects) cs)) \<and>
    (\<forall>c \<in> set cs. set (cd_objects c) \<subseteq> set xs \<or>
      (\<exists>k \<in> set cs. candidate_key k \<le> candidate_key c \<and> set (cd_objects k) \<subseteq> set xs \<and> clashes (cd_objects k) c))"
proof -
  obtain cs where cs: "candidates U t = Inr cs"
    and ex: "extract_objects U t = Inr (sort_key xo_start (take_candidates [] (sort_key candidate_key cs)))"
    and "\<And>c. c \<in> set cs \<Longrightarrow> \<exists>p \<in> set PATTERN_REGISTRY. sound_candidate (gp_type p) t c"
    by (rule extraction_steps [OF assms, of t]) (rule that)
  let ?sorted = "sort_key candidate_key cs"
  let ?xs = "sort_key xo_start (take_candidates [] ?sorted)"
  have "sorted_wrt (\<lambda>k c. candidate_key k \<le> candidate_key c) ?sorted"
    using sorted_sort_key [of candidate_key cs] by (simp add: sorted_map)
  note choice = take_candidates_choice [OF this, of _ "[]"]
  have "set (cd_objects c) \<subseteq> set ?xs \<or>
      (\<exists>k \<in> set cs. candidate_key k \<le> candidate_key c \<and> set (cd_objects k) \<subseteq> set ?xs \<and> clashes (cd_objects k) c)"
    if "c \<in> set cs" for c
    using choice [of c] that by (simp add: clashes_def)
  moreover have "set ?xs \<subseteq> \<Union> (set (map (set \<circ> cd_objects) cs))" using take_candidates_sets [of "[]" ?sorted] by simp
  ultimately show ?thesis using cs ex by blast
qed

text \<open>C34: on every text the extraction returns. What it returns keeps the contract of the exact objects by the contract's own
  checks: every span lies in the text, is not empty and reads the object's text; the objects stand in order and no two
  overlap; exactly the keyed types carry a key; and every type is one the registry declares, none of them a type left to the
  other extractor. Nothing else is lost: the objects are the candidates' own, and a candidate whose objects are not all returned was
  passed over because an object of a candidate that comes first, by start, precedence and length, and was taken overlaps one of
  its objects. What the class of digits reads without regard to case is taken to be a decimal digit.\<close>

theorem extraction_keeps_contract:
  assumes "decimal_digits U"
  shows "\<exists>cs xs. candidates U t = Inr cs \<and> extract_objects U t = Inr xs \<and>
    span_violations t xs = [] \<and> ordering_violations xs = [] \<and> key_violations xs = [] \<and>
    set (map xo_type xs) \<subseteq> set (map ulit registry_types) \<and> set registry_types \<inter> set EYECITE_TYPES = {} \<and>
    set xs \<subseteq> \<Union> (set (map (set \<circ> cd_objects) cs)) \<and>
    (\<forall>c \<in> set cs. set (cd_objects c) \<subseteq> set xs \<or>
      (\<exists>k \<in> set cs. candidate_key k \<le> candidate_key c \<and> set (cd_objects k) \<subseteq> set xs \<and> clashes (cd_objects k) c))"
  using extraction_sound [OF assms, of t] extraction_takes_first [OF assms, of t] by (elim exE conjE) simp

theorem extraction_keeps_contract_witness:
  "decimal_digits ascii_ucd \<and> (\<exists>cs xs. candidates ascii_ucd sample_citation = Inr cs \<and>
     extract_objects ascii_ucd sample_citation = Inr xs \<and> span_violations sample_citation xs = [] \<and>
     ordering_violations xs = [] \<and> key_violations xs = [] \<and> set xs \<subseteq> \<Union> (set (map (set \<circ> cd_objects) cs)))"
  using extraction_keeps_contract [OF ascii_decimal_digits, of sample_citation] ascii_decimal_digits by blast

text \<open>A member of a list is read anew inside the list's body, without the separator that ended it there: \<open>3or4\<close> is a body of
  two sections, 3 and 4, but no section token, yet the first member read from it is \<open>3or\<close>.\<close>

lemma member_list_body: "re_fullmatch ascii_ucd True (list_body SECTION_TOKEN) (ulit ''3or4'') \<noteq> None"
  by code_simp

lemma member_no_section: "re_fullmatch ascii_ucd True SECTION_TOKEN (ulit ''3or4'') = None"
  by code_simp

lemma member_reads_on:
  "map (\<lambda>m. group_text (ulit ''3or4'') m ''section'') (re_finditer ascii_ucd True LIST_MEMBER_CAPTURE (ulit ''3or4'')) =
     map ulit [''3or'', ''4'']"
  by code_simp

end
