(* ===== verification/Spec2Isabelle.thy ===== *)
theory Spec2Isabelle
  imports Api_Stream Worker_Record Extraction_Scoring Extraction_Objects
begin

text \<open>
  A verification development for the core of GIDEON, a Python system that answers questions over case law. Two
  halves of the program are modelled: the serving half, which judges every generated answer before a caller sees it,
  and the ingest half, which turns staged court opinions into the rows the rest of the system reads. Paths below are
  under \<open>src/\<close>; each theory names its file in its opening text, and keeps the file's function names.

  The serving half. \<open>api/judged.py\<close> stands between an engine's response and the caller. It takes the bytes of a
  stream from the reassembler of \<open>api/sse.py\<close>, puts the text of each chunk through the lag window of
  \<open>guardrail/window.py\<close>, which asks the judge of \<open>guardrail/judge.py\<close> whether a pattern of a family of
  \<open>guardrail/families.py\<close>, built from the expressions of \<open>guardrail/grammar.py\<close>, trips; and it sends rebuilt
  chunks, the status lines of \<open>api/progress.py\<close>, the label of \<open>api/stamp.py\<close>, or a refusal.

    \<^item> \<open>Guardrail_Vocabulary\<close>, \<open>Guardrail_Grammar\<close>, \<open>Guardrail_Families\<close>: the constants, expressions, families and
      figure normalisers, as data.
    \<^item> \<open>Guardrail_Judge\<close>: \<open>judge_text\<close> and the readers of messages. A passed text has no match that is not let
      through, and a trip is the first one in the order of families, patterns and matches.
    \<^item> \<open>Guardrail_Window\<close>: the record \<open>stream_state\<close> and the operations of \<open>StreamCheck\<close>. What is released is a
      prefix that lags, never splits a constraint, and is the whole text in the end. The loop that settles the
      release point is partial: it returns under a stated condition and is proved to run for ever under another.
      The rows handed to \<open>guardrail/writer.py\<close> are a field of the state. The locale \<open>prefix_judge\<close> is what the
      window relies on of a judge, interpreted on \<open>judge_rendered\<close>.
    \<^item> \<open>Api_Sse\<close>, \<open>Api_Progress\<close>, \<open>Api_Stamp\<close>: the reassembler, the status line and the label.
    \<^item> \<open>Api_Judged\<close>: the record \<open>mechanics\<close> of \<open>StreamMechanics\<close>, one definition per method, the calls of a
      relay in any order as the relation \<open>reached\<close>, and whole completions.
    \<^item> \<open>Api_Stream\<close>: the properties over every sequence of calls. \<open>reached\<close> carries a flag that is set by the one
      sequence in which the refusal is sent twice: an error payload whose settling trips, then \<open>fail_closed\<close>.
      The text sent is the text read where the engine sends none after its finish reason (\<open>orderly\<close>); text after
      the end or an engine error is not read, in the code and in the model.

  The ingest half. \<open>worker/caselaw.py\<close> reads the staged opinions of a court one by one: \<open>worker/opiniontext.py\<close>
  walks the source to canonical text with locators, \<open>worker/sections.py\<close> cuts it into sections,
  \<open>worker/anchors.py\<close> places page turns, \<open>worker/citations.py\<close> merges what the case-law reader and
  \<open>extraction/grammar.py\<close> find, \<open>worker/treatment.py\<close> reads treatment language around cited cases,
  \<open>worker/chunker.py\<close> packs sections into chunks, and the rows go to the database in guarded transactions.

    \<^item> \<open>Worker_Sections\<close> and \<open>Worker_Segment\<close>: the segmenter, and that it fails no assertion, tiles the text and
      resolves footnote references.
    \<^item> \<open>Worker_Opinion\<close>: the tree walk through the builder; the locale \<open>line_builder\<close> is what an invariant of the
      builder has to keep, interpreted on the order and bounds of locators and blocks.
    \<^item> \<open>Worker_Anchors\<close>, \<open>Worker_Chunker\<close>, \<open>Worker_Citations\<close>, \<open>Worker_Treatment\<close>: one stage each, with the functional
      specification of its rows.
    \<^item> \<open>Worker_Document\<close>: the stages composed as \<open>caselaw.py\<close> composes them, text and references kept across
      them, and which stages can fail. The locale \<open>tiling_sections\<close> is what the later stages need of a segmenter,
      interpreted on \<open>segment\<close>. \<open>locators_out_of_order\<close> is a concrete source whose locators come out of order.
    \<^item> \<open>Worker_Ingest\<close>: the database's \<open>documents\<close> and opinions with the statements of a transaction, and the run
      over a court as a program over that state, a fallible transaction at a time.
    \<^item> \<open>Worker_Record\<close>: the abstract record, a relation of declared steps with the state each may run on; a run is a
      sequence of those steps (refinement). Then, as invariants of steps: every CHECK of the table, finality of
      outcomes, accounting of a run, a second run that changes nothing, and what a refused walk does to a court.
    \<^item> \<open>Extraction_Contract\<close>, \<open>Extraction_Grammar\<close>, \<open>Extraction_Objects\<close>, \<open>Extraction_Scoring\<close>: the exact objects, their
      wire form, the expressions and candidates that find them, that what is found keeps the contract on every
      text, and the scoring of an extraction against labels.

  Shared theories. \<open>Gideon_Prelude\<close> has strings as code points, results and the generic lemmas; \<open>Py_Effects\<close> has
  JSON values and effectful programs, where \<open>None\<close> is a call that never returns; \<open>Py_Regex\<close> is Python's backtracking
  search for the constructs in use, \<open>Py_Regex_Groups\<close> what a match says of its groups; \<open>Py_Utf8\<close> is decoding.

  Bounds and termination. No definition takes fuel. Recursions that are not structural carry a measure. Two loops are
  partial, the settling of the release point and the chunker's \<open>hold\<close>; that \<open>hold\<close> returns is proved, and the
  first is settled either way as above. Regular expressions are total because an unbounded repetition must
  advance. Integers are unbounded, as in Python; bytes are 8-bit words.

  Parameters. The JSON codec, the clock, the Unicode database (\<open>ucd\<close>), Unicode normalization, the markup parser
  and the text of an element, the token counter, the hash, the order in which a set is iterated, the case-law
  citation reader and its resolver, the court lookups, and what the database and the object store refuse. An ingest
  takes the grammar's extraction as a total parameter of \<open>document_pass\<close>; \<open>Extraction_Objects\<close> shows that it
  is total and that its objects are disjoint.

  Hypotheses, by name. \<open>iterates\<close>: an iteration of a set gives its elements once. \<open>sound_env\<close>: that of an
  ingest's segmenter, and that a newline is white space. \<open>decimal_digits\<close>: what \<open>[0-9]\<close> reads without regard to case is a
  decimal digit. \<open>names_well\<close>: the hash gives 64 hexadecimal digits and the pipeline version has three numbers.
  \<open>keyed\<close> and \<open>well_kept\<close>: the record before a run has its keys, and satisfies its CHECKs. \<open>sections_print\<close>:
  sections already recorded of a document include one that is not blank, as those the job writes do.

  Not modelled. The HTTP relay, authentication and other network I/O; the thread that writes trip rows; reading the
  staged tables, the court lock, log lines and the failure file of a run; time stamps beyond whether they are set;
  the keys and CHECKs of tables other than \<open>documents\<close> and opinions, which are among the refusals
  the parameter \<open>ie_refuses\<close> stands for; fetching and indexing jobs, host orchestration, the evaluation
  harness and the egress proxy. These are services around sockets, files and processes.
\<close>

end
